(* ===== verification/Prelude.thy ===== *)
theory Prelude
  imports Main "HOL-Library.Word"
begin

text \<open>
  Shared vocabulary of the development: the machine integer types of the code, the error
  numbers and the result type of the modelled functions, little-endian byte images of integers
  (the code runs on and is written for little-endian hosts), bounds-checked access to byte
  regions, C strings, and the simplification collections the component theories fill.

  A C function that returns a negative error number returns \<open>Inl (Err e)\<close> here; an access
  outside the memory region it is meant for is \<open>Inl Fault\<close>, so that memory safety is a
  statement about the value of the model.
\<close>

unbundle bit_operations_syntax

named_theorems mem_simps "reads and writes of byte regions"

section \<open>Machine integers and results\<close>

type_synonym u8 = "8 word"
type_synonym u16 = "16 word"
type_synonym u32 = "32 word"
type_synonym u64 = "64 word"
type_synonym bytes = "u8 list"

datatype errno =
    ENOENT | EINTR | E2BIG | ENOMEM | EEXIST | EINVAL | ENOTSUP | EOTHER int

datatype cerror = Err errno | Fault

type_synonym 'a cres = "cerror + 'a"

definition res_bind :: "'e + 'a \<Rightarrow> ('a \<Rightarrow> 'e + 'b) \<Rightarrow> 'e + 'b" where
  "res_bind r f = (case r of Inl e \<Rightarrow> Inl e | Inr x \<Rightarrow> f x)"

lemma res_bind_simps [simp]:
  "res_bind (Inl e) f = Inl e"
  "res_bind (Inr x) f = f x"
  by (simp_all add: res_bind_def)

lemma res_bind_cong [fundef_cong]:
  "r = r' \<Longrightarrow> (\<And>x. r' = Inr x \<Longrightarrow> f x = f' x) \<Longrightarrow> res_bind r f = res_bind r' f'"
  by (cases r') auto

lemma res_bind_eq_Inr:
  "res_bind r f = Inr y \<longleftrightarrow> (\<exists>x. r = Inr x \<and> f x = Inr y)"
  by (cases r) auto

lemma res_bind_eq_Inl:
  "res_bind r f = Inl e \<longleftrightarrow> r = Inl e \<or> (\<exists>x. r = Inr x \<and> f x = Inl e)"
  by (cases r) auto

section \<open>Little-endian images of integers\<close>

primrec le_bytes :: "nat \<Rightarrow> nat \<Rightarrow> bytes" where
  "le_bytes 0 v = []"
| "le_bytes (Suc n) v = word_of_nat (v mod 256) # le_bytes n (v div 256)"

primrec le_val :: "bytes \<Rightarrow> nat" where
  "le_val [] = 0"
| "le_val (b # bs) = unat b + 256 * le_val bs"

lemma length_le_bytes [simp]: "length (le_bytes n v) = n"
  by (induction n arbitrary: v) auto

lemma le_val_bound: "le_val bs < 256 ^ length bs"
proof (induction bs)
  case Nil
  show ?case by simp
next
  case (Cons b bs)
  have "unat b < 256" using unsigned_less [of b] by simp
  with Cons show ?case by simp
qed

lemma le_val_le_bytes: "le_val (le_bytes n v) = v mod 256 ^ n"
proof (induction n arbitrary: v)
  case 0
  show ?case by simp
next
  case (Suc n)
  have "unat (word_of_nat (v mod 256) :: u8) = v mod 256"
    by (simp add: unat_of_nat take_bit_nat_def)
  then show ?case
    by (simp add: Suc mod_mult2_eq)
qed

lemma le_bytes_le_val [simp]: "le_bytes (length bs) (le_val bs) = bs"
proof (induction bs)
  case Nil
  show ?case by simp
next
  case (Cons b bs)
  have b: "unat b < 256" using unsigned_less [of b] by simp
  then have m: "(unat b + 256 * le_val bs) mod 256 = unat b"
    and d: "(unat b + 256 * le_val bs) div 256 = le_val bs"
    by simp_all
  show ?case using Cons by (simp only: list.size le_val.simps le_bytes.simps add_0_right add_Suc_right m d) simp
qed

lemma le_val_append: "le_val (xs @ ys) = le_val xs + 256 ^ length xs * le_val ys"
  by (induction xs) (auto simp: algebra_simps)

lemma take_le_bytes: "k \<le> n \<Longrightarrow> take k (le_bytes n v) = le_bytes k v"
  by (induction n arbitrary: k v) (auto simp: take_Cons' split: if_splits, case_tac k, auto)

section \<open>Bounds-checked byte regions\<close>

definition mem_read :: "bytes \<Rightarrow> nat \<Rightarrow> nat \<Rightarrow> bytes cres" where
  "mem_read m off n =
     (if off + n \<le> length m then Inr (take n (drop off m)) else Inl Fault)"

definition mem_write :: "bytes \<Rightarrow> nat \<Rightarrow> bytes \<Rightarrow> bytes cres" where
  "mem_write m off bs =
     (if off + length bs \<le> length m
      then Inr (take off m @ bs @ drop (off + length bs) m) else Inl Fault)"

lemma mem_write_length [mem_simps]: "mem_write m off bs = Inr m' \<Longrightarrow> length m' = length m"
  by (auto simp: mem_write_def split: if_splits)

lemma mem_write_take [mem_simps]:
  "mem_write m off bs = Inr m' \<Longrightarrow> k \<le> off \<Longrightarrow> take k m' = take k m"
  by (auto simp: mem_write_def split: if_splits)

lemma mem_write_at [mem_simps]:
  "mem_write m off bs = Inr m' \<Longrightarrow> k \<le> length bs \<Longrightarrow> take k (drop off m') = take k bs"
  by (auto simp: mem_write_def split: if_splits)

definition mem_u32 :: "bytes \<Rightarrow> nat \<Rightarrow> u32 cres" where
  "mem_u32 m off = res_bind (mem_read m off 4) (\<lambda>bs. Inr (word_of_nat (le_val bs)))"

definition mem_set_u32 :: "bytes \<Rightarrow> nat \<Rightarrow> u32 \<Rightarrow> bytes cres" where
  "mem_set_u32 m off v = mem_write m off (le_bytes 4 (unat v))"

definition mem_u16 :: "bytes \<Rightarrow> nat \<Rightarrow> u16 cres" where
  "mem_u16 m off = res_bind (mem_read m off 2) (\<lambda>bs. Inr (word_of_nat (le_val bs)))"

definition mem_set_u16 :: "bytes \<Rightarrow> nat \<Rightarrow> u16 \<Rightarrow> bytes cres" where
  "mem_set_u16 m off v = mem_write m off (le_bytes 2 (unat v))"

definition mem_u64 :: "bytes \<Rightarrow> nat \<Rightarrow> u64 cres" where
  "mem_u64 m off = res_bind (mem_read m off 8) (\<lambda>bs. Inr (word_of_nat (le_val bs)))"

definition arr_get :: "'a list \<Rightarrow> nat \<Rightarrow> 'a cres" where
  "arr_get xs i = (if i < length xs then Inr (xs ! i) else Inl Fault)"

definition arr_set :: "'a list \<Rightarrow> nat \<Rightarrow> 'a \<Rightarrow> 'a list cres" where
  "arr_set xs i v = (if i < length xs then Inr (xs[i := v]) else Inl Fault)"

text \<open>Reading back what was written, and what was not.\<close>

lemma mem_write_ok: "off + length bs \<le> length m \<Longrightarrow> \<exists>m'. mem_write m off bs = Inr m'"
  by (simp add: mem_write_def)

lemma mem_read_written:
  "mem_write m off bs = Inr m' \<Longrightarrow> n = length bs \<Longrightarrow> mem_read m' off n = Inr bs"
  by (auto simp: mem_write_def mem_read_def min_absorb2 split: if_splits)

lemma mem_read_other:
  assumes "mem_write m off bs = Inr m'" "off' + n \<le> off \<or> off + length bs \<le> off'"
  shows "mem_read m' off' n = mem_read m off' n"
proof -
  have m': "m' = take off m @ bs @ drop (off + length bs) m" and l: "off + length bs \<le> length m"
    using assms(1) by (simp_all add: mem_write_def split: if_splits)
  have "take n (drop off' m') = take n (drop off' m)"
    using assms(2)
  proof
    assume "off' + n \<le> off"
    then show ?thesis using l unfolding m'
      by (simp add: take_drop min_absorb2 min_absorb1 take_add [symmetric])
  next
    assume "off + length bs \<le> off'"
    then show ?thesis using l unfolding m' by (simp add: drop_append)
  qed
  then show ?thesis using mem_write_length [OF assms(1)] by (simp add: mem_read_def)
qed

lemma mem_read_prefix:
  assumes "take k (drop j m') = take k (drop j m)" "length m' = length m" "j \<le> off" "off + n \<le> j + k"
  shows "mem_read m' off n = mem_read m off n"
proof -
  have "take n (drop off m) = take n (drop (off - j) (take k (drop j m)))" for m :: bytes
    using assms(3,4) by (simp add: drop_take min_absorb1)
  then show ?thesis using assms(1,2) by (metis mem_read_def)
qed

text \<open>Integers of 16 and 32 bits in memory.\<close>

lemma unat_le_bytes_word:
  "unat (v :: 'a::len word) < 256 ^ n \<Longrightarrow> (word_of_nat (le_val (le_bytes n (unat v))) :: 'a word) = v"
  by (simp add: le_val_le_bytes)

lemma mem_u16_cong: "mem_read m' off 2 = mem_read m off 2 \<Longrightarrow> mem_u16 m' off = mem_u16 m off"
  by (simp add: mem_u16_def)

lemma mem_set_u16_read:
  assumes "mem_set_u16 m off v = Inr m'"
  shows "mem_u16 m' off = Inr v" "length m' = length m"
    and "off' + n \<le> off \<or> off + 2 \<le> off' \<Longrightarrow> mem_read m' off' n = mem_read m off' n"
proof -
  have "unat v < 256 ^ 2" using unsigned_less [of v] by simp
  then show "mem_u16 m' off = Inr v"
    using mem_read_written [of m off "le_bytes 2 (unat v)" m' 2] assms
    by (simp add: mem_set_u16_def mem_u16_def unat_le_bytes_word)
  show "length m' = length m" using assms mem_write_length by (auto simp: mem_set_u16_def)
  show "off' + n \<le> off \<or> off + 2 \<le> off' \<Longrightarrow> mem_read m' off' n = mem_read m off' n"
    using assms by (intro mem_read_other) (auto simp: mem_set_u16_def)
qed

lemma mem_set_u32_read:
  assumes "mem_set_u32 m off v = Inr m'"
  shows "mem_u32 m' off = Inr v" "length m' = length m"
    and "off' + n \<le> off \<or> off + 4 \<le> off' \<Longrightarrow> mem_read m' off' n = mem_read m off' n"
proof -
  have "unat v < 256 ^ 4" using unsigned_less [of v] by simp
  then show "mem_u32 m' off = Inr v"
    using mem_read_written [of m off "le_bytes 4 (unat v)" m' 4] assms
    by (simp add: mem_set_u32_def mem_u32_def unat_le_bytes_word)
  show "length m' = length m" using assms mem_write_length by (auto simp: mem_set_u32_def)
  show "off' + n \<le> off \<or> off + 4 \<le> off' \<Longrightarrow> mem_read m' off' n = mem_read m off' n"
    using assms by (intro mem_read_other) (auto simp: mem_set_u32_def)
qed

lemma mem_set_u16_ok: "off + 2 \<le> length m \<Longrightarrow> \<exists>m'. mem_set_u16 m off v = Inr m'"
  by (simp add: mem_set_u16_def mem_write_ok)

lemma mem_set_u32_ok: "off + 4 \<le> length m \<Longrightarrow> \<exists>m'. mem_set_u32 m off v = Inr m'"
  by (simp add: mem_set_u32_def mem_write_ok)

lemma mem_u16_ok: "off + 2 \<le> length m \<Longrightarrow> \<exists>v. mem_u16 m off = Inr v"
  by (simp add: mem_u16_def mem_read_def)

lemma unat_of_nat_u16: "n < 2 ^ 16 \<Longrightarrow> unat (of_nat n :: u16) = n"
  by (simp add: unat_of_nat take_bit_nat_eq_self)

lemma unat_of_nat_u32: "n < 2 ^ 32 \<Longrightarrow> unat (of_nat n :: u32) = n"
  by (simp add: unat_of_nat take_bit_nat_eq_self)

text \<open>Reads of regions that agree.\<close>

lemma mem_read_take: "off + n \<le> e \<Longrightarrow> e \<le> length m \<Longrightarrow> mem_read m off n = mem_read (take e m) off n"
  by (simp add: mem_read_def take_drop min_absorb1)

lemma mem_u32_cong: "mem_read m' off' 4 = mem_read m off 4 \<Longrightarrow> mem_u32 m' off' = mem_u32 m off"
  by (simp add: mem_u32_def)

lemma mem_u32_take: "off + 4 \<le> e \<Longrightarrow> e \<le> length m \<Longrightarrow> mem_u32 (take e m) off = mem_u32 m off"
  by (metis mem_read_take mem_u32_cong)

lemma mem_read_drop: "base \<le> length m \<Longrightarrow> mem_read (drop base m) off n = mem_read m (base + off) n"
  by (auto simp: mem_read_def add.commute)

lemma mem_u32_drop: "base \<le> length m \<Longrightarrow> mem_u32 (drop base m) off = mem_u32 m (base + off)"
  by (intro mem_u32_cong mem_read_drop)

lemma mem_u32_ok: "off + 4 \<le> length m \<Longrightarrow> \<exists>v. mem_u32 m off = Inr v"
  by (simp add: mem_u32_def mem_read_def)

lemma mem_u32_Inr: "mem_u32 m off = Inr v \<Longrightarrow> off + 4 \<le> length m"
  by (auto simp: mem_u32_def mem_read_def res_bind_eq_Inr split: if_splits)

end
