(* ===== verification/Packer.thy ===== *)
theory Packer
  imports Prelude
begin

text \<open>
  The integer packing of the log runtime: \<^verbatim>\<open>src/runtime/Packer.h\<close> (\<open>pack\<close>, \<open>unpack\<close>,
  \<open>getSizeOfPackedValues\<close>, \<open>Nibbler\<close>) and the non-string half of \<open>compressSingle\<close> of
  \<^verbatim>\<open>src/runtime/NanoLogCpp17.h\<close>, which writes one 4-bit code per argument into a nibble
  area and the fewest bytes of the argument into the value area behind it.

  A \<open>char **\<close> cursor is a byte region and a position in it; every access is bounds
  checked. An argument carries its C++ type in its constructor, since the overload of
  \<open>pack\<close> and the template instance of \<open>unpack\<close> are chosen by it; the payload is
  the bit pattern of the value.
\<close>

section \<open>Arguments\<close>

datatype arg =
    ArgU8 u8 | ArgU16 u16 | ArgU32 u32 | ArgU64 u64
  | ArgI32 u32 | ArgI64 u64 | ArgLL u64 | ArgPtr u64
  | ArgF32 u32 | ArgF64 u64 | ArgLD "128 word"

datatype argty = TyU8 | TyU16 | TyU32 | TyU64 | TyI32 | TyI64 | TyLL | TyPtr | TyF32 | TyF64 | TyLD

fun argty_of :: "arg \<Rightarrow> argty" where
  "argty_of (ArgU8 _) = TyU8"
| "argty_of (ArgU16 _) = TyU16"
| "argty_of (ArgU32 _) = TyU32"
| "argty_of (ArgU64 _) = TyU64"
| "argty_of (ArgI32 _) = TyI32"
| "argty_of (ArgI64 _) = TyI64"
| "argty_of (ArgLL _) = TyLL"
| "argty_of (ArgPtr _) = TyPtr"
| "argty_of (ArgF32 _) = TyF32"
| "argty_of (ArgF64 _) = TyF64"
| "argty_of (ArgLD _) = TyLD"

text \<open>The sizes of the types.\<close>

fun arg_size :: "argty \<Rightarrow> nat" where
  "arg_size TyU8 = 1"
| "arg_size TyU16 = 2"
| "arg_size TyU32 = 4"
| "arg_size TyU64 = 8"
| "arg_size TyI32 = 4"
| "arg_size TyI64 = 8"
| "arg_size TyLL = 8"
| "arg_size TyPtr = 8"
| "arg_size TyF32 = 4"
| "arg_size TyF64 = 8"
| "arg_size TyLD = 16"

section \<open>pack\<close>

text \<open>A cursor result: the region, the bumped position and the value returned.\<close>

type_synonym 'a cursor = "bytes \<times> nat \<times> 'a"

definition num_bytes :: "nat \<Rightarrow> nat" where
  "num_bytes val =
     (if val < 2 ^ 8 then 1
      else if val < 2 ^ 16 then 2
      else if val < 2 ^ 24 then 3
      else if val < 2 ^ 32 then 4
      else if val < 2 ^ 40 then 5
      else if val < 2 ^ 48 then 6
      else if val < 2 ^ 56 then 7
      else 8)"

definition pack_unsigned :: "bytes \<Rightarrow> nat \<Rightarrow> 'a::len word \<Rightarrow> nat cursor cres" where
  "pack_unsigned buffer pos val =
     (let numBytes = num_bytes (unat val)
      in res_bind (mem_write buffer pos (le_bytes (LENGTH('a) div 8) (unat val)))
           (\<lambda>buffer'. Inr (buffer', pos + numBytes, numBytes)))"

definition pack_int32 :: "bytes \<Rightarrow> nat \<Rightarrow> u32 \<Rightarrow> nat cursor cres" where
  "pack_int32 buffer pos val =
     (if 0 \<le> sint val \<or> sint val \<le> - (2 ^ 24) then pack_unsigned buffer pos val
      else res_bind (pack_unsigned buffer pos (- val)) (\<lambda>(b, p, n). Inr (b, p, 8 + n)))"

definition pack_int64 :: "bytes \<Rightarrow> nat \<Rightarrow> u64 \<Rightarrow> nat cursor cres" where
  "pack_int64 buffer pos val =
     (if 0 \<le> sint val \<or> sint val \<le> - (2 ^ 56) then pack_unsigned buffer pos val
      else res_bind (pack_unsigned buffer pos (- val)) (\<lambda>(b, p, n). Inr (b, p, 8 + n)))"

definition pack_long_long :: "bytes \<Rightarrow> nat \<Rightarrow> u64 \<Rightarrow> nat cursor cres" where
  "pack_long_long buffer pos val =
     (if 0 \<le> sint val \<or> sint val \<le> - (2 ^ 56) then pack_unsigned buffer pos val
      else res_bind (pack_unsigned buffer pos (- val)) (\<lambda>(b, p, n). Inr (b, p, 8 + n)))"

definition pack_pointer :: "bytes \<Rightarrow> nat \<Rightarrow> u64 \<Rightarrow> nat cursor cres" where
  "pack_pointer buffer pos pointer = pack_unsigned buffer pos pointer"

definition pack_float :: "bytes \<Rightarrow> nat \<Rightarrow> 'a::len word \<Rightarrow> nat cursor cres" where
  "pack_float buffer pos val =
     (let sz = LENGTH('a) div 8
      in res_bind (mem_write buffer pos (le_bytes sz (unat val))) (\<lambda>b. Inr (b, pos + sz, sz)))"

fun pack :: "bytes \<Rightarrow> nat \<Rightarrow> arg \<Rightarrow> nat cursor cres" where
  "pack b p (ArgU8 v) = pack_unsigned b p v"
| "pack b p (ArgU16 v) = pack_unsigned b p v"
| "pack b p (ArgU32 v) = pack_unsigned b p v"
| "pack b p (ArgU64 v) = pack_unsigned b p v"
| "pack b p (ArgI32 v) = pack_int32 b p v"
| "pack b p (ArgI64 v) = pack_int64 b p v"
| "pack b p (ArgLL v) = pack_long_long b p v"
| "pack b p (ArgPtr v) = pack_pointer b p v"
| "pack b p (ArgF32 v) = pack_float b p v"
| "pack b p (ArgF64 v) = pack_float b p v"
| "pack b p (ArgLD v) = pack_float b p v"

section \<open>unpack\<close>

definition unpack_int :: "bytes \<Rightarrow> nat \<Rightarrow> nat \<Rightarrow> ('a::len word \<times> nat) cres" where
  "unpack_int mem pos packResult =
     (if packResult \<le> 8
      then res_bind (mem_read mem pos packResult) (\<lambda>bs.
             let packed = (word_of_nat (le_val bs) :: u64)
             in Inr (ucast packed, pos + packResult))
      else let n = (if packResult = 0 then 16 else (packResult - 8) mod 16)
           in if 8 < n then Inl Fault
              else res_bind (mem_read mem pos n) (\<lambda>bs.
                     let packed = (word_of_nat (le_val bs) :: u64)
                     in Inr (ucast (- packed), pos + n)))"

text \<open>
  The floating point instance: a 4-byte image is read as a \<open>float\<close> and converted to the
  requested type by the hardware (\<open>widen\<close>); any other image must have the size of the type.
\<close>

definition unpack_float ::
  "(u32 \<Rightarrow> 'a::len word) \<Rightarrow> bytes \<Rightarrow> nat \<Rightarrow> nat \<Rightarrow> ('a word \<times> nat) cres" where
  "unpack_float widen mem pos packNibble =
     (if packNibble = 4
      then res_bind (mem_read mem pos 4) (\<lambda>bs. Inr (widen (word_of_nat (le_val bs)), pos + 4))
      else let n = (if packNibble = 0 then 16 else packNibble)
           in if n \<noteq> LENGTH('a) div 8 then Inl Fault
              else res_bind (mem_read mem pos n) (\<lambda>bs. Inr (word_of_nat (le_val bs), pos + n)))"

definition map_res :: "('a \<Rightarrow> 'b) \<Rightarrow> ('a \<times> nat) cres \<Rightarrow> ('b \<times> nat) cres" where
  "map_res f r = res_bind r (\<lambda>(v, p). Inr (f v, p))"

record fp_conv =
  f32_to_f64 :: "u32 \<Rightarrow> u64"
  f32_to_ld :: "u32 \<Rightarrow> 128 word"

fun unpack :: "fp_conv \<Rightarrow> argty \<Rightarrow> bytes \<Rightarrow> nat \<Rightarrow> nat \<Rightarrow> (arg \<times> nat) cres" where
  "unpack fp TyU8 m p n = map_res ArgU8 (unpack_int m p n)"
| "unpack fp TyU16 m p n = map_res ArgU16 (unpack_int m p n)"
| "unpack fp TyU32 m p n = map_res ArgU32 (unpack_int m p n)"
| "unpack fp TyU64 m p n = map_res ArgU64 (unpack_int m p n)"
| "unpack fp TyI32 m p n = map_res ArgI32 (unpack_int m p n)"
| "unpack fp TyI64 m p n = map_res ArgI64 (unpack_int m p n)"
| "unpack fp TyLL m p n = map_res ArgLL (unpack_int m p n)"
| "unpack fp TyPtr m p n = map_res ArgPtr (unpack_int m p n)"
| "unpack fp TyF32 m p n = map_res ArgF32 (unpack_float id m p n)"
| "unpack fp TyF64 m p n = map_res ArgF64 (unpack_float (f32_to_f64 fp) m p n)"
| "unpack fp TyLD m p n = map_res ArgLD (unpack_float (f32_to_ld fp) m p n)"

section \<open>Nibbles\<close>

text \<open>\<open>struct TwoNibbles\<close> is one byte: \<open>first\<close> in the low half, \<open>second\<close> in the high.\<close>

definition nib_first :: "u8 \<Rightarrow> nat" where
  "nib_first b = unat (b AND 0x0F)"

definition nib_second :: "u8 \<Rightarrow> nat" where
  "nib_second b = unat (drop_bit 4 b)"

definition set_nib_first :: "u8 \<Rightarrow> nat \<Rightarrow> u8" where
  "set_nib_first b v = (b AND 0xF0) OR (word_of_nat v AND 0x0F)"

definition set_nib_second :: "u8 \<Rightarrow> nat \<Rightarrow> u8" where
  "set_nib_second b v = (b AND 0x0F) OR push_bit 4 (word_of_nat v)"

fun size_of_pairs :: "bytes \<Rightarrow> nat \<Rightarrow> u32 \<Rightarrow> u32 cres" where
  "size_of_pairs nibs 0 sz = Inr sz"
| "size_of_pairs [] (Suc n) sz = Inl Fault"
| "size_of_pairs (b # nibs) (Suc n) sz =
     (let sz = sz + of_nat (nib_first b + nib_second b);
          sz = (if nib_first b = 0 then sz + 16 else sz);
          sz = (if nib_first b > 8 then sz - 8 else sz);
          sz = (if nib_second b = 0 then sz + 16 else sz);
          sz = (if nib_second b > 8 then sz - 8 else sz)
      in size_of_pairs nibs n sz)"

definition getSizeOfPackedValues :: "bytes \<Rightarrow> nat \<Rightarrow> u32 cres" where
  "getSizeOfPackedValues nibs numNibbles =
     res_bind (size_of_pairs nibs (numNibbles div 2) 0) (\<lambda>sz.
       if odd numNibbles
       then (if numNibbles div 2 < length nibs
             then let f = nib_first (nibs ! (numNibbles div 2));
                      sz = sz + of_nat f;
                      sz = (if f = 0 then sz + 16 else sz);
                      sz = (if f > 8 then sz - 8 else sz)
                  in Inr sz
             else Inl Fault)
       else Inr sz)"

section \<open>Nibbler\<close>

record nibbler =
  nb_mem :: bytes
  nibblePosition :: nat
  onFirstNibble :: bool
  numNibbles :: nat
  currPackedValue :: nat
  endOfValues :: nat

definition Nibbler :: "bytes \<Rightarrow> nat \<Rightarrow> nat \<Rightarrow> nibbler cres" where
  "Nibbler m nibbleStart n =
     res_bind (getSizeOfPackedValues (drop nibbleStart m) n) (\<lambda>sz.
       Inr \<lparr>nb_mem = m, nibblePosition = nibbleStart, onFirstNibble = True, numNibbles = n,
            currPackedValue = nibbleStart + (n + 1) div 2,
            endOfValues = nibbleStart + (n + 1) div 2 + unat sz\<rparr>)"

text \<open>The failed \<open>assert\<close> is a fault as well.\<close>

definition getNext :: "fp_conv \<Rightarrow> argty \<Rightarrow> nibbler \<Rightarrow> (arg \<times> nibbler) cres" where
  "getNext fp ty nb =
     (if \<not> currPackedValue nb < endOfValues nb then Inl Fault
      else if \<not> nibblePosition nb < length (nb_mem nb) then Inl Fault
      else let b = nb_mem nb ! nibblePosition nb;
               nibble = (if onFirstNibble nb then nib_first b else nib_second b)
           in res_bind (unpack fp ty (nb_mem nb) (currPackedValue nb) nibble) (\<lambda>(v, p).
                Inr (v, nb\<lparr>currPackedValue := p,
                           nibblePosition :=
                             (if onFirstNibble nb then nibblePosition nb
                              else nibblePosition nb + 1),
                           onFirstNibble := \<not> onFirstNibble nb\<rparr>)))"

definition getEndOfPackedArguments :: "nibbler \<Rightarrow> nat" where
  "getEndOfPackedArguments nb = endOfValues nb"

fun getNexts :: "fp_conv \<Rightarrow> argty list \<Rightarrow> nibbler \<Rightarrow> (arg list \<times> nibbler) cres" where
  "getNexts fp [] nb = Inr ([], nb)"
| "getNexts fp (t # ts) nb =
     res_bind (getNext fp t nb) (\<lambda>(v, nb'). res_bind (getNexts fp ts nb') (\<lambda>(vs, nb'').
       Inr (v # vs, nb'')))"

section \<open>The producer: one nibble and the packed bytes per argument\<close>

definition store_nibble :: "bytes \<Rightarrow> nat \<Rightarrow> nat \<Rightarrow> nat \<Rightarrow> bytes cres" where
  "store_nibble m nibbles cnt code =
     (let i = nibbles + cnt div 2
      in if i < length m
         then Inr (if odd cnt then m[i := set_nib_second (m ! i) code]
                   else m[i := set_nib_first (m ! i) code])
         else Inl Fault)"

definition compress_basic ::
  "bytes \<Rightarrow> nat \<Rightarrow> nat \<Rightarrow> nat \<Rightarrow> arg \<Rightarrow> (bytes \<times> nat \<times> nat) cres" where
  "compress_basic m nibbles nibbleCnt out a =
     res_bind (pack m out a) (\<lambda>(m', out', code).
       res_bind (store_nibble m' nibbles nibbleCnt (code mod 16)) (\<lambda>m''.
         Inr (m'', nibbleCnt + 1, out')))"

fun compress_basics ::
  "bytes \<Rightarrow> nat \<Rightarrow> nat \<Rightarrow> nat \<Rightarrow> arg list \<Rightarrow> (bytes \<times> nat \<times> nat) cres" where
  "compress_basics m nibbles cnt out [] = Inr (m, cnt, out)"
| "compress_basics m nibbles cnt out (a # as) =
     res_bind (compress_basic m nibbles cnt out a) (\<lambda>(m', cnt', out').
       compress_basics m' nibbles cnt' out' as)"

section \<open>What one argument leaves in the stream\<close>

lemma num_bytes_bounds [simp]: "1 \<le> num_bytes v" "num_bytes v \<le> 8" "0 < num_bytes v" "num_bytes v \<noteq> 0"
  "Suc 0 \<le> num_bytes v" "num_bytes v \<le> 16"
  by (simp_all add: num_bytes_def)

lemma num_bytes_fits: "v < 2 ^ 64 \<Longrightarrow> v < 256 ^ num_bytes v"
  by (simp add: num_bytes_def)

lemma num_bytes_le: "k \<in> {1, 2, 3, 4, 7, 8} \<Longrightarrow> v < 256 ^ k \<Longrightarrow> num_bytes v \<le> k"
  by (auto simp: num_bytes_def)

definition int_width :: "'a::len word itself \<Rightarrow> bool" where
  "int_width _ \<longleftrightarrow> LENGTH('a) \<in> {8, 16, 32, 64}"

text \<open>What one argument leaves in the stream: its 4-bit code and its bytes.\<close>

definition uint_image :: "'a::len word \<Rightarrow> nat \<times> bytes" where
  "uint_image v = (let n = num_bytes (unat v) in (n, le_bytes n (unat v)))"

definition sint_image :: "nat \<Rightarrow> 'a::len word \<Rightarrow> nat \<times> bytes" where
  "sint_image k v =
     (if 0 \<le> sint v \<or> sint v \<le> - (2 ^ (8 * k)) then uint_image v
      else (8 + fst (uint_image (- v)), snd (uint_image (- v))))"

definition float_image :: "'a::len word \<Rightarrow> nat \<times> bytes" where
  "float_image v = (let n = LENGTH('a) div 8 in (n, le_bytes n (unat v)))"

fun arg_image :: "arg \<Rightarrow> nat \<times> bytes" where
  "arg_image (ArgU8 v) = uint_image v"
| "arg_image (ArgU16 v) = uint_image v"
| "arg_image (ArgU32 v) = uint_image v"
| "arg_image (ArgU64 v) = uint_image v"
| "arg_image (ArgI32 v) = sint_image 3 v"
| "arg_image (ArgI64 v) = sint_image 7 v"
| "arg_image (ArgLL v) = sint_image 7 v"
| "arg_image (ArgPtr v) = uint_image v"
| "arg_image (ArgF32 v) = float_image v"
| "arg_image (ArgF64 v) = float_image v"
| "arg_image (ArgLD v) = float_image v"

definition arg_code :: "arg \<Rightarrow> nat" where
  "arg_code a = fst (arg_image a) mod 16"

definition arg_bytes :: "arg \<Rightarrow> bytes" where
  "arg_bytes a = snd (arg_image a)"

definition packed :: "bytes \<Rightarrow> nat \<Rightarrow> bytes \<Rightarrow> bytes \<Rightarrow> bool" where
  "packed m pos bs m' \<longleftrightarrow>
     length m' = length m \<and> take (pos + length bs) m' = take pos m @ bs"

lemma mem_write_packed:
  assumes "pos + n \<le> length m" "k \<le> n"
  shows "\<exists>m'. mem_write m pos (le_bytes n v) = Inr m' \<and> packed m pos (le_bytes k v) m'"
  using assms by (auto simp: mem_write_def packed_def take_le_bytes min_def)

lemma unat_width:
  fixes v :: "'a::len word"
  assumes "int_width TYPE('a word)"
  shows "unat v < 256 ^ (LENGTH('a) div 8)" "unat v < 2 ^ 64"
proof -
  have u: "unat v < 2 ^ LENGTH('a)" by (rule unsigned_less)
  from assms have "LENGTH('a) = 8 \<or> LENGTH('a) = 16 \<or> LENGTH('a) = 32 \<or> LENGTH('a) = 64"
    by (simp add: int_width_def)
  then show "unat v < 256 ^ (LENGTH('a) div 8)" "unat v < 2 ^ 64"
    using u by (elim disjE; simp)+
qed

lemma pack_unsigned_packed:
  fixes v :: "'a::len word"
  assumes "pos + LENGTH('a) div 8 \<le> length m" "int_width TYPE('a word)"
  shows "\<exists>m'. pack_unsigned m pos v =
           Inr (m', pos + length (snd (uint_image v)), fst (uint_image v)) \<and>
         packed m pos (snd (uint_image v)) m'"
proof -
  have "LENGTH('a) div 8 \<in> {1, 2, 3, 4, 7, 8}"
    using assms(2) by (auto simp: int_width_def)
  then have "num_bytes (unat v) \<le> LENGTH('a) div 8"
    using unat_width(1) [OF assms(2)] by (rule num_bytes_le)
  from mem_write_packed [OF assms(1) this, of "unat v"] show ?thesis
    by (auto simp: pack_unsigned_def uint_image_def Let_def)
qed

lemma ucast_uminus_down:
  "LENGTH('b::len) \<le> LENGTH('a::len) \<Longrightarrow> (ucast (- (x :: 'a word)) :: 'b word) = - ucast x"
  by transfer (metis min.absorb1 take_bit_minus take_bit_take_bit)

lemma int_width_le: "int_width TYPE('a::len word) \<Longrightarrow> LENGTH('a) \<le> 64"
  by (auto simp: int_width_def)

lemma unpack_int_small:
  fixes v :: "'a::len word"
  assumes iw: "int_width TYPE('a word)"
    and rd: "mem_read m pos (length (snd (uint_image v))) = Inr (snd (uint_image v))"
  shows "unpack_int m pos (fst (uint_image v)) = Inr (v, pos + length (snd (uint_image v)))"
  using rd num_bytes_fits [OF unat_width(2) [OF iw, of v]] int_width_le [OF iw]
  by (simp add: unpack_int_def uint_image_def Let_def le_val_le_bytes unsigned_ucast_eq
        take_bit_word_eq_self)

lemma num_bytes_neg:
  fixes v :: "'a::len word"
  assumes "sint v < 0" "- (2 ^ (8 * k)) < sint v" "8 * k < LENGTH('a)"
  shows "unat (- v) < 256 ^ k"
proof -
  have "v = word_of_int (sint v)" by simp
  then have "- v = word_of_int (- sint v)" by (metis of_int_minus)
  moreover have "uint (word_of_int (- sint v) :: 'a word) = - sint v"
  proof -
    have "- sint v < 2 ^ LENGTH('a)"
      using assms by (smt (verit) power_strict_increasing_iff)
    then show ?thesis unfolding uint_word_of_int using assms by simp
  qed
  ultimately have "uint (- v) < 2 ^ (8 * k)"
    using assms by simp
  then have "int (unat (- v)) < int (2 ^ (8 * k))" by simp
  then have "unat (- v) < 2 ^ (8 * k)" by (simp only: of_nat_less_iff)
  then show ?thesis by (simp add: power_mult)
qed

lemma unpack_int_neg:
  fixes v :: "'a::len word"
  assumes iw: "int_width TYPE('a word)" and n: "num_bytes (unat (- v)) \<le> 7"
    and rd: "mem_read m pos (length (snd (uint_image (- v)))) = Inr (snd (uint_image (- v)))"
  shows "unpack_int m pos (8 + fst (uint_image (- v))) =
           Inr (v, pos + length (snd (uint_image (- v))))"
proof -
  have "\<not> 8 + num_bytes (unat (- v)) \<le> 8" using num_bytes_bounds(3) [of "unat (- v)"] by linarith
  then show ?thesis
    using rd n num_bytes_fits [OF unat_width(2) [OF iw, of "- v"]] int_width_le [OF iw]
    by (simp add: unpack_int_def uint_image_def Let_def le_val_le_bytes unsigned_ucast_eq
        ucast_uminus_down take_bit_word_eq_self)
qed

lemma unpack_float_image:
  fixes v :: "'a::len word"
  assumes "LENGTH('a) \<in> {32, 64, 128}" "LENGTH('a) = 32 \<Longrightarrow> (\<forall>w. widen (ucast (w :: 'a word)) = w)"
    and rd: "mem_read m pos (length (snd (float_image v))) = Inr (snd (float_image v))"
  shows "unpack_float widen m pos (fst (float_image v) mod 16) =
           Inr (v, pos + length (snd (float_image v)))"
proof -
  have u: "unat v < 2 ^ LENGTH('a)" by (rule unsigned_less)
  from assms(1) consider "LENGTH('a) = 32" | "LENGTH('a) = 64" | "LENGTH('a) = 128" by auto
  then show ?thesis
  proof cases
    case 1
    then have "(word_of_nat (unat v) :: u32) = ucast v" by simp
    with 1 assms u show ?thesis
      by (simp add: unpack_float_def float_image_def Let_def le_val_le_bytes)
  next
    case 2
    with rd u show ?thesis
      by (simp add: unpack_float_def float_image_def Let_def le_val_le_bytes)
  next
    case 3
    with rd u show ?thesis
      by (simp add: unpack_float_def float_image_def Let_def le_val_le_bytes)
  qed
qed

section \<open>One argument\<close>

lemma fst_uint_image_bounds: "fst (uint_image v) \<le> 8" "1 \<le> fst (uint_image v)"
  by (simp_all add: uint_image_def Let_def)

lemma num_bytes_width: "int_width TYPE('a::len word) \<Longrightarrow> num_bytes (unat (v :: 'a word)) \<le> LENGTH('a) div 8"
  using unat_width(1) [of v] by (intro num_bytes_le) (auto simp: int_width_def)

lemma arg_size_bounds: "1 \<le> arg_size t" "arg_size t \<le> 16"
  by (cases t; simp)+

lemma length_arg_bytes: "1 \<le> length (arg_bytes a)" "length (arg_bytes a) \<le> arg_size (argty_of a)"
proof -
  show "1 \<le> length (arg_bytes a)"
    by (cases a) (simp_all add: arg_bytes_def uint_image_def sint_image_def float_image_def Let_def)
  show "length (arg_bytes a) \<le> arg_size (argty_of a)"
    using num_bytes_width [where ?'a = 8] num_bytes_width [where ?'a = 16] num_bytes_width [where ?'a = 32]
      num_bytes_width [where ?'a = 64]
    by (cases a) (simp_all add: arg_bytes_def uint_image_def sint_image_def float_image_def int_width_def Let_def)
qed

lemma fst_uint_image_mod [simp]: "fst (uint_image v) mod 16 = fst (uint_image v)"
  using fst_uint_image_bounds(1) [of v] by simp

lemma pack_unsigned_sint:
  fixes v :: "'a::len word"
  assumes "pos + LENGTH('a) div 8 \<le> length m" "int_width TYPE('a word)"
  shows "\<exists>m'. (if 0 \<le> sint v \<or> sint v \<le> - (2 ^ (8 * k)) then pack_unsigned m pos v
         else res_bind (pack_unsigned m pos (- v)) (\<lambda>(b, p, n). Inr (b, p, 8 + n))) =
           Inr (m', pos + length (snd (sint_image k v)), fst (sint_image k v)) \<and>
         packed m pos (snd (sint_image k v)) m'"
  using pack_unsigned_packed [OF assms, of v] pack_unsigned_packed [OF assms, of "- v"]
  by (auto simp: sint_image_def)

lemma pack_float_packed:
  fixes v :: "'a::len word"
  assumes "pos + LENGTH('a) div 8 \<le> length m"
  shows "\<exists>m'. pack_float m pos v =
           Inr (m', pos + length (snd (float_image v)), fst (float_image v)) \<and>
         packed m pos (snd (float_image v)) m'"
  using mem_write_packed [OF assms order_refl, of "unat v"]
  by (auto simp: pack_float_def float_image_def Let_def)

lemma pack_packed:
  assumes "pos + arg_size (argty_of a) \<le> length m"
  shows "\<exists>m'. pack m pos a = Inr (m', pos + length (arg_bytes a), fst (arg_image a)) \<and>
              packed m pos (arg_bytes a) m'"
  using assms pack_unsigned_sint [where k = 3 and ?'a = 32 and pos = pos and m = m]
    pack_unsigned_sint [where k = 7 and ?'a = 64 and pos = pos and m = m]
  by (cases a)
    (simp_all add: arg_bytes_def pack_unsigned_packed pack_float_packed int_width_def
      pack_pointer_def pack_int32_def pack_int64_def pack_long_long_def)

lemma unpack_int_sint:
  fixes v :: "'a::len word"
  assumes iw: "int_width TYPE('a word)" and k: "k \<in> {3, 7}" "8 * k < LENGTH('a)"
    and rd: "mem_read m pos (length (snd (sint_image k v))) = Inr (snd (sint_image k v))"
  shows "unpack_int m pos (fst (sint_image k v) mod 16) =
           Inr (v, pos + length (snd (sint_image k v)))"
proof (cases "0 \<le> sint v \<or> sint v \<le> - (2 ^ (8 * k))")
  case True
  then show ?thesis
    using unpack_int_small [OF iw, of m pos v] rd fst_uint_image_bounds [of v]
    by (simp add: sint_image_def)
next
  case False
  with k(2) have "unat (- v) < 256 ^ k" by (intro num_bytes_neg) auto
  with k(1) have "num_bytes (unat (- v)) \<le> 7"
    using num_bytes_le [of k "unat (- v)"] by auto
  then show ?thesis
    using unpack_int_neg [OF iw, of v m pos] rd False
    by (simp add: sint_image_def uint_image_def Let_def)
qed

lemma unpack_float_instances:
  "mem_read m pos (length (snd (float_image f))) = Inr (snd (float_image f)) \<Longrightarrow>
     unpack_float id m pos (fst (float_image f) mod 16) =
       Inr (f :: u32, pos + length (snd (float_image f)))"
  "mem_read m pos (length (snd (float_image d))) = Inr (snd (float_image d)) \<Longrightarrow>
     unpack_float w64 m pos (fst (float_image d) mod 16) =
       Inr (d :: u64, pos + length (snd (float_image d)))"
  "mem_read m pos (length (snd (float_image l))) = Inr (snd (float_image l)) \<Longrightarrow>
     unpack_float wld m pos (fst (float_image l) mod 16) =
       Inr (l :: 128 word, pos + length (snd (float_image l)))"
  by (rule unpack_float_image; simp)+

lemma unpack_image:
  assumes "mem_read m pos (length (arg_bytes a)) = Inr (arg_bytes a)"
  shows "unpack fp (argty_of a) m pos (arg_code a) = Inr (a, pos + length (arg_bytes a))"
  using assms
  by (cases a)
    (simp_all add: arg_bytes_def arg_code_def map_res_def unpack_int_small unpack_int_sint
      unpack_float_instances int_width_def)

section \<open>The nibble area\<close>

definition nibble_at :: "bytes \<Rightarrow> nat \<Rightarrow> nat \<Rightarrow> nat" where
  "nibble_at m nibs i =
     (if even i then nib_first (m ! (nibs + i div 2)) else nib_second (m ! (nibs + i div 2)))"

lemma nibble_masks:
  "(0x0F :: u8) = mask 4" "(0xF0 :: u8) = push_bit 4 (mask 4)"
  by (simp_all add: mask_eq_exp_minus_1)

lemma unat_and_mask4: "unat (w AND mask 4 :: u8) = unat w mod 16"
proof -
  have "unat (take_bit 4 w) = take_bit 4 (unat w)" by (rule unsigned_take_bit_eq)
  then show ?thesis by (simp add: take_bit_eq_mod flip: take_bit_eq_mask)
qed

lemma unat_nibble: "unat (word_of_nat v :: u8) mod 16 = v mod 16"
  by (simp add: unat_of_nat mod_mod_cancel)

lemma nib_set [simp]:
  "nib_first (set_nib_first b v) = v mod 16"
  "nib_second (set_nib_first b v) = nib_second b"
  "nib_first (set_nib_second b v) = nib_first b"
proof -
  have "set_nib_first b v AND mask 4 = word_of_nat v AND mask 4"
    unfolding set_nib_first_def nibble_masks by (rule bit_word_eqI) (auto simp: bit_simps)
  then show "nib_first (set_nib_first b v) = v mod 16"
    by (simp only: nib_first_def nibble_masks unat_and_mask4 unat_nibble)
  have "drop_bit 4 (set_nib_first b v) = drop_bit 4 b"
    unfolding set_nib_first_def nibble_masks
    by (rule bit_word_eqI) (auto simp: bit_simps dest: bit_imp_le_length)
  then show "nib_second (set_nib_first b v) = nib_second b"
    by (simp add: nib_second_def)
  have "set_nib_second b v AND mask 4 = b AND mask 4"
    unfolding set_nib_second_def nibble_masks by (rule bit_word_eqI) (auto simp: bit_simps)
  then show "nib_first (set_nib_second b v) = nib_first b"
    by (simp only: nib_first_def nibble_masks)
qed

lemma nib_second_set [simp]: "nib_second (set_nib_second b v) = v mod 16"
proof -
  have "drop_bit 4 (set_nib_second b v) = word_of_nat v AND mask 4"
    unfolding set_nib_second_def nibble_masks
    by (rule bit_word_eqI) (auto simp: bit_simps)
  then show ?thesis by (simp only: nib_second_def unat_and_mask4 unat_nibble)
qed

lemma nib_bounds: "nib_first b < 16" "nib_second b < 16"
proof -
  show "nib_first b < 16"
    by (simp only: nib_first_def nibble_masks unat_and_mask4 mod_less_divisor zero_less_numeral)
  have "unat (drop_bit 4 b) = unat b div 2 ^ 4"
    by (simp only: unat_drop_bit_eq) (simp add: drop_bit_eq_div)
  moreover have "unat b < 256" using unsigned_less [of b] by simp
  ultimately show "nib_second b < 16" by (simp only: nib_second_def) simp
qed

lemma store_nibble_at:
  assumes "nibs + cnt div 2 < length m" "code < 16"
  shows "\<exists>m'. store_nibble m nibs cnt code = Inr m' \<and> length m' = length m \<and>
           nibble_at m' nibs cnt = code \<and>
           (\<forall>i. i \<noteq> cnt \<longrightarrow> nibble_at m' nibs i = nibble_at m nibs i) \<and>
           (\<forall>j. j \<noteq> nibs + cnt div 2 \<longrightarrow> m' ! j = m ! j)"
proof -
  have ne: "i div 2 = cnt div 2 \<and> (even i \<longleftrightarrow> even cnt) \<Longrightarrow> i = cnt" for i
    by (metis even_iff_mod_2_eq_zero mult_div_mod_eq not_mod_2_eq_0_eq_1)
  show ?thesis
    using assms ne
    by (auto simp: store_nibble_def nibble_at_def nth_list_update Let_def)
qed


section \<open>Sequences of arguments\<close>

abbreviation args_size :: "arg list \<Rightarrow> nat" where
  "args_size as \<equiv> sum_list (map (\<lambda>a. arg_size (argty_of a)) as)"

abbreviation args_bytes :: "arg list \<Rightarrow> bytes" where
  "args_bytes as \<equiv> concat (map arg_bytes as)"

lemma arg_code_bound [simp]: "arg_code a < 16"
  by (simp add: arg_code_def)

lemma packed_nth: "packed m pos bs m' \<Longrightarrow> j < pos \<Longrightarrow> pos \<le> length m \<Longrightarrow> m' ! j = m ! j"
proof -
  assume a: "packed m pos bs m'" "j < pos" "pos \<le> length m"
  then have "take (pos + length bs) m' ! j = (take pos m @ bs) ! j" by (simp add: packed_def)
  with a show ?thesis by (simp add: nth_append)
qed

lemma compress_basic_step:
  assumes "nibs + cnt div 2 < out" "out + arg_size (argty_of a) \<le> length m"
  shows "\<exists>m'. compress_basic m nibs cnt out a = Inr (m', cnt + 1, out + length (arg_bytes a)) \<and>
           length m' = length m \<and> nibble_at m' nibs cnt = arg_code a \<and>
           (\<forall>i. i < cnt \<longrightarrow> nibble_at m' nibs i = nibble_at m nibs i) \<and>
           (\<forall>j < out. j \<noteq> nibs + cnt div 2 \<longrightarrow> m' ! j = m ! j) \<and>
           take (length (arg_bytes a)) (drop out m') = arg_bytes a"
proof -
  from pack_packed [OF assms(2)] obtain m1 where
    p1: "pack m out a = Inr (m1, out + length (arg_bytes a), fst (arg_image a))" and
    k1: "packed m out (arg_bytes a) m1" by blast
  have l1: "length m1 = length m" using k1 by (simp add: packed_def)
  have n1: "j < out \<Longrightarrow> m1 ! j = m ! j" for j
    using packed_nth [OF k1] assms(2) by simp
  have v1: "take (length (arg_bytes a)) (drop out m1) = arg_bytes a"
  proof -
    have "drop out (take (out + length (arg_bytes a)) m1) = arg_bytes a"
      using k1 assms(2) by (simp add: packed_def)
    then show ?thesis by (simp add: drop_take)
  qed
  have "nibs + cnt div 2 < length m1" using assms l1 by simp
  from store_nibble_at [OF this arg_code_bound, of a] obtain m2 where
    s2: "store_nibble m1 nibs cnt (arg_code a) = Inr m2" and l2: "length m2 = length m1" and
    c2: "nibble_at m2 nibs cnt = arg_code a" and
    o2: "\<And>i. i \<noteq> cnt \<Longrightarrow> nibble_at m2 nibs i = nibble_at m1 nibs i" and
    u2: "\<And>j. j \<noteq> nibs + cnt div 2 \<Longrightarrow> m2 ! j = m1 ! j" by blast
  have nib1: "i < cnt \<Longrightarrow> nibble_at m1 nibs i = nibble_at m nibs i" for i
  proof -
    assume "i < cnt"
    then have "nibs + i div 2 < out" using assms(1) div_le_mono [of i cnt 2] by linarith
    then show ?thesis by (simp add: nibble_at_def n1)
  qed
  have v2: "take (length (arg_bytes a)) (drop out m2) = arg_bytes a"
  proof -
    have "drop out m2 = drop out m1"
    proof (rule nth_equalityI)
      fix i assume "i < length (drop out m2)"
      then show "drop out m2 ! i = drop out m1 ! i" using assms u2 l2 by simp
    qed (simp add: l2)
    then show ?thesis using v1 by simp
  qed
  show ?thesis
    using p1 s2 l1 l2 c2 o2 u2 n1 nib1 v2 assms
    by (auto simp: compress_basic_def arg_code_def)
qed

lemma drop_take_disjoint:
  assumes "length m' = length m" "lo + n \<le> length m" "\<And>j. lo \<le> j \<Longrightarrow> j < lo + n \<Longrightarrow> m' ! j = m ! j"
  shows "take n (drop lo m') = take n (drop lo m)"
  using assms by (intro nth_equalityI) auto

lemma compress_basics_spec:
  assumes "nibs + (cnt + length as + 1) div 2 \<le> out" "out + args_size as \<le> length m"
  shows "\<exists>m'. compress_basics m nibs cnt out as =
             Inr (m', cnt + length as, out + length (args_bytes as)) \<and>
           length m' = length m \<and>
           (\<forall>i < cnt. nibble_at m' nibs i = nibble_at m nibs i) \<and>
           (\<forall>i < length as. nibble_at m' nibs (cnt + i) = arg_code (as ! i)) \<and>
           (\<forall>j. nibs + (cnt + length as + 1) div 2 \<le> j \<and> j < out \<longrightarrow> m' ! j = m ! j) \<and>
           take (length (args_bytes as)) (drop out m') = args_bytes as"
  using assms
proof (induction as arbitrary: m cnt out)
  case Nil
  then show ?case by simp
next
  case (Cons a as)
  have lt: "nibs + cnt div 2 < out" using Cons.prems(1) by simp
  have sp: "out + arg_size (argty_of a) \<le> length m" using Cons.prems(2) by simp
  from compress_basic_step [OF lt sp] obtain m1 where
    s1: "compress_basic m nibs cnt out a = Inr (m1, cnt + 1, out + length (arg_bytes a))" and
    l1: "length m1 = length m" and c1: "nibble_at m1 nibs cnt = arg_code a" and
    o1: "\<And>i. i < cnt \<Longrightarrow> nibble_at m1 nibs i = nibble_at m nibs i" and
    u1: "\<And>j. j < out \<Longrightarrow> j \<noteq> nibs + cnt div 2 \<Longrightarrow> m1 ! j = m ! j" and
    v1: "take (length (arg_bytes a)) (drop out m1) = arg_bytes a" by blast
  let ?out = "out + length (arg_bytes a)" and ?cnt = "cnt + 1"
  have "nibs + (?cnt + length as + 1) div 2 \<le> ?out" using Cons.prems(1) by simp
  moreover have "?out + args_size as \<le> length m1"
    using Cons.prems(2) l1 length_arg_bytes(2) [of a] by simp
  ultimately obtain m2 where
    s2: "compress_basics m1 nibs ?cnt ?out as =
           Inr (m2, ?cnt + length as, ?out + length (args_bytes as))" and
    l2: "length m2 = length m1" and
    o2: "\<And>i. i < ?cnt \<Longrightarrow> nibble_at m2 nibs i = nibble_at m1 nibs i" and
    c2: "\<And>i. i < length as \<Longrightarrow> nibble_at m2 nibs (?cnt + i) = arg_code (as ! i)" and
    u2: "\<And>j. nibs + (?cnt + length as + 1) div 2 \<le> j \<Longrightarrow> j < ?out \<Longrightarrow> m2 ! j = m1 ! j" and
    v2: "take (length (args_bytes as)) (drop ?out m2) = args_bytes as"
    using Cons.IH [of ?cnt ?out m1] by blast
  have keep: "take (length (arg_bytes a)) (drop out m2) = arg_bytes a"
    using v1 drop_take_disjoint [of m2 m1 out "length (arg_bytes a)"] l1 l2 u2 sp Cons.prems(1)
      length_arg_bytes(2) [of a] by simp
  have "take (length (args_bytes (a # as))) (drop out m2) = args_bytes (a # as)"
    using keep v2 by (simp add: take_add add.commute)
  moreover have "nibble_at m2 nibs (cnt + i) = arg_code ((a # as) ! i)"
    if "i < length (a # as)" for i
    using that c1 c2 [of "i - 1"] o2 [of cnt] by (cases i) auto
  moreover have "m2 ! j = m ! j" if "nibs + (cnt + length (a # as) + 1) div 2 \<le> j" "j < out" for j
  proof -
    have "j \<noteq> nibs + cnt div 2" using that(1) by simp
    with that show ?thesis using u1 [of j] u2 [of j] by simp
  qed
  ultimately show ?case
    using s1 s2 l1 l2 o1 o2 by auto
qed


section \<open>Reading the stream back\<close>

definition nibble_len :: "nat \<Rightarrow> nat" where
  "nibble_len c = (if c = 0 then 16 else if 8 < c then c - 8 else c)"

lemma nibble_len_arg_code: "nibble_len (arg_code a) = length (arg_bytes a)"
proof -
  have u: "nibble_len (fst (uint_image v)) = length (snd (uint_image v))" for v :: "'a::len word"
    by (simp add: nibble_len_def uint_image_def Let_def not_less)
  have s: "nibble_len (fst (sint_image k v) mod 16) = length (snd (sint_image k v))"
    if "k \<in> {3, 7}" "8 * k < LENGTH('a)" for k and v :: "'a::len word"
  proof (cases "0 \<le> sint v \<or> sint v \<le> - (2 ^ (8 * k))")
    case True
    then show ?thesis using u [of v] by (simp add: sint_image_def)
  next
    case False
    with that(2) have "unat (- v) < 256 ^ k" by (intro num_bytes_neg) auto
    with that(1) have "num_bytes (unat (- v)) \<le> 7"
      using num_bytes_le [of k "unat (- v)"] by auto
    with False show ?thesis
      by (simp add: sint_image_def uint_image_def Let_def nibble_len_def)
  qed
  show ?thesis
    by (cases a) (simp_all add: arg_code_def arg_bytes_def u s, simp_all add: float_image_def nibble_len_def)
qed

lemma nibble_adjust:
  "(let sz = sz + of_nat f; sz = (if f = 0 then sz + 16 else sz)
    in if f > 8 then sz - 8 else sz) = (sz :: u32) + of_nat (nibble_len f)"
  by (auto simp: nibble_len_def Let_def of_nat_diff)

lemma pair_adjust:
  "(let sz = sz + of_nat (f + g);
        sz = (if f = 0 then sz + 16 else sz);
        sz = (if f > 8 then sz - 8 else sz);
        sz = (if g = 0 then sz + 16 else sz)
    in if g > 8 then sz - 8 else sz) = (sz :: u32) + of_nat (nibble_len f + nibble_len g)"
  by (auto simp: nibble_len_def Let_def of_nat_diff)

lemma nibble_at_Cons: "nibble_at (b # nibs) 0 (Suc (Suc i)) = nibble_at nibs 0 i"
  by (simp add: nibble_at_def)

lemma size_of_pairs_spec:
  "n \<le> length nibs \<Longrightarrow>
   size_of_pairs nibs n sz = Inr (sz + of_nat (\<Sum>i < 2 * n. nibble_len (nibble_at nibs 0 i)))"
proof (induction n arbitrary: nibs sz)
  case 0
  then show ?case by simp
next
  case (Suc n)
  then obtain b nibs' where nibs: "nibs = b # nibs'" and n: "n \<le> length nibs'"
    by (cases nibs) auto
  let ?S = "\<Sum>i < 2 * n. nibble_len (nibble_at nibs' 0 i)"
  have "(\<Sum>i < 2 * Suc n. nibble_len (nibble_at nibs 0 i)) =
      nibble_len (nib_first b) + (nibble_len (nib_second b) + ?S)"
    unfolding nibs
    by (simp add: sum.lessThan_Suc_shift nibble_at_Cons del: sum.lessThan_Suc)
       (simp add: nibble_at_def)
  moreover have "size_of_pairs (b # nibs') (Suc n) sz =
      size_of_pairs nibs' n (sz + of_nat (nibble_len (nib_first b) + nibble_len (nib_second b)))"
    unfolding pair_adjust [symmetric] by (simp only: size_of_pairs.simps Let_def)
  ultimately show ?case using Suc.IH [OF n] by (simp add: nibs algebra_simps)
qed

lemma getSizeOfPackedValues_spec:
  assumes "(n + 1) div 2 \<le> length nibs"
  shows "getSizeOfPackedValues nibs n =
           Inr (of_nat (\<Sum>i < n. nibble_len (nibble_at nibs 0 i)))"
proof (cases "odd n")
  case True
  then obtain k where n: "n = Suc (2 * k)" by (elim oddE) simp
  with assms have k: "k < length nibs" by simp
  then have "size_of_pairs nibs k 0 = Inr (of_nat (\<Sum>i < 2 * k. nibble_len (nibble_at nibs 0 i)))"
    by (simp add: size_of_pairs_spec)
  moreover have "nibble_at nibs 0 (2 * k) = nib_first (nibs ! k)" by (simp add: nibble_at_def)
  ultimately show ?thesis
    using k nibble_adjust [of _ "nib_first (nibs ! k)"]
    by (simp add: getSizeOfPackedValues_def n Let_def algebra_simps)
next
  case False
  then have "even n" by simp
  then obtain k where "n = 2 * k" by (elim evenE)
  with assms show ?thesis by (simp add: getSizeOfPackedValues_def size_of_pairs_spec)
qed

definition nibbler_at :: "nibbler \<Rightarrow> nat \<Rightarrow> nat \<Rightarrow> bool" where
  "nibbler_at nb nibs i \<longleftrightarrow>
     nibblePosition nb = nibs + i div 2 \<and> onFirstNibble nb = even i"

lemma getNext_spec:
  assumes "nibbler_at nb nibs i" "nibs + i div 2 < length (nb_mem nb)"
    and "nibble_at (nb_mem nb) nibs i = arg_code a"
    and "mem_read (nb_mem nb) (currPackedValue nb) (length (arg_bytes a)) = Inr (arg_bytes a)"
    and "currPackedValue nb < endOfValues nb"
  shows "\<exists>nb'. getNext fp (argty_of a) nb = Inr (a, nb') \<and> nibbler_at nb' nibs (Suc i) \<and>
           nb_mem nb' = nb_mem nb \<and> endOfValues nb' = endOfValues nb \<and>
           currPackedValue nb' = currPackedValue nb + length (arg_bytes a)"
  using assms unpack_image [OF assms(4), of fp]
  by (auto simp: getNext_def nibbler_at_def nibble_at_def Let_def split: if_splits)

lemma mem_read_split:
  assumes "mem_read m pos (length (xs @ ys)) = Inr (xs @ ys)"
  shows "mem_read m pos (length xs) = Inr xs" "mem_read m (pos + length xs) (length ys) = Inr ys"
  using assms by (auto simp: mem_read_def take_add add.commute split: if_splits)

lemma getNexts_spec:
  assumes "nibbler_at nb nibs i" "nibs + (i + length as + 1) div 2 \<le> length (nb_mem nb)"
    and "\<And>k. k < length as \<Longrightarrow> nibble_at (nb_mem nb) nibs (i + k) = arg_code (as ! k)"
    and "mem_read (nb_mem nb) (currPackedValue nb) (length (args_bytes as)) = Inr (args_bytes as)"
    and "currPackedValue nb + length (args_bytes as) = endOfValues nb"
  shows "\<exists>nb'. getNexts fp (map argty_of as) nb = Inr (as, nb') \<and>
           currPackedValue nb' = endOfValues nb \<and> endOfValues nb' = endOfValues nb"
  using assms
proof (induction as arbitrary: nb i)
  case Nil
  then show ?case by simp
next
  case (Cons a as)
  let ?m = "nb_mem nb" and ?p = "currPackedValue nb"
  have rd: "mem_read ?m ?p (length (arg_bytes a)) = Inr (arg_bytes a)"
    "mem_read ?m (?p + length (arg_bytes a)) (length (args_bytes as)) = Inr (args_bytes as)"
    using mem_read_split [of ?m ?p "arg_bytes a" "args_bytes as"] Cons.prems(4) by simp_all
  have "nibble_at ?m nibs i = arg_code a" using Cons.prems(3) [of 0] by simp
  moreover have "?p < endOfValues nb" using Cons.prems(5) length_arg_bytes(1) [of a] by simp
  moreover have "nibs + i div 2 < length ?m" using Cons.prems(2) by simp
  ultimately obtain nb1 where
    g: "getNext fp (argty_of a) nb = Inr (a, nb1)" and a1: "nibbler_at nb1 nibs (Suc i)" and
    m1: "nb_mem nb1 = ?m" and e1: "endOfValues nb1 = endOfValues nb" and
    c1: "currPackedValue nb1 = ?p + length (arg_bytes a)"
    using getNext_spec [OF Cons.prems(1) _ _ rd(1)] by blast
  have "\<exists>nb'. getNexts fp (map argty_of as) nb1 = Inr (as, nb') \<and>
           currPackedValue nb' = endOfValues nb1 \<and> endOfValues nb' = endOfValues nb1"
  proof (rule Cons.IH [OF a1])
    fix k assume "k < length as"
    then show "nibble_at (nb_mem nb1) nibs (Suc i + k) = arg_code (as ! k)"
      using Cons.prems(3) [of "Suc k"] m1 by simp
  qed (use Cons.prems(2,5) rd(2) m1 c1 e1 in simp_all)
  then show ?case using g e1 by auto
qed


section \<open>Properties\<close>

lemma nibble_at_drop: "nibs \<le> length m \<Longrightarrow> nibble_at (drop nibs m) 0 i = nibble_at m nibs i"
  by (simp add: nibble_at_def)

lemma sum_arg_lengths:
  "(\<Sum>i < length as. length (arg_bytes (as ! i))) = length (args_bytes as)"
  by (simp add: length_concat sum_list_sum_nth atLeast0LessThan)

lemma length_args_bytes_size: "length (args_bytes as) \<le> args_size as"
  using length_arg_bytes(2) by (induction as) (auto intro: add_mono)

lemma args_size_bound: "args_size as \<le> 16 * length as"
  using arg_size_bounds(2) by (induction as) (auto intro: add_mono)

lemma length_args_bytes_le: "length (args_bytes as) \<le> 16 * length as"
  using length_args_bytes_size args_size_bound le_trans by blast

lemma Nibbler_packed:
  assumes room: "nibs + (length as + 1) div 2 + length (args_bytes as) \<le> length m" and count: "length as < 2 ^ 28"
    and codes: "\<And>i. i < length as \<Longrightarrow> nibble_at m nibs i = arg_code (as ! i)"
  shows "Nibbler m nibs (length as) =
    Inr \<lparr>nb_mem = m, nibblePosition = nibs, onFirstNibble = True, numNibbles = length as,
      currPackedValue = nibs + (length as + 1) div 2,
      endOfValues = nibs + (length as + 1) div 2 + length (args_bytes as)\<rparr>"
proof -
  let ?n = "length as" and ?L = "length (args_bytes as)"
  have "(\<Sum>i < ?n. nibble_len (nibble_at (drop nibs m) 0 i)) = ?L"
    using room codes by (simp add: nibble_at_drop nibble_len_arg_code sum_arg_lengths)
  then have sz: "getSizeOfPackedValues (drop nibs m) ?n = Inr (of_nat ?L)"
    using getSizeOfPackedValues_spec [of ?n "drop nibs m"] room by simp
  have "?L < 2 ^ 32" using length_args_bytes_le [of as] count by simp
  then have "unat (of_nat ?L :: u32) = ?L" by (simp add: unat_of_nat)
  then show ?thesis using sz by (simp add: Nibbler_def)
qed

text \<open>
  C1. Writing any list of integer, pointer and floating point arguments with the packing code
  and reading the stream with a Nibbler over the same types returns exactly those
  arguments, in order, consumes every value byte, and the end the Nibbler computed from the
  nibbles alone is the end of the last packed value. The partially overlapping full-width
  writes of \<open>pack\<close> never damage a value packed before.
\<close>

theorem packed_args_roundtrip:
  assumes room: "nibs + (length as + 1) div 2 + args_size as \<le> length m"
    and count: "length as < 2 ^ 28"
  shows "\<exists>m' e nb nb'.
     compress_basics m nibs 0 (nibs + (length as + 1) div 2) as = Inr (m', length as, e) \<and>
     Nibbler m' nibs (length as) = Inr nb \<and> getEndOfPackedArguments nb = e \<and>
     getNexts fp (map argty_of as) nb = Inr (as, nb') \<and> currPackedValue nb' = e"
proof -
  let ?n = "length as" and ?L = "length (args_bytes as)"
  let ?v = "nibs + (?n + 1) div 2"
  obtain m' where
    cb: "compress_basics m nibs 0 ?v as = Inr (m', ?n, ?v + ?L)" and
    lm: "length m' = length m" and
    nb: "\<And>i. i < ?n \<Longrightarrow> nibble_at m' nibs i = arg_code (as ! i)" and
    vb: "take ?L (drop ?v m') = args_bytes as"
    using compress_basics_spec [of nibs 0 as ?v m] room by auto
  have inb: "nibs \<le> length m'" "?v + ?L \<le> length m'"
    using room lm length_args_bytes_size [of as] by simp_all
  let ?nb = "\<lparr>nb_mem = m', nibblePosition = nibs, onFirstNibble = True, numNibbles = ?n,
      currPackedValue = ?v, endOfValues = ?v + ?L\<rparr>"
  have nw: "Nibbler m' nibs ?n = Inr ?nb" using inb(2) count nb by (rule Nibbler_packed)
  have "\<exists>nb'. getNexts fp (map argty_of as) ?nb = Inr (as, nb') \<and>
           currPackedValue nb' = endOfValues ?nb \<and> endOfValues nb' = endOfValues ?nb"
    by (rule getNexts_spec [where nibs = nibs and i = 0])
      (use inb nb vb in \<open>simp_all add: nibbler_at_def mem_read_def\<close>)
  then show ?thesis using cb nw by (auto simp: getEndOfPackedArguments_def)
qed

theorem packed_args_roundtrip_witness:
  "\<exists>m' e nb nb'.
     compress_basics (replicate 60 0) 0 0 2 [ArgI32 (- 5), ArgU64 300, ArgLD 7] = Inr (m', 3, e) \<and>
     Nibbler m' 0 3 = Inr nb \<and> getEndOfPackedArguments nb = e \<and>
     getNexts \<lparr>f32_to_f64 = ucast, f32_to_ld = ucast\<rparr> [TyI32, TyU64, TyLD] nb =
       Inr ([ArgI32 (- 5), ArgU64 300, ArgLD 7], nb') \<and> currPackedValue nb' = e"
proof -
  let ?as = "[ArgI32 (- 5), ArgU64 300, ArgLD 7]"
  have l: "length ?as = 3" "0 + (3 + 1) div 2 = (2 :: nat)"
    "map argty_of ?as = [TyI32, TyU64, TyLD]" by simp_all
  have "0 + (length ?as + 1) div 2 + args_size ?as \<le> length (replicate 60 (0 :: u8))"
    "length ?as < 2 ^ 28" by simp_all
  from packed_args_roundtrip [OF this, where fp = "\<lparr>f32_to_f64 = ucast, f32_to_ld = ucast\<rparr>"]
  show ?thesis unfolding l .
qed

text \<open>
  C2. The unsigned packing stores the fewest bytes that determine the value: between one byte
  and the size of the type, enough for the value, and no shorter image would do; the cursor
  moves by exactly the returned code, which fits in a nibble. No byte before the cursor or behind the
  width of the type changes.
\<close>

theorem pack_unsigned_minimal:
  fixes v :: "'a::len word"
  assumes "LENGTH('a) \<in> {8, 16, 32, 64}" "pos + LENGTH('a) div 8 \<le> length m"
  shows "\<exists>m' n. pack_unsigned m pos v = Inr (m', pos + n, n) \<and> 1 \<le> n \<and> n \<le> LENGTH('a) div 8 \<and>
           n < 16 \<and> unat v < 256 ^ n \<and> (\<forall>k < n. 1 \<le> k \<longrightarrow> 256 ^ k \<le> unat v) \<and>
           take n (drop pos m') = le_bytes n (unat v) \<and> length m' = length m \<and>
           take pos m' = take pos m \<and> drop (pos + LENGTH('a) div 8) m' = drop (pos + LENGTH('a) div 8) m"
proof -
  let ?n = "num_bytes (unat v)"
  have iw: "int_width TYPE('a word)" using assms(1) by (simp add: int_width_def)
  obtain m' where p: "pack_unsigned m pos v = Inr (m', pos + ?n, ?n)"
    and k: "packed m pos (le_bytes ?n (unat v)) m'"
    using pack_unsigned_packed [OF assms(2) iw, of v] by (auto simp: uint_image_def Let_def)
  have "drop pos (take (pos + ?n) m') = le_bytes ?n (unat v)"
    using k assms(2) by (simp add: packed_def)
  then have "take ?n (drop pos m') = le_bytes ?n (unat v)" by (simp add: drop_take)
  moreover have "?n \<le> LENGTH('a) div 8"
    using assms(1) unat_width(1) [OF iw, of v] by (intro num_bytes_le) auto
  moreover have "256 ^ k \<le> unat v" if "k < ?n" "1 \<le> k" for k
  proof (rule ccontr)
    assume "\<not> 256 ^ k \<le> unat v"
    moreover have "k < 8" using that(1) num_bytes_bounds(2) by (rule less_le_trans)
    then have "k \<in> {1, 2, 3, 4, 5, 6, 7}" using that(2) by auto
    ultimately show False using that(1)
      by (elim insertE emptyE; simp add: num_bytes_def split: if_splits)
  qed
  moreover have "?n < 16" using num_bytes_bounds(2) [of "unat v"] by linarith
  moreover have "mem_write m pos (le_bytes (LENGTH('a) div 8) (unat v)) = Inr m'"
    using p by (auto simp: pack_unsigned_def res_bind_eq_Inr Let_def)
  then have "length m' = length m \<and> take pos m' = take pos m \<and>
      drop (pos + LENGTH('a) div 8) m' = drop (pos + LENGTH('a) div 8) m"
    by (auto simp: mem_write_def split: if_splits)
  ultimately show ?thesis
    using p num_bytes_fits [OF unat_width(2) [OF iw, of v]] by auto
qed

theorem pack_unsigned_minimal_witness:
  "\<exists>m' n. pack_unsigned (replicate 4 0) 0 (300 :: u32) = Inr (m', n, n) \<and>
     n \<le> 4 \<and> 300 < (256 :: nat) ^ n \<and> length m' = 4"
  using pack_unsigned_minimal [where v = "300 :: u32" and pos = 0 and m = "replicate 4 0"]
  by auto

end
