(* ===== verification/Staging_Buffer.thy ===== *)
theory Staging_Buffer
  imports Prelude
begin

text \<open>
  The staging buffer between a logging thread and the compression thread: class \<open>StagingBuffer\<close> of
  \<^verbatim>\<open>src/runtime/RuntimeLogger.h\<close> and \<^verbatim>\<open>RuntimeLogger.cc\<close>, a circular queue of bytes without locks.

  Pointers into the storage are positions in it. The producer (the logging thread) and the consumer
  (the compression thread) interleave: every access to a field that the other one writes is a step
  of its own, and where a thread is within a function is part of the state. The fences of the code
  order its writes and reads, so the fields behave as one memory. The amount of storage is a
  parameter, the length of \<open>storage\<close>.
\<close>

section \<open>The buffer\<close>

record staging_buffer =
  producerPos :: nat
  endOfRecordedSpace :: nat
  minFreeSpace :: nat
  numTimesProducerBlocked :: u32
  numAllocations :: u64
  consumerPos :: nat
  shouldDeallocate :: bool
  buffer_id :: u32
  storage :: bytes

definition new_staging_buffer :: "nat \<Rightarrow> u32 \<Rightarrow> staging_buffer" where
  "new_staging_buffer sz bufferId =
     \<lparr>producerPos = 0, endOfRecordedSpace = sz, minFreeSpace = sz, numTimesProducerBlocked = 0,
      numAllocations = 0, consumerPos = 0, shouldDeallocate = False, buffer_id = bufferId,
      storage = replicate sz 0\<rparr>"

definition checkCanDelete :: "staging_buffer \<Rightarrow> bool" where
  "checkCanDelete b \<longleftrightarrow> shouldDeallocate b \<and> consumerPos b = producerPos b"

text \<open>What the destructor of the thread-local \<open>StagingBufferDestroyer\<close> does.\<close>

definition thread_destroyed :: "staging_buffer \<Rightarrow> staging_buffer" where
  "thread_destroyed b = b\<lparr>shouldDeallocate := True\<rparr>"

section \<open>The producer\<close>

text \<open>
  Where the producer is: outside; at the head of the loop of \<open>reserveSpaceInternal\<close>; behind the read
  of the consumer's position; behind the write of the end of the recorded space, about to roll over;
  at the end of the body; holding a reservation. The number is that of the bytes asked for, the
  flag \<open>blocking\<close>.
\<close>

datatype producer_pc =
    PIdle | PLoop nat bool | PRead nat bool nat | PRoll nat bool nat | PBody nat bool | PHolding nat

definition reserveProducerSpace :: "nat \<Rightarrow> bool \<Rightarrow> staging_buffer \<Rightarrow> staging_buffer \<times> producer_pc" where
  "reserveProducerSpace nbytes blocking b =
     (let b = b\<lparr>numAllocations := numAllocations b + 1\<rparr>
      in if nbytes < minFreeSpace b then (b, PHolding nbytes) else (b, PLoop nbytes blocking))"

text \<open>A step of the loop of \<open>reserveSpaceInternal\<close>.\<close>

fun reserve_step :: "producer_pc \<Rightarrow> staging_buffer \<Rightarrow> staging_buffer \<times> producer_pc" where
  "reserve_step (PLoop nbytes blocking) b =
     (if minFreeSpace b \<le> nbytes then (b, PRead nbytes blocking (consumerPos b))
      else (b\<lparr>numTimesProducerBlocked := numTimesProducerBlocked b + 1\<rparr>, PHolding nbytes))"
| "reserve_step (PRead nbytes blocking cachedConsumerPos) b =
     (if cachedConsumerPos \<le> producerPos b
      then
        let b = b\<lparr>minFreeSpace := length (storage b) - producerPos b\<rparr>
        in if minFreeSpace b > nbytes
           then (b\<lparr>numTimesProducerBlocked := numTimesProducerBlocked b + 1\<rparr>, PHolding nbytes)
           else
             let b = b\<lparr>endOfRecordedSpace := producerPos b\<rparr>
             in if cachedConsumerPos \<noteq> 0 then (b, PRoll nbytes blocking cachedConsumerPos)
                else (b, PBody nbytes blocking)
      else (b\<lparr>minFreeSpace := cachedConsumerPos - producerPos b\<rparr>, PBody nbytes blocking))"
| "reserve_step (PRoll nbytes blocking cachedConsumerPos) b =
     (b\<lparr>producerPos := 0, minFreeSpace := cachedConsumerPos\<rparr>, PBody nbytes blocking)"
| "reserve_step (PBody nbytes blocking) b =
     (if \<not> blocking \<and> minFreeSpace b \<le> nbytes then (b, PIdle) else (b, PLoop nbytes blocking))"
| "reserve_step pc b = (b, pc)"

text \<open>The two assertions are the first two lines.\<close>

definition finishReservation :: "nat \<Rightarrow> staging_buffer \<Rightarrow> staging_buffer cres" where
  "finishReservation nbytes b =
     (if \<not> nbytes < minFreeSpace b then Inl Fault
      else if \<not> producerPos b + nbytes < length (storage b) then Inl Fault
      else Inr (b\<lparr>minFreeSpace := minFreeSpace b - nbytes, producerPos := producerPos b + nbytes\<rparr>))"

section \<open>The consumer\<close>

text \<open>
  Where the consumer is: outside; behind the read of the producer's position; behind the read of
  the end of the recorded space when there is nothing before it, about to roll over; with the
  number of bytes that it may still consume.
\<close>

datatype consumer_pc = CIdle | CRead nat | CRoll nat | CHolding nat

fun peek_step :: "consumer_pc \<Rightarrow> staging_buffer \<Rightarrow> staging_buffer \<times> consumer_pc" where
  "peek_step CIdle b = (b, CRead (producerPos b))"
| "peek_step (CHolding n) b = (b, CRead (producerPos b))"
| "peek_step (CRead cachedProducerPos) b =
     (if cachedProducerPos < consumerPos b
      then
        let bytesAvailable = endOfRecordedSpace b - consumerPos b
        in if bytesAvailable > 0 then (b, CHolding bytesAvailable) else (b, CRoll cachedProducerPos)
      else (b, CHolding (cachedProducerPos - consumerPos b)))"
| "peek_step (CRoll cachedProducerPos) b =
     (b\<lparr>consumerPos := 0\<rparr>, CHolding cachedProducerPos)"

definition consume :: "nat \<Rightarrow> staging_buffer \<Rightarrow> staging_buffer" where
  "consume nbytes b = b\<lparr>consumerPos := consumerPos b + nbytes\<rparr>"

section \<open>Interleavings\<close>

text \<open>
  What the producer wrote into its reservations and has made visible, and what the consumer has
  read and given back, is kept beside the buffer. The producer may fill its reservation in any
  order; it makes at most as many bytes visible as it has reserved. The consumer reads what it
  consumes before it consumes it, at most what it has been told of.
\<close>

record staging =
  buf :: staging_buffer
  prod :: producer_pc
  cons :: consumer_pc
  produced :: bytes
  consumed :: bytes

datatype staging_act = Reserve nat bool | ReserveStep | Fill nat u8 | Finish nat | PeekStep | Consume nat

text \<open>An action that the state of its thread does not allow changes nothing.\<close>

fun staging_do :: "staging_act \<Rightarrow> staging \<Rightarrow> staging cres" where
  "staging_do (Reserve nbytes blocking) s =
     (if prod s = PIdle
      then let (b, pc) = reserveProducerSpace nbytes blocking (buf s) in Inr (s\<lparr>buf := b, prod := pc\<rparr>)
      else Inr s)"
| "staging_do ReserveStep s =
     (let (b, pc) = reserve_step (prod s) (buf s) in Inr (s\<lparr>buf := b, prod := pc\<rparr>))"
| "staging_do (Fill i x) s =
     (case prod s of
        PHolding n \<Rightarrow>
          if i < n
          then res_bind (mem_write (storage (buf s)) (producerPos (buf s) + i) [x]) (\<lambda>m.
                 Inr (s\<lparr>buf := (buf s)\<lparr>storage := m\<rparr>\<rparr>))
          else Inr s
      | _ \<Rightarrow> Inr s)"
| "staging_do (Finish m) s =
     (case prod s of
        PHolding n \<Rightarrow>
          if m \<le> n
          then res_bind (mem_read (storage (buf s)) (producerPos (buf s)) m) (\<lambda>bs.
               res_bind (finishReservation m (buf s)) (\<lambda>b.
                 Inr (s\<lparr>buf := b, prod := PIdle, produced := produced s @ bs\<rparr>)))
          else Inr s
      | _ \<Rightarrow> Inr s)"
| "staging_do PeekStep s =
     (let (b, pc) = peek_step (cons s) (buf s) in Inr (s\<lparr>buf := b, cons := pc\<rparr>))"
| "staging_do (Consume m) s =
     (case cons s of
        CHolding n \<Rightarrow>
          if m \<le> n
          then res_bind (mem_read (storage (buf s)) (consumerPos (buf s)) m) (\<lambda>bs.
                 Inr (s\<lparr>buf := consume m (buf s), cons := CHolding (n - m), consumed := consumed s @ bs\<rparr>))
          else Inr s
      | _ \<Rightarrow> Inr s)"

definition new_staging :: "nat \<Rightarrow> u32 \<Rightarrow> staging" where
  "new_staging sz bufferId =
     \<lparr>buf = new_staging_buffer sz bufferId, prod = PIdle, cons = CIdle, produced = [], consumed = []\<rparr>"

inductive staging_reach :: "nat \<Rightarrow> staging \<Rightarrow> bool" for sz where
  new: "staging_reach sz (new_staging sz bufferId)"
| step: "staging_reach sz s \<Longrightarrow> staging_do a s = Inr s' \<Longrightarrow> staging_reach sz s'"

section \<open>The invariant\<close>

text \<open>
  The bytes in the queue: between the two positions, or, when the producer has rolled over, from
  the consumer's position to the end of the recorded space and from the start to the
  producer's position.
\<close>

definition queued :: "staging_buffer \<Rightarrow> bytes" where
  "queued b =
     (if consumerPos b \<le> producerPos b
      then take (producerPos b - consumerPos b) (drop (consumerPos b) (storage b))
      else take (endOfRecordedSpace b - consumerPos b) (drop (consumerPos b) (storage b)) @
           take (producerPos b) (storage b))"

text \<open>How far the producer may write without reaching what is queued.\<close>

definition room_end :: "staging_buffer \<Rightarrow> nat" where
  "room_end b = (if consumerPos b \<le> producerPos b then length (storage b) else consumerPos b)"

definition buffer_inv :: "nat \<Rightarrow> staging_buffer \<Rightarrow> bool" where
  "buffer_inv sz b \<longleftrightarrow>
     length (storage b) = sz \<and> producerPos b < sz \<and>
     (producerPos b < consumerPos b \<longrightarrow> consumerPos b \<le> endOfRecordedSpace b \<and> endOfRecordedSpace b < sz) \<and>
     producerPos b + minFreeSpace b \<le> room_end b"

fun producer_inv :: "staging_buffer \<Rightarrow> producer_pc \<Rightarrow> bool" where
  "producer_inv b (PHolding n) \<longleftrightarrow> n < minFreeSpace b"
| "producer_inv b (PRead n blocking cc) \<longleftrightarrow>
     (if cc \<le> producerPos b then cc \<le> consumerPos b \<and> consumerPos b \<le> producerPos b
      else cc \<le> room_end b)"
| "producer_inv b (PRoll n blocking cc) \<longleftrightarrow>
     0 < cc \<and> cc \<le> consumerPos b \<and> consumerPos b \<le> producerPos b \<and> endOfRecordedSpace b = producerPos b"
| "producer_inv b _ \<longleftrightarrow> True"

fun consumer_inv :: "staging_buffer \<Rightarrow> consumer_pc \<Rightarrow> bool" where
  "consumer_inv b CIdle \<longleftrightarrow> True"
| "consumer_inv b (CRead cp) \<longleftrightarrow>
     (if cp < consumerPos b then cp \<le> producerPos b \<and> producerPos b < consumerPos b
      else cp \<le> (if consumerPos b \<le> producerPos b then producerPos b else endOfRecordedSpace b))"
| "consumer_inv b (CRoll cp) \<longleftrightarrow>
     cp \<le> producerPos b \<and> producerPos b < consumerPos b \<and> endOfRecordedSpace b = consumerPos b"
| "consumer_inv b (CHolding n) \<longleftrightarrow>
     consumerPos b + n \<le> (if consumerPos b \<le> producerPos b then producerPos b else endOfRecordedSpace b)"

definition staging_inv :: "nat \<Rightarrow> staging \<Rightarrow> bool" where
  "staging_inv sz s \<longleftrightarrow>
     buffer_inv sz (buf s) \<and> producer_inv (buf s) (prod s) \<and> consumer_inv (buf s) (cons s) \<and>
     produced s = consumed s @ queued (buf s)"

lemmas staging_inv_defs = staging_inv_def buffer_inv_def room_end_def

lemma new_staging_inv: "0 < sz \<Longrightarrow> staging_inv sz (new_staging sz bufferId)"
  by (simp add: staging_inv_defs new_staging_def new_staging_buffer_def queued_def)

lemma reserve_keeps:
  assumes "staging_inv sz s" "staging_do (Reserve n blocking) s = Inr s'"
  shows "staging_inv sz s'"
  using assms by (cases "cons s") (auto simp: staging_inv_defs reserveProducerSpace_def queued_def Let_def split: if_splits)

text \<open>The steps of the loop, on the buffer alone; the last fact is for the consumer.\<close>

lemma reserve_step_buffer:
  assumes "buffer_inv sz b" "producer_inv b pc" "reserve_step pc b = (b', pc')"
  shows "buffer_inv sz b'" "producer_inv b' pc'" "queued b' = queued b"
    and "consumer_inv b c \<Longrightarrow> consumer_inv b' c"
proof -
  show "buffer_inv sz b'"
    using assms by (cases pc) (auto simp: buffer_inv_def room_end_def Let_def split: if_splits)
  show "producer_inv b' pc'"
    using assms by (cases pc) (auto simp: buffer_inv_def room_end_def Let_def split: if_splits)
  show "queued b' = queued b"
    using assms by (cases pc) (auto simp: queued_def Let_def split: if_splits)
  show "consumer_inv b' c" if "consumer_inv b c"
  proof -
    consider "consumerPos b' = consumerPos b" "producerPos b' = producerPos b" "endOfRecordedSpace b' = endOfRecordedSpace b"
      | "consumerPos b' = consumerPos b" "producerPos b' = producerPos b" "consumerPos b \<le> producerPos b"
      | "consumerPos b' = consumerPos b" "producerPos b' = 0" "0 < consumerPos b" "consumerPos b \<le> producerPos b"
        "endOfRecordedSpace b' = producerPos b"
      using assms(2,3) by (cases pc) (auto simp: Let_def split: if_splits)
    then show ?thesis
      using that by cases (cases c; simp split: if_splits)+
  qed
qed

lemma reserve_step_keeps:
  assumes inv: "staging_inv sz s" and act: "staging_do ReserveStep s = Inr s'"
  shows "staging_inv sz s'"
proof -
  obtain b' pc' where st: "reserve_step (prod s) (buf s) = (b', pc')" by fastforce
  have b: "buffer_inv sz (buf s)" "producer_inv (buf s) (prod s)" using inv by (simp_all add: staging_inv_def)
  show ?thesis
    using act st inv reserve_step_buffer [OF b st] by (auto simp: staging_inv_def)
qed

text \<open>A write into the reservation leaves what is queued alone.\<close>

lemma fill_queued:
  assumes "mem_write (storage b) (producerPos b + i) [x] = Inr m" "producerPos b + i < room_end b"
  shows "queued (b\<lparr>storage := m\<rparr>) = queued b \<and> length m = length (storage b)"
proof -
  have m: "m = (storage b)[producerPos b + i := x]" "producerPos b + i < length (storage b)"
    using assms(1) by (auto simp: mem_write_def upd_conv_take_nth_drop split: if_splits)
  have "take k (drop d m) = take k (drop d (storage b))"
    if "d + k \<le> producerPos b + i \<or> producerPos b + i < d" for d k
    using that m by (auto simp: take_update_cancel drop_update_cancel drop_update_swap)
  note this [of 0] this
  then show ?thesis using assms(2) m by (auto simp: queued_def room_end_def)
qed

lemma fill_keeps:
  assumes inv: "staging_inv sz s" and act: "staging_do (Fill i x) s = Inr s'"
  shows "staging_inv sz s'"
proof (cases "prod s")
  case (PHolding n)
  show ?thesis
  proof (cases "i < n")
    case True
    then obtain m where m: "mem_write (storage (buf s)) (producerPos (buf s) + i) [x] = Inr m"
      and s': "s' = s\<lparr>buf := (buf s)\<lparr>storage := m\<rparr>\<rparr>"
      using act PHolding by (auto simp: res_bind_eq_Inr)
    have "producerPos (buf s) + i < room_end (buf s)"
      using inv PHolding True by (auto simp: staging_inv_def buffer_inv_def)
    from fill_queued [OF m this] show ?thesis
      using inv s' PHolding by (cases "cons s") (auto simp: staging_inv_defs split: if_splits)
  qed (use inv act PHolding in simp)
qed (use inv act in auto)

lemma finish_queued:
  assumes "buffer_inv sz b" "m < minFreeSpace b"
  shows "queued (b\<lparr>minFreeSpace := minFreeSpace b - m, producerPos := producerPos b + m\<rparr>) =
    queued b @ take m (drop (producerPos b) (storage b))"
proof (cases "consumerPos b \<le> producerPos b")
  case True
  then have "take (producerPos b + m - consumerPos b) (drop (consumerPos b) (storage b)) =
      take (producerPos b - consumerPos b) (drop (consumerPos b) (storage b)) @
      take m (drop (producerPos b) (storage b))"
    using take_add [of "producerPos b - consumerPos b" m "drop (consumerPos b) (storage b)"] by simp
  then show ?thesis using True by (simp add: queued_def)
next
  case False
  then have "producerPos b + m < consumerPos b" using assms by (simp add: buffer_inv_def room_end_def)
  then show ?thesis using False by (simp add: queued_def take_add)
qed

lemma finish_keeps:
  assumes inv: "staging_inv sz s" and act: "staging_do (Finish m) s = Inr s'"
  shows "staging_inv sz s'"
proof (cases "prod s")
  case (PHolding n)
  show ?thesis
  proof (cases "m \<le> n")
    case True
    have b: "buffer_inv sz (buf s)" and lt: "m < minFreeSpace (buf s)"
      using inv PHolding True by (auto simp: staging_inv_def)
    have s': "s' = s\<lparr>buf := (buf s)\<lparr>minFreeSpace := minFreeSpace (buf s) - m, producerPos := producerPos (buf s) + m\<rparr>,
        prod := PIdle, produced := produced s @ take m (drop (producerPos (buf s)) (storage (buf s)))\<rparr>"
      using act PHolding True by (auto simp: res_bind_eq_Inr mem_read_def finishReservation_def split: if_splits)
    show ?thesis
      using inv finish_queued [OF b lt] lt unfolding s'
      by (cases "cons s") (auto simp: staging_inv_defs split: if_splits)
  qed (use inv act PHolding in simp)
qed (use inv act in auto)

lemma peek_step_buffer:
  assumes "buffer_inv sz b" "consumer_inv b c" "peek_step c b = (b', c')"
  shows "buffer_inv sz b'" "consumer_inv b' c'" "queued b' = queued b"
    and "producer_inv b pc \<Longrightarrow> producer_inv b' pc"
proof -
  show "buffer_inv sz b'"
    using assms by (cases c) (auto simp: buffer_inv_def room_end_def Let_def split: if_splits)
  show "consumer_inv b' c'"
    using assms by (cases c) (auto simp: buffer_inv_def Let_def split: if_splits)
  show "queued b' = queued b"
    using assms by (cases c) (auto simp: queued_def Let_def split: if_splits)
  show "producer_inv b' pc" if "producer_inv b pc"
  proof -
    consider "b' = b" | "b' = b\<lparr>consumerPos := 0\<rparr>" "producerPos b < consumerPos b"
      using assms(2,3) by (cases c) (auto simp: Let_def split: if_splits)
    then show ?thesis
      using that assms(1)
      by cases (cases pc; auto simp: room_end_def buffer_inv_def split: if_splits)+
  qed
qed

lemma peek_keeps:
  assumes inv: "staging_inv sz s" and act: "staging_do PeekStep s = Inr s'"
  shows "staging_inv sz s'"
proof -
  obtain b' c' where st: "peek_step (cons s) (buf s) = (b', c')" by fastforce
  have b: "buffer_inv sz (buf s)" "consumer_inv (buf s) (cons s)" using inv by (simp_all add: staging_inv_def)
  show ?thesis
    using act st inv peek_step_buffer [OF b st] by (auto simp: staging_inv_def)
qed

text \<open>What the consumer reads are the first bytes of the queue.\<close>

lemma holding_queued:
  assumes "buffer_inv sz b" "consumer_inv b (CHolding n)" "m \<le> n"
  shows "take m (drop (consumerPos b) (storage b)) = take m (queued b)"
    and "m \<le> length (queued b)" and "consumerPos b + m \<le> length (storage b)"
    and "queued (consume m b) = drop m (queued b)"
  using assms by (auto simp: buffer_inv_def queued_def consume_def min_absorb1 drop_take add.commute split: if_splits)

lemma consume_keeps:
  assumes inv: "staging_inv sz s" and act: "staging_do (Consume m) s = Inr s'"
  shows "staging_inv sz s'"
proof (cases "cons s")
  case (CHolding n)
  show ?thesis
  proof (cases "m \<le> n")
    case True
    have b: "buffer_inv sz (buf s)" and c: "consumer_inv (buf s) (CHolding n)"
      using inv CHolding by (auto simp: staging_inv_def)
    note q = holding_queued [OF b c True]
    have s': "s' = s\<lparr>buf := consume m (buf s), cons := CHolding (n - m),
        consumed := consumed s @ take m (queued (buf s))\<rparr>"
      using act CHolding True q by (auto simp: res_bind_eq_Inr mem_read_def)
    have "produced s = (consumed s @ take m (queued (buf s))) @ queued (consume m (buf s))"
      using inv q(4) by (simp add: staging_inv_def)
    moreover have "buffer_inv sz (consume m (buf s))" "producer_inv (consume m (buf s)) (prod s)"
      "consumer_inv (consume m (buf s)) (CHolding (n - m))"
      using inv True CHolding
      by (cases "prod s"; auto simp: staging_inv_defs consume_def split: if_splits)+
    ultimately show ?thesis unfolding s' by (simp add: staging_inv_def)
  qed (use inv act CHolding in simp)
qed (use inv act in auto)

lemma staging_do_keeps:
  assumes "staging_inv sz s" "staging_do a s = Inr s'"
  shows "staging_inv sz s'"
proof (cases a)
  case (Reserve n blocking)
  then show ?thesis using reserve_keeps [OF assms(1)] assms(2) by blast
next
  case ReserveStep
  then show ?thesis using reserve_step_keeps [OF assms(1)] assms(2) by blast
next
  case (Fill i x)
  then show ?thesis using fill_keeps [OF assms(1)] assms(2) by blast
next
  case (Finish m)
  then show ?thesis using finish_keeps [OF assms(1)] assms(2) by blast
next
  case PeekStep
  then show ?thesis using peek_keeps [OF assms(1)] assms(2) by blast
next
  case (Consume m)
  then show ?thesis using consume_keeps [OF assms(1)] assms(2) by blast
qed

lemma staging_reach_inv: "staging_reach sz s \<Longrightarrow> 0 < sz \<Longrightarrow> staging_inv sz s"
  by (induction rule: staging_reach.induct) (auto intro: new_staging_inv staging_do_keeps simp del: staging_do.simps)

text \<open>No action fails: no access leaves the storage and no assertion is violated.\<close>

lemma staging_do_total:
  assumes inv: "staging_inv sz s"
  shows "\<exists>s'. staging_do a s = Inr s'"
proof (cases a)
  case (Fill i x)
  show ?thesis
  proof (cases "prod s")
    case (PHolding n)
    have "i < n \<Longrightarrow> producerPos (buf s) + i < length (storage (buf s))"
      using inv PHolding by (auto simp: staging_inv_defs split: if_splits)
    then show ?thesis using Fill PHolding by (cases "i < n") (auto simp: mem_write_def)
  qed (use Fill in auto)
next
  case (Finish m)
  show ?thesis
  proof (cases "prod s")
    case (PHolding n)
    have "m \<le> n \<Longrightarrow> m < minFreeSpace (buf s) \<and> producerPos (buf s) + m < length (storage (buf s))"
      using inv PHolding by (auto simp: staging_inv_defs split: if_splits)
    then show ?thesis using Finish PHolding by (auto simp: mem_read_def finishReservation_def)
  qed (use Finish in auto)
next
  case (Consume m)
  show ?thesis
  proof (cases "cons s")
    case (CHolding n)
    have "m \<le> n \<Longrightarrow> consumerPos (buf s) + m \<le> length (storage (buf s))"
      using inv CHolding holding_queued(3) [of sz "buf s" n m] by (simp add: staging_inv_def)
    then show ?thesis using Consume CHolding by (simp add: mem_read_def)
  qed (use Consume in auto)
qed (auto simp: Let_def split: prod.split)

text \<open>
  C13. Whatever the producer and the consumer do, interleaved in whatever way, the staging buffer is a
  queue: nothing fails, the bytes consumed are the first bytes produced, in order, and what
  the consumer may consume are the next ones, untouched by the producer, and fewer
  than the buffer has.
\<close>

theorem staging_buffer_is_fifo:
  assumes "staging_reach sz s" "0 < sz"
  shows "(\<exists>s'. staging_do a s = Inr s') \<and>
    (\<exists>rest. produced s = consumed s @ rest \<and> length rest < sz \<and>
      (\<forall>n. cons s = CHolding n \<longrightarrow>
        n \<le> length rest \<and> take n (drop (consumerPos (buf s)) (storage (buf s))) = take n rest))"
proof -
  note inv = staging_reach_inv [OF assms]
  have b: "buffer_inv sz (buf s)" using inv by (simp add: staging_inv_def)
  have "length (queued (buf s)) < sz"
    using b by (auto simp: buffer_inv_def queued_def split: if_splits)
  moreover have "n \<le> length (queued (buf s)) \<and>
      take n (drop (consumerPos (buf s)) (storage (buf s))) = take n (queued (buf s))" if "cons s = CHolding n" for n
    using holding_queued [OF b, of n n] inv that by (simp add: staging_inv_def)
  ultimately show ?thesis
    using staging_do_total [OF inv] inv by (auto simp: staging_inv_def)
qed

section \<open>No deadlock\<close>

text \<open>Threads that go on with what they are doing: waiting, peeking and consuming.\<close>

inductive goes_on :: "staging \<Rightarrow> staging \<Rightarrow> bool" where
  wait: "staging_do ReserveStep s = Inr s' \<Longrightarrow> goes_on s s'"
| peek: "staging_do PeekStep s = Inr s' \<Longrightarrow> goes_on s s'"
| eat: "staging_do (Consume m) s = Inr s' \<Longrightarrow> goes_on s s'"

abbreviation leads_to :: "staging \<Rightarrow> staging \<Rightarrow> bool" where
  "leads_to \<equiv> goes_on\<^sup>*\<^sup>*"

lemma leads_to_inv: "leads_to s s' \<Longrightarrow> staging_inv sz s \<Longrightarrow> staging_inv sz s'"
  by (induction rule: rtranclp_induct)
    (auto elim!: goes_on.cases intro: staging_do_keeps simp del: staging_do.simps)

lemma wait_leads:
  assumes "reserve_step (prod s) (buf s) = (b, pc)" "s' = s\<lparr>buf := b, prod := pc\<rparr>"
  shows "leads_to s s'"
proof -
  have "staging_do ReserveStep s = Inr s'" using assms by simp
  then show ?thesis using goes_on.wait by blast
qed

lemma peek_leads:
  assumes "peek_step (cons s) (buf s) = (b, pc)" "s' = s\<lparr>buf := b, cons := pc\<rparr>"
  shows "leads_to s s'"
proof -
  have "staging_do PeekStep s = Inr s'" using assms by simp
  then show ?thesis using goes_on.peek by blast
qed

lemma eat_leads:
  assumes "staging_inv sz s" "cons s = CHolding n"
  shows "\<exists>xs. goes_on s (s\<lparr>buf := consume n (buf s), cons := CHolding 0, consumed := xs\<rparr>)"
proof -
  have "consumerPos (buf s) + n \<le> length (storage (buf s))"
    using assms holding_queued(3) [of sz "buf s" n n] by (simp add: staging_inv_def)
  then have "staging_do (Consume n) s = Inr (s\<lparr>buf := consume n (buf s), cons := CHolding 0,
      consumed := consumed s @ take n (drop (consumerPos (buf s)) (storage (buf s)))\<rparr>)"
    using assms(2) by (simp add: mem_read_def)
  then show ?thesis using goes_on.eat by blast
qed

text \<open>The consumer empties the queue and gives its space back, whatever it was about to do.\<close>

definition drained :: "staging \<Rightarrow> bool" where
  "drained s \<longleftrightarrow> cons s = CHolding 0 \<and> consumerPos (buf s) = producerPos (buf s)"

definition same_producer :: "staging \<Rightarrow> staging \<Rightarrow> bool" where
  "same_producer s s' \<longleftrightarrow> prod s' = prod s \<and> producerPos (buf s') = producerPos (buf s) \<and>
     minFreeSpace (buf s') = minFreeSpace (buf s) \<and> endOfRecordedSpace (buf s') = endOfRecordedSpace (buf s)"

lemma drain_roll:
  assumes "staging_inv sz s" "cons s = CRoll (producerPos (buf s))"
  shows "\<exists>s'. leads_to s s' \<and> same_producer s s' \<and> drained s'"
proof -
  let ?s1 = "s\<lparr>buf := (buf s)\<lparr>consumerPos := 0\<rparr>, cons := CHolding (producerPos (buf s))\<rparr>"
  have l: "leads_to s ?s1" using assms(2) by (intro peek_leads) auto
  obtain xs where "goes_on ?s1 (?s1\<lparr>buf := consume (producerPos (buf s)) (buf ?s1), cons := CHolding 0, consumed := xs\<rparr>)"
    using eat_leads [OF leads_to_inv [OF l assms(1)]] by fastforce
  from rtranclp.rtrancl_into_rtrancl [OF l this] show ?thesis
    by (intro exI conjI, assumption) (auto simp: same_producer_def drained_def consume_def)
qed

lemma drain_read:
  assumes inv: "staging_inv sz s" and c: "cons s = CRead (producerPos (buf s))"
    and e: "producerPos (buf s) < consumerPos (buf s) \<Longrightarrow> endOfRecordedSpace (buf s) = consumerPos (buf s)"
  shows "\<exists>s'. leads_to s s' \<and> same_producer s s' \<and> drained s'"
proof (cases "producerPos (buf s) < consumerPos (buf s)")
  case True
  let ?s1 = "s\<lparr>cons := CRoll (producerPos (buf s))\<rparr>"
  have l: "leads_to s ?s1" using c e True by (intro peek_leads [of s "buf s" "CRoll (producerPos (buf s))"]) auto
  obtain s' where "leads_to ?s1 s'" "same_producer ?s1 s'" "drained s'"
    using drain_roll [OF leads_to_inv [OF l inv]] by auto
  then show ?thesis using rtranclp_trans [OF l] by (intro exI [of _ s']) (simp add: same_producer_def)
next
  case False
  let ?s1 = "s\<lparr>cons := CHolding (producerPos (buf s) - consumerPos (buf s))\<rparr>"
  have l: "leads_to s ?s1" using c False by (intro peek_leads [of s "buf s" "CHolding (producerPos (buf s) - consumerPos (buf s))"]) auto
  obtain xs where "goes_on ?s1 (?s1\<lparr>buf := consume (producerPos (buf s) - consumerPos (buf s)) (buf s), cons := CHolding 0, consumed := xs\<rparr>)"
    using eat_leads [OF leads_to_inv [OF l inv]] by fastforce
  from rtranclp.rtrancl_into_rtrancl [OF l this] False show ?thesis
    by - (intro exI conjI, assumption, auto simp: same_producer_def drained_def consume_def)
qed

lemma drain_peek:
  assumes inv: "staging_inv sz s" and c: "cons s = CIdle \<or> (\<exists>n. cons s = CHolding n)"
    and e: "producerPos (buf s) < consumerPos (buf s) \<Longrightarrow> endOfRecordedSpace (buf s) = consumerPos (buf s)"
  shows "\<exists>s'. leads_to s s' \<and> same_producer s s' \<and> drained s'"
proof -
  let ?s1 = "s\<lparr>cons := CRead (producerPos (buf s))\<rparr>"
  have l: "leads_to s ?s1" using c by (intro peek_leads [of s "buf s" "CRead (producerPos (buf s))"]) auto
  obtain s' where "leads_to ?s1 s'" "same_producer ?s1 s'" "drained s'"
    using drain_read [OF leads_to_inv [OF l inv]] e by auto
  then show ?thesis using rtranclp_trans [OF l] by (intro exI [of _ s']) (simp add: same_producer_def)
qed

lemma drain_holding:
  assumes inv: "staging_inv sz s" and c: "cons s = CIdle \<or> (\<exists>n. cons s = CHolding n)"
  shows "\<exists>s'. leads_to s s' \<and> same_producer s s' \<and> drained s'"
proof (cases "producerPos (buf s) < consumerPos (buf s) \<and> consumerPos (buf s) < endOfRecordedSpace (buf s)")
  case False
  then show ?thesis using drain_peek [OF inv c] inv by (auto simp: staging_inv_def buffer_inv_def)
next
  case True
  let ?n = "endOfRecordedSpace (buf s) - consumerPos (buf s)"
  let ?s1 = "s\<lparr>cons := CRead (producerPos (buf s))\<rparr>" and ?s2 = "s\<lparr>cons := CHolding ?n\<rparr>"
  have "leads_to s ?s1" using c by (intro peek_leads [of s "buf s" "CRead (producerPos (buf s))"]) auto
  moreover have "leads_to ?s1 ?s2" using True by (intro peek_leads [of ?s1 "buf s" "CHolding ?n"]) auto
  ultimately have l: "leads_to s ?s2" by (rule rtranclp_trans)
  obtain xs where x: "goes_on ?s2 (?s2\<lparr>buf := consume ?n (buf s), cons := CHolding 0, consumed := xs\<rparr>)" (is "goes_on _ ?s3")
    using eat_leads [OF leads_to_inv [OF l inv]] by fastforce
  note l3 = rtranclp.rtrancl_into_rtrancl [OF l x]
  obtain s' where "leads_to ?s3 s'" "same_producer ?s3 s'" "drained s'"
    using drain_peek [OF leads_to_inv [OF l3 inv]] True by (auto simp: consume_def)
  then show ?thesis using rtranclp_trans [OF l3] by (intro exI [of _ s']) (simp add: same_producer_def consume_def)
qed

lemma reaches_holding:
  "\<exists>s' n. leads_to s s' \<and> same_producer s s' \<and> (cons s' = CIdle \<or> cons s' = CHolding n)"
proof -
  have roll: "\<exists>s' n. leads_to s s' \<and> same_producer s s' \<and> cons s' = CHolding n" if "cons s = CRoll cp" for s cp
    using that peek_leads [OF _ refl, of s "(buf s)\<lparr>consumerPos := 0\<rparr>" "CHolding cp"]
    by (intro exI [of _ "s\<lparr>buf := (buf s)\<lparr>consumerPos := 0\<rparr>, cons := CHolding cp\<rparr>"]) (simp add: same_producer_def)
  have read: "\<exists>s' n. leads_to s s' \<and> same_producer s s' \<and> cons s' = CHolding n" if c: "cons s = CRead cp" for cp
  proof (cases "cp < consumerPos (buf s) \<and> endOfRecordedSpace (buf s) \<le> consumerPos (buf s)")
    case True
    let ?s1 = "s\<lparr>buf := buf s, cons := CRoll cp\<rparr>"
    have l: "leads_to s ?s1" using c True by (intro peek_leads [OF _ refl]) auto
    obtain s' n where "leads_to ?s1 s'" "same_producer ?s1 s'" "cons s' = CHolding n" using roll [of ?s1 cp] by auto
    then show ?thesis using rtranclp_trans [OF l] by (intro exI [of _ s']) (auto simp: same_producer_def)
  next
    case False
    then have "\<exists>n. peek_step (cons s) (buf s) = (buf s, CHolding n)" using c by (simp add: Let_def not_le)
    then obtain n where "peek_step (cons s) (buf s) = (buf s, CHolding n)" ..
    from peek_leads [OF this refl] show ?thesis
      by (intro exI [of _ "s\<lparr>buf := buf s, cons := CHolding n\<rparr>"]) (auto simp: same_producer_def)
  qed
  have refl: "\<exists>s' n. leads_to s s' \<and> same_producer s s' \<and> (cons s' = CIdle \<or> cons s' = CHolding n)"
    if "cons s = CIdle \<or> cons s = CHolding n" for n
    using that by (intro exI [of _ s] exI [of _ n]) (simp add: same_producer_def)
  show ?thesis
  proof (cases "cons s")
    case (CRead cp)
    then show ?thesis using read by blast
  next
    case (CRoll cp)
    then show ?thesis using roll by blast
  qed (use refl in blast)+
qed

lemma drains:
  assumes inv: "staging_inv sz s"
  shows "\<exists>s'. leads_to s s' \<and> same_producer s s' \<and> drained s'"
proof -
  obtain s1 n where s1: "leads_to s s1" "same_producer s s1" "cons s1 = CIdle \<or> cons s1 = CHolding n"
    using reaches_holding by blast
  obtain s' where "leads_to s1 s'" "same_producer s1 s'" "drained s'"
    using drain_holding [OF leads_to_inv [OF s1(1) inv]] s1(3) by blast
  then show ?thesis using s1 rtranclp_trans [OF s1(1)] by (intro exI [of _ s']) (simp add: same_producer_def)
qed


text \<open>The producer, waiting for \<open>n\<close> bytes, gets on between two visits of the consumer.\<close>

lemma served_at_end:
  assumes "prod s = PRead n True cc" "cc \<le> producerPos (buf s)" "n < length (storage (buf s)) - producerPos (buf s)"
  shows "\<exists>s'. leads_to s s' \<and> prod s' = PHolding n"
proof -
  let ?b = "(buf s)\<lparr>minFreeSpace := length (storage (buf s)) - producerPos (buf s),
    numTimesProducerBlocked := numTimesProducerBlocked (buf s) + 1\<rparr>"
  have "reserve_step (prod s) (buf s) = (?b, PHolding n)" using assms by (simp add: Let_def)
  from wait_leads [OF this refl] show ?thesis by (intro exI conjI, assumption) simp
qed

lemma loop_served:
  assumes "prod s = PLoop n True" "n < minFreeSpace (buf s)"
  shows "\<exists>s'. leads_to s s' \<and> prod s' = PHolding n"
proof -
  have "reserve_step (prod s) (buf s) =
      ((buf s)\<lparr>numTimesProducerBlocked := numTimesProducerBlocked (buf s) + 1\<rparr>, PHolding n)" using assms by simp
  from wait_leads [OF this refl] show ?thesis by (intro exI conjI, assumption) simp
qed

lemma loop_reads:
  assumes "prod s = PLoop n True" "\<not> n < minFreeSpace (buf s)"
  shows "leads_to s (s\<lparr>prod := PRead n True (consumerPos (buf s))\<rparr>)"
  using assms by (intro wait_leads [where b = "buf s"]) auto

text \<open>At the start of the storage with the whole queue given back there is room for anything.\<close>

lemma served_at_start:
  assumes inv: "staging_inv sz s" and n: "n < sz" and p: "prod s = PLoop n True" "producerPos (buf s) = 0"
  shows "\<exists>s'. leads_to s s' \<and> prod s' = PHolding n"
proof -
  obtain s1 where s1: "leads_to s s1" "same_producer s s1" "drained s1" using drains [OF inv] by blast
  have sz: "length (storage (buf s1)) = sz"
    using leads_to_inv [OF s1(1) inv] by (simp add: staging_inv_def buffer_inv_def)
  have p1: "prod s1 = PLoop n True" "producerPos (buf s1) = 0" "consumerPos (buf s1) = 0"
    using s1(2,3) p by (simp_all add: same_producer_def drained_def)
  show ?thesis
  proof (cases "n < minFreeSpace (buf s1)")
    case True
    then show ?thesis using loop_served [OF p1(1)] rtranclp_trans [OF s1(1)] by blast
  next
    case False
    let ?s2 = "s1\<lparr>prod := PRead n True 0\<rparr>"
    have l: "leads_to s1 ?s2" using loop_reads [OF p1(1) False] p1(3) by simp
    obtain s' where "leads_to ?s2 s'" "prod s' = PHolding n"
      using served_at_end [of ?s2 n 0] p1 sz n by auto
    then show ?thesis using rtranclp_trans [OF rtranclp_trans [OF s1(1) l]] by blast
  qed
qed

text \<open>Rolling over brings the producer to the start.\<close>

lemma roll_served:
  assumes inv: "staging_inv sz s" and n: "n < sz" and p: "prod s = PRoll n True cc"
  shows "\<exists>s'. leads_to s s' \<and> prod s' = PHolding n"
proof -
  let ?b = "(buf s)\<lparr>producerPos := 0, minFreeSpace := cc\<rparr>"
  let ?s1 = "s\<lparr>buf := ?b, prod := PBody n True\<rparr>" and ?s2 = "s\<lparr>buf := ?b, prod := PLoop n True\<rparr>"
  have "leads_to s ?s1" using p by (intro wait_leads) auto
  moreover have "leads_to ?s1 ?s2" by (intro wait_leads [of ?s1 ?b "PLoop n True"]) auto
  ultimately have l: "leads_to s ?s2" by (rule rtranclp_trans)
  show ?thesis
    using served_at_start [OF leads_to_inv [OF l inv] n] rtranclp_trans [OF l] by fastforce
qed

lemma loop_gets_space:
  assumes inv: "staging_inv sz s" and n: "n < sz" and p: "prod s = PLoop n True"
  shows "\<exists>s'. leads_to s s' \<and> prod s' = PHolding n"
proof -
  obtain s1 where s1: "leads_to s s1" "same_producer s s1" "drained s1" using drains [OF inv] by blast
  note inv1 = leads_to_inv [OF s1(1) inv]
  have p1: "prod s1 = PLoop n True" "consumerPos (buf s1) = producerPos (buf s1)"
    using s1(2,3) p by (simp_all add: same_producer_def drained_def)
  have "\<exists>s'. leads_to s1 s' \<and> prod s' = PHolding n"
  proof (cases "n < minFreeSpace (buf s1)")
    case True
    then show ?thesis by (rule loop_served [OF p1(1)])
  next
    case False
    let ?p = "producerPos (buf s1)"
    let ?s2 = "s1\<lparr>prod := PRead n True ?p\<rparr>"
    have l: "leads_to s1 ?s2" using loop_reads [OF p1(1) False] p1(2) by simp
    consider "?p = 0" | "n < length (storage (buf s1)) - ?p" | "0 < ?p" "\<not> n < length (storage (buf s1)) - ?p" by blast
    then show ?thesis
    proof cases
      case 1
      then show ?thesis using served_at_start [OF inv1 n p1(1)] by blast
    next
      case 2
      obtain s' where "leads_to ?s2 s'" "prod s' = PHolding n" using served_at_end [of ?s2 n ?p] 2 by auto
      then show ?thesis using rtranclp_trans [OF l] by blast
    next
      case 3
      let ?b = "(buf s1)\<lparr>minFreeSpace := length (storage (buf s1)) - ?p, endOfRecordedSpace := ?p\<rparr>"
      let ?s3 = "s1\<lparr>buf := ?b, prod := PRoll n True ?p\<rparr>"
      have "leads_to ?s2 ?s3" using 3 by (intro wait_leads [of ?s2 ?b "PRoll n True ?p"]) (auto simp: Let_def)
      then have l3: "leads_to s1 ?s3" by (rule rtranclp_trans [OF l])
      show ?thesis
        using roll_served [OF leads_to_inv [OF l3 inv1] n] rtranclp_trans [OF l3] by fastforce
    qed
  qed
  then show ?thesis using rtranclp_trans [OF s1(1)] by blast
qed

lemma body_gets_space:
  assumes inv: "staging_inv sz s" and n: "n < sz" and p: "prod s = PBody n True"
  shows "\<exists>s'. leads_to s s' \<and> prod s' = PHolding n"
proof -
  let ?s1 = "s\<lparr>prod := PLoop n True\<rparr>"
  have l: "leads_to s ?s1" using p by (intro wait_leads [of s "buf s" "PLoop n True"]) auto
  show ?thesis using loop_gets_space [OF leads_to_inv [OF l inv] n] rtranclp_trans [OF l] by fastforce
qed

lemma read_gets_space:
  assumes inv: "staging_inv sz s" and n: "n < sz" and p: "prod s = PRead n True cc"
  shows "\<exists>s'. leads_to s s' \<and> prod s' = PHolding n"
proof -
  obtain b pc where st: "reserve_step (prod s) (buf s) = (b, pc)" by fastforce
  note l = wait_leads [OF st refl]
  have "pc = PHolding n \<or> pc = PBody n True \<or> pc = PRoll n True cc"
    using st p by (auto simp: Let_def split: if_splits)
  then have "\<exists>s'. leads_to (s\<lparr>buf := b, prod := pc\<rparr>) s' \<and> prod s' = PHolding n"
    using body_gets_space [OF leads_to_inv [OF l inv] n] roll_served [OF leads_to_inv [OF l inv] n, of cc] by auto
  then show ?thesis using rtranclp_trans [OF l] by blast
qed

fun waiting_for :: "producer_pc \<Rightarrow> nat option" where
  "waiting_for (PLoop n blocking) = (if blocking then Some n else None)"
| "waiting_for (PRead n blocking cc) = (if blocking then Some n else None)"
| "waiting_for (PRoll n blocking cc) = (if blocking then Some n else None)"
| "waiting_for (PBody n blocking) = (if blocking then Some n else None)"
| "waiting_for _ = None"

text \<open>
  C21. The two threads never block each other for good: from every state in which the producer waits
  for space, it can get the space when both threads go on, if the request is smaller than the
  storage; a request that is not has no such continuation.
\<close>

theorem staging_no_deadlock:
  assumes "staging_reach sz s" "0 < sz" "waiting_for (prod s) = Some n"
  shows "(\<exists>s'. leads_to s s' \<and> prod s' = PHolding n) \<longleftrightarrow> n < sz"
proof
  note inv = staging_reach_inv [OF assms(1,2)]
  show "n < sz" if ex: "\<exists>s'. leads_to s s' \<and> prod s' = PHolding n"
  proof -
    obtain s' where s': "leads_to s s'" "prod s' = PHolding n" using ex by blast
    then have "buffer_inv sz (buf s')" "n < minFreeSpace (buf s')"
      using leads_to_inv [OF s'(1) inv] by (simp_all add: staging_inv_def)
    then show ?thesis by (cases "consumerPos (buf s') \<le> producerPos (buf s')") (auto simp: buffer_inv_def room_end_def)
  qed
  assume n: "n < sz"
  show "\<exists>s'. leads_to s s' \<and> prod s' = PHolding n"
    using loop_gets_space [OF inv n] read_gets_space [OF inv n] roll_served [OF inv n] body_gets_space [OF inv n] assms(3)
    by (cases "prod s") (auto split: if_splits)
qed

section \<open>Witnesses\<close>

text \<open>A buffer of four bytes whose producer has used three of them and waits for two.\<close>

fun staging_run :: "staging_act list \<Rightarrow> staging \<Rightarrow> staging cres" where
  "staging_run [] s = Inr s"
| "staging_run (a # as) s = res_bind (staging_do a s) (staging_run as)"

lemma staging_run_reach:
  "staging_reach sz s \<Longrightarrow> staging_run as s = Inr s' \<Longrightarrow> staging_reach sz s'"
proof (induction as arbitrary: s)
  case (Cons a as)
  then obtain s1 where "staging_do a s = Inr s1" "staging_run as s1 = Inr s'"
    by (auto simp: res_bind_eq_Inr simp del: staging_do.simps)
  with Cons.IH Cons.prems(1) staging_reach.step show ?case by blast
qed simp

definition sample_run :: "staging_act list" where
  "sample_run = [Reserve 3 True, Fill 0 7, Finish 3, PeekStep, PeekStep, Consume 1, Reserve 2 True]"

definition sample_staging :: staging where
  "sample_staging =
     \<lparr>buf = \<lparr>producerPos = 3, endOfRecordedSpace = 4, minFreeSpace = 1, numTimesProducerBlocked = 0,
        numAllocations = 2, consumerPos = 1, shouldDeallocate = False, buffer_id = 1, storage = [7, 0, 0, 0]\<rparr>,
      prod = PLoop 2 True, cons = CHolding 2, produced = [7, 0, 0], consumed = [7]\<rparr>"

lemma sample_run_result: "staging_run sample_run (new_staging 4 1) = Inr sample_staging"
proof -
  let ?b = "\<lambda>p f a c m. \<lparr>producerPos = p, endOfRecordedSpace = 4, minFreeSpace = f, numTimesProducerBlocked = 0,
    numAllocations = a, consumerPos = c, shouldDeallocate = False, buffer_id = 1, storage = m\<rparr>"
  have n: "new_staging 4 1 = \<lparr>buf = ?b 0 4 0 0 [0, 0, 0, 0], prod = PIdle, cons = CIdle, produced = [], consumed = []\<rparr>"
    by (simp add: new_staging_def new_staging_buffer_def numeral_eq_Suc)
  have "staging_do (Reserve 3 True) (new_staging 4 1) =
      Inr \<lparr>buf = ?b 0 4 1 0 [0, 0, 0, 0], prod = PHolding 3, cons = CIdle, produced = [], consumed = []\<rparr>"
    by (simp add: n reserveProducerSpace_def)
  moreover have "staging_do (Fill 0 7) \<lparr>buf = ?b 0 4 1 0 [0, 0, 0, 0], prod = PHolding 3, cons = CIdle, produced = [], consumed = []\<rparr> =
      Inr \<lparr>buf = ?b 0 4 1 0 [7, 0, 0, 0], prod = PHolding 3, cons = CIdle, produced = [], consumed = []\<rparr>"
    by (simp add: mem_write_def)
  moreover have "staging_do (Finish 3) \<lparr>buf = ?b 0 4 1 0 [7, 0, 0, 0], prod = PHolding 3, cons = CIdle, produced = [], consumed = []\<rparr> =
      Inr \<lparr>buf = ?b 3 1 1 0 [7, 0, 0, 0], prod = PIdle, cons = CIdle, produced = [7, 0, 0], consumed = []\<rparr>"
    by (simp add: mem_read_def finishReservation_def)
  moreover have "staging_do PeekStep \<lparr>buf = ?b 3 1 1 0 [7, 0, 0, 0], prod = PIdle, cons = CIdle, produced = [7, 0, 0], consumed = []\<rparr> =
      Inr \<lparr>buf = ?b 3 1 1 0 [7, 0, 0, 0], prod = PIdle, cons = CRead 3, produced = [7, 0, 0], consumed = []\<rparr>"
    by simp
  moreover have "staging_do PeekStep \<lparr>buf = ?b 3 1 1 0 [7, 0, 0, 0], prod = PIdle, cons = CRead 3, produced = [7, 0, 0], consumed = []\<rparr> =
      Inr \<lparr>buf = ?b 3 1 1 0 [7, 0, 0, 0], prod = PIdle, cons = CHolding 3, produced = [7, 0, 0], consumed = []\<rparr>"
    by simp
  moreover have "staging_do (Consume 1) \<lparr>buf = ?b 3 1 1 0 [7, 0, 0, 0], prod = PIdle, cons = CHolding 3, produced = [7, 0, 0], consumed = []\<rparr> =
      Inr \<lparr>buf = ?b 3 1 1 1 [7, 0, 0, 0], prod = PIdle, cons = CHolding 2, produced = [7, 0, 0], consumed = [7]\<rparr>"
    by (simp add: mem_read_def consume_def)
  moreover have "staging_do (Reserve 2 True) \<lparr>buf = ?b 3 1 1 1 [7, 0, 0, 0], prod = PIdle, cons = CHolding 2, produced = [7, 0, 0], consumed = [7]\<rparr> =
      Inr sample_staging"
    by (simp add: reserveProducerSpace_def sample_staging_def)
  ultimately show ?thesis by (simp add: sample_run_def del: staging_do.simps)
qed

lemma sample_reach: "staging_reach 4 sample_staging"
  using staging_run_reach [OF staging_reach.new sample_run_result] .

theorem staging_buffer_is_fifo_witness:
  "(\<exists>s'. staging_do ReserveStep sample_staging = Inr s') \<and>
     take 2 (drop (consumerPos (buf sample_staging)) (storage (buf sample_staging))) = [0, 0]"
  using staging_buffer_is_fifo [OF sample_reach, of ReserveStep] by (auto simp: sample_staging_def)

theorem staging_no_deadlock_witness:
  "\<exists>s'. leads_to sample_staging s' \<and> prod s' = PHolding 2"
  using staging_no_deadlock [OF sample_reach, of 2] by (simp add: sample_staging_def)

end
