(* ===== verification/Log_Format.thy ===== *)
theory Log_Format
  imports Prelude
begin

text \<open>
  The two analyses of a log message's format string. At compile time \<open>NANO_LOG\<close> computes from it what
  each argument is (\<open>getParamInfo\<close> and what rests on it, \<^verbatim>\<open>src/runtime/NanoLogCpp17.h\<close>); the decoder cuts
  it into fragments with one conversion each (\<open>createMicroCode\<close>, \<^verbatim>\<open>src/runtime/Log.cc\<close>). The first
  decides what is written to the log and the second how it is read, so they have to agree.

  A position in a string is the rest of the string behind it. Strings end where the list ends; a
  read there gives the terminating zero.
\<close>

section \<open>Characters\<close>

definition isTerminal :: "char \<Rightarrow> bool" where
  "isTerminal c \<longleftrightarrow> c \<in> set ''diuoxXfFeEgGaAcp%sn''"

definition isFlag :: "char \<Rightarrow> bool" where
  "isFlag c \<longleftrightarrow> c \<in> set ''-+ #0''"

definition isLength :: "char \<Rightarrow> bool" where
  "isLength c \<longleftrightarrow> c \<in> set ''hljztL''"

definition isDigit :: "char \<Rightarrow> bool" where
  "isDigit c \<longleftrightarrow> c \<in> set ''0123456789''"

definition NUL :: char where
  "NUL = CHR 0x00"

definition peekc :: "string \<Rightarrow> char" where
  "peekc s = (case s of [] \<Rightarrow> NUL | c # _ \<Rightarrow> c)"

lemma peekc_simps [simp]: "peekc [] = NUL" "peekc (c # s) = c"
  by (simp_all add: peekc_def)

section \<open>The analysis at compile time\<close>

datatype param_type =
    INVALID | DYNAMIC_WIDTH | DYNAMIC_PRECISION | NON_STRING
  | STRING_WITH_DYNAMIC_PRECISION | STRING_WITH_NO_PRECISION | STRING nat

text \<open>
  What stops the compilation: the two exceptions, and the overflow of a signed integer in a constant
  expression.
\<close>

datatype fmt_error = UnrecognizedSpecifier | UnsupportedN | Overflow

type_synonym 'a fres = "fmt_error + 'a"

fun decimal :: "nat \<Rightarrow> string \<Rightarrow> nat" where
  "decimal acc [] = acc"
| "decimal acc (c # s) = decimal (10 * acc + (of_char c - 48)) s"

text \<open>
  The width and the precision of a conversion. \<open>Inl\<close> is the early return for a star that is the
  parameter asked for; otherwise the rest of the string, how many parameters are still to be
  skipped, and for the precision whether it is a star and its value.
\<close>

definition consume_width :: "string \<Rightarrow> nat \<Rightarrow> param_type + string \<times> nat" where
  "consume_width s paramNum =
     (if peekc s = CHR ''*'' then
        (if paramNum = 0 then Inl DYNAMIC_WIDTH else Inr (tl s, paramNum - 1))
      else Inr (dropWhile isDigit s, paramNum))"

definition consume_precision :: "string \<Rightarrow> nat \<Rightarrow> param_type + string \<times> nat \<times> bool \<times> nat option" where
  "consume_precision s paramNum =
     (if peekc s = CHR ''.'' then
        let s = tl s
        in if peekc s = CHR ''*'' then
             (if paramNum = 0 then Inl DYNAMIC_PRECISION else Inr (tl s, paramNum - 1, True, None))
           else Inr (dropWhile isDigit s, paramNum, False, Some (decimal 0 (takeWhile isDigit s)))
      else Inr (s, paramNum, False, None))"

lemma consume_width_shorter: "consume_width s p = Inr (s', p') \<Longrightarrow> length s' \<le> length s"
  by (auto simp: consume_width_def length_dropWhile_le split: if_splits)

lemma consume_precision_shorter: "consume_precision s p = Inr (s', p', d, q) \<Longrightarrow> length s' \<le> length s"
  using le_trans [OF length_dropWhile_le, of "tl s" "length s" isDigit]
  by (auto simp: consume_precision_def Let_def split: if_splits)

lemma conversion_shorter:
  assumes "consume_width (dropWhile isFlag s) p = Inr (s1, p1)" "consume_precision s1 p1 = Inr (s2, p2, d, q)"
  shows "length (dropWhile isLength s2) \<le> length s"
  using consume_width_shorter [OF assms(1)] consume_precision_shorter [OF assms(2)]
    length_dropWhile_le [of isLength s2] length_dropWhile_le [of isFlag s] by linarith

function (sequential) getParamInfo :: "string \<Rightarrow> nat \<Rightarrow> param_type fres" where
  "getParamInfo [] paramNum = Inr INVALID"
| "getParamInfo (c # s) paramNum =
     (if c \<noteq> CHR ''%'' then getParamInfo s paramNum
      else if peekc s = CHR ''%'' then getParamInfo (tl s) paramNum
      else case consume_width (dropWhile isFlag s) paramNum of
        Inl t \<Rightarrow> Inr t
      | Inr (s1, paramNum) \<Rightarrow>
          (case consume_precision s1 paramNum of
             Inl t \<Rightarrow> Inr t
           | Inr (s2, paramNum, hasDynamicPrecision, precision) \<Rightarrow>
               let s3 = dropWhile isLength s2
               in if case_option False (\<lambda>p. 2 ^ 31 \<le> p) precision then Inl Overflow
                  else if \<not> isTerminal (peekc s3) then Inl UnrecognizedSpecifier
                  else if peekc s3 = CHR ''n'' then Inl UnsupportedN
                  else if paramNum \<noteq> 0 then getParamInfo (tl s3) (paramNum - 1)
                  else if peekc s3 \<noteq> CHR ''s'' then Inr NON_STRING
                  else if hasDynamicPrecision then Inr STRING_WITH_DYNAMIC_PRECISION
                  else (case precision of None \<Rightarrow> Inr STRING_WITH_NO_PRECISION | Some p \<Rightarrow> Inr (STRING p))))"
  by pat_completeness auto
termination
  by (relation "measure (length \<circ> fst)") (auto dest: conversion_shorter simp: less_Suc_eq_le)

text \<open>A parameter takes at least one character of the format, so counting them ends.\<close>

lemma getParamInfo_short: "getParamInfo s n = Inr t \<Longrightarrow> length s \<le> n \<Longrightarrow> t = INVALID"
proof (induction s n rule: getParamInfo.induct)
  case (2 c s n)
  show ?case
  proof (cases "c = CHR ''%'' \<and> peekc s \<noteq> CHR ''%''")
    case False
    then show ?thesis using 2 by (cases "c = CHR ''%''") auto
  next
    case True
    define s0 where "s0 = dropWhile isFlag s"
    have s0: "length s0 < n"
      using 2(5) length_dropWhile_le [of isFlag s] by (simp add: s0_def)
    obtain s1 n1 where w: "consume_width s0 n = Inr (s1, n1)"
      using s0 by (cases "peekc s0 = CHR ''*''") (auto simp: consume_width_def)
    have s1: "length s1 < n1"
      using w s0 length_dropWhile_le [of isDigit s0]
      by (cases s0) (auto simp: consume_width_def NUL_def split: if_splits)
    obtain s2 n2 d q where p: "consume_precision s1 n1 = Inr (s2, n2, d, q)"
      using s1 by (cases "peekc s1 = CHR ''.''"; cases "peekc (tl s1) = CHR ''*''")
        (auto simp: consume_precision_def Let_def)
    have s2: "length s2 < n2"
      using p s1 length_dropWhile_le [of isDigit "tl s1"]
      by (cases s1; cases "tl s1") (auto simp: consume_precision_def NUL_def Let_def split: if_splits)
    define s3 where "s3 = dropWhile isLength s2"
    have s3: "length s3 < n2" using s2 length_dropWhile_le [of isLength s2] by (simp add: s3_def)
    show ?thesis
      using 2(4) True w p s3 2(3) [of "(s1, n1)" s1 n1] 
      by (auto simp: s0_def s3_def Let_def split: if_splits)
  qed
qed simp

function count_loop :: "string \<Rightarrow> nat \<Rightarrow> nat fres" where
  "count_loop fmt count =
     (case getParamInfo fmt count of
        Inl e \<Rightarrow> Inl e
      | Inr t \<Rightarrow> if t \<noteq> INVALID then count_loop fmt (count + 1) else Inr count)"
  by pat_completeness auto
termination
  by (relation "measure (\<lambda>(fmt, count). length fmt - count)")
    (auto dest: getParamInfo_short simp: not_le [symmetric] intro!: diff_less_mono2)

declare count_loop.simps [simp del]

definition countFmtParams :: "string \<Rightarrow> nat fres" where
  "countFmtParams fmt = count_loop fmt 0"

fun analyze_indices :: "string \<Rightarrow> nat list \<Rightarrow> param_type list fres" where
  "analyze_indices fmt [] = Inr []"
| "analyze_indices fmt (i # is) =
     res_bind (getParamInfo fmt i) (\<lambda>t. res_bind (analyze_indices fmt is) (\<lambda>ts. Inr (t # ts)))"

definition analyzeFormatString :: "nat \<Rightarrow> string \<Rightarrow> param_type list fres" where
  "analyzeFormatString nParams fmt = analyze_indices fmt [0..<nParams]"

fun nibbles_loop :: "string \<Rightarrow> nat list \<Rightarrow> nat \<Rightarrow> nat fres" where
  "nibbles_loop fmt [] numNibbles = Inr numNibbles"
| "nibbles_loop fmt (i # is) numNibbles =
     res_bind (getParamInfo fmt i) (\<lambda>t.
       nibbles_loop fmt is
         (if t = NON_STRING \<or> t = DYNAMIC_PRECISION \<or> t = DYNAMIC_WIDTH then numNibbles + 1 else numNibbles))"

definition getNumNibblesNeeded :: "string \<Rightarrow> nat fres" where
  "getNumNibblesNeeded fmt = res_bind (countFmtParams fmt) (\<lambda>n. nibbles_loop fmt [0..<n] 0)"

section \<open>The decoder's conversion types\<close>

datatype format_type =
    NONE
  | unsigned_char_t | unsigned_short_int_t | unsigned_int_t | unsigned_long_int_t
  | unsigned_long_long_int_t | uintmax_t_t | size_t_t | wint_t_t
  | signed_char_t | short_int_t | int_t | long_int_t | long_long_int_t | intmax_t_t | ptrdiff_t_t
  | double_t | long_double_t | const_void_ptr_t | const_char_ptr_t | const_wchar_t_ptr_t
  | MAX_FORMAT_TYPE

definition getFormatType :: "string \<Rightarrow> char \<Rightarrow> format_type" where
  "getFormatType len specifier =
     (if specifier \<in> set ''di'' then
        (if len = [] then int_t
         else if length len = 2 \<and> peekc len = CHR ''h'' then signed_char_t
         else if length len = 2 \<and> peekc len = CHR ''l'' then long_long_int_t
         else if peekc len = CHR ''h'' then short_int_t
         else if peekc len = CHR ''l'' then long_int_t
         else if peekc len = CHR ''j'' then intmax_t_t
         else if peekc len = CHR ''z'' then size_t_t
         else if peekc len = CHR ''t'' then ptrdiff_t_t
         else MAX_FORMAT_TYPE)
      else if specifier \<in> set ''uoxX'' then
        (if len = [] then unsigned_int_t
         else if length len = 2 \<and> peekc len = CHR ''h'' then unsigned_char_t
         else if length len = 2 \<and> peekc len = CHR ''l'' then unsigned_long_long_int_t
         else if peekc len = CHR ''h'' then unsigned_short_int_t
         else if peekc len = CHR ''l'' then unsigned_long_int_t
         else if peekc len = CHR ''j'' then uintmax_t_t
         else if peekc len = CHR ''z'' then size_t_t
         else if peekc len = CHR ''t'' then ptrdiff_t_t
         else MAX_FORMAT_TYPE)
      else if specifier = CHR ''s'' then
        (if len = [] then const_char_ptr_t
         else if peekc len = CHR ''l'' then const_wchar_t_ptr_t
         else MAX_FORMAT_TYPE)
      else if specifier = CHR ''p'' then (if len = [] then const_void_ptr_t else MAX_FORMAT_TYPE)
      else if specifier \<in> set ''fFeEgGaA'' then
        (if length len = 1 \<and> peekc len = CHR ''L'' then long_double_t else double_t)
      else if specifier = CHR ''c'' then
        (if len = [] then int_t
         else if peekc len = CHR ''l'' then wint_t_t
         else MAX_FORMAT_TYPE)
      else MAX_FORMAT_TYPE)"

section \<open>The regular expression\<close>

text \<open>
  What the decoder searches for is \<^verbatim>\<open>^%([-+ #0]+)?([\d]+|\*)?(\.(\d+|\*))?(hh|h|l|ll|j|z|Z|t|L)?[...]\<close> with
  the specifiers in the last brackets. A part of it is a function to all its matches
  with the rest of the string, in the order in which backtracking tries them; the match is the first.
\<close>

type_synonym matcher = "string \<Rightarrow> (string \<times> string) list"

definition rx_many1 :: "(char \<Rightarrow> bool) \<Rightarrow> matcher" where
  "rx_many1 P s = map (\<lambda>n. (take n s, drop n s)) (rev [1..<length (takeWhile P s) + 1])"

definition rx_lit :: "string \<Rightarrow> matcher" where
  "rx_lit w s = (if take (length w) s = w then [(w, drop (length w) s)] else [])"

definition rx_alt :: "matcher list \<Rightarrow> matcher" where
  "rx_alt ps s = concat (map (\<lambda>p. p s) ps)"

definition rx_opt :: "matcher \<Rightarrow> matcher" where
  "rx_opt p s = p s @ [([], s)]"

definition rx_then :: "matcher \<Rightarrow> (string \<Rightarrow> string \<Rightarrow> 'a list) \<Rightarrow> string \<Rightarrow> 'a list" where
  "rx_then p f s = concat (map (\<lambda>(w, s'). f w s') (p s))"

definition rx_class :: "(char \<Rightarrow> bool) \<Rightarrow> matcher" where
  "rx_class P s = (case s of [] \<Rightarrow> [] | c # s' \<Rightarrow> if P c then [([c], s')] else [])"

definition rx_num :: matcher where
  "rx_num = rx_alt [rx_many1 isDigit, rx_lit ''*'']"

definition rx_lengths :: "string list" where
  "rx_lengths = [''hh'', ''h'', ''l'', ''ll'', ''j'', ''z'', ''Z'', ''t'', ''L'']"

text \<open>What is captured: width, precision, length and specifier; and the rest of the string.\<close>

type_synonym spec_match = "string \<times> string \<times> string \<times> char \<times> string"

definition spec_matches :: "string \<Rightarrow> spec_match list" where
  "spec_matches =
     rx_then (rx_lit ''%'') (\<lambda>_.
     rx_then (rx_opt (rx_many1 isFlag)) (\<lambda>_.
     rx_then (rx_opt rx_num) (\<lambda>width.
     rx_then (rx_opt (rx_then (rx_lit ''.'') (\<lambda>_. rx_num))) (\<lambda>precision.
     rx_then (rx_opt (rx_alt (map rx_lit rx_lengths))) (\<lambda>len.
     rx_then (rx_class (\<lambda>c. c \<in> set ''diuoxXfFeEgGaAcspn'')) (\<lambda>c rest.
       [(width, precision, len, peekc c, rest)]))))))"

definition regex_search :: "string \<Rightarrow> spec_match option" where
  "regex_search s = (case spec_matches s of [] \<Rightarrow> None | m # _ \<Rightarrow> Some m)"

text \<open>A match takes characters.\<close>

definition matcher_le :: "matcher \<Rightarrow> bool" where
  "matcher_le p \<longleftrightarrow> (\<forall>s w s'. (w, s') \<in> set (p s) \<longrightarrow> length s' \<le> length s)"

lemma matcher_le_intros:
  "matcher_le (rx_many1 P)" "matcher_le (rx_lit v)" "matcher_le (rx_class P)"
  "matcher_le p \<Longrightarrow> matcher_le (rx_opt p)"
  "(\<And>p. p \<in> set ps \<Longrightarrow> matcher_le p) \<Longrightarrow> matcher_le (rx_alt ps)"
  by (auto simp: matcher_le_def rx_many1_def rx_lit_def rx_class_def rx_opt_def rx_alt_def
      split: if_splits list.splits)

lemma matcher_le_then: "matcher_le p \<Longrightarrow> (\<And>v. matcher_le (f v)) \<Longrightarrow> matcher_le (rx_then p f)"
  by (fastforce simp: matcher_le_def rx_then_def dest: le_trans)

lemma matcher_leD: "matcher_le p \<Longrightarrow> (w, s') \<in> set (p s) \<Longrightarrow> length s' \<le> length s"
  by (auto simp: matcher_le_def)

lemma rx_num_le: "matcher_le rx_num"
  unfolding rx_num_def by (intro matcher_le_intros) (auto intro: matcher_le_intros)

lemma in_rx_then: "x \<in> set (rx_then p f s) \<longleftrightarrow> (\<exists>w s'. (w, s') \<in> set (p s) \<and> x \<in> set (f w s'))"
  by (fastforce simp: rx_then_def)

lemma spec_matches_shorter:
  assumes "(w, p, l, c, r) \<in> set (spec_matches s)"
  shows "length r < length s"
proof -
  obtain s1 s2 s3 s4 s5 v1 v2 v6 where
    "(v1, s1) \<in> set (rx_lit ''%'' s)" "(v2, s2) \<in> set (rx_opt (rx_many1 isFlag) s1)"
    "(w, s3) \<in> set (rx_opt rx_num s2)"
    "(p, s4) \<in> set (rx_opt (rx_then (rx_lit ''.'') (\<lambda>_. rx_num)) s3)"
    "(l, s5) \<in> set (rx_opt (rx_alt (map rx_lit rx_lengths)) s4)"
    "(v6, r) \<in> set (rx_class (\<lambda>c. c \<in> set ''diuoxXfFeEgGaAcspn'') s5)"
    using assms unfolding spec_matches_def in_rx_then by auto
  moreover have "length s1 < length s" using calculation(1) by (cases s) (auto simp: rx_lit_def split: if_splits)
  moreover have "matcher_le (rx_opt (rx_alt (map rx_lit rx_lengths)))"
    by (intro matcher_le_intros) (auto intro: matcher_le_intros)
  moreover have "matcher_le (rx_opt (rx_then (rx_lit ''.'') (\<lambda>_. rx_num)))"
    by (intro matcher_le_intros matcher_le_then rx_num_le)
  ultimately show ?thesis
    using matcher_leD [OF matcher_le_intros(4) [OF matcher_le_intros(1)]] matcher_leD [OF matcher_le_intros(4) [OF rx_num_le]]
      matcher_leD [OF matcher_le_intros(3)] matcher_leD
    by (meson le_less_trans)
qed

lemma regex_search_shorter: "regex_search s = Some (w, p, l, c, r) \<Longrightarrow> length r < length s"
  by (rule spec_matches_shorter [of w p l c]) (auto simp: regex_search_def split: list.splits)

section \<open>The decoder's fragments\<close>

record print_fragment =
  argType :: format_type
  hasDynamicWidth :: bool
  hasDynamicPrecision :: bool
  fragmentLength :: u16
  formatFragment :: string

record format_metadata =
  md_numNibbles :: u8
  numPrintFragments :: u8
  logLevel :: u8
  lineNumber :: u32
  filenameLength :: u16
  filename :: string
  fragments :: "print_fragment list"

text \<open>
  A fragment is the text since the last one. Its length, with a terminating zero, is cut to 16 bits
  and so is what is copied; of a length that is zero after that, the zero lands before the fragment.
\<close>

definition make_fragment :: "string \<Rightarrow> string \<Rightarrow> format_type \<Rightarrow> string \<Rightarrow> print_fragment cres" where
  "make_fragment width precision type text =
     (let len = of_nat (length text + 1)
      in if len = 0 then Inl Fault
         else Inr \<lparr>argType = type,
                   hasDynamicWidth = (width \<noteq> [] \<and> peekc width = CHR ''*''),
                   hasDynamicPrecision = (precision \<noteq> [] \<and> peekc precision = CHR ''*''),
                   fragmentLength = len, formatFragment = take (unat len - 1) text\<rparr>)"

text \<open>
  The loop over the string: the rest of it, the count of percent signs in a row, the text since
  the last fragment, the fragments and the number of nibbles. A conversion of no known type makes
  the function return false.
\<close>

function (sequential) micro_loop ::
  "string \<Rightarrow> nat \<Rightarrow> string \<Rightarrow> print_fragment list \<Rightarrow> u8 \<Rightarrow> (string \<times> print_fragment list \<times> u8) cres" where
  "micro_loop [] consecutivePercents text frags nibs = Inr (text, frags, nibs)"
| "micro_loop (c # s) consecutivePercents text frags nibs =
     (if c = CHR 0x5C then micro_loop (drop 1 s) consecutivePercents (text @ take 2 (c # s)) frags nibs
      else if c \<noteq> CHR ''%'' then micro_loop s 0 (text @ [c]) frags nibs
      else let consecutivePercents = consecutivePercents + 1
           in if even consecutivePercents then micro_loop s consecutivePercents (text @ [c]) frags nibs
              else case regex_search (c # s) of
                     None \<Rightarrow> micro_loop s consecutivePercents (text @ [c]) frags nibs
                   | Some (width, precision, len, specifier, rest) \<Rightarrow>
                       let type = getFormatType len specifier
                       in if type = MAX_FORMAT_TYPE then Inl (Err EINVAL)
                          else res_bind (make_fragment width precision type
                                           (text @ take (length (c # s) - length rest) (c # s))) (\<lambda>pf.
                                 let nibs = (if specifier \<noteq> CHR ''s'' then nibs + 1 else nibs);
                                     nibs = (if hasDynamicWidth pf then nibs + 1 else nibs);
                                     nibs = (if hasDynamicPrecision pf then nibs + 1 else nibs)
                                 in micro_loop rest 0 [] (frags @ [pf]) nibs))"
  by pat_completeness auto
termination
  by (relation "measure (\<lambda>(s, _). length s)") (auto dest: regex_search_shorter)

text \<open>The rest of the string behind the last conversion is appended to the last fragment.\<close>

definition extend_fragment :: "print_fragment \<Rightarrow> string \<Rightarrow> print_fragment cres" where
  "extend_fragment pf ending =
     (let len = unat (fragmentLength pf) - 1 + (length ending + 1)
      in if 2 ^ 16 \<le> len then Inl Fault
         else Inr (pf\<lparr>formatFragment := formatFragment pf @ ending, fragmentLength := of_nat len\<rparr>))"

definition createMicroCode :: "string \<Rightarrow> string \<Rightarrow> u32 \<Rightarrow> u8 \<Rightarrow> format_metadata cres" where
  "createMicroCode formatString fname linenum severity =
     res_bind (micro_loop formatString 0 [] [] 0) (\<lambda>(ending, frags, nibs).
       let fm = (\<lambda>n frags. \<lparr>md_numNibbles = nibs, numPrintFragments = of_nat n, logLevel = severity,
                    lineNumber = linenum, filenameLength = of_nat (length fname + 1), filename = fname,
                    fragments = frags\<rparr>)
       in if frags = [] then
            (if 2 ^ 16 \<le> length formatString + 1 then Inl Fault
             else Inr (fm 1 [\<lparr>argType = NONE, hasDynamicWidth = False, hasDynamicPrecision = False,
                           fragmentLength = of_nat (length formatString + 1),
                           formatFragment = formatString\<rparr>]))
          else res_bind (extend_fragment (last frags) ending) (\<lambda>pf.
                 Inr (fm (length frags) (butlast frags @ [pf]))))"

section \<open>Well-formed formats\<close>

text \<open>
  The formats that both analyses are for: literal text, doubled percent signs and conversions of
  a known type, in which a precision has digits and, as C has it, a leading zero of a number is a flag.
  Text with a backslash is left out; what happens to it is shown below.
\<close>

datatype number = Digits string | Star

datatype piece =
    Literal string
  | Percent
  | Conversion string "number option" "number option" string char

fun number_text :: "number \<Rightarrow> string" where
  "number_text (Digits ds) = ds"
| "number_text Star = ''*''"

definition width_text :: "number option \<Rightarrow> string" where
  "width_text w = (case w of None \<Rightarrow> [] | Some n \<Rightarrow> number_text n)"

definition precision_text :: "number option \<Rightarrow> string" where
  "precision_text p = (case p of None \<Rightarrow> [] | Some n \<Rightarrow> ''.'' @ number_text n)"

fun piece_text :: "piece \<Rightarrow> string" where
  "piece_text (Literal s) = s"
| "piece_text Percent = ''%%''"
| "piece_text (Conversion flags w p len c) = ''%'' @ flags @ width_text w @ precision_text p @ len @ [c]"

abbreviation format_text :: "piece list \<Rightarrow> string" where
  "format_text ps \<equiv> concat (map piece_text ps)"

definition star_params :: "number option \<Rightarrow> number option \<Rightarrow> param_type list" where
  "star_params w p =
     (if w = Some Star then [DYNAMIC_WIDTH] else []) @ (if p = Some Star then [DYNAMIC_PRECISION] else [])"

fun piece_params :: "piece \<Rightarrow> param_type list" where
  "piece_params (Conversion flags w p len c) =
     star_params w p @
     [if c \<noteq> CHR ''s'' then NON_STRING
      else case p of
        None \<Rightarrow> STRING_WITH_NO_PRECISION
      | Some Star \<Rightarrow> STRING_WITH_DYNAMIC_PRECISION
      | Some (Digits ds) \<Rightarrow> STRING (decimal 0 ds)]"
| "piece_params _ = []"

abbreviation format_params :: "piece list \<Rightarrow> param_type list" where
  "format_params ps \<equiv> concat (map piece_params ps)"

fun wf_piece :: "piece \<Rightarrow> bool" where
  "wf_piece (Literal s) \<longleftrightarrow> (\<forall>c \<in> set s. c \<noteq> CHR ''%'' \<and> c \<noteq> CHR 0x5C \<and> c \<noteq> NUL)"
| "wf_piece Percent \<longleftrightarrow> True"
| "wf_piece (Conversion flags w p len c) \<longleftrightarrow>
     list_all isFlag flags \<and>
     (\<forall>ds. w = Some (Digits ds) \<longrightarrow> ds \<noteq> [] \<and> list_all isDigit ds \<and> hd ds \<noteq> CHR ''0'') \<and>
     (\<forall>ds. p = Some (Digits ds) \<longrightarrow> ds \<noteq> [] \<and> list_all isDigit ds \<and> decimal 0 ds < 2 ^ 31) \<and>
     len \<in> insert [] (set rx_lengths) \<and> len \<noteq> ''Z'' \<and>
     c \<in> set ''diuoxXfFeEgGaAcsp'' \<and> getFormatType len c \<noteq> MAX_FORMAT_TYPE"

text \<open>The characters of a conversion, and where a part of it ends.\<close>

lemmas char_class_defs = isFlag_def isDigit_def isLength_def isTerminal_def

lemma dropWhile_prefix: "list_all P xs \<Longrightarrow> \<not> P (peekc ys) \<or> ys = [] \<Longrightarrow> dropWhile P (xs @ ys) = ys"
  by (induction xs) (cases ys, auto)+

lemma takeWhile_prefix: "list_all P xs \<Longrightarrow> \<not> P (peekc ys) \<or> ys = [] \<Longrightarrow> takeWhile P (xs @ ys) = xs"
  by (induction xs) (cases ys, auto)+

lemma peekc_append: "peekc (xs @ ys) = (if xs = [] then peekc ys else hd xs)"
  by (cases xs) auto

definition ends_conversion :: "string \<Rightarrow> char \<Rightarrow> bool" where
  "ends_conversion len c \<longleftrightarrow>
     len \<in> insert [] (set rx_lengths) \<and> len \<noteq> ''Z'' \<and> c \<in> set ''diuoxXfFeEgGaAcsp''"

lemma conversion_tail_start:
  assumes "ends_conversion len c" "t = len @ c # rest"
  shows "\<not> isFlag (peekc t)" "\<not> isDigit (peekc t)" "peekc t \<noteq> CHR ''%''" "peekc t \<noteq> CHR ''*''" "peekc t \<noteq> CHR ''.''"
    "dropWhile isLength t = c # rest"
proof -
  have "\<not> isFlag (peekc t) \<and> \<not> isDigit (peekc t) \<and> peekc t \<noteq> CHR ''%'' \<and> peekc t \<noteq> CHR ''*'' \<and> peekc t \<noteq> CHR ''.'' \<and>
    dropWhile isLength t = c # rest"
    using assms(1) unfolding assms(2) ends_conversion_def rx_lengths_def
    by (elim conjE) (simp only: set_simps insert_iff empty_iff, elim disjE; simp add: char_class_defs)
  then show "\<not> isFlag (peekc t)" "\<not> isDigit (peekc t)" "peekc t \<noteq> CHR ''%''" "peekc t \<noteq> CHR ''*''" "peekc t \<noteq> CHR ''.''"
    "dropWhile isLength t = c # rest" by auto
qed

lemma digits_start: "list_all isDigit ds \<Longrightarrow> ds \<noteq> [] \<Longrightarrow> isDigit (hd ds)"
  by (cases ds) auto

lemma isDigit_not: "isDigit c \<Longrightarrow> c \<noteq> CHR ''%'' \<and> c \<noteq> CHR ''*'' \<and> c \<noteq> CHR ''.''"
  "isDigit c \<Longrightarrow> isFlag c \<longleftrightarrow> c = CHR ''0''"
  by (auto simp: char_class_defs)

lemma precision_start:
  assumes "wf_piece (Conversion flags w p len c)" "v = precision_text p @ len @ c # rest"
  shows "\<not> isFlag (peekc v)" "\<not> isDigit (peekc v)" "peekc v \<noteq> CHR ''%''" "peekc v \<noteq> CHR ''*''"
proof -
  have e: "ends_conversion len c" using assms(1) by (simp add: ends_conversion_def)
  have "\<not> isFlag (peekc v) \<and> \<not> isDigit (peekc v) \<and> peekc v \<noteq> CHR ''%'' \<and> peekc v \<noteq> CHR ''*''"
    using conversion_tail_start [OF e refl] unfolding assms(2)
    by (cases p) (simp_all add: precision_text_def char_class_defs)
  then show "\<not> isFlag (peekc v)" "\<not> isDigit (peekc v)" "peekc v \<noteq> CHR ''%''" "peekc v \<noteq> CHR ''*''"
    by auto
qed

lemma width_start:
  assumes "wf_piece (Conversion flags w p len c)" "u = width_text w @ precision_text p @ len @ c # rest"
  shows "\<not> isFlag (peekc u)" "peekc u \<noteq> CHR ''%''"
proof -
  have "\<not> isFlag (peekc u) \<and> peekc u \<noteq> CHR ''%''"
  proof (cases w)
    case None
    then show ?thesis using precision_start [OF assms(1) refl] by (simp add: assms(2) width_text_def)
  next
    case (Some num)
    show ?thesis
    proof (cases num)
      case (Digits ds)
      then have "ds \<noteq> []" "isDigit (hd ds)" "hd ds \<noteq> CHR ''0''"
        using assms(1) Some by (auto dest: digits_start)
      then show ?thesis
        using isDigit_not [of "hd ds"] by (simp add: assms(2) width_text_def Some Digits peekc_append)
    qed (simp add: assms(2) width_text_def Some char_class_defs)
  qed
  then show "\<not> isFlag (peekc u)" "peekc u \<noteq> CHR ''%''" by auto
qed

lemma consume_width_conversion:
  assumes "wf_piece (Conversion flags w p len c)" "v = precision_text p @ len @ c # rest"
  shows "consume_width (width_text w @ v) n =
    (if w = Some Star then if n = 0 then Inl DYNAMIC_WIDTH else Inr (v, n - 1) else Inr (v, n))"
proof (cases w)
  case None
  have "dropWhile isDigit v = v"
    using dropWhile_prefix [of isDigit "[]" v] precision_start [OF assms] by simp
  then show ?thesis using precision_start [OF assms] by (simp add: consume_width_def width_text_def None)
next
  case (Some num)
  show ?thesis
  proof (cases num)
    case (Digits ds)
    then have d: "ds \<noteq> []" "list_all isDigit ds" using assms(1) Some by auto
    then have "dropWhile isDigit (ds @ v) = v" using precision_start [OF assms] by (intro dropWhile_prefix) auto
    then show ?thesis
      using isDigit_not(1) [OF digits_start [OF d(2,1)]] d(1)
      by (simp add: consume_width_def width_text_def Some Digits peekc_append)
  qed (simp add: consume_width_def width_text_def Some)
qed

lemma consume_precision_conversion:
  assumes "wf_piece (Conversion flags w p len c)" "t = len @ c # rest"
  shows "consume_precision (precision_text p @ t) n =
    (case p of
       None \<Rightarrow> Inr (t, n, False, None)
     | Some Star \<Rightarrow> if n = 0 then Inl DYNAMIC_PRECISION else Inr (t, n - 1, True, None)
     | Some (Digits ds) \<Rightarrow> Inr (t, n, False, Some (decimal 0 ds)))"
proof -
  have e: "ends_conversion len c" using assms(1) by (simp add: ends_conversion_def)
  note start = conversion_tail_start [OF e assms(2)]
  show ?thesis
  proof (cases p)
    case None
    then show ?thesis using start by (simp add: consume_precision_def precision_text_def)
  next
    case (Some num)
    show ?thesis
    proof (cases num)
      case (Digits ds)
      then have d: "ds \<noteq> []" "list_all isDigit ds" using assms(1) Some by auto
      then have "dropWhile isDigit (ds @ t) = t" "takeWhile isDigit (ds @ t) = ds"
        using start by (intro dropWhile_prefix takeWhile_prefix; auto)+
      then show ?thesis
        using isDigit_not(1) [OF digits_start [OF d(2,1)]] d(1)
        by (simp add: consume_precision_def precision_text_def Some Digits peekc_append Let_def)
    qed (simp add: consume_precision_def precision_text_def Some)
  qed
qed

lemma getParamInfo_conversion:
  assumes wf: "wf_piece (Conversion flags w p len c)"
  shows "getParamInfo (piece_text (Conversion flags w p len c) @ rest) n =
    (let ts = piece_params (Conversion flags w p len c)
     in if n < length ts then Inr (ts ! n) else getParamInfo rest (n - length ts))"
proof -
  define t where "t = len @ c # rest"
  define v where "v = precision_text p @ t"
  define u where "u = width_text w @ v"
  have e: "ends_conversion len c" using wf by (simp add: ends_conversion_def)
  note tail = conversion_tail_start [OF e t_def]
  note u = width_start [OF wf u_def [unfolded v_def t_def]]
  have fl: "list_all isFlag flags" using wf by simp
  have fmt: "piece_text (Conversion flags w p len c) @ rest = CHR ''%'' # flags @ u"
    by (simp add: u_def v_def t_def)
  have "peekc (flags @ u) \<noteq> CHR ''%''"
    using fl u(2) by (cases flags) (auto simp: char_class_defs)
  moreover have "dropWhile isFlag (flags @ u) = u" using fl u(1) by (intro dropWhile_prefix) auto
  moreover note consume_width_conversion [OF wf v_def [unfolded t_def], folded u_def]
    consume_precision_conversion [OF wf t_def, folded v_def]
  moreover have "c \<noteq> CHR ''n''" "isTerminal c" using wf by (auto simp: char_class_defs)
  ultimately show ?thesis
    unfolding fmt using tail(6) wf
    by (cases p; cases "the p"; cases n; cases "n - 1") (simp_all add: star_params_def Let_def)
qed

lemma getParamInfo_literal: "wf_piece (Literal s) \<Longrightarrow> getParamInfo (s @ rest) n = getParamInfo rest n"
  by (induction s) auto

lemma getParamInfo_format:
  "list_all wf_piece ps \<Longrightarrow>
     getParamInfo (format_text ps) n =
       Inr (if n < length (format_params ps) then format_params ps ! n else INVALID)"
proof (induction ps arbitrary: n)
  case (Cons q ps)
  show ?case
  proof (cases q)
    case (Literal s)
    then show ?thesis using Cons getParamInfo_literal [of s "format_text ps" n] by simp
  next
    case Percent
    then show ?thesis using Cons by simp
  next
    case (Conversion flags w p len c)
    then show ?thesis
      using Cons getParamInfo_conversion [of flags w p len c "format_text ps" n]
      by (auto simp: Let_def nth_append simp del: wf_piece.simps piece_text.simps piece_params.simps)
  qed
qed simp

lemma format_params_valid: "INVALID \<notin> set (format_params ps)"
proof -
  have "INVALID \<notin> set (piece_params q)" for q
    by (cases q) (auto simp: star_params_def split: option.splits number.splits if_splits)
  then show ?thesis by auto
qed

lemma count_loop_format:
  assumes "list_all wf_piece ps" "n \<le> length (format_params ps)"
  shows "count_loop (format_text ps) n = Inr (length (format_params ps))"
  using assms(2)
proof (induction "length (format_params ps) - n" arbitrary: n)
  case 0
  then show ?case using getParamInfo_format [OF assms(1), of n] by (simp add: count_loop.simps)
next
  case (Suc k)
  then have n: "n < length (format_params ps)" by simp
  then have "format_params ps ! n \<noteq> INVALID" using format_params_valid nth_mem by metis
  moreover have "count_loop (format_text ps) (n + 1) = Inr (length (format_params ps))"
    using Suc.hyps(2) n by (intro Suc.hyps(1)) auto
  ultimately show ?case
    using getParamInfo_format [OF assms(1), of n] n by (subst count_loop.simps) simp
qed

lemma countFmtParams_format: "list_all wf_piece ps \<Longrightarrow> countFmtParams (format_text ps) = Inr (length (format_params ps))"
  by (simp add: countFmtParams_def count_loop_format)

lemma analyze_indices_format:
  "list_all wf_piece ps \<Longrightarrow> \<forall>i \<in> set is. i < length (format_params ps) \<Longrightarrow>
     analyze_indices (format_text ps) is = Inr (map (\<lambda>i. format_params ps ! i) is)"
  by (induction "is") (auto simp: getParamInfo_format)

lemma analyzeFormatString_format:
  "list_all wf_piece ps \<Longrightarrow>
     analyzeFormatString (length (format_params ps)) (format_text ps) = Inr (format_params ps)"
  by (simp add: analyzeFormatString_def analyze_indices_format map_nth)

definition takes_nibble :: "param_type \<Rightarrow> bool" where
  "takes_nibble t \<longleftrightarrow> t = NON_STRING \<or> t = DYNAMIC_PRECISION \<or> t = DYNAMIC_WIDTH"

lemma nibbles_loop_format:
  "list_all wf_piece ps \<Longrightarrow> \<forall>i \<in> set is. i < length (format_params ps) \<Longrightarrow>
     nibbles_loop (format_text ps) is k =
       Inr (k + length (filter takes_nibble (map (\<lambda>i. format_params ps ! i) is)))"
  by (induction "is" arbitrary: k) (auto simp: getParamInfo_format takes_nibble_def)

lemma getNumNibblesNeeded_format:
  "list_all wf_piece ps \<Longrightarrow>
     getNumNibblesNeeded (format_text ps) = Inr (length (filter takes_nibble (format_params ps)))"
  by (simp add: getNumNibblesNeeded_def countFmtParams_format nibbles_loop_format map_nth)

section \<open>The decoder on well-formed formats\<close>

lemma rx_many1_prefix:
  assumes "list_all P xs" "\<not> P (peekc ys) \<or> ys = []"
  shows "xs = [] \<Longrightarrow> rx_many1 P (xs @ ys) = []"
    and "xs \<noteq> [] \<Longrightarrow> \<exists>ms. rx_many1 P (xs @ ys) = (xs, ys) # ms"
    and "\<exists>ms. rx_opt (rx_many1 P) (xs @ ys) = (xs, ys) # ms"
proof -
  show none: "xs = [] \<Longrightarrow> rx_many1 P (xs @ ys) = []"
    using takeWhile_prefix [OF assms] by (auto simp: rx_many1_def)
  show some: "xs \<noteq> [] \<Longrightarrow> \<exists>ms. rx_many1 P (xs @ ys) = (xs, ys) # ms"
    using takeWhile_prefix [OF assms] by (cases xs) (auto simp: rx_many1_def)
  show "\<exists>ms. rx_opt (rx_many1 P) (xs @ ys) = (xs, ys) # ms"
    using none some by (cases xs) (auto simp: rx_opt_def)
qed

lemma rx_lit_one: "rx_lit [c] s = (if peekc s = c \<and> s \<noteq> [] then [([c], tl s)] else [])"
  by (cases s) (auto simp: rx_lit_def)

lemma rx_then_first:
  assumes "p s = (w, s') # ms" "\<exists>xs. f w s' = x # xs"
  shows "\<exists>ys. rx_then p f s = x # ys"
  using assms by (auto simp: rx_then_def)

lemma rx_num_first:
  assumes "\<not> isDigit (peekc v)" "peekc v \<noteq> CHR ''*''"
    "\<forall>ds. w = Some (Digits ds) \<longrightarrow> ds \<noteq> [] \<and> list_all isDigit ds"
  shows "w \<noteq> None \<Longrightarrow> \<exists>ms. rx_num (width_text w @ v) = (width_text w, v) # ms"
    and "\<exists>ms. rx_opt rx_num (width_text w @ v) = (width_text w, v) # ms"
proof -
  have star: "\<not> isDigit CHR ''*''" by (simp add: isDigit_def)
  have none: "rx_num v = []"
    using assms(1,2) rx_many1_prefix(1) [of isDigit "[]" v] by (simp add: rx_num_def rx_alt_def rx_lit_one)
  show some: "\<exists>ms. rx_num (width_text w @ v) = (width_text w, v) # ms" if w: "w \<noteq> None"
  proof (cases "the w")
    case (Digits ds)
    then have d: "ds \<noteq> []" "list_all isDigit ds" and wt: "width_text w = ds"
      using assms(3) w by (auto simp: width_text_def)
    obtain ms where "rx_many1 isDigit (ds @ v) = (ds, v) # ms"
      using rx_many1_prefix(2) [of isDigit ds v] d assms(1) by auto
    then show ?thesis unfolding wt by (simp add: rx_num_def rx_alt_def)
  next
    case Star
    then have wt: "width_text w = ''*''" using w by (auto simp: width_text_def)
    have "rx_many1 isDigit ([] @ (''*'' @ v)) = []"
      using rx_many1_prefix(1) [of isDigit "[]" "''*'' @ v"] star by simp
    then show ?thesis unfolding wt by (simp add: rx_num_def rx_alt_def rx_lit_one)
  qed
  show "\<exists>ms. rx_opt rx_num (width_text w @ v) = (width_text w, v) # ms"
    using some none by (cases w) (auto simp: rx_opt_def width_text_def)
qed

lemma rx_precision_first:
  assumes "wf_piece (Conversion flags w p len c)" "t = len @ c # rest"
  shows "\<exists>ms. rx_opt (rx_then (rx_lit ''.'') (\<lambda>_. rx_num)) (precision_text p @ t) = (width_text p, t) # ms"
proof -
  have e: "ends_conversion len c" using assms(1) by (simp add: ends_conversion_def)
  note start = conversion_tail_start [OF e assms(2)]
  show ?thesis
  proof (cases p)
    case None
    then show ?thesis
      using start by (simp add: rx_opt_def rx_then_def rx_lit_one precision_text_def width_text_def)
  next
    case (Some num)
    have "\<exists>ms. rx_num (width_text p @ t) = (width_text p, t) # ms"
      using start assms(1) Some by (intro rx_num_first(1)) auto
    moreover have "precision_text p = ''.'' @ width_text p" using Some by (simp add: precision_text_def width_text_def)
    ultimately show ?thesis by (auto simp: rx_opt_def rx_then_def rx_lit_one)
  qed
qed

lemma rx_length_unique:
  assumes "ends_conversion len c"
  shows "rx_then (rx_opt (rx_alt (map rx_lit rx_lengths))) (\<lambda>l.
      rx_then (rx_class (\<lambda>c. c \<in> set ''diuoxXfFeEgGaAcspn'')) (\<lambda>c rest. [(w, p, l, peekc c, rest)]))
      (len @ c # rest) = [(w, p, len, c, rest)]"
proof -
  define f where "f = rx_class (\<lambda>c. c \<in> set ''diuoxXfFeEgGaAcspn'')"
  have "c \<noteq> CHR ''h'' \<and> c \<noteq> CHR ''l'' \<and> c \<noteq> CHR ''j'' \<and> c \<noteq> CHR ''z'' \<and> c \<noteq> CHR ''Z'' \<and> c \<noteq> CHR ''t'' \<and> c \<noteq> CHR ''L''"
    using assms by (auto simp: ends_conversion_def)
  note n = this [THEN conjunct1] this [THEN conjunct2, THEN conjunct1] this [THEN conjunct2, THEN conjunct2]
  have cls: "f (c # rest) = [([c], rest)]"
    using assms by (auto simp: f_def rx_class_def ends_conversion_def)
  have no: "f (CHR ''h'' # s) = []" "f (CHR ''l'' # s) = []" "f (CHR ''j'' # s) = []" "f (CHR ''z'' # s) = []"
    "f (CHR ''t'' # s) = []" "f (CHR ''L'' # s) = []" for s
    by (simp_all add: f_def rx_class_def)
  have "len = [] \<or> len = ''hh'' \<or> len = ''h'' \<or> len = ''l'' \<or> len = ''ll'' \<or> len = ''j'' \<or> len = ''z'' \<or> len = ''t'' \<or> len = ''L''"
    using assms by (auto simp: ends_conversion_def rx_lengths_def)
  then show ?thesis
    unfolding f_def [symmetric]
    by (elim disjE; simp add: rx_then_def rx_opt_def rx_alt_def rx_lit_def rx_lengths_def cls no n)
qed

lemma regex_search_conversion:
  assumes wf: "wf_piece (Conversion flags w p len c)"
  shows "regex_search (piece_text (Conversion flags w p len c) @ rest) =
    Some (width_text w, width_text p, len, c, rest)"
proof -
  define t where "t = len @ c # rest"
  define v where "v = precision_text p @ t"
  define u where "u = width_text w @ v"
  have e: "ends_conversion len c" using wf by (simp add: ends_conversion_def)
  have fmt: "piece_text (Conversion flags w p len c) @ rest = CHR ''%'' # flags @ u"
    by (simp add: u_def v_def t_def)
  have fl: "list_all isFlag flags" "\<not> isFlag (peekc u)"
    using wf width_start [OF wf u_def [unfolded v_def t_def]] by simp_all
  have "\<exists>ms. rx_opt (rx_many1 isFlag) (flags @ u) = (flags, u) # ms"
    using rx_many1_prefix(3) [OF fl(1), of u] fl(2) by blast
  moreover have "\<exists>ms. rx_opt rx_num u = (width_text w, v) # ms"
    using wf precision_start [OF wf v_def [unfolded t_def]] unfolding u_def by (intro rx_num_first(2)) auto
  moreover have "\<exists>ms. rx_opt (rx_then (rx_lit ''.'') (\<lambda>_. rx_num)) v = (width_text p, t) # ms"
    using rx_precision_first [OF wf t_def] by (simp add: v_def)
  ultimately obtain ms1 ms2 ms3 where m:
    "rx_opt (rx_many1 isFlag) (flags @ u) = (flags, u) # ms1"
    "rx_opt rx_num u = (width_text w, v) # ms2"
    "rx_opt (rx_then (rx_lit ''.'') (\<lambda>_. rx_num)) v = (width_text p, t) # ms3" by blast
  have m0: "rx_lit ''%'' (CHR ''%'' # flags @ u) = (''%'', flags @ u) # []" by (simp add: rx_lit_one)
  have "\<exists>ys. spec_matches (CHR ''%'' # flags @ u) = (width_text w, width_text p, len, c, rest) # ys"
    unfolding spec_matches_def
    by (rule rx_then_first, rule m0, rule rx_then_first, rule m(1), rule rx_then_first, rule m(2),
      rule rx_then_first, rule m(3), unfold t_def, intro exI, rule rx_length_unique [OF e])
  then show ?thesis unfolding fmt by (auto simp: regex_search_def)
qed

lemma regex_search_percent: "regex_search (CHR ''%'' # CHR ''%'' # rest) = None"
proof -
  have "rx_many1 P (CHR ''%'' # rest) = []" if "\<not> P CHR ''%''" for P
    using rx_many1_prefix(1) [of P "[]" "CHR ''%'' # rest"] that by simp
  then have "spec_matches (CHR ''%'' # CHR ''%'' # rest) = []"
    by (simp add: spec_matches_def rx_then_def rx_opt_def rx_num_def rx_alt_def rx_lit_def rx_class_def
        rx_lengths_def isFlag_def isDigit_def)
  then show ?thesis by (simp add: regex_search_def)
qed

text \<open>The fragments of a well-formed format, with the text that is left behind the last one.\<close>

definition conversion_fragment ::
  "string \<Rightarrow> number option \<Rightarrow> number option \<Rightarrow> string \<Rightarrow> char \<Rightarrow> print_fragment" where
  "conversion_fragment text w p len c =
     \<lparr>argType = getFormatType len c, hasDynamicWidth = (w = Some Star), hasDynamicPrecision = (p = Some Star),
      fragmentLength = of_nat (length text + 1), formatFragment = text\<rparr>"

fun format_fragments :: "piece list \<Rightarrow> string \<Rightarrow> string \<times> print_fragment list" where
  "format_fragments [] text = (text, [])"
| "format_fragments (Conversion flags w p len c # ps) text =
     (let (ending, fs) = format_fragments ps []
      in (ending, conversion_fragment (text @ piece_text (Conversion flags w p len c)) w p len c # fs))"
| "format_fragments (q # ps) text = format_fragments ps (text @ piece_text q)"

lemma star_text:
  "wf_piece (Conversion flags w p len c) \<Longrightarrow> (width_text w \<noteq> [] \<and> peekc (width_text w) = CHR ''*'') = (w = Some Star)"
  "wf_piece (Conversion flags w p len c) \<Longrightarrow> (width_text p \<noteq> [] \<and> peekc (width_text p) = CHR ''*'') = (p = Some Star)"
proof -
  have "(width_text n \<noteq> [] \<and> peekc (width_text n) = CHR ''*'') = (n = Some Star)"
    if "\<forall>ds. n = Some (Digits ds) \<longrightarrow> ds \<noteq> [] \<and> list_all isDigit ds" for n
    using that
    by (cases n; cases "the n"; cases "width_text n") (auto simp: width_text_def dest: isDigit_not)
  then show "wf_piece (Conversion flags w p len c) \<Longrightarrow> (width_text w \<noteq> [] \<and> peekc (width_text w) = CHR ''*'') = (w = Some Star)"
    "wf_piece (Conversion flags w p len c) \<Longrightarrow> (width_text p \<noteq> [] \<and> peekc (width_text p) = CHR ''*'') = (p = Some Star)"
    by simp_all
qed

lemma make_fragment_conversion:
  assumes "wf_piece (Conversion flags w p len c)" "length text + 1 < 2 ^ 16"
  shows "make_fragment (width_text w) (width_text p) (getFormatType len c) text =
    Inr (conversion_fragment text w p len c)"
proof -
  have u: "unat (of_nat (length text + 1) :: u16) = length text + 1" using assms(2) by (rule unat_of_nat_u16)
  then have "(of_nat (length text + 1) :: u16) \<noteq> 0" by (metis unat_0 add_is_0 one_neq_zero)
  then show ?thesis
    using star_text [OF assms(1)] u
    by (simp add: make_fragment_def conversion_fragment_def Let_def del: of_nat_add of_nat_Suc)
qed

lemma micro_loop_literal:
  "wf_piece (Literal s) \<Longrightarrow>
     micro_loop (s @ rest) k text frags nibs = micro_loop rest (if s = [] then k else 0) (text @ s) frags nibs"
  by (induction s arbitrary: k "text") auto

lemma filter_star_params: "length (filter takes_nibble (star_params w p)) =
    (if w = Some Star then 1 else 0) + (if p = Some Star then 1 else 0)"
  by (simp add: star_params_def takes_nibble_def)

lemma takes_nibble_conversion:
  "length (filter takes_nibble (piece_params (Conversion flags w p len c))) =
     (if c = CHR ''s'' then 0 else 1) + (if w = Some Star then 1 else 0) + (if p = Some Star then 1 else 0)"
  using filter_star_params [of w p] by (auto simp: takes_nibble_def split: option.splits number.splits)

lemma micro_loop_conversion:
  assumes wf: "wf_piece (Conversion flags w p len c)" and k: "even k"
    and t: "t = text @ piece_text (Conversion flags w p len c)" "length t + 1 < 2 ^ 16"
  shows "micro_loop (piece_text (Conversion flags w p len c) @ rest) k text frags nibs =
    micro_loop rest 0 [] (frags @ [conversion_fragment t w p len c])
      (nibs + of_nat (length (filter takes_nibble (piece_params (Conversion flags w p len c)))))"
proof -
  obtain s where s: "piece_text (Conversion flags w p len c) @ rest = CHR ''%'' # s" by simp
  have "length (CHR ''%'' # s) - length rest = length (piece_text (Conversion flags w p len c))"
    using arg_cong [OF s, of length] by simp
  then have tk: "text @ take (length (CHR ''%'' # s) - length rest) (CHR ''%'' # s) = t"
    unfolding t(1) s [symmetric] by simp
  have r: "regex_search (CHR ''%'' # s) = Some (width_text w, width_text p, len, c, rest)"
    using regex_search_conversion [OF wf, of rest] by (simp only: s)
  have ty: "getFormatType len c \<noteq> MAX_FORMAT_TYPE" using wf by simp
  show ?thesis
    unfolding s takes_nibble_conversion
    using k r ty make_fragment_conversion [OF wf t(2)] tk
    by (auto simp: Let_def conversion_fragment_def algebra_simps)
qed

lemma micro_loop_format:
  "list_all wf_piece ps \<Longrightarrow> even k \<Longrightarrow> length text + length (format_text ps) + 1 < 2 ^ 16 \<Longrightarrow>
     micro_loop (format_text ps) k text frags nibs =
       Inr (fst (format_fragments ps text), frags @ snd (format_fragments ps text),
            nibs + of_nat (length (filter takes_nibble (format_params ps))))"
proof (induction ps arbitrary: k "text" frags nibs)
  case (Cons q ps)
  show ?case
  proof (cases q)
    case (Literal s)
    then show ?thesis
      using Cons.prems Cons.IH [of "if s = [] then k else 0" "text @ s"] micro_loop_literal [of s "format_text ps" k "text"]
      by simp
  next
    case Percent
    then show ?thesis
      using Cons.prems Cons.IH [of "k + 1 + 1" "text @ ''%%''"] regex_search_percent by simp
  next
    case (Conversion flags w p len c)
    let ?t = "text @ piece_text (Conversion flags w p len c)"
    have "length ?t + 1 < 2 ^ 16" using Cons.prems(3) Conversion by simp
    from micro_loop_conversion [OF _ Cons.prems(2) refl this, of "format_text ps" frags nibs] Conversion
    show ?thesis
      using Cons.prems Cons.IH [of 0 "[]"]
      by (simp add: split_beta Let_def algebra_simps del: wf_piece.simps piece_text.simps piece_params.simps)
  qed
qed simp

section \<open>The two analyses agree\<close>

text \<open>What a fragment takes from the arguments, and what the compile-time analysis says without lengths.\<close>

definition fragment_params :: "print_fragment \<Rightarrow> param_type list" where
  "fragment_params f =
     (if hasDynamicWidth f then [DYNAMIC_WIDTH] else []) @
     (if hasDynamicPrecision f then [DYNAMIC_PRECISION] else []) @
     (if argType f = NONE then []
      else if argType f = const_char_ptr_t \<or> argType f = const_wchar_t_ptr_t then [STRING_WITH_NO_PRECISION]
      else [NON_STRING])"

lemma fragment_params_update [simp]:
  "fragment_params (f\<lparr>formatFragment := x, fragmentLength := n\<rparr>) = fragment_params f"
  by (simp add: fragment_params_def)

fun as_kind :: "param_type \<Rightarrow> param_type" where
  "as_kind (STRING n) = STRING_WITH_NO_PRECISION"
| "as_kind STRING_WITH_DYNAMIC_PRECISION = STRING_WITH_NO_PRECISION"
| "as_kind t = t"

lemma getFormatType_kind:
  "getFormatType len c \<noteq> NONE"
  "getFormatType len c \<noteq> MAX_FORMAT_TYPE \<Longrightarrow>
     getFormatType len c = const_char_ptr_t \<or> getFormatType len c = const_wchar_t_ptr_t \<longleftrightarrow> c = CHR ''s''"
  by (auto simp: getFormatType_def split: if_splits)

lemma conversion_fragment_params:
  assumes "wf_piece (Conversion flags w p len c)"
  shows "fragment_params (conversion_fragment t w p len c) = map as_kind (piece_params (Conversion flags w p len c))"
proof -
  have "getFormatType len c \<noteq> MAX_FORMAT_TYPE" using assms by simp
  then show ?thesis
    using getFormatType_kind(1) [of len c] getFormatType_kind(2) [of len c]
    by (auto simp: fragment_params_def conversion_fragment_def star_params_def split: option.splits number.splits)
qed

lemma format_fragments_params:
  "list_all wf_piece ps \<Longrightarrow>
     concat (map fragment_params (snd (format_fragments ps t))) = map as_kind (format_params ps)"
  by (induction ps t rule: format_fragments.induct)
    (auto simp: split_beta Let_def conversion_fragment_params simp del: wf_piece.simps(3) piece_params.simps(1))

lemma format_fragments_text:
  "concat (map formatFragment (snd (format_fragments ps t))) @ fst (format_fragments ps t) = t @ format_text ps"
  by (induction ps t rule: format_fragments.induct)
    (simp_all add: split_beta Let_def conversion_fragment_def)

lemma format_fragments_count: "length (snd (format_fragments ps t)) \<le> length (format_params ps)"
  by (induction ps t rule: format_fragments.induct) (simp_all add: split_beta Let_def)

lemma format_fragments_length:
  "f \<in> set (snd (format_fragments ps t)) \<Longrightarrow> fragmentLength f = of_nat (length (formatFragment f) + 1)"
  by (induction ps t rule: format_fragments.induct) (auto simp: split_beta Let_def conversion_fragment_def)

lemma createMicroCode_format:
  assumes wf: "list_all wf_piece ps" and len: "length (format_text ps) + 1 < 2 ^ 16"
  shows "\<exists>fs. createMicroCode (format_text ps) fname linenum severity =
      Inr \<lparr>md_numNibbles = of_nat (length (filter takes_nibble (format_params ps))),
           numPrintFragments = of_nat (length fs), logLevel = severity, lineNumber = linenum,
           filenameLength = of_nat (length fname + 1), filename = fname, fragments = fs\<rparr> \<and>
    length fs \<le> max 1 (length (format_params ps)) \<and>
    concat (map fragment_params fs) = map as_kind (format_params ps) \<and>
    concat (map formatFragment fs) = format_text ps"
proof -
  obtain ending frags where ff: "format_fragments ps [] = (ending, frags)" by fastforce
  have m: "micro_loop (format_text ps) 0 [] [] 0 =
      Inr (ending, frags, of_nat (length (filter takes_nibble (format_params ps))))"
    using micro_loop_format [OF wf, of 0 "[]" "[]" 0] len ff by simp
  have params: "concat (map fragment_params frags) = map as_kind (format_params ps)"
    using format_fragments_params [OF wf, of "[]"] ff by simp
  have texts: "concat (map formatFragment frags) @ ending = format_text ps"
    using format_fragments_text [of ps "[]"] ff by simp
  show ?thesis
  proof (cases frags rule: rev_cases)
    case Nil
    then have "format_params ps = []" "ending = format_text ps" using params texts by auto
    then show ?thesis using m Nil len
      by (simp add: createMicroCode_def Let_def fragment_params_def)
  next
    case (snoc b f)
    have fl: "unat (fragmentLength f) = length (formatFragment f) + 1" and
      b: "length (formatFragment f) + length ending + 1 < 2 ^ 16"
    proof -
      show b: "length (formatFragment f) + length ending + 1 < 2 ^ 16"
        using arg_cong [OF texts, of length] snoc len by simp
      have "fragmentLength f = of_nat (length (formatFragment f) + 1)"
        using format_fragments_length [of f ps "[]"] ff snoc by simp
      then show "unat (fragmentLength f) = length (formatFragment f) + 1"
        using b unat_of_nat_u16 [of "length (formatFragment f) + 1"] by simp
    qed
    then obtain n where ext: "extend_fragment f ending =
        Inr (f\<lparr>formatFragment := formatFragment f @ ending, fragmentLength := n\<rparr>)"
      by (simp add: extend_fragment_def Let_def)
    have "length frags \<le> length (format_params ps)" using format_fragments_count [of ps "[]"] ff by simp
    then show ?thesis
      using m snoc ext params texts
      by (intro exI [of _ "b @ [f\<lparr>formatFragment := formatFragment f @ ending, fragmentLength := n\<rparr>]"])
        (simp add: createMicroCode_def Let_def)
  qed
qed

text \<open>
  C9. The two analyses of a format agree. For every well-formed format with fewer than 256 parameters and 2
  to the 16 characters, the decoder's fragments take exactly the parameters that the compile-time
  analysis found, in order and of the same kinds, with the same number of nibbles, and put together
  they are the format again.
\<close>

theorem format_analyses_agree:
  assumes "list_all wf_piece ps" "length (format_text ps) + 1 < 2 ^ 16" "length (format_params ps) < 256"
  shows "\<exists>md ts. createMicroCode (format_text ps) fname linenum severity = Inr md \<and>
    countFmtParams (format_text ps) = Inr (length ts) \<and>
    analyzeFormatString (length ts) (format_text ps) = Inr ts \<and>
    getNumNibblesNeeded (format_text ps) = Inr (unat (md_numNibbles md)) \<and>
    concat (map fragment_params (take (unat (numPrintFragments md)) (fragments md))) = map as_kind ts \<and>
    concat (map formatFragment (fragments md)) = format_text ps"
proof -
  obtain fs where fs: "createMicroCode (format_text ps) fname linenum severity =
      Inr \<lparr>md_numNibbles = of_nat (length (filter takes_nibble (format_params ps))),
           numPrintFragments = of_nat (length fs), logLevel = severity, lineNumber = linenum,
           filenameLength = of_nat (length fname + 1), filename = fname, fragments = fs\<rparr>"
    "length fs \<le> max 1 (length (format_params ps))"
    "concat (map fragment_params fs) = map as_kind (format_params ps)"
    "concat (map formatFragment fs) = format_text ps"
    using createMicroCode_format [OF assms(1,2)] by blast
  have u8: "unat (of_nat n :: u8) = n" if "n < 256" for n
    using that by (simp add: unat_of_nat take_bit_nat_eq_self)
  have "length fs < 256" using fs(2) assms(3) by linarith
  moreover have "length (filter takes_nibble (format_params ps)) < 256"
    using assms(3) length_filter_le [of takes_nibble "format_params ps"] by linarith
  ultimately show ?thesis
    using fs(2-4) assms(1) u8
    by - (rule exI, rule exI [of _ "format_params ps"], intro conjI, rule fs(1),
      simp_all add: countFmtParams_format analyzeFormatString_format getNumNibblesNeeded_format)
qed

text \<open>
  What the hypothesis leaves out are formats on which the analyses do differ. A precision without
  digits is one for the compiler and the C library but not for the decoder, which takes the
  conversion for text; and after a backslash the decoder skips a character, even a percent sign.
\<close>

lemma precision_without_digits:
  "getNumNibblesNeeded ''%.f'' = Inr 1"
  "\<exists>md. createMicroCode ''%.f'' fname linenum severity = Inr md \<and> md_numNibbles md = 0 \<and>
     map argType (fragments md) = [NONE]"
  by (simp_all add: getNumNibblesNeeded_def countFmtParams_def count_loop.simps consume_width_def consume_precision_def
      char_class_defs NUL_def createMicroCode_def regex_search_def spec_matches_def rx_then_def rx_opt_def rx_num_def
      rx_alt_def rx_many1_def rx_lit_def rx_class_def rx_lengths_def Let_def)

lemma conversion_after_backslash:
  "getNumNibblesNeeded (CHR 0x5C # ''%d'') = Inr 1"
  "\<exists>md. createMicroCode (CHR 0x5C # ''%d'') fname linenum severity = Inr md \<and> md_numNibbles md = 0 \<and>
     map argType (fragments md) = [NONE]"
  by (simp_all add: getNumNibblesNeeded_def countFmtParams_def count_loop.simps consume_width_def consume_precision_def
      char_class_defs NUL_def createMicroCode_def Let_def)

text \<open>The format of the TCP state monitor's log line for IPv4.\<close>

definition tcpstate_format :: "piece list" where
  "tcpstate_format =
     [Literal ''['', Conversion [] None None [] CHR ''s'', Literal '', '', Conversion [] None None [] CHR ''u'',
      Literal ''] '', Conversion ''-'' (Some (Digits ''16'')) None ''ll'' CHR ''x'', Literal '' '',
      Conversion ''-'' (Some (Digits ''7'')) None [] CHR ''d'', Literal '' '',
      Conversion ''-'' (Some (Digits ''10'')) (Some (Digits ''10'')) [] CHR ''s'', Literal '' '',
      Conversion [] None (Some (Digits ''3'')) [] CHR ''f'']"

lemma tcpstate_format_text: "format_text tcpstate_format = ''[%s, %u] %-16llx %-7d %-10.10s %.3f''"
  by (simp add: tcpstate_format_def width_text_def precision_text_def)

lemma tcpstate_format_wf: "list_all wf_piece tcpstate_format"
  by (simp add: tcpstate_format_def char_class_defs NUL_def rx_lengths_def getFormatType_def)

theorem format_analyses_agree_witness:
  "\<exists>md. createMicroCode ''[%s, %u] %-16llx %-7d %-10.10s %.3f'' ''tcpstate_monitor.cc'' 173 3 = Inr md \<and>
     getNumNibblesNeeded ''[%s, %u] %-16llx %-7d %-10.10s %.3f'' = Inr (unat (md_numNibbles md)) \<and>
     concat (map fragment_params (take (unat (numPrintFragments md)) (fragments md))) =
       [STRING_WITH_NO_PRECISION, NON_STRING, NON_STRING, NON_STRING, STRING_WITH_NO_PRECISION, NON_STRING]"
proof -
  have l: "length (format_text tcpstate_format) + 1 < 2 ^ 16" unfolding tcpstate_format_text by simp
  have n: "format_params tcpstate_format =
      [STRING_WITH_NO_PRECISION, NON_STRING, NON_STRING, NON_STRING, STRING 10, NON_STRING]"
    by (simp add: tcpstate_format_def star_params_def)
  have "length (format_params tcpstate_format) < 256" unfolding n by simp
  from format_analyses_agree [OF tcpstate_format_wf l this, of "''tcpstate_monitor.cc''" 173 3] n
    countFmtParams_format [OF tcpstate_format_wf] analyzeFormatString_format [OF tcpstate_format_wf]
  show ?thesis unfolding tcpstate_format_text by auto
qed

end
