(* ===== verification/Log_Entry.thy ===== *)
theory Log_Entry
  imports Packer Log_Format
begin

text \<open>
  One log message from the call to its compressed form: the uncompressed entry that \<open>log\<close> stores
  in the staging buffer, its compression and its header
  (\<open>getArgSize\<close>, \<open>store_argument\<close>, \<open>log\<close>, \<open>compress\<close> of \<^verbatim>\<open>src/runtime/NanoLogCpp17.h\<close>,
  \<open>compressLogHeader\<close> and \<open>decompressLogHeader\<close> of \<^verbatim>\<open>src/runtime/Log.h\<close>).

  The functions are templates over the types of the arguments; the types are a list here. A string
  argument is its address and the characters before its terminator, which are not zero.
\<close>

section \<open>Arguments\<close>

datatype log_arg = Basic arg | CString u64 bytes | WString u64 "u32 list"

datatype log_type = TBasic argty | TCharPtr | TWcharPtr

fun log_type_of :: "log_arg \<Rightarrow> log_type" where
  "log_type_of (Basic a) = TBasic (argty_of a)"
| "log_type_of (CString p s) = TCharPtr"
| "log_type_of (WString p s) = TWcharPtr"

fun sizeof :: "log_type \<Rightarrow> nat" where
  "sizeof (TBasic t) = arg_size t"
| "sizeof _ = 8"

fun arg_bits :: "arg \<Rightarrow> nat" where
  "arg_bits (ArgU8 v) = unat v"
| "arg_bits (ArgU16 v) = unat v"
| "arg_bits (ArgU32 v) = unat v"
| "arg_bits (ArgU64 v) = unat v"
| "arg_bits (ArgI32 v) = unat v"
| "arg_bits (ArgI64 v) = unat v"
| "arg_bits (ArgLL v) = unat v"
| "arg_bits (ArgPtr v) = unat v"
| "arg_bits (ArgF32 v) = unat v"
| "arg_bits (ArgF64 v) = unat v"
| "arg_bits (ArgLD v) = unat v"

fun of_bits :: "argty \<Rightarrow> nat \<Rightarrow> arg" where
  "of_bits TyU8 n = ArgU8 (word_of_nat n)"
| "of_bits TyU16 n = ArgU16 (word_of_nat n)"
| "of_bits TyU32 n = ArgU32 (word_of_nat n)"
| "of_bits TyU64 n = ArgU64 (word_of_nat n)"
| "of_bits TyI32 n = ArgI32 (word_of_nat n)"
| "of_bits TyI64 n = ArgI64 (word_of_nat n)"
| "of_bits TyLL n = ArgLL (word_of_nat n)"
| "of_bits TyPtr n = ArgPtr (word_of_nat n)"
| "of_bits TyF32 n = ArgF32 (word_of_nat n)"
| "of_bits TyF64 n = ArgF64 (word_of_nat n)"
| "of_bits TyLD n = ArgLD (word_of_nat n)"

lemma of_bits_arg [simp]: "of_bits (argty_of a) (arg_bits a) = a"
  by (cases a) simp_all

text \<open>The bytes of a value in memory.\<close>

definition raw_bytes :: "arg \<Rightarrow> bytes" where
  "raw_bytes a = le_bytes (arg_size (argty_of a)) (arg_bits a)"

lemma length_raw_bytes [simp]: "length (raw_bytes a) = arg_size (argty_of a)"
  by (simp add: raw_bytes_def)

lemma of_bits_raw [simp]: "of_bits (argty_of a) (le_val (raw_bytes a)) = a"
proof -
  have "arg_bits a < 256 ^ arg_size (argty_of a)"
    by (cases a) (auto intro: less_le_trans [OF unsigned_less])
  then show ?thesis by (simp add: raw_bytes_def le_val_le_bytes)
qed

definition wide_bytes :: "u32 list \<Rightarrow> bytes" where
  "wide_bytes s = concat (map (\<lambda>c. le_bytes 4 (unat c)) s)"

lemma length_wide_bytes [simp]: "length (wide_bytes s) = 4 * length s"
  by (induction s) (simp_all add: wide_bytes_def)

section \<open>Sizes\<close>

fun as_uint64_t :: "arg \<Rightarrow> u64" where
  "as_uint64_t (ArgU8 v) = ucast v"
| "as_uint64_t (ArgU16 v) = ucast v"
| "as_uint64_t (ArgU32 v) = ucast v"
| "as_uint64_t (ArgU64 v) = v"
| "as_uint64_t (ArgI32 v) = scast v"
| "as_uint64_t (ArgI64 v) = v"
| "as_uint64_t (ArgLL v) = v"
| "as_uint64_t _ = 0"

text \<open>The types above \<open>NON_STRING\<close> in the enumeration.\<close>

fun is_string :: "param_type \<Rightarrow> bool" where
  "is_string STRING_WITH_DYNAMIC_PRECISION = True"
| "is_string STRING_WITH_NO_PRECISION = True"
| "is_string (STRING n) = True"
| "is_string _ = False"

definition clip_string :: "param_type \<Rightarrow> u64 \<Rightarrow> nat \<Rightarrow> nat" where
  "clip_string fmtType previousPrecision len =
     (case fmtType of
        STRING fmtLength \<Rightarrow> (if len > fmtLength then fmtLength else len)
      | STRING_WITH_DYNAMIC_PRECISION \<Rightarrow> (if len > unat previousPrecision then unat previousPrecision else len)
      | _ \<Rightarrow> len)"

text \<open>The size of an argument, the updated \<open>previousPrecision\<close> and \<open>stringSize\<close>.\<close>

fun getArgSize :: "param_type \<Rightarrow> u64 \<Rightarrow> log_arg \<Rightarrow> nat \<times> u64 \<times> nat" where
  "getArgSize fmtType previousPrecision (Basic (ArgPtr p)) = (8, previousPrecision, 0)"
| "getArgSize fmtType previousPrecision (Basic a) =
     (arg_size (argty_of a), if fmtType = DYNAMIC_PRECISION then as_uint64_t a else previousPrecision, 0)"
| "getArgSize fmtType previousPrecision (CString p str) =
     (if \<not> is_string fmtType then (8, previousPrecision, 0)
      else let stringBytes = clip_string fmtType previousPrecision (length str)
           in (stringBytes + 4, previousPrecision, stringBytes))"
| "getArgSize fmtType previousPrecision (WString p wstr) =
     (if \<not> is_string fmtType then (8, previousPrecision, 0)
      else let stringBytes = clip_string fmtType previousPrecision (length wstr) * 4
           in (stringBytes + 4, previousPrecision, stringBytes))"

text \<open>
  The sum over the arguments. C++ does not fix which operand of the sum is evaluated first; the model
  has the order the code needs, a precision before the string it belongs to.
\<close>

fun getArgSizes :: "param_type list \<Rightarrow> u64 \<Rightarrow> log_arg list \<Rightarrow> nat \<times> nat list" where
  "getArgSizes (t # ts) previousPrecision (a # as) =
     (let (size, previousPrecision, stringSize) = getArgSize t previousPrecision a;
          (sizes, stringSizes) = getArgSizes ts previousPrecision as
      in (size + sizes, stringSize # stringSizes))"
| "getArgSizes _ previousPrecision _ = (0, [])"

section \<open>Storing\<close>

definition store_bytes :: "bytes \<Rightarrow> nat \<Rightarrow> bytes \<Rightarrow> (bytes \<times> nat) cres" where
  "store_bytes m storage bs = res_bind (mem_write m storage bs) (\<lambda>m. Inr (m, storage + length bs))"

text \<open>A string of more than 32 bits of length raises \<open>invalid_argument\<close>.\<close>

definition store_string :: "bytes \<Rightarrow> nat \<Rightarrow> bytes \<Rightarrow> nat \<Rightarrow> (bytes \<times> nat) cres" where
  "store_string m storage memory stringSize =
     (if stringSize > 2 ^ 32 - 1 then Inl (Err EINVAL)
      else res_bind (store_bytes m storage (le_bytes 4 stringSize)) (\<lambda>(m, storage).
           res_bind (mem_read memory 0 stringSize) (\<lambda>bs. store_bytes m storage bs)))"

fun store_argument :: "bytes \<Rightarrow> nat \<Rightarrow> log_arg \<Rightarrow> param_type \<Rightarrow> nat \<Rightarrow> (bytes \<times> nat) cres" where
  "store_argument m storage (Basic a) paramType stringSize = store_bytes m storage (raw_bytes a)"
| "store_argument m storage (CString p str) paramType stringSize =
     (if \<not> is_string paramType then store_bytes m storage (raw_bytes (ArgPtr p))
      else store_string m storage (str @ [0]) stringSize)"
| "store_argument m storage (WString p wstr) paramType stringSize =
     (if \<not> is_string paramType then store_bytes m storage (raw_bytes (ArgPtr p))
      else store_string m storage (wide_bytes (wstr @ [0])) stringSize)"

fun store_arguments :: "param_type list \<Rightarrow> nat list \<Rightarrow> bytes \<Rightarrow> nat \<Rightarrow> log_arg list \<Rightarrow> (bytes \<times> nat) cres" where
  "store_arguments (t # ts) (n # ns) m storage (a # as) =
     res_bind (store_argument m storage a t n) (\<lambda>(m, storage). store_arguments ts ns m storage as)"
| "store_arguments _ _ m storage [] = Inr (m, storage)"
| "store_arguments _ _ m storage _ = Inl Fault"

text \<open>
  \<open>log\<close>, behind the registration of the invocation site: the size to reserve, and the entry written to the
  reservation at \<open>writePos\<close>. The header is 16 bytes: identifier, size and time stamp.
\<close>

definition log_size :: "param_type list \<Rightarrow> log_arg list \<Rightarrow> nat" where
  "log_size paramTypes args = fst (getArgSizes paramTypes (- 1) args) + 16"

definition log_write ::
  "u32 \<Rightarrow> u64 \<Rightarrow> param_type list \<Rightarrow> log_arg list \<Rightarrow> bytes \<Rightarrow> nat \<Rightarrow> bytes cres" where
  "log_write logId timestamp paramTypes args m originalWritePos =
     (if length paramTypes \<noteq> length args then Inl Fault
      else let allocSize = log_size paramTypes args
           in res_bind (mem_write m originalWritePos (replicate 16 0)) (\<lambda>m.
              res_bind (store_arguments paramTypes (snd (getArgSizes paramTypes (- 1) args)) m (originalWritePos + 16) args)
                (\<lambda>(m, writePos).
              res_bind (mem_set_u32 m originalWritePos logId) (\<lambda>m.
              res_bind (mem_write m (originalWritePos + 8) (le_bytes 8 (unat timestamp))) (\<lambda>m.
              if 2 ^ 32 \<le> allocSize then Inl Fault
              else res_bind (mem_set_u32 m (originalWritePos + 4) (of_nat allocSize)) (\<lambda>m.
                   if allocSize \<noteq> writePos - originalWritePos then Inl Fault else Inr m))))))"

section \<open>The bytes of an entry\<close>

text \<open>What is stored of a string: as many characters as its size, of the characters themselves.\<close>

fun arg_image_bytes :: "param_type \<Rightarrow> u64 \<Rightarrow> log_arg \<Rightarrow> bytes" where
  "arg_image_bytes t prec (Basic a) = raw_bytes a"
| "arg_image_bytes t prec (CString p s) =
     (if is_string t then let n = clip_string t prec (length s) in le_bytes 4 n @ take n s else raw_bytes (ArgPtr p))"
| "arg_image_bytes t prec (WString p s) =
     (if is_string t then let n = clip_string t prec (length s) in le_bytes 4 (4 * n) @ wide_bytes (take n s)
      else raw_bytes (ArgPtr p))"

definition next_precision :: "param_type \<Rightarrow> u64 \<Rightarrow> log_arg \<Rightarrow> u64" where
  "next_precision t prec a = fst (snd (getArgSize t prec a))"

fun args_image :: "param_type list \<Rightarrow> u64 \<Rightarrow> log_arg list \<Rightarrow> bytes" where
  "args_image (t # ts) prec (a # as) = arg_image_bytes t prec a @ args_image ts (next_precision t prec a) as"
| "args_image _ prec _ = []"

definition entry_image :: "u32 \<Rightarrow> u64 \<Rightarrow> param_type list \<Rightarrow> log_arg list \<Rightarrow> bytes" where
  "entry_image logId timestamp ts as =
     le_bytes 4 (unat logId) @ le_bytes 4 (log_size ts as) @ le_bytes 8 (unat timestamp) @ args_image ts (- 1) as"

lemma clip_string_le: "clip_string t prec n \<le> n"
  by (simp add: clip_string_def split: param_type.splits)

lemma getArgSize_image: "fst (getArgSize t prec a) = length (arg_image_bytes t prec a)"
proof (cases a)
  case (Basic b)
  then show ?thesis by (cases b) simp_all
next
  case (CString p s)
  then show ?thesis using clip_string_le [of t prec "length s"] by (simp add: Let_def)
next
  case (WString p s)
  then show ?thesis using clip_string_le [of t prec "length s"] by (simp add: Let_def)
qed

lemma getArgSizes_image: "fst (getArgSizes ts prec as) = length (args_image ts prec as)"
  by (induction ts prec as rule: args_image.induct)
    (simp_all add: getArgSize_image next_precision_def split_beta Let_def)

lemma length_entry_image: "length (entry_image logId timestamp ts as) = log_size ts as"
  by (simp add: entry_image_def log_size_def getArgSizes_image)

section \<open>What \<open>log\<close> writes\<close>

lemma mem_write_mid: "off = length A \<Longrightarrow> length X = length Y \<Longrightarrow> mem_write (A @ X @ B) off Y = Inr (A @ Y @ B)"
  by (simp add: mem_write_def)

lemma mem_write_append:
  "mem_write m off (xs @ ys) = res_bind (mem_write m off xs) (\<lambda>m'. mem_write m' (off + length xs) ys)"
  by (auto simp: mem_write_def min_absorb2 ac_simps)

lemma mem_write_Nil: "off \<le> length m \<Longrightarrow> mem_write m off [] = Inr m"
  by (simp add: mem_write_def)

lemma take_wide_bytes: "take (4 * n) (wide_bytes s) = wide_bytes (take n s)"
proof (induction s arbitrary: n)
  case (Cons c s)
  have w: "wide_bytes (c # xs) = le_bytes 4 (unat c) @ wide_bytes xs" for xs by (simp add: wide_bytes_def)
  show ?case using Cons by (cases n) (simp_all add: w wide_bytes_def [of "[]"])
qed (simp add: wide_bytes_def)

lemma store_string_writes:
  assumes "n < 2 ^ 32" "mem_read memory 0 n = Inr bs"
  shows "store_string m pos memory n =
    res_bind (mem_write m pos (le_bytes 4 n @ bs)) (\<lambda>m'. Inr (m', pos + 4 + n))"
proof -
  have "length bs = n" using assms(2) by (auto simp: mem_read_def split: if_splits)
  then show ?thesis
    using assms by (cases "mem_write m pos (le_bytes 4 n)") (simp_all add: store_string_def store_bytes_def mem_write_append)
qed

lemma store_argument_writes:
  assumes "length (arg_image_bytes t prec a) < 2 ^ 32"
  shows "store_argument m pos a t (snd (snd (getArgSize t prec a))) =
    res_bind (mem_write m pos (arg_image_bytes t prec a)) (\<lambda>m'. Inr (m', pos + length (arg_image_bytes t prec a)))"
proof (cases a)
  case (Basic b)
  then show ?thesis by (simp add: store_bytes_def)
next
  case (CString p s)
  have "is_string t \<Longrightarrow> clip_string t prec (length s) < 2 ^ 32" using assms CString clip_string_le [of t prec "length s"] by (simp add: Let_def)
  moreover have "mem_read (s @ [0]) 0 (clip_string t prec (length s)) = Inr (take (clip_string t prec (length s)) s)"
    using clip_string_le [of t prec "length s"] by (simp add: mem_read_def)
  ultimately show ?thesis
    using CString clip_string_le [of t prec "length s"]
    by (simp add: store_string_writes store_bytes_def Let_def ac_simps)
next
  case (WString p s)
  have "is_string t \<Longrightarrow> clip_string t prec (length s) * 4 < 2 ^ 32"
    using assms WString clip_string_le [of t prec "length s"] by (simp add: Let_def mult.commute)
  moreover have "mem_read (wide_bytes (s @ [0])) 0 (clip_string t prec (length s) * 4) =
      Inr (wide_bytes (take (clip_string t prec (length s)) s))"
    using clip_string_le [of t prec "length s"] take_wide_bytes [of "clip_string t prec (length s)" "s @ [0]"]
    by (simp add: mem_read_def mult.commute)
  ultimately show ?thesis
    using WString clip_string_le [of t prec "length s"]
    by (simp add: store_string_writes store_bytes_def Let_def ac_simps)
qed

lemma store_arguments_writes:
  "length ts = length as \<Longrightarrow> length (args_image ts prec as) < 2 ^ 32 \<Longrightarrow> pos + length (args_image ts prec as) \<le> length m \<Longrightarrow>
     store_arguments ts (snd (getArgSizes ts prec as)) m pos as =
       res_bind (mem_write m pos (args_image ts prec as)) (\<lambda>m'. Inr (m', pos + length (args_image ts prec as)))"
proof (induction ts prec as arbitrary: m pos rule: args_image.induct)
  case (1 t ts prec a as)
  let ?img = "arg_image_bytes t prec a"
  obtain m1 where m1: "mem_write m pos ?img = Inr m1"
    using mem_write_ok [of pos ?img m] "1.prems"(3) by auto
  have "length m1 = length m" using m1 by (rule mem_write_length)
  then have "store_arguments ts (snd (getArgSizes ts (next_precision t prec a) as)) m1 (pos + length ?img) as =
      res_bind (mem_write m1 (pos + length ?img) (args_image ts (next_precision t prec a) as))
        (\<lambda>m'. Inr (m', pos + length ?img + length (args_image ts (next_precision t prec a) as)))"
    using "1.prems" by (intro "1.IH") simp_all
  then show ?case
    using "1.prems" m1 store_argument_writes [of t prec a m pos]
    by (simp add: split_beta Let_def next_precision_def mem_write_append ac_simps)
qed (simp_all add: mem_write_Nil)

text \<open>The entry is written exactly into the reserved bytes.\<close>

lemma log_write_entry:
  assumes "length ts = length as" "log_size ts as < 2 ^ 32" "pos + log_size ts as \<le> length m"
  shows "log_write logId timestamp ts as m pos =
    Inr (take pos m @ entry_image logId timestamp ts as @ drop (pos + log_size ts as) m)"
proof -
  define A where "A = take pos m"
  define H where "H = take 16 (drop pos m)"
  define n where "n = length (args_image ts (- 1) as)"
  define R where "R = take n (drop (pos + 16) m)"
  define B where "B = drop (pos + 16 + n) m"
  have size: "log_size ts as = 16 + n" by (simp add: log_size_def getArgSizes_image n_def)
  have m: "m = A @ H @ R @ B"
    unfolding A_def H_def R_def B_def by (metis add.commute append_take_drop_id drop_drop)
  have len: "length A = pos" "length H = 16" "length R = n"
    using assms(3) size by (simp_all add: A_def H_def R_def)
  let ?img = "args_image ts (- 1) as"
  let ?id = "le_bytes 4 (unat logId)" and ?size = "le_bytes 4 (log_size ts as)" and ?time = "le_bytes 8 (unat timestamp)"
  let ?z = "\<lambda>k. replicate k (0 :: u8)"
  have z: "?z 16 = ?z 4 @ ?z 12" "?z 12 = ?z 4 @ ?z 8" by (simp_all add: replicate_add [symmetric])
  have w1: "mem_write m pos (?z 16) = Inr (A @ ?z 16 @ R @ B)"
    unfolding m using len by (intro mem_write_mid) auto
  have w2: "store_arguments ts (snd (getArgSizes ts (- 1) as)) (A @ ?z 16 @ R @ B) (pos + 16) as =
      Inr (A @ ?z 16 @ ?img @ B, pos + 16 + n)"
    using store_arguments_writes [of ts as "- 1" "pos + 16" "A @ ?z 16 @ R @ B"] assms len
      mem_write_mid [of "pos + 16" "A @ ?z 16" R ?img B]
    by (simp add: size n_def)
  have w3: "mem_write (A @ ?z 16 @ ?img @ B) pos ?id = Inr (A @ ?id @ ?z 12 @ ?img @ B)"
    using mem_write_mid [of pos A "?z 4" ?id "?z 12 @ ?img @ B"] len unfolding z(1) by simp
  have w4: "mem_write (A @ ?id @ ?z 12 @ ?img @ B) (pos + 8) ?time = Inr (A @ ?id @ ?z 4 @ ?time @ ?img @ B)"
    using mem_write_mid [of "pos + 8" "A @ ?id @ ?z 4" "?z 8" ?time "?img @ B"] len unfolding z(2) by simp
  have "unat (of_nat (log_size ts as) :: u32) = log_size ts as" using assms(2) by (rule unat_of_nat_u32)
  then have w5: "mem_set_u32 (A @ ?id @ ?z 4 @ ?time @ ?img @ B) (pos + 4) (of_nat (log_size ts as)) =
      Inr (A @ ?id @ ?size @ ?time @ ?img @ B)"
    using mem_write_mid [of "pos + 4" "A @ ?id" "?z 4" ?size "?time @ ?img @ B"] len by (simp add: mem_set_u32_def)
  have "drop (pos + log_size ts as) m = B" by (simp add: size B_def add.assoc)
  then show ?thesis
    using assms(1,2) w1 w2 w3 w4 w5 size
    by (simp add: log_write_def mem_set_u32_def entry_image_def A_def not_le [symmetric] Let_def)
qed

section \<open>Compression\<close>

text \<open>The size of what a pointer type points to; of \<open>void\<close> that of a pointer, of other types their own.\<close>

fun characterWidth :: "log_type \<Rightarrow> nat" where
  "characterWidth TCharPtr = 1"
| "characterWidth TWcharPtr = 4"
| "characterWidth (TBasic t) = arg_size t"

fun pack_type :: "log_type \<Rightarrow> argty" where
  "pack_type (TBasic t) = t"
| "pack_type _ = TyPtr"

text \<open>The output, the number of nibbles, and the positions in the input and the output.\<close>

type_synonym compress_state = "bytes \<times> nat \<times> nat \<times> nat"

definition compressSingle ::
  "nat \<Rightarrow> bytes \<Rightarrow> bool \<Rightarrow> param_type \<Rightarrow> log_type \<Rightarrow> compress_state \<Rightarrow> compress_state cres" where
  "compressSingle nibbles input stringsOnly paramType T =
     (\<lambda>(m, nibbleCnt, inp, out).
       if is_string paramType then
         res_bind (mem_u32 input inp) (\<lambda>len.
           let stringBytes = unat len; inp = inp + 4
           in if \<not> stringsOnly then Inr (m, nibbleCnt, inp + stringBytes, out)
              else res_bind (mem_read input inp stringBytes) (\<lambda>bs.
                   res_bind (mem_write m out bs) (\<lambda>m.
                   res_bind (mem_write m (out + stringBytes) (replicate (characterWidth T) 0)) (\<lambda>m.
                     Inr (m, nibbleCnt, inp + stringBytes, out + stringBytes + characterWidth T)))))
       else if stringsOnly then Inr (m, nibbleCnt, inp + sizeof T, out)
       else res_bind (mem_read input inp (sizeof T)) (\<lambda>bs.
            res_bind (compress_basic m nibbles nibbleCnt out (of_bits (pack_type T) (le_val bs))) (\<lambda>(m, nibbleCnt, out).
              Inr (m, nibbleCnt, inp + sizeof T, out))))"

fun compress_internal ::
  "nat \<Rightarrow> bytes \<Rightarrow> bool \<Rightarrow> param_type list \<Rightarrow> log_type list \<Rightarrow> compress_state \<Rightarrow> compress_state cres" where
  "compress_internal nibbles input stringsOnly (t # ts) (T # Ts) s =
     res_bind (compressSingle nibbles input stringsOnly t T s) (compress_internal nibbles input stringsOnly ts Ts)"
| "compress_internal nibbles input stringsOnly ts [] s = Inr s"
| "compress_internal nibbles input stringsOnly [] (T # Ts) s = Inl Fault"

text \<open>Both cursors are bumped; the result is the output with the two positions.\<close>

definition compress ::
  "log_type list \<Rightarrow> nat \<Rightarrow> param_type list \<Rightarrow> bytes \<Rightarrow> nat \<Rightarrow> bytes \<Rightarrow> nat \<Rightarrow> (bytes \<times> nat \<times> nat) cres" where
  "compress Ts nNibbles paramTypes input inp m output =
     (let out = output + (nNibbles + 1) div 2
      in res_bind (compress_internal output input False paramTypes Ts (m, 0, inp, out)) (\<lambda>(m, _, _, out).
         res_bind (compress_internal output input True paramTypes Ts (m, 0, inp, out)) (\<lambda>(m, _, inp, out).
           Inr (m, inp, out))))"

section \<open>What compression leaves\<close>

fun to_basic :: "log_arg \<Rightarrow> arg" where
  "to_basic (Basic a) = a"
| "to_basic (CString p s) = ArgPtr p"
| "to_basic (WString p s) = ArgPtr p"

fun basics :: "param_type list \<Rightarrow> log_arg list \<Rightarrow> arg list" where
  "basics (t # ts) (a # as) = (if is_string t then basics ts as else to_basic a # basics ts as)"
| "basics _ _ = []"

fun string_image :: "param_type \<Rightarrow> u64 \<Rightarrow> log_arg \<Rightarrow> bytes" where
  "string_image t prec (Basic a) = []"
| "string_image t prec (CString p s) = take (clip_string t prec (length s)) s @ [0]"
| "string_image t prec (WString p s) = wide_bytes (take (clip_string t prec (length s)) s @ [0])"

fun strings_image :: "param_type list \<Rightarrow> u64 \<Rightarrow> log_arg list \<Rightarrow> bytes" where
  "strings_image (t # ts) prec (a # as) =
     (if is_string t then string_image t prec a else []) @ strings_image ts (next_precision t prec a) as"
| "strings_image _ prec _ = []"

text \<open>A string conversion has a string argument, which is what the compiler's check of formats is for.\<close>

fun typed :: "param_type \<Rightarrow> log_arg \<Rightarrow> bool" where
  "typed t (Basic a) \<longleftrightarrow> \<not> is_string t"
| "typed t _ \<longleftrightarrow> True"

lemma basic_image: "\<not> is_string t \<Longrightarrow> arg_image_bytes t prec a = raw_bytes (to_basic a)"
  by (cases a) simp_all

lemma pack_type_basic: "pack_type (log_type_of a) = argty_of (to_basic a)" "sizeof (log_type_of a) = arg_size (argty_of (to_basic a))"
  by (cases a; simp)+

lemma le_bytes_zero: "le_bytes n 0 = replicate n 0"
  by (induction n) simp_all

lemma string_arg_image:
  assumes "is_string t" "typed t a"
  obtains n bs where "arg_image_bytes t prec a = le_bytes 4 n @ bs" "length bs = n"
    "string_image t prec a = bs @ replicate (characterWidth (log_type_of a)) 0"
proof -
  have wide: "wide_bytes (xs @ [0]) = wide_bytes xs @ replicate 4 0" for xs
    by (simp add: wide_bytes_def le_bytes_zero)
  define n where "n = clip_string t prec (case a of CString p s \<Rightarrow> length s | WString p s \<Rightarrow> length s | _ \<Rightarrow> 0)"
  show ?thesis
  proof (cases a)
    case (Basic b)
    then show ?thesis using assms by simp
  next
    case (CString p s)
    show ?thesis
      by (rule that [of n "take n s"])
        (use assms(1) CString clip_string_le [of t prec "length s"] in \<open>simp_all add: n_def Let_def\<close>)
  next
    case (WString p s)
    show ?thesis
      by (rule that [of "4 * n" "wide_bytes (take n s)"])
        (use assms(1) WString clip_string_le [of t prec "length s"] in \<open>simp_all add: n_def Let_def wide\<close>)
  qed
qed

lemma mem_u32_image:
  assumes "mem_read m pos (length (le_bytes 4 n @ bs)) = Inr (le_bytes 4 n @ bs)" "n < 2 ^ 32"
  shows "mem_u32 m pos = Inr (of_nat n)" "unat (of_nat n :: u32) = n"
    "mem_read m (pos + 4) (length bs) = Inr bs"
  using mem_read_split [OF assms(1)] assms(2) unat_of_nat_u32
  by (simp_all add: mem_u32_def le_val_le_bytes)

lemma compress_first_pass:
  "length ts = length as \<Longrightarrow> list_all2 typed ts as \<Longrightarrow> length (args_image ts prec as) < 2 ^ 32 \<Longrightarrow>
   mem_read input inp (length (args_image ts prec as)) = Inr (args_image ts prec as) \<Longrightarrow>
     compress_internal nibs input False ts (map log_type_of as) (m, cnt, inp, out) =
       res_bind (compress_basics m nibs cnt out (basics ts as)) (\<lambda>(m, cnt, out).
         Inr (m, cnt, inp + length (args_image ts prec as), out))"
proof (induction ts prec as arbitrary: m cnt inp out rule: args_image.induct)
  case (1 t ts prec a as)
  let ?img = "arg_image_bytes t prec a" and ?rest = "args_image ts (next_precision t prec a) as"
  have rd: "mem_read input inp (length ?img) = Inr ?img"
    "mem_read input (inp + length ?img) (length ?rest) = Inr ?rest"
    using mem_read_split [of input inp ?img ?rest] "1.prems"(4) by simp_all
  note IH = "1.IH" [OF _ _ _ rd(2)]
  show ?case
  proof (cases "is_string t")
    case True
    obtain n bs where img: "?img = le_bytes 4 n @ bs" "length bs = n"
      by (rule string_arg_image [OF True, of a prec]) (use "1.prems"(2) in auto)
    have "n < 2 ^ 32" using "1.prems"(3) img by simp
    from mem_u32_image [OF rd(1) [unfolded img(1)] this] show ?thesis
      using True "1.prems" img IH [of m cnt out] by (simp add: compressSingle_def Let_def add.assoc)
  next
    case False
    have l: "length ?img = arg_size (argty_of (to_basic a))" using basic_image [OF False] by simp
    have "of_bits (pack_type (log_type_of a)) (le_val ?img) = to_basic a"
      using basic_image [OF False] by (simp add: pack_type_basic)
    moreover have "mem_read input inp (sizeof (log_type_of a)) = Inr ?img"
      using rd(1) l by (simp add: pack_type_basic)
    ultimately show ?thesis
      using False "1.prems" l IH pack_type_basic(2) [of a]
      by (cases "compress_basic m nibs cnt out (to_basic a)")
        (auto simp: compressSingle_def add.assoc)
  qed
qed simp_all

lemma compress_second_pass:
  "length ts = length as \<Longrightarrow> list_all2 typed ts as \<Longrightarrow> length (args_image ts prec as) < 2 ^ 32 \<Longrightarrow>
   mem_read input inp (length (args_image ts prec as)) = Inr (args_image ts prec as) \<Longrightarrow>
   out + length (strings_image ts prec as) \<le> length m \<Longrightarrow>
     compress_internal nibs input True ts (map log_type_of as) (m, cnt, inp, out) =
       res_bind (mem_write m out (strings_image ts prec as)) (\<lambda>m.
         Inr (m, cnt, inp + length (args_image ts prec as), out + length (strings_image ts prec as)))"
proof (induction ts prec as arbitrary: m inp out rule: args_image.induct)
  case (1 t ts prec a as)
  let ?img = "arg_image_bytes t prec a" and ?rest = "args_image ts (next_precision t prec a) as"
  let ?strs = "strings_image ts (next_precision t prec a) as"
  have rd: "mem_read input inp (length ?img) = Inr ?img"
    "mem_read input (inp + length ?img) (length ?rest) = Inr ?rest"
    using mem_read_split [of input inp ?img ?rest] "1.prems"(4) by simp_all
  note IH = "1.IH" [OF _ _ _ rd(2)]
  show ?case
  proof (cases "is_string t")
    case True
    let ?w = "characterWidth (log_type_of a)"
    obtain n bs where img: "?img = le_bytes 4 n @ bs" "length bs = n" "string_image t prec a = bs @ replicate ?w 0"
      by (rule string_arg_image [OF True, of a prec]) (use "1.prems"(2) in auto)
    have n: "n < 2 ^ 32" using "1.prems"(3) img by simp
    have room: "out + n + ?w + length ?strs \<le> length m" using "1.prems"(5) True img by simp
    obtain m1 where m1: "mem_write m out bs = Inr m1" using mem_write_ok [of out bs m] room img(2) by auto
    obtain m2 where m2: "mem_write m1 (out + n) (replicate ?w 0) = Inr m2"
      using mem_write_ok [of "out + n" "replicate ?w 0" m1] mem_write_length [OF m1] room by auto
    have len: "length m2 = length m" using mem_write_length [OF m1] mem_write_length [OF m2] by simp
    have "compressSingle nibs input True t (log_type_of a) (m, cnt, inp, out) =
        Inr (m2, cnt, inp + length ?img, out + n + ?w)"
      using True img m1 m2 mem_u32_image [OF rd(1) [unfolded img(1)] n]
      by (simp add: compressSingle_def Let_def add.assoc)
    then show ?thesis
      using True "1.prems" img m1 m2 IH [of "out + n + ?w" m2] room len
      by (simp add: mem_write_append add.assoc)
  next
    case False
    have "length ?img = sizeof (log_type_of a)" using basic_image [OF False] pack_type_basic(2) [of a] by simp
    then show ?thesis
      using False "1.prems" IH [of out m] by (simp add: compressSingle_def add.assoc)
  qed
qed (simp_all add: mem_write_Nil)

lemma compress_basics_below:
  "nibs + (cnt + length as + 1) div 2 \<le> out \<Longrightarrow> out + args_size as \<le> length m \<Longrightarrow>
     compress_basics m nibs cnt out as = Inr (m', cnt', out') \<Longrightarrow> j < nibs \<Longrightarrow> m' ! j = m ! j"
proof (induction as arbitrary: m cnt out)
  case (Cons a as)
  have "nibs + cnt div 2 < out" "out + arg_size (argty_of a) \<le> length m" using Cons.prems(1,2) by simp_all
  from compress_basic_step [OF this] obtain m1 where
    s: "compress_basic m nibs cnt out a = Inr (m1, cnt + 1, out + length (arg_bytes a))" and l: "length m1 = length m"
    and o: "\<forall>j < out. j \<noteq> nibs + cnt div 2 \<longrightarrow> m1 ! j = m ! j" by blast
  have "m' ! j = m1 ! j"
    using Cons.prems s l length_arg_bytes [of a] by (intro Cons.IH [of "cnt + 1" "out + length (arg_bytes a)" m1]) auto
  then show ?case using o Cons.prems(1,4) by simp
qed simp

definition compressed_size :: "param_type list \<Rightarrow> log_arg list \<Rightarrow> nat" where
  "compressed_size ts as =
     (length (basics ts as) + 1) div 2 + length (args_bytes (basics ts as)) + length (strings_image ts (- 1) as)"

text \<open>
  A compressed message at a position: the nibbles, the packed values, the strings. The half byte that
  is left over when the number of nibbles is odd keeps what was in the buffer.
\<close>

definition compressed_at :: "bytes \<Rightarrow> nat \<Rightarrow> param_type list \<Rightarrow> log_arg list \<Rightarrow> bool" where
  "compressed_at m pos ts as \<longleftrightarrow>
     (let n = length (basics ts as); v = pos + (n + 1) div 2
      in pos + compressed_size ts as \<le> length m \<and>
         (\<forall>i < n. nibble_at m pos i = arg_code (basics ts as ! i)) \<and>
         mem_read m v (length (args_bytes (basics ts as))) = Inr (args_bytes (basics ts as)) \<and>
         mem_read m (v + length (args_bytes (basics ts as))) (length (strings_image ts (- 1) as)) =
           Inr (strings_image ts (- 1) as))"

lemma take_eq_nthI: "length xs = length ys \<Longrightarrow> (\<And>j. j < n \<Longrightarrow> xs ! j = ys ! j) \<Longrightarrow> take n xs = take n ys"
  by (intro nth_equalityI) auto

lemma compress_spec:
  assumes l: "length ts = length as" and ty: "list_all2 typed ts as"
    and img: "mem_read input inp (length (args_image ts (- 1) as)) = Inr (args_image ts (- 1) as)"
    and small: "length (args_image ts (- 1) as) < 2 ^ 32"
    and room: "pos + (length (basics ts as) + 1) div 2 + args_size (basics ts as) + length (strings_image ts (- 1) as) \<le> length m"
  shows "\<exists>m'. compress (map log_type_of as) (length (basics ts as)) ts input inp m pos =
      Inr (m', inp + length (args_image ts (- 1) as), pos + compressed_size ts as) \<and>
    length m' = length m \<and> take pos m' = take pos m \<and> compressed_at m' pos ts as"
proof -
  let ?bs = "basics ts as" and ?strs = "strings_image ts (- 1) as"
  let ?v = "pos + (length ?bs + 1) div 2"
  let ?e = "?v + length (args_bytes ?bs)"
  obtain m1 where m1: "compress_basics m pos 0 ?v ?bs = Inr (m1, length ?bs, ?e)" "length m1 = length m"
    "\<forall>i < length ?bs. nibble_at m1 pos i = arg_code (?bs ! i)"
    "take (length (args_bytes ?bs)) (drop ?v m1) = args_bytes ?bs"
    using compress_basics_spec [of pos 0 ?bs ?v m] room by auto
  have below: "m1 ! j = m ! j" if "j < pos" for j
    using compress_basics_below [OF _ _ m1(1) that] room by simp
  have size: "length (args_bytes ?bs) \<le> args_size ?bs" by (rule length_args_bytes_size)
  then have e: "?e + length ?strs \<le> length m1" using room m1(2) by simp
  obtain m2 where m2: "mem_write m1 ?e ?strs = Inr m2" using mem_write_ok [OF e] by blast
  have lm2: "length m2 = length m" using mem_write_length [OF m2] m1(2) by simp
  have same: "take ?e m2 = take ?e m1" by (rule mem_write_take [OF m2 order_refl])
  have nth: "m2 ! j = m1 ! j" if "j < ?e" for j using that arg_cong [OF same, of "\<lambda>x. x ! j"] by simp
  have "compress (map log_type_of as) (length ?bs) ts input inp m pos =
      Inr (m2, inp + length (args_image ts (- 1) as), pos + compressed_size ts as)"
    using compress_first_pass [OF l ty small img, of pos m 0 ?v] m1(1)
      compress_second_pass [OF l ty small img e, of pos 0] m2
    by (simp add: compress_def compressed_size_def add.assoc)
  moreover have "take pos m2 = take pos m" using nth below lm2 by (intro take_eq_nthI) auto
  moreover have "nibble_at m2 pos i = arg_code (?bs ! i)" if "i < length ?bs" for i
  proof -
    have "pos + i div 2 < ?e" using that by simp
    then have "nibble_at m2 pos i = nibble_at m1 pos i" by (simp add: nibble_at_def nth)
    then show ?thesis using m1(3) that by simp
  qed
  moreover have "mem_read m2 ?v (length (args_bytes ?bs)) = Inr (args_bytes ?bs)"
    using m1(2,4) e mem_read_other [OF m2, of ?v "length (args_bytes ?bs)"] by (simp add: mem_read_def)
  moreover have "mem_read m2 ?e (length ?strs) = Inr ?strs" by (rule mem_read_written [OF m2 refl])
  ultimately show ?thesis
    using lm2 e m1(2) by (intro exI [of _ m2]) (simp add: compressed_at_def compressed_size_def Let_def add.assoc)
qed

text \<open>
  The space that the encoder makes sure of is enough: nibbles, values at full width and strings take
  at most twice the bytes of the uncompressed arguments.
\<close>

lemma string_image_size: "is_string t \<Longrightarrow> typed t a \<Longrightarrow> length (string_image t prec a) \<le> length (arg_image_bytes t prec a)"
  using clip_string_le by (cases a) (auto simp: Let_def min_absorb2)

lemma compressed_room:
  "list_all2 typed ts as \<Longrightarrow>
     args_size (basics ts as) + length (strings_image ts prec as) \<le> length (args_image ts prec as)"
proof (induction ts prec as rule: args_image.induct)
  case (1 t ts prec a as)
  then have IH: "args_size (basics ts as) + length (strings_image ts (next_precision t prec a) as) \<le>
      length (args_image ts (next_precision t prec a) as)" by simp
  show ?case
  proof (cases "is_string t")
    case True
    then show ?thesis using IH string_image_size [OF True, of a prec] "1.prems" by simp
  next
    case False
    then show ?thesis using IH basic_image [OF False, of prec a] by simp
  qed
qed simp_all

lemma length_le_args_size: "length as \<le> args_size as"
  using arg_size_bounds(1) by (induction as) (auto intro: add_mono [of "Suc 0", simplified])

section \<open>The header of a message\<close>

definition LOG_MSGS_OR_DIC :: nat where
  "LOG_MSGS_OR_DIC = 1"

text \<open>The three bit fields of the first byte: 2, 2 and 4 bits.\<close>

definition compressed_entry :: "nat \<Rightarrow> nat \<Rightarrow> nat \<Rightarrow> u8" where
  "compressed_entry entryType additionalFmtIdBytes additionalTimestampBytes =
     word_of_nat (entryType + 4 * additionalFmtIdBytes + 16 * additionalTimestampBytes)"

definition entry_type_of :: "u8 \<Rightarrow> nat" where
  "entry_type_of b = unat b mod 4"

definition compressLogHeader :: "u32 \<Rightarrow> u64 \<Rightarrow> bytes \<Rightarrow> nat \<Rightarrow> u64 \<Rightarrow> (bytes \<times> nat \<times> nat) cres" where
  "compressLogHeader fmtId timestamp m out lastTimestamp =
     res_bind (pack m (out + 1) (ArgU32 fmtId)) (\<lambda>(m, p, code1).
     res_bind (pack m p (ArgI64 (timestamp - lastTimestamp))) (\<lambda>(m, p, code2).
       let additionalFmtIdBytes = (code1 - 1) mod 4; additionalTimestampBytes = code2 mod 16
       in res_bind (mem_write m out
               [compressed_entry LOG_MSGS_OR_DIC additionalFmtIdBytes additionalTimestampBytes]) (\<lambda>m.
            Inr (m, p, 1 + additionalFmtIdBytes + 1 + additionalTimestampBytes mod 8))))"

text \<open>\<open>None\<close> is the result false.\<close>

definition decompressLogHeader :: "bytes \<Rightarrow> nat \<Rightarrow> u64 \<Rightarrow> (u32 \<times> u64 \<times> nat) option cres" where
  "decompressLogHeader m inp lastTimestamp =
     res_bind (arr_get m inp) (\<lambda>b.
       if entry_type_of b \<noteq> LOG_MSGS_OR_DIC then Inr None
       else res_bind (unpack_int m (inp + 1) (unat b div 4 mod 4 + 1)) (\<lambda>(logId :: u32, p).
            res_bind (unpack_int m p (unat b div 16)) (\<lambda>(delta :: u64, p).
              Inr (Some (logId, delta + lastTimestamp, p)))))"

definition header_image :: "u32 \<Rightarrow> u64 \<Rightarrow> bytes" where
  "header_image fmtId delta =
     compressed_entry LOG_MSGS_OR_DIC (fst (arg_image (ArgU32 fmtId)) - 1) (fst (arg_image (ArgI64 delta))) #
       arg_bytes (ArgU32 fmtId) @ arg_bytes (ArgI64 delta)"

lemma header_codes:
  "1 \<le> fst (arg_image (ArgU32 fmtId))" "fst (arg_image (ArgU32 fmtId)) \<le> 4" "fst (arg_image (ArgI64 delta)) < 16"
proof -
  show "1 \<le> fst (arg_image (ArgU32 fmtId))" "fst (arg_image (ArgU32 fmtId)) \<le> 4"
    using num_bytes_width [where v = fmtId] by (simp_all add: uint_image_def int_width_def Let_def)
  show "fst (arg_image (ArgI64 delta)) < 16"
  proof (cases "0 \<le> sint delta \<or> sint delta \<le> - (2 ^ 56)")
    case True
    then show ?thesis using fst_uint_image_bounds(1) [of delta] by (simp add: sint_image_def)
  next
    case False
    then have "unat (- delta) < 256 ^ 7" using num_bytes_neg [where k = 7 and v = delta] by simp
    then have "num_bytes (unat (- delta)) \<le> 7" by (rule num_bytes_le [rotated]) simp
    then show ?thesis using False by (simp add: sint_image_def uint_image_def Let_def)
  qed
qed

lemma unat_compressed_entry:
  assumes "t < 4" "f < 4" "n < 16"
  shows "unat (compressed_entry t f n) = t + 4 * f + 16 * n"
  using assms by (simp add: compressed_entry_def unat_of_nat take_bit_nat_eq_self del: of_nat_add of_nat_mult)

lemma entry_fields:
  assumes "f < 4"
  shows "(1 + 4 * f + 16 * n) mod 4 = (1 :: nat)" "(1 + 4 * f + 16 * n) div 4 mod 4 = f" "(1 + 4 * f + 16 * n) div 16 = n"
proof -
  have "f = 0 \<or> f = 1 \<or> f = 2 \<or> f = 3" using assms by linarith
  then show "(1 + 4 * f + 16 * n) mod 4 = 1" "(1 + 4 * f + 16 * n) div 4 mod 4 = f" "(1 + 4 * f + 16 * n) div 16 = n"
    by (elim disjE; simp; presburger)+
qed

lemma compressLogHeader_image:
  assumes room: "out + 13 \<le> length m"
  shows "\<exists>m' n. compressLogHeader fmtId timestamp m out lastTimestamp =
      Inr (m', out + length (header_image fmtId (timestamp - lastTimestamp)), n) \<and>
    length m' = length m \<and> take out m' = take out m \<and>
    mem_read m' out (length (header_image fmtId (timestamp - lastTimestamp))) =
      Inr (header_image fmtId (timestamp - lastTimestamp))"
proof -
  let ?i = "ArgU32 fmtId" and ?d = "ArgI64 (timestamp - lastTimestamp)"
  let ?b1 = "arg_bytes ?i" and ?b2 = "arg_bytes ?d"
  have l: "length ?b1 \<le> 4" "length ?b2 \<le> 8" using length_arg_bytes(2) [of ?i] length_arg_bytes(2) [of ?d] by simp_all
  obtain m1 where m1: "pack m (out + 1) ?i = Inr (m1, out + 1 + length ?b1, fst (arg_image ?i))"
    "packed m (out + 1) ?b1 m1" using pack_packed [of "out + 1" ?i m] room by auto
  obtain m2 where m2: "pack m1 (out + 1 + length ?b1) ?d =
      Inr (m2, out + 1 + length ?b1 + length ?b2, fst (arg_image ?d))"
    "packed m1 (out + 1 + length ?b1) ?b2 m2"
    using pack_packed [of "out + 1 + length ?b1" ?d m1] m1(2) l room by (auto simp: packed_def)
  let ?e = "compressed_entry LOG_MSGS_OR_DIC (fst (arg_image ?i) - 1) (fst (arg_image ?d))"
  have len: "length m2 = length m" using m1(2) m2(2) by (simp add: packed_def)
  have t2: "take (out + 1 + length ?b1 + length ?b2) m2 = take (out + 1) m @ ?b1 @ ?b2"
    using m1(2) m2(2) by (simp add: packed_def)
  define m3 where "m3 = take out m2 @ ?e # drop (out + 1) m2"
  have w: "mem_write m2 out [?e] = Inr m3" using room len by (simp add: mem_write_def m3_def)
  have codes: "(fst (arg_image ?i) - 1) mod 4 = fst (arg_image ?i) - 1" "fst (arg_image ?d) mod 16 = fst (arg_image ?d)"
    using header_codes(1,2) [of fmtId] header_codes(3) [of "timestamp - lastTimestamp"] by simp_all
  have "take out m2 = take out m" using arg_cong [OF t2, of "take out"] room by (simp add: min_absorb1)
  moreover have "take (length ?b1 + length ?b2) (drop (out + 1) m2) = ?b1 @ ?b2"
    using arg_cong [OF t2, of "drop (out + 1)"] room by (simp add: drop_take)
  ultimately have "take out m3 = take out m" "length m3 = length m"
    "mem_read m3 out (length (header_image fmtId (timestamp - lastTimestamp))) =
      Inr (header_image fmtId (timestamp - lastTimestamp))"
    using room len l by (simp_all add: m3_def mem_read_def header_image_def)
  then show ?thesis
    using m1(1) m2(1) w codes by (simp add: compressLogHeader_def Let_def header_image_def add.assoc)
qed

lemma decompressLogHeader_image:
  assumes "mem_read m inp (length (header_image fmtId delta)) = Inr (header_image fmtId delta)"
  shows "decompressLogHeader m inp lastTimestamp =
    Inr (Some (fmtId, delta + lastTimestamp, inp + length (header_image fmtId delta)))"
proof -
  let ?e = "compressed_entry LOG_MSGS_OR_DIC (fst (arg_image (ArgU32 fmtId)) - 1) (fst (arg_image (ArgI64 delta)))"
  let ?b1 = "arg_bytes (ArgU32 fmtId)" and ?b2 = "arg_bytes (ArgI64 delta)"
  have e: "unat ?e = 1 + 4 * (fst (arg_image (ArgU32 fmtId)) - 1) + 16 * fst (arg_image (ArgI64 delta))"
    using header_codes(1,2) [of fmtId] header_codes(3) [of delta] by (subst unat_compressed_entry) (simp_all add: LOG_MSGS_OR_DIC_def)
  have dec: "entry_type_of ?e = 1" "unat ?e div 4 mod 4 + 1 = fst (arg_image (ArgU32 fmtId))"
    "unat ?e div 16 = fst (arg_image (ArgI64 delta))"
    using entry_fields [of "fst (arg_image (ArgU32 fmtId)) - 1" "fst (arg_image (ArgI64 delta))"]
      header_codes(1,2) [of fmtId] unfolding e entry_type_of_def by simp_all
  have "mem_read m inp (length ([?e] @ ?b1 @ ?b2)) = Inr ([?e] @ ?b1 @ ?b2)"
    using assms by (simp add: header_image_def)
  note s1 = mem_read_split [OF this]
  note s2 = mem_read_split [OF s1(2)]
  have "arr_get m inp = Inr ?e" using s1(1)
    by (auto simp: arr_get_def mem_read_def take_Suc_conv_app_nth hd_drop_conv_nth split: if_splits)
  moreover have "unpack_int m (inp + 1) (fst (arg_image (ArgU32 fmtId))) = Inr (fmtId, inp + 1 + length ?b1)"
    using unpack_int_small [of m "inp + 1" fmtId] s2(1) by (simp add: arg_bytes_def int_width_def)
  moreover have "unpack_int m (inp + 1 + length ?b1) (fst (arg_image (ArgI64 delta))) = Inr (delta, inp + 1 + length ?b1 + length ?b2)"
    using unpack_int_sint [of 7 m "inp + 1 + length ?b1" delta] s2(2) header_codes(3) [of delta]
    by (simp add: arg_bytes_def int_width_def)
  ultimately show ?thesis
    using dec by (simp add: decompressLogHeader_def LOG_MSGS_OR_DIC_def header_image_def add.assoc)
qed

end
