(* ===== verification/Log_Decode.thy ===== *)
theory Log_Decode
  imports Log_Entry
begin

text \<open>
  What the decoder makes of a compressed message (\<open>printSingleArg\<close> and \<open>decompressNextLogStatement\<close> of
  \<^verbatim>\<open>src/runtime/Log.cc\<close>): the calls of \<open>fprintf\<close> with their formats, widths, precisions and
  arguments. They are compared with what was logged: for each fragment of the format the arguments of its
  stars and of its conversion, taken from the caller's list in order (\<open>logged_calls\<close>).
\<close>

section \<open>What the decoder prints\<close>

text \<open>The type with which a packed value is read; of the two small signed types the bits.\<close>

fun decode_type :: "format_type \<Rightarrow> argty" where
  "decode_type unsigned_char_t = TyU8"
| "decode_type unsigned_short_int_t = TyU16"
| "decode_type unsigned_int_t = TyU32"
| "decode_type unsigned_long_int_t = TyU64"
| "decode_type unsigned_long_long_int_t = TyU64"
| "decode_type uintmax_t_t = TyU64"
| "decode_type size_t_t = TyU64"
| "decode_type wint_t_t = TyU32"
| "decode_type signed_char_t = TyU8"
| "decode_type short_int_t = TyU16"
| "decode_type int_t = TyI32"
| "decode_type long_int_t = TyI64"
| "decode_type long_long_int_t = TyLL"
| "decode_type intmax_t_t = TyI64"
| "decode_type ptrdiff_t_t = TyI64"
| "decode_type double_t = TyF64"
| "decode_type long_double_t = TyLD"
| "decode_type _ = TyPtr"

text \<open>A call of \<open>fprintf\<close>: the format, the widths and precisions, the argument.\<close>

datatype printf_arg = PArg arg | PStr bytes | PWStr "u32 list"

datatype printf_call = Call string "int list" "printf_arg option"

definition printSingleArg :: "string \<Rightarrow> printf_arg \<Rightarrow> int \<Rightarrow> int \<Rightarrow> printf_call" where
  "printSingleArg formatString arg width precision =
     (if width < 0 \<and> precision < 0 then Call formatString [] (Some arg)
      else if width \<ge> 0 \<and> precision < 0 then Call formatString [width] (Some arg)
      else if width \<ge> 0 \<and> precision \<ge> 0 then Call formatString [width, precision] (Some arg)
      else Call formatString [precision] (Some arg))"

text \<open>A string in memory, up to its terminator.\<close>

definition read_str :: "bytes \<Rightarrow> nat \<Rightarrow> bytes cres" where
  "read_str m pos = (if 0 \<in> set (drop pos m) then Inr (takeWhile (\<lambda>c. c \<noteq> 0) (drop pos m)) else Inl Fault)"

fun wide_chars :: "bytes \<Rightarrow> u32 list" where
  "wide_chars (a # b # c # d # bs) = word_of_nat (le_val [a, b, c, d]) # wide_chars bs"
| "wide_chars _ = []"

definition read_wstr :: "bytes \<Rightarrow> nat \<Rightarrow> u32 list cres" where
  "read_wstr m pos =
     (if 0 \<in> set (wide_chars (drop pos m)) then Inr (takeWhile (\<lambda>c. c \<noteq> 0) (wide_chars (drop pos m))) else Inl Fault)"

fun int_of_arg :: "arg \<Rightarrow> int" where
  "int_of_arg (ArgI32 v) = sint v"
| "int_of_arg _ = 0"

text \<open>A star: the next value, or -1 when there is none.\<close>

definition decode_star :: "fp_conv \<Rightarrow> bool \<Rightarrow> nibbler \<Rightarrow> (int \<times> nibbler) cres" where
  "decode_star fp star nb =
     (if star then res_bind (getNext fp TyI32 nb) (\<lambda>(a, nb). Inr (int_of_arg a, nb)) else Inr (- 1, nb))"

definition decode_arg ::
  "fp_conv \<Rightarrow> format_type \<Rightarrow> nibbler \<Rightarrow> nat \<Rightarrow> (printf_arg \<times> nibbler \<times> nat) cres" where
  "decode_arg fp ty nb nextStringArg =
     (case ty of
        const_char_ptr_t \<Rightarrow>
          res_bind (read_str (nb_mem nb) nextStringArg) (\<lambda>s. Inr (PStr s, nb, nextStringArg + length s + 1))
      | const_wchar_t_ptr_t \<Rightarrow>
          res_bind (read_wstr (nb_mem nb) nextStringArg) (\<lambda>s. Inr (PWStr s, nb, nextStringArg + (length s + 1) * 4))
      | MAX_FORMAT_TYPE \<Rightarrow> Inl (Err EINVAL)
      | t \<Rightarrow> res_bind (getNext fp (decode_type t) nb) (\<lambda>(a, nb). Inr (PArg a, nb, nextStringArg)))"

definition decode_fragment ::
  "fp_conv \<Rightarrow> print_fragment \<Rightarrow> nibbler \<Rightarrow> nat \<Rightarrow> (printf_call \<times> nibbler \<times> nat) cres" where
  "decode_fragment fp pf nb nextStringArg =
     res_bind (decode_star fp (hasDynamicWidth pf) nb) (\<lambda>(width, nb).
     res_bind (decode_star fp (hasDynamicPrecision pf) nb) (\<lambda>(precision, nb).
       if argType pf = NONE then Inr (Call (formatFragment pf) [] None, nb, nextStringArg)
       else res_bind (decode_arg fp (argType pf) nb nextStringArg) (\<lambda>(arg, nb, nextStringArg).
              Inr (printSingleArg (formatFragment pf) arg width precision, nb, nextStringArg))))"

fun decode_fragments ::
  "fp_conv \<Rightarrow> print_fragment list \<Rightarrow> nibbler \<Rightarrow> nat \<Rightarrow> (printf_call list \<times> nat) cres" where
  "decode_fragments fp [] nb nextStringArg = Inr ([], nextStringArg)"
| "decode_fragments fp (pf # pfs) nb nextStringArg =
     res_bind (decode_fragment fp pf nb nextStringArg) (\<lambda>(c, nb, nextStringArg).
     res_bind (decode_fragments fp pfs nb nextStringArg) (\<lambda>(cs, nextStringArg).
       Inr (c # cs, nextStringArg)))"

text \<open>The message behind its header: the calls and the position behind the message.\<close>

definition decode_message :: "fp_conv \<Rightarrow> format_metadata \<Rightarrow> bytes \<Rightarrow> nat \<Rightarrow> (printf_call list \<times> nat) cres" where
  "decode_message fp md m readPos =
     res_bind (Nibbler m readPos (unat (md_numNibbles md))) (\<lambda>nb.
       decode_fragments fp (take (unat (numPrintFragments md)) (fragments md)) nb (getEndOfPackedArguments nb))"

section \<open>What was logged\<close>

definition is_int_type :: "argty \<Rightarrow> bool" where
  "is_int_type t \<longleftrightarrow> t \<notin> {TyF32, TyF64, TyLD}"

text \<open>
  An argument as a value of the type of its conversion, where C allows that: an integer, cut to the type
  or, when it is one of the small unsigned types, promoted; a floating point number, converted when the
  type is wider.
\<close>

definition arg_as :: "fp_conv \<Rightarrow> argty \<Rightarrow> arg \<Rightarrow> arg option" where
  "arg_as fp t a =
     (if is_int_type t \<and> is_int_type (argty_of a) \<and> (arg_size t \<le> arg_size (argty_of a) \<or> argty_of a \<in> {TyU8, TyU16})
      then Some (of_bits t (arg_bits a))
      else if argty_of a = t then Some a
      else case (t, a) of
        (TyF64, ArgF32 v) \<Rightarrow> Some (ArgF64 (f32_to_f64 fp v))
      | (TyLD, ArgF32 v) \<Rightarrow> Some (ArgLD (f32_to_ld fp v))
      | _ \<Rightarrow> None)"

text \<open>The argument of a conversion as \<open>printf\<close> would show it; a string as far as the precision allows.\<close>

definition logged_arg :: "fp_conv \<Rightarrow> format_type \<Rightarrow> param_type \<Rightarrow> u64 \<Rightarrow> log_arg \<Rightarrow> printf_arg option" where
  "logged_arg fp ty t prec a =
     (if is_string t then
        (case a of
           CString p s \<Rightarrow>
             if ty = const_char_ptr_t \<and> 0 \<notin> set s then Some (PStr (take (clip_string t prec (length s)) s)) else None
         | WString p s \<Rightarrow>
             if ty = const_wchar_t_ptr_t \<and> 0 \<notin> set s then Some (PWStr (take (clip_string t prec (length s)) s)) else None
         | _ \<Rightarrow> None)
      else if t = NON_STRING \<and> ty \<notin> {NONE, const_char_ptr_t, const_wchar_t_ptr_t, MAX_FORMAT_TYPE}
        then map_option PArg (arg_as fp (decode_type ty) (to_basic a))
      else None)"

definition logged_star ::
  "bool \<Rightarrow> param_type \<Rightarrow> param_type list \<Rightarrow> u64 \<Rightarrow> log_arg list \<Rightarrow> (int list \<times> param_type list \<times> u64 \<times> log_arg list) option" where
  "logged_star star kind ts prec as =
     (if \<not> star then Some ([], ts, prec, as)
      else case (ts, as) of
        (t # ts', Basic (ArgI32 v) # as') \<Rightarrow>
          if t = kind then Some ([sint v], ts', next_precision t prec (Basic (ArgI32 v)), as') else None
      | _ \<Rightarrow> None)"

text \<open>
  The calls of \<open>printf\<close> that a message stands for: for each fragment the arguments of its stars and its
  conversion, in the order in which they were given. \<open>None\<close> when the arguments are not of the
  types that the format asks for.
\<close>

definition logged_fragment ::
  "fp_conv \<Rightarrow> print_fragment \<Rightarrow> param_type list \<Rightarrow> u64 \<Rightarrow> log_arg list \<Rightarrow> (printf_call \<times> param_type list \<times> u64 \<times> log_arg list) option" where
  "logged_fragment fp pf ts prec as =
     Option.bind (logged_star (hasDynamicWidth pf) DYNAMIC_WIDTH ts prec as) (\<lambda>(width, ts, prec, as).
     Option.bind (logged_star (hasDynamicPrecision pf) DYNAMIC_PRECISION ts prec as) (\<lambda>(precision, ts, prec, as).
       if argType pf = NONE then Some (Call (formatFragment pf) [] None, ts, prec, as)
       else case (ts, as) of
         (t # ts', a # as') \<Rightarrow>
           map_option (\<lambda>v. (Call (formatFragment pf) (width @ precision) (Some v), ts', next_precision t prec a, as'))
             (logged_arg fp (argType pf) t prec a)
       | _ \<Rightarrow> None))"

fun logged_calls ::
  "fp_conv \<Rightarrow> print_fragment list \<Rightarrow> param_type list \<Rightarrow> u64 \<Rightarrow> log_arg list \<Rightarrow> printf_call list option" where
  "logged_calls fp [] ts prec as = (if ts = [] \<and> as = [] then Some [] else None)"
| "logged_calls fp (pf # pfs) ts prec as =
     Option.bind (logged_fragment fp pf ts prec as) (\<lambda>(c, ts, prec, as).
       map_option (\<lambda>cs. c # cs) (logged_calls fp pfs ts prec as))"

section \<open>Reading a value as another type\<close>

lemma unpack_int_down:
  assumes "LENGTH('a::len) \<le> LENGTH('b::len)" "LENGTH('b) \<le> 64"
  shows "(unpack_int m pos n :: ('a word \<times> nat) cres) =
    map_res ucast (unpack_int m pos n :: ('b word \<times> nat) cres)"
proof -
  have "(ucast (w :: u64) :: 'a word) = ucast (ucast w :: 'b word)" for w
    using assms by (intro bit_word_eqI) (auto simp: bit_simps)
  then show ?thesis
    by (cases "mem_read m pos n"; cases "mem_read m pos ((n - 8) mod 16)"; cases "mem_read m pos 16")
      (auto simp: unpack_int_def map_res_def Let_def)
qed

lemma unpack_int_down_to:
  assumes "(unpack_int m pos n :: ('b::len word \<times> nat) cres) = Inr (v, p)" "LENGTH('a::len) \<le> LENGTH('b)" "LENGTH('b) \<le> 64"
  shows "(unpack_int m pos n :: ('a word \<times> nat) cres) = Inr (ucast v, p)"
  using unpack_int_down [OF assms(2,3), of m pos n] assms(1) by (simp add: map_res_def)

lemma ucast_of_nat_u64: "LENGTH('b::len) \<le> 64 \<Longrightarrow> (ucast (word_of_nat n :: u64) :: 'b word) = word_of_nat n"
  by (intro bit_word_eqI) (auto simp: bit_simps)

lemma unpack_int_uint:
  fixes v :: "'a::len word"
  assumes "mem_read m pos (length (snd (uint_image v))) = Inr (snd (uint_image v))" "int_width TYPE('a word)" "LENGTH('b::len) \<le> 64"
  shows "(unpack_int m pos (fst (uint_image v)) :: ('b word \<times> nat) cres) = Inr (word_of_nat (unat v), pos + length (snd (uint_image v)))"
  using assms(1,3) num_bytes_fits [OF unat_width(2) [OF assms(2), of v]]
  by (simp add: unpack_int_def uint_image_def Let_def le_val_le_bytes ucast_of_nat_u64)

lemma unpack_int_arg:
  assumes "mem_read m pos (length (arg_bytes a)) = Inr (arg_bytes a)" "is_int_type (argty_of a)"
    and "LENGTH('a::len) \<le> 8 * arg_size (argty_of a) \<or> argty_of a \<in> {TyU8, TyU16} \<and> LENGTH('a) \<le> 64"
  shows "(unpack_int m pos (arg_code a) :: ('a word \<times> nat) cres) = Inr (word_of_nat (arg_bits a), pos + length (arg_bytes a))"
proof (cases "argty_of a \<in> {TyU8, TyU16}")
  case True
  then show ?thesis
    using assms by (cases a) (auto simp: arg_code_def arg_bytes_def int_width_def unpack_int_uint)
next
  case False
  then show ?thesis
    using assms(2,3) unpack_image [OF assms(1)]
    by (cases a) (auto simp: map_res_def res_bind_eq_Inr is_int_type_def intro!: unpack_int_down_to)
qed

lemma unat_u32_mod: "unat (v :: u32) mod 4294967296 = unat v"
  using unsigned_less [of v] by (intro mod_less) simp

lemma unpack_as:
  assumes "arg_as fp t a = Some b" "mem_read m pos (length (arg_bytes a)) = Inr (arg_bytes a)"
  shows "unpack fp t m pos (arg_code a) = Inr (b, pos + length (arg_bytes a))"
proof (cases "is_int_type t \<and> is_int_type (argty_of a) \<and> (arg_size t \<le> arg_size (argty_of a) \<or> argty_of a \<in> {TyU8, TyU16})")
  case True
  then have "b = of_bits t (arg_bits a)" using assms(1) by (simp add: arg_as_def)
  moreover note unpack_int_arg [OF assms(2), where ?'a = 8] unpack_int_arg [OF assms(2), where ?'a = 16]
    unpack_int_arg [OF assms(2), where ?'a = 32] unpack_int_arg [OF assms(2), where ?'a = 64]
  ultimately show ?thesis
    using True by (cases t) (simp_all add: map_res_def is_int_type_def)
next
  case False
  then show ?thesis
  proof (cases "argty_of a = t")
    case True
    then show ?thesis using False assms unpack_image [OF assms(2)] by (auto simp: arg_as_def)
  next
    case ne: False
    then show ?thesis
      using False assms
      by (cases t; cases a) (simp_all add: arg_as_def is_int_type_def arg_code_def arg_bytes_def float_image_def unpack_float_def map_res_def
          le_val_le_bytes unat_u32_mod Let_def)
  qed
qed

section \<open>The decoder reads what was logged\<close>

text \<open>
  A point in decoding: the nibbler stands before the values of the remaining arguments, the string
  position before their strings.
\<close>

definition decoding :: "nat \<Rightarrow> nat \<Rightarrow> nibbler \<Rightarrow> arg list \<Rightarrow> bool" where
  "decoding nibs i nb bs \<longleftrightarrow>
     nibbler_at nb nibs i \<and> nibs + (i + length bs + 1) div 2 \<le> length (nb_mem nb) \<and>
     (\<forall>k < length bs. nibble_at (nb_mem nb) nibs (i + k) = arg_code (bs ! k)) \<and>
     mem_read (nb_mem nb) (currPackedValue nb) (length (args_bytes bs)) = Inr (args_bytes bs) \<and>
     currPackedValue nb + length (args_bytes bs) = endOfValues nb"

lemma getNext_decoding:
  assumes d: "decoding nibs i nb (a # bs)" and as: "arg_as fp t a = Some b"
  shows "\<exists>nb'. getNext fp t nb = Inr (b, nb') \<and> decoding nibs (Suc i) nb' bs \<and> nb_mem nb' = nb_mem nb"
proof -
  let ?m = "nb_mem nb" and ?p = "currPackedValue nb"
  have rd: "mem_read ?m ?p (length (arg_bytes a)) = Inr (arg_bytes a)"
    "mem_read ?m (?p + length (arg_bytes a)) (length (args_bytes bs)) = Inr (args_bytes bs)"
    using mem_read_split [of ?m ?p "arg_bytes a" "args_bytes bs"] d by (simp_all add: decoding_def)
  have codes: "nibble_at ?m nibs (i + k) = arg_code ((a # bs) ! k)" if "k < Suc (length bs)" for k
    using d that by (simp add: decoding_def)
  have at: "nibbler_at nb nibs i" and lt: "nibs + i div 2 < length ?m" "?p < endOfValues nb"
    using d length_arg_bytes(1) [of a] by (auto simp: decoding_def)
  define nb' where "nb' = nb\<lparr>currPackedValue := ?p + length (arg_bytes a),
      nibblePosition := (if onFirstNibble nb then nibblePosition nb else nibblePosition nb + 1),
      onFirstNibble := \<not> onFirstNibble nb\<rparr>"
  have "getNext fp t nb = Inr (b, nb')"
    using unpack_as [OF as rd(1)] at lt codes [of 0]
    by (auto simp: getNext_def nb'_def nibbler_at_def nibble_at_def Let_def split: if_splits)
  moreover have "nibbler_at nb' nibs (Suc i)" using at by (auto simp: nibbler_at_def nb'_def)
  moreover have "nibble_at ?m nibs (Suc i + k) = arg_code (bs ! k)" if "k < length bs" for k
    using codes [of "Suc k"] that by simp
  ultimately show ?thesis
    using d rd(2) by (intro exI [of _ nb']) (simp add: decoding_def nb'_def)
qed

lemma arg_as_int: "arg_as fp TyI32 (ArgI32 v) = Some (ArgI32 v)"
  by (simp add: arg_as_def is_int_type_def)

lemma logged_star_decoded:
  assumes "logged_star star kind ts prec as = Some (vs, ts', prec', as')" "\<not> is_string kind"
    and "decoding nibs i nb (basics ts as)"
  shows "\<exists>i' nb'. decode_star fp star nb = Inr (if star then hd vs else - 1, nb') \<and>
      decoding nibs i' nb' (basics ts' as') \<and> nb_mem nb' = nb_mem nb \<and>
      strings_image ts prec as = strings_image ts' prec' as' \<and> vs = (if star then [hd vs] else [])"
proof (cases star)
  case False
  then show ?thesis using assms by (auto simp: logged_star_def decode_star_def)
next
  case True
  then obtain v where t: "ts = kind # ts'" "as = Basic (ArgI32 v) # as'" "vs = [sint v]"
    "prec' = next_precision kind prec (Basic (ArgI32 v))"
    using assms(1) by (auto simp: logged_star_def split: list.splits log_arg.splits arg.splits if_splits)
  then have "decoding nibs i nb (ArgI32 v # basics ts' as')" using assms(2,3) by simp
  from getNext_decoding [OF this arg_as_int, of fp] obtain nb' where
    "getNext fp TyI32 nb = Inr (ArgI32 v, nb')" "decoding nibs (Suc i) nb' (basics ts' as')" "nb_mem nb' = nb_mem nb" by blast
  then show ?thesis
    using t True assms(2) by (intro exI [of _ "Suc i"] exI [of _ nb']) (simp add: decode_star_def)
qed

lemma le_bytes_4: "le_bytes 4 v = [word_of_nat (v mod 256), word_of_nat (v div 256 mod 256), word_of_nat (v div 256 div 256 mod 256), word_of_nat (v div 256 div 256 div 256 mod 256)]"
proof -
  have "(4 :: nat) = Suc (Suc (Suc (Suc 0)))" by simp
  then show ?thesis by (simp only: le_bytes.simps)
qed

lemma wide_chars_bytes: "wide_chars (wide_bytes s @ rest) = s @ wide_chars rest"
proof (induction s)
  case (Cons c s)
  have "word_of_nat (le_val (le_bytes 4 (unat c))) = c"
    using unsigned_less [of c] by (simp add: le_val_le_bytes unat_u32_mod)
  then show ?case using Cons by (simp add: wide_bytes_def le_bytes_4 del: le_val.simps)
qed (simp add: wide_bytes_def)

lemma mem_read_drop_prefix: "mem_read m pos (length xs) = Inr xs \<Longrightarrow> drop pos m = xs @ drop (pos + length xs) m"
  using append_take_drop_id [of "length xs" "drop pos m"] by (auto simp: mem_read_def add.commute split: if_splits)

lemma read_str_image:
  assumes "mem_read m pos (length (s @ [0])) = Inr (s @ [0])" "0 \<notin> set s"
  shows "read_str m pos = Inr s"
proof -
  show ?thesis using assms(2) mem_read_drop_prefix [OF assms(1)] by (auto simp: read_str_def takeWhile_append)
qed

lemma read_wstr_image:
  assumes "mem_read m pos (length (wide_bytes (s @ [0]))) = Inr (wide_bytes (s @ [0]))" "0 \<notin> set s"
  shows "read_wstr m pos = Inr s"
proof -
  have "wide_chars (drop pos m) = s @ 0 # wide_chars (drop (pos + length (wide_bytes (s @ [0]))) m)"
    using mem_read_drop_prefix [OF assms(1)] wide_chars_bytes [of "s @ [0]"] by simp
  then show ?thesis using assms(2) by (simp add: read_wstr_def takeWhile_append)
qed

text \<open>The strings lie where the decoder looks for them.\<close>

definition ready :: "nat \<Rightarrow> nat \<Rightarrow> nibbler \<Rightarrow> nat \<Rightarrow> param_type list \<Rightarrow> u64 \<Rightarrow> log_arg list \<Rightarrow> bool" where
  "ready nibs i nb pos ts prec as \<longleftrightarrow>
     decoding nibs i nb (basics ts as) \<and>
     mem_read (nb_mem nb) pos (length (strings_image ts prec as)) = Inr (strings_image ts prec as)"

lemma decode_arg_number:
  assumes "ty \<notin> {NONE, const_char_ptr_t, const_wchar_t_ptr_t, MAX_FORMAT_TYPE}"
    and "getNext fp (decode_type ty) nb = Inr (a, nb')"
  shows "decode_arg fp ty nb pos = Inr (PArg a, nb', pos)"
  using assms by (cases ty) (simp_all add: decode_arg_def)

lemma logged_arg_decoded:
  assumes la: "logged_arg fp ty t prec a = Some v" and r: "ready nibs i nb pos (t # ts) prec (a # as)"
  shows "\<exists>i' nb' pos'. decode_arg fp ty nb pos = Inr (v, nb', pos') \<and> ready nibs i' nb' pos' ts (next_precision t prec a) as \<and>
     nb_mem nb' = nb_mem nb \<and>
     pos' + length (strings_image ts (next_precision t prec a) as) = pos + length (strings_image (t # ts) prec (a # as))"
proof (cases "is_string t")
  case True
  let ?strs = "strings_image ts (next_precision t prec a) as"
  have rd: "mem_read (nb_mem nb) pos (length (string_image t prec a)) = Inr (string_image t prec a)"
    "mem_read (nb_mem nb) (pos + length (string_image t prec a)) (length ?strs) = Inr ?strs"
    using mem_read_split [of "nb_mem nb" pos "string_image t prec a" ?strs] r True by (simp_all add: ready_def)
  have d: "decode_arg fp ty nb pos = Inr (v, nb, pos + length (string_image t prec a))"
  proof (cases a)
    case (Basic b)
    then show ?thesis using la True by (simp add: logged_arg_def)
  next
    case (CString p s)
    then have "0 \<notin> set (take (clip_string t prec (length s)) s)" "ty = const_char_ptr_t"
      "v = PStr (take (clip_string t prec (length s)) s)"
      using la True by (auto simp: logged_arg_def dest: in_set_takeD split: if_splits)
    then show ?thesis using CString read_str_image [OF rd(1) [unfolded CString string_image.simps]]
      by (simp add: decode_arg_def)
  next
    case (WString p s)
    then have "0 \<notin> set (take (clip_string t prec (length s)) s)" "ty = const_wchar_t_ptr_t"
      "v = PWStr (take (clip_string t prec (length s)) s)"
      using la True by (auto simp: logged_arg_def dest: in_set_takeD split: if_splits)
    then show ?thesis using WString read_wstr_image [OF rd(1) [unfolded WString string_image.simps]]
      by (simp add: decode_arg_def algebra_simps)
  qed
  show ?thesis
    using d r rd(2) True by (intro exI [of _ i] exI [of _ nb] exI [of _ "pos + length (string_image t prec a)"]) (simp add: ready_def)
next
  case False
  obtain b where b: "arg_as fp (decode_type ty) (to_basic a) = Some b" "v = PArg b"
    "ty \<notin> {NONE, const_char_ptr_t, const_wchar_t_ptr_t, MAX_FORMAT_TYPE}"
    using la False by (auto simp: logged_arg_def split: if_splits)
  have "decoding nibs i nb (to_basic a # basics ts as)" using r False by (simp add: ready_def)
  from getNext_decoding [OF this b(1)] obtain nb' where
    nb': "getNext fp (decode_type ty) nb = Inr (b, nb')" "decoding nibs (Suc i) nb' (basics ts as)" "nb_mem nb' = nb_mem nb" by blast
  show ?thesis
    using decode_arg_number [OF b(3) nb'(1), of pos] nb' b(2) r False
    by (intro exI [of _ "Suc i"] exI [of _ nb'] exI [of _ pos]) (simp add: ready_def)
qed

fun star_ok :: "printf_call \<Rightarrow> bool" where
  "star_ok (Call f stars a) \<longleftrightarrow> (\<forall>w \<in> set stars. 0 \<le> w)"

lemma ready_star:
  assumes "logged_star star kind ts prec as = Some (vs, ts', prec', as')" "\<not> is_string kind"
    and "ready nibs i nb pos ts prec as"
  obtains i' nb' where "decode_star fp star nb = Inr (if star then hd vs else - 1, nb')" "ready nibs i' nb' pos ts' prec' as'"
    "nb_mem nb' = nb_mem nb" "strings_image ts prec as = strings_image ts' prec' as'" "vs = (if star then [hd vs] else [])"
proof -
  have "decoding nibs i nb (basics ts as)" using assms(3) by (simp add: ready_def)
  from logged_star_decoded [OF assms(1,2) this, of fp] assms(3) that show thesis
    by (auto simp: ready_def)
qed

lemma printSingleArg_stars:
  assumes "star_ok (Call f (w @ p) a)" "w = (if sw then [hd w] else [])" "p = (if sp then [hd p] else [])"
  shows "printSingleArg f v (if sw then hd w else - 1) (if sp then hd p else - 1) = Call f (w @ p) (Some v)"
proof -
  obtain x y where "w = (if sw then [x] else [])" "p = (if sp then [y] else [])" using assms(2,3) by blast
  then show ?thesis using assms(1) by (cases sw; cases sp) (auto simp: printSingleArg_def)
qed

lemma logged_fragment_decoded:
  assumes lf: "logged_fragment fp pf ts prec as = Some (c, ts', prec', as')" and ok: "star_ok c"
    and r: "ready nibs i nb pos ts prec as"
  shows "\<exists>i' nb' pos'. decode_fragment fp pf nb pos = Inr (c, nb', pos') \<and> ready nibs i' nb' pos' ts' prec' as' \<and>
     nb_mem nb' = nb_mem nb \<and> pos' + length (strings_image ts' prec' as') = pos + length (strings_image ts prec as)"
proof -
  obtain w ts1 prec1 as1 where w: "logged_star (hasDynamicWidth pf) DYNAMIC_WIDTH ts prec as = Some (w, ts1, prec1, as1)"
    using lf by (cases "logged_star (hasDynamicWidth pf) DYNAMIC_WIDTH ts prec as") (auto simp: logged_fragment_def)
  obtain p ts2 prec2 as2 where p: "logged_star (hasDynamicPrecision pf) DYNAMIC_PRECISION ts1 prec1 as1 = Some (p, ts2, prec2, as2)"
    using lf w by (cases "logged_star (hasDynamicPrecision pf) DYNAMIC_PRECISION ts1 prec1 as1") (auto simp: logged_fragment_def)
  obtain i1 nb1 where 1: "decode_star fp (hasDynamicWidth pf) nb = Inr (if hasDynamicWidth pf then hd w else - 1, nb1)"
    "ready nibs i1 nb1 pos ts1 prec1 as1" "nb_mem nb1 = nb_mem nb" "strings_image ts prec as = strings_image ts1 prec1 as1"
    "w = (if hasDynamicWidth pf then [hd w] else [])"
    by (rule ready_star [OF w _ r, of fp]) auto
  obtain i2 nb2 where 2: "decode_star fp (hasDynamicPrecision pf) nb1 = Inr (if hasDynamicPrecision pf then hd p else - 1, nb2)"
    "ready nibs i2 nb2 pos ts2 prec2 as2" "nb_mem nb2 = nb_mem nb1" "strings_image ts1 prec1 as1 = strings_image ts2 prec2 as2"
    "p = (if hasDynamicPrecision pf then [hd p] else [])"
    by (rule ready_star [OF p _ 1(2), of fp]) auto
  show ?thesis
  proof (cases "argType pf = NONE")
    case True
    then have "decode_fragment fp pf nb pos = Inr (c, nb2, pos)" "ts' = ts2" "prec' = prec2" "as' = as2"
      using lf w p 1(1) 2(1) by (simp_all add: logged_fragment_def decode_fragment_def)
    then show ?thesis using 1 2 by auto
  next
    case False
    obtain t a v where a: "ts2 = t # ts'" "as2 = a # as'" "prec' = next_precision t prec2 a"
      "c = Call (formatFragment pf) (w @ p) (Some v)" "logged_arg fp (argType pf) t prec2 a = Some v"
      using lf w p False by (auto simp: logged_fragment_def split: list.splits)
    from logged_arg_decoded [OF a(5) 2(2) [unfolded a(1,2)]] obtain i3 nb3 pos3 where
      3: "decode_arg fp (argType pf) nb2 pos = Inr (v, nb3, pos3)" "ready nibs i3 nb3 pos3 ts' prec' as'"
      "nb_mem nb3 = nb_mem nb2" "pos3 + length (strings_image ts' prec' as') = pos + length (strings_image ts2 prec2 as2)"
      unfolding a(1-3) by blast
    have "decode_fragment fp pf nb pos = Inr (c, nb3, pos3)"
      using False 1(1) 2(1) 3(1) a(4) printSingleArg_stars [OF ok [unfolded a(4)] 1(5) 2(5), of v]
      by (simp add: decode_fragment_def)
    then show ?thesis using 1 2 3 by auto
  qed
qed

lemma logged_calls_decoded:
  "logged_calls fp pfs ts prec as = Some cs \<Longrightarrow> list_all star_ok cs \<Longrightarrow> ready nibs i nb pos ts prec as \<Longrightarrow>
     decode_fragments fp pfs nb pos = Inr (cs, pos + length (strings_image ts prec as))"
proof (induction pfs arbitrary: ts prec as cs i nb pos)
  case Nil
  then show ?case by (simp split: if_splits)
next
  case (Cons pf pfs)
  obtain c ts' prec' as' cs' where c: "logged_fragment fp pf ts prec as = Some (c, ts', prec', as')"
    "logged_calls fp pfs ts' prec' as' = Some cs'" "cs = c # cs'"
    using Cons.prems(1) by (cases "logged_fragment fp pf ts prec as") auto
  obtain i' nb' pos' where "decode_fragment fp pf nb pos = Inr (c, nb', pos')" "ready nibs i' nb' pos' ts' prec' as'"
    "pos' + length (strings_image ts' prec' as') = pos + length (strings_image ts prec as)"
    using logged_fragment_decoded [OF c(1) _ Cons.prems(3)] Cons.prems(2) c(3) by auto
  then show ?case using Cons.IH [OF c(2)] Cons.prems(2) c(3) by (simp add: res_bind_def)
qed

lemma compressed_ready:
  assumes c: "compressed_at m pos ts as" and n: "length (basics ts as) < 2 ^ 28"
  shows "\<exists>nb. Nibbler m pos (length (basics ts as)) = Inr nb \<and>
     ready pos 0 nb (getEndOfPackedArguments nb) ts (- 1) as \<and>
     getEndOfPackedArguments nb + length (strings_image ts (- 1) as) = pos + compressed_size ts as"
proof -
  let ?bs = "basics ts as"
  let ?n = "length ?bs" and ?L = "length (args_bytes ?bs)"
  let ?v = "pos + (?n + 1) div 2"
  have inb: "pos \<le> length m" "?v + ?L \<le> length m" using c by (simp_all add: compressed_at_def compressed_size_def Let_def)
  have codes: "nibble_at m pos i = arg_code (?bs ! i)" if "i < ?n" for i
    using c that by (simp add: compressed_at_def Let_def)
  let ?nb = "\<lparr>nb_mem = m, nibblePosition = pos, onFirstNibble = True, numNibbles = ?n,
      currPackedValue = ?v, endOfValues = ?v + ?L\<rparr>"
  have "Nibbler m pos ?n = Inr ?nb" using inb(2) n codes by (rule Nibbler_packed)
  moreover have "ready pos 0 ?nb (getEndOfPackedArguments ?nb) ts (- 1) as"
    using c inb codes by (simp add: ready_def decoding_def nibbler_at_def getEndOfPackedArguments_def compressed_at_def Let_def)
  ultimately show ?thesis by (intro exI [of _ ?nb]) (simp add: getEndOfPackedArguments_def compressed_size_def)
qed

lemma decode_message_compressed:
  assumes "compressed_at m pos ts as" "length (basics ts as) < 2 ^ 28" "unat (md_numNibbles md) = length (basics ts as)"
    and "logged_calls fp (take (unat (numPrintFragments md)) (fragments md)) ts (- 1) as = Some cs" "list_all star_ok cs"
  shows "decode_message fp md m pos = Inr (cs, pos + compressed_size ts as)"
proof -
  obtain nb where nb: "Nibbler m pos (length (basics ts as)) = Inr nb"
    "ready pos 0 nb (getEndOfPackedArguments nb) ts (- 1) as"
    "getEndOfPackedArguments nb + length (strings_image ts (- 1) as) = pos + compressed_size ts as"
    using compressed_ready [OF assms(1,2)] by blast
  show ?thesis
    using nb logged_calls_decoded [OF assms(4,5) nb(2)] assms(3) by (simp add: decode_message_def)
qed

text \<open>Arguments that fit their format are as many as it has parameters and strings where it has strings.\<close>

lemma logged_star_typed:
  assumes "logged_star star kind ts prec as = Some (vs, ts', prec', as')" "\<not> is_string kind" "list_all2 typed ts' as'"
  shows "list_all2 typed ts as"
  using assms by (auto simp: logged_star_def split: if_splits list.splits log_arg.splits arg.splits)

lemma logged_arg_typed: "logged_arg fp ty t prec a = Some v \<Longrightarrow> typed t a"
  by (cases a) (auto simp: logged_arg_def split: if_splits)

lemma logged_fragment_typed:
  assumes lf: "logged_fragment fp pf ts prec as = Some (c, ts', prec', as')" and ty: "list_all2 typed ts' as'"
  shows "list_all2 typed ts as"
proof -
  obtain w ts1 prec1 as1 where w: "logged_star (hasDynamicWidth pf) DYNAMIC_WIDTH ts prec as = Some (w, ts1, prec1, as1)"
    using lf by (cases "logged_star (hasDynamicWidth pf) DYNAMIC_WIDTH ts prec as") (auto simp: logged_fragment_def)
  obtain p ts2 prec2 as2 where p: "logged_star (hasDynamicPrecision pf) DYNAMIC_PRECISION ts1 prec1 as1 = Some (p, ts2, prec2, as2)"
    using lf w by (cases "logged_star (hasDynamicPrecision pf) DYNAMIC_PRECISION ts1 prec1 as1") (auto simp: logged_fragment_def)
  have "list_all2 typed ts2 as2"
    using lf w p ty by (auto simp: logged_fragment_def logged_arg_typed split: if_splits list.splits)
  from logged_star_typed [OF p _ this] have "list_all2 typed ts1 as1" by simp
  from logged_star_typed [OF w _ this] show ?thesis by simp
qed

lemma logged_calls_typed: "logged_calls fp pfs ts prec as = Some cs \<Longrightarrow> list_all2 typed ts as"
proof (induction pfs arbitrary: ts prec as cs)
  case (Cons pf pfs)
  then show ?case
    by (cases "logged_fragment fp pf ts prec as") (auto intro: logged_fragment_typed)
qed (simp split: if_splits)

lemma takes_nibble_string: "t \<noteq> INVALID \<Longrightarrow> takes_nibble t \<longleftrightarrow> \<not> is_string t"
  by (cases t) (simp_all add: takes_nibble_def)

lemma takes_nibble_basics:
  "length ts = length as \<Longrightarrow> INVALID \<notin> set ts \<Longrightarrow> length (filter takes_nibble ts) = length (basics ts as)"
  by (induction ts as rule: list_induct2) (auto simp: takes_nibble_string)

section \<open>From the call to the output\<close>

lemma format_metadata_params:
  assumes "list_all wf_piece ps" "length (format_text ps) + 1 < 2 ^ 16" "length (format_params ps) < 256"
    and "createMicroCode (format_text ps) fname linenum severity = Inr md"
  shows "unat (md_numNibbles md) = length (filter takes_nibble (format_params ps))"
    "take (unat (numPrintFragments md)) (fragments md) = fragments md"
proof -
  obtain fs where fs: "createMicroCode (format_text ps) fname linenum severity =
      Inr \<lparr>md_numNibbles = of_nat (length (filter takes_nibble (format_params ps))),
           numPrintFragments = of_nat (length fs), logLevel = severity, lineNumber = linenum,
           filenameLength = of_nat (length fname + 1), filename = fname, fragments = fs\<rparr>"
    "length fs \<le> max 1 (length (format_params ps))"
    using createMicroCode_format [OF assms(1,2)] by blast
  have u8: "unat (of_nat n :: u8) = n" if "n < 256" for n
    using that by (simp add: unat_of_nat take_bit_nat_eq_self)
  have "length fs < 256" using fs(2) assms(3) by linarith
  moreover have "length (filter takes_nibble (format_params ps)) < 256"
    using assms(3) length_filter_le [of takes_nibble "format_params ps"] by linarith
  ultimately show "unat (md_numNibbles md) = length (filter takes_nibble (format_params ps))"
    "take (unat (numPrintFragments md)) (fragments md) = fragments md"
    using fs(1) assms(4) u8 by auto
qed

text \<open>The room that the encoder makes sure of.\<close>

lemma compress_room:
  assumes "list_all2 typed ts as"
  shows "(length (basics ts as) + 1) div 2 + args_size (basics ts as) + length (strings_image ts (- 1) as) \<le> 2 * length (args_image ts (- 1) as)"
proof -
  have "args_size (basics ts as) + length (strings_image ts (- 1) as) \<le> length (args_image ts (- 1) as)"
    using assms by (rule compressed_room)
  moreover have "length (basics ts as) \<le> args_size (basics ts as)" by (rule length_le_args_size)
  ultimately show ?thesis by linarith
qed

lemma entry_image_args:
  assumes "mem_read m pos (log_size ts as) = Inr (entry_image logId timestamp ts as)"
  shows "mem_read m (pos + 16) (length (args_image ts (- 1) as)) = Inr (args_image ts (- 1) as)"
    "mem_u32 m pos = Inr logId" "log_size ts as < 2 ^ 32 \<Longrightarrow> mem_u32 m (pos + 4) = Inr (of_nat (log_size ts as))"
    "mem_read m (pos + 8) 8 = Inr (le_bytes 8 (unat timestamp))"
proof -
  let ?id = "le_bytes 4 (unat logId)" and ?size = "le_bytes 4 (log_size ts as)" and ?time = "le_bytes 8 (unat timestamp)"
  have "mem_read m pos (length (?id @ ?size @ ?time @ args_image ts (- 1) as)) = Inr (?id @ ?size @ ?time @ args_image ts (- 1) as)"
    using assms length_entry_image [of logId timestamp ts as] by (simp add: entry_image_def)
  note s1 = mem_read_split [OF this]
  note s2 = mem_read_split [OF s1(2)]
  note s3 = mem_read_split [OF s2(2)]
  show "mem_read m (pos + 16) (length (args_image ts (- 1) as)) = Inr (args_image ts (- 1) as)" using s3(2) by (simp add: ac_simps)
  have "unat logId < 2 ^ 32" using unsigned_less [of logId] by simp
  then show "mem_u32 m pos = Inr logId"
    using mem_u32_image(1) [of m pos "unat logId" "[]"] s1(1) by simp
  show "mem_u32 m (pos + 4) = Inr (of_nat (log_size ts as))" if "log_size ts as < 2 ^ 32"
    using mem_u32_image(1) [of m "pos + 4" "log_size ts as" "[]"] s2(1) that by simp
  show "mem_read m (pos + 8) 8 = Inr (le_bytes 8 (unat timestamp))" using s3(1) by (simp add: ac_simps)
qed

text \<open>
  C14. A logged message comes out as it was written. For a well-formed format and arguments that fit it, \<open>log\<close>
  writes the entry into exactly the bytes it reserved; compressing those needs at most twice their number and
  reads them to their end; and decoding what compression left, with the metadata that the decoder makes
  of the same format, makes the calls of \<open>fprintf\<close> that the fragments ask for with the arguments that
  were logged, the strings cut to their precisions, and ends where compression ended.
\<close>

theorem logged_message_round_trip:
  assumes wf: "list_all wf_piece ps" "length (format_text ps) + 1 < 2 ^ 16" "length (format_params ps) < 256"
    and md: "createMicroCode (format_text ps) fname linenum severity = Inr md"
    and ts: "analyzeFormatString (length (format_params ps)) (format_text ps) = Inr ts"
    and fit: "logged_calls fp (fragments md) ts (- 1) as = Some cs" "list_all star_ok cs"
    and small: "log_size ts as < 2 ^ 32"
    and room: "pos + log_size ts as \<le> length staging" "out + 2 * log_size ts as \<le> length m"
  shows "\<exists>entry n m' e. log_write logId timestamp ts as staging pos =
      Inr (take pos staging @ entry @ drop (pos + log_size ts as) staging) \<and> length entry = log_size ts as \<and>
    getNumNibblesNeeded (format_text ps) = Inr n \<and>
    compress (map log_type_of as) n ts (take pos staging @ entry @ drop (pos + log_size ts as) staging) (pos + 16) m out =
      Inr (m', pos + log_size ts as, e) \<and>
    length m' = length m \<and> take out m' = take out m \<and> e \<le> out + 2 * log_size ts as \<and>
    decode_message fp md m' out = Inr (cs, e)"
proof -
  have tsp: "ts = format_params ps" using ts analyzeFormatString_format [OF wf(1)] by simp
  have ty: "list_all2 typed ts as" using fit(1) by (rule logged_calls_typed)
  then have len: "length ts = length as" by (rule list_all2_lengthD)
  have "INVALID \<notin> set ts" unfolding tsp by (rule format_params_valid)
  then have nib: "length (filter takes_nibble ts) = length (basics ts as)" using len by (intro takes_nibble_basics)
  let ?entry = "entry_image logId timestamp ts as"
  let ?st = "take pos staging @ ?entry @ drop (pos + log_size ts as) staging"
  have w: "log_write logId timestamp ts as staging pos = Inr ?st" using len small room(1) by (rule log_write_entry)
  have "mem_read ?st pos (log_size ts as) = Inr ?entry"
    using room(1) length_entry_image [of logId timestamp ts as] by (simp add: mem_read_def)
  from entry_image_args(1) [OF this] have img: "mem_read ?st (pos + 16) (length (args_image ts (- 1) as)) = Inr (args_image ts (- 1) as)" .
  have size: "log_size ts as = length (args_image ts (- 1) as) + 16" by (simp add: log_size_def getArgSizes_image)
  have "out + (length (basics ts as) + 1) div 2 + args_size (basics ts as) + length (strings_image ts (- 1) as) \<le> length m"
    using compress_room [OF ty] room(2) size by linarith
  from compress_spec [OF len ty img _ this] small size obtain m' where
    c: "compress (map log_type_of as) (length (basics ts as)) ts ?st (pos + 16) m out =
      Inr (m', pos + 16 + length (args_image ts (- 1) as), out + compressed_size ts as)"
    "length m' = length m" "take out m' = take out m" "compressed_at m' out ts as"
    by auto
  have e: "compressed_size ts as \<le> 2 * log_size ts as"
    using compress_room [OF ty] size length_args_bytes_size [of "basics ts as"] by (simp add: compressed_size_def)
  have "length (basics ts as) < 256"
    using wf(3) length_filter_le [of takes_nibble ts] nib unfolding tsp by linarith
  then have "length (basics ts as) < 2 ^ 28" by simp
  then have "decode_message fp md m' out = Inr (cs, out + compressed_size ts as)"
    using format_metadata_params [OF wf md] fit c(4) nib tsp by (intro decode_message_compressed) simp_all
  then show ?thesis
    using w c e size nib getNumNibblesNeeded_format [OF wf(1)] tsp length_entry_image [of logId timestamp ts as]
    by (intro exI [of _ ?entry] exI [of _ "length (basics ts as)"] exI [of _ m'] exI [of _ "out + compressed_size ts as"]) simp
qed

text \<open>A number, and a string of which the caller asks for two characters.\<close>

definition name_format :: "piece list" where
  "name_format = [Conversion [] None None [] CHR ''d'', Literal '' '', Conversion [] None (Some Star) [] CHR ''s'']"

lemma name_format_text: "format_text name_format = ''%d %.*s''"
  by (simp add: name_format_def width_text_def precision_text_def)

lemma name_format_params: "format_params name_format = [NON_STRING, DYNAMIC_PRECISION, STRING_WITH_DYNAMIC_PRECISION]"
  by (simp add: name_format_def star_params_def)

lemma name_format_wf: "list_all wf_piece name_format"
  by (simp add: name_format_def char_class_defs NUL_def rx_lengths_def getFormatType_def)

definition name_metadata :: format_metadata where
  "name_metadata = \<lparr>md_numNibbles = 2, numPrintFragments = 2, logLevel = 3, lineNumber = 7, filenameLength = 5, filename = ''a.cc'',
     fragments = [
       \<lparr>argType = int_t, hasDynamicWidth = False, hasDynamicPrecision = False, fragmentLength = 3, formatFragment = ''%d''\<rparr>,
       \<lparr>argType = const_char_ptr_t, hasDynamicWidth = False, hasDynamicPrecision = True, fragmentLength = 6, formatFragment = '' %.*s''\<rparr>]\<rparr>"

lemma name_format_metadata: "createMicroCode ''%d %.*s'' ''a.cc'' 7 3 = Inr name_metadata"
  by (simp add: count_loop.simps consume_width_def consume_precision_def name_metadata_def extend_fragment_def
      char_class_defs NUL_def createMicroCode_def regex_search_def spec_matches_def rx_then_def rx_opt_def rx_num_def
      rx_alt_def rx_many1_def rx_lit_def rx_class_def rx_lengths_def Let_def make_fragment_def getFormatType_def)

definition name_args :: "log_arg list" where
  "name_args = [Basic (ArgI32 (- 5)), Basic (ArgI32 2), CString 0x7F00 [0x6E, 0x67, 0x69]]"

definition name_calls :: "printf_call list" where
  "name_calls = [Call ''%d'' [] (Some (PArg (ArgI32 (- 5)))), Call '' %.*s'' [2] (Some (PStr [0x6E, 0x67]))]"

lemma name_calls_logged:
  "logged_calls fp (fragments name_metadata) [NON_STRING, DYNAMIC_PRECISION, STRING_WITH_DYNAMIC_PRECISION] (- 1) name_args =
     Some name_calls"
  by (simp add: name_metadata_def name_args_def name_calls_def logged_fragment_def logged_star_def logged_arg_def arg_as_def
      is_int_type_def next_precision_def clip_string_def)

theorem logged_message_round_trip_witness:
  "\<exists>entry n m' e. log_write 4 900 [NON_STRING, DYNAMIC_PRECISION, STRING_WITH_DYNAMIC_PRECISION] name_args (replicate 64 0) 8 =
      Inr (take 8 (replicate 64 0) @ entry @ drop 38 (replicate 64 0)) \<and> length entry = 30 \<and>
    getNumNibblesNeeded ''%d %.*s'' = Inr n \<and>
    compress (map log_type_of name_args) n [NON_STRING, DYNAMIC_PRECISION, STRING_WITH_DYNAMIC_PRECISION]
      (take 8 (replicate 64 0) @ entry @ drop 38 (replicate 64 0)) 24 (replicate 100 0) 3 = Inr (m', 38, e) \<and>
    decode_message \<lparr>f32_to_f64 = ucast, f32_to_ld = ucast\<rparr> name_metadata m' 3 = Inr (name_calls, e)"
proof -
  have size: "log_size [NON_STRING, DYNAMIC_PRECISION, STRING_WITH_DYNAMIC_PRECISION] name_args = 30"
    by (simp add: log_size_def name_args_def clip_string_def)
  have l: "length (format_text name_format) + 1 < 2 ^ 16" unfolding name_format_text by simp
  have p: "length (format_params name_format) < 256" unfolding name_format_params by simp
  have ts: "analyzeFormatString (length (format_params name_format)) (format_text name_format) =
      Inr [NON_STRING, DYNAMIC_PRECISION, STRING_WITH_DYNAMIC_PRECISION]"
    using analyzeFormatString_format [OF name_format_wf] unfolding name_format_params .
  have ok: "list_all star_ok name_calls" by (simp add: name_calls_def)
  from logged_message_round_trip [OF name_format_wf l p name_format_metadata [folded name_format_text] ts name_calls_logged ok,
      of 8 "replicate 64 0" 3 "replicate 100 0" 4 900 "\<lparr>f32_to_f64 = ucast, f32_to_ld = ucast\<rparr>"]
  show ?thesis unfolding size name_format_text by auto
qed

end
