(* ===== verification/Log_Encoder.thy ===== *)
theory Log_Encoder
  imports Log_Decode
begin

text \<open>
  The encoder of log files (\<^verbatim>\<open>Log::Encoder\<close> of \<^verbatim>\<open>src/runtime/Log.cc\<close>): checkpoints, dictionary fragments, and
  extents of compressed messages, in an output buffer. Pointers into the buffer are positions in
  it; the clock is an argument, and an exit of the process is the error \<open>EINVAL\<close>.
\<close>

section \<open>Static information and the state of the encoder\<close>

text \<open>A compression function is an instance of \<open>compress\<close>, given by its types.\<close>

record static_log_info =
  compressionFunction :: "log_type list"
  sli_filename :: string
  sli_lineNum :: u32
  sli_severity :: u8
  sli_formatString :: string
  sli_numNibbles :: nat
  sli_paramTypes :: "param_type list"

record encoder =
  backing_buffer :: bytes
  writePos :: nat
  endOfBuffer :: nat
  lastBufferIdEncoded :: u32
  currentExtentSize :: "nat option"
  encodeMissDueToMetadata :: u32
  consecutiveEncodeMissesDueToMetadata :: u32

definition BUFFER_EXTENT :: nat where
  "BUFFER_EXTENT = 2"

definition CHECKPOINT :: nat where
  "CHECKPOINT = 3"

definition STAGING_BUFFER_SIZE :: nat where
  "STAGING_BUFFER_SIZE = 2 ^ 20"

text \<open>A conversion to 32 bits, which asserts that the value fits.\<close>

definition downCast :: "nat \<Rightarrow> u32 cres" where
  "downCast n = (if n < 2 ^ 32 then Inr (of_nat n) else Inl Fault)"

text \<open>Characters as bytes.\<close>

definition char_byte :: "char \<Rightarrow> u8" where
  "char_byte c = word_of_nat (of_char c)"

definition c_string :: "string \<Rightarrow> bytes" where
  "c_string s = map char_byte s @ [0]"

section \<open>Checkpoints\<close>

record checkpoint =
  ck_rdtsc :: u64
  ck_unixTime :: u64
  ck_cyclesPerSecond :: u64
  newMetadataBytes :: u32
  totalMetadataEntries :: u32

text \<open>
  The structure is packed: the first byte holds the type of the entry in two bits, and its others are left as
  they were; the fields follow at once.
\<close>

definition set_entry_type :: "u8 \<Rightarrow> nat \<Rightarrow> u8" where
  "set_entry_type b t = (b AND 0xFC) OR word_of_nat t"

definition checkpoint_fields :: "checkpoint \<Rightarrow> bytes" where
  "checkpoint_fields ck = le_bytes 8 (unat (ck_rdtsc ck)) @ le_bytes 8 (unat (ck_unixTime ck)) @
     le_bytes 8 (unat (ck_cyclesPerSecond ck)) @ le_bytes 4 (unat (newMetadataBytes ck)) @
     le_bytes 4 (unat (totalMetadataEntries ck))"

text \<open>
  Without the code that the preprocessor generates there is no dictionary to write here. The clock
  gives the time stamp counter, the time and the counter's frequency.
\<close>

definition insertCheckpoint ::
  "u64 \<times> u64 \<times> u64 \<Rightarrow> bytes \<Rightarrow> nat \<Rightarrow> nat \<Rightarrow> (bool \<times> bytes \<times> nat) cres" where
  "insertCheckpoint clock m out outLimit =
     (if outLimit - out < 33 then Inr (False, m, out)
      else res_bind (arr_get m out) (\<lambda>b.
           res_bind (mem_write m out [set_entry_type b CHECKPOINT]) (\<lambda>m.
           res_bind (mem_write m (out + 1) (checkpoint_fields
               \<lparr>ck_rdtsc = fst clock, ck_unixTime = fst (snd clock), ck_cyclesPerSecond = snd (snd clock),
                newMetadataBytes = 0, totalMetadataEntries = 0\<rparr>)) (\<lambda>m.
             Inr (True, m, out + 33)))))"

definition Encoder :: "u64 \<times> u64 \<times> u64 \<Rightarrow> bytes \<Rightarrow> nat \<Rightarrow> bool \<Rightarrow> bool \<Rightarrow> encoder cres" where
  "Encoder clock buffer bufferSize skipCheckpoint forceDictionaryOutput =
     (let e = \<lparr>backing_buffer = buffer, writePos = 0, endOfBuffer = bufferSize, lastBufferIdEncoded = - 1,
          currentExtentSize = None, encodeMissDueToMetadata = 0, consecutiveEncodeMissesDueToMetadata = 0\<rparr>
      in if skipCheckpoint \<and> \<not> forceDictionaryOutput then Inr e
         else res_bind (insertCheckpoint clock buffer 0 bufferSize) (\<lambda>(ok, m, out).
                if ok then Inr (e\<lparr>backing_buffer := m, writePos := out\<rparr>) else Inl (Err EINVAL)))"

section \<open>The dictionary\<close>

definition compressed_log_info :: "static_log_info \<Rightarrow> bytes" where
  "compressed_log_info info =
     [sli_severity info] @ le_bytes 4 (unat (sli_lineNum info)) @
     le_bytes 2 (length (sli_filename info) + 1) @ le_bytes 2 (length (sli_formatString info) + 1)"

definition log_info_image :: "static_log_info \<Rightarrow> bytes" where
  "log_info_image info = compressed_log_info info @ c_string (sli_filename info) @ c_string (sli_formatString info)"

text \<open>The space that is left, as a 32-bit number.\<close>

definition space_u32 :: "nat \<Rightarrow> nat \<Rightarrow> nat" where
  "space_u32 limit pos = unat (of_nat (limit - pos) :: u32)"

fun encode_infos :: "nat \<Rightarrow> static_log_info list \<Rightarrow> bytes \<Rightarrow> nat \<Rightarrow> nat \<Rightarrow> (bytes \<times> nat \<times> nat) cres" where
  "encode_infos limit [] m pos currentPosition = Inr (m, pos, currentPosition)"
| "encode_infos limit (info # rest) m pos currentPosition =
     (let nextDictSize = 9 + (length (sli_filename info) + 1) + (length (sli_formatString info) + 1)
      in if nextDictSize \<ge> space_u32 limit pos then Inr (m, pos, currentPosition)
         else res_bind (mem_write m pos (log_info_image info)) (\<lambda>m.
              encode_infos limit rest m (pos + nextDictSize) (currentPosition + 1)))"

text \<open>
  The result is the number of bytes; \<open>currentPosition\<close> is updated. The fields of the fragment's header are
  written when they are known, at the end.
\<close>

definition encodeNewDictionaryEntries ::
  "nat \<Rightarrow> static_log_info list \<Rightarrow> encoder \<Rightarrow> (nat \<times> nat \<times> encoder) cres" where
  "encodeNewDictionaryEntries currentPosition allMetadata e =
     (let bufferStart = writePos e
      in if 8 \<ge> space_u32 (endOfBuffer e) bufferStart then Inr (0, currentPosition, e)
         else res_bind (encode_infos (endOfBuffer e) (drop currentPosition allMetadata) (backing_buffer e)
                  (bufferStart + 8) currentPosition) (\<lambda>(m, pos, currentPosition).
              let n = (pos - bufferStart) mod 2 ^ 30
              in res_bind (mem_write m bufferStart
                     (le_bytes 4 (LOG_MSGS_OR_DIC + 4 * n) @ le_bytes 4 currentPosition)) (\<lambda>m.
                   Inr (n, currentPosition, e\<lparr>backing_buffer := m, writePos := pos\<rparr>))))"

section \<open>Extents\<close>

text \<open>The four bit fields of the first byte: 2, 1, 1 and 4 bits.\<close>

definition buffer_extent :: "bool \<Rightarrow> bool \<Rightarrow> nat \<Rightarrow> u8" where
  "buffer_extent wrapAround isShort threadIdOrPackNibble =
     word_of_nat (BUFFER_EXTENT + 4 * of_bool wrapAround + 8 * of_bool isShort + 16 * threadIdOrPackNibble)"

definition encodeBufferExtentStart :: "u32 \<Rightarrow> bool \<Rightarrow> encoder \<Rightarrow> (bool \<times> encoder) cres" where
  "encodeBufferExtentStart bufferId newPass e =
     (let start = writePos e
      in if 5 + 4 > endOfBuffer e - start then Inr (False, e)
         else res_bind
           (if bufferId < 16
            then res_bind (mem_write (backing_buffer e) start [buffer_extent newPass True (unat bufferId mod 16)]) (\<lambda>m.
                   Inr (m, start + 5))
            else res_bind (pack (backing_buffer e) (start + 5) (ArgU32 bufferId)) (\<lambda>(m, pos, code).
                   res_bind (mem_write m start [buffer_extent newPass False (code mod 16)]) (\<lambda>m.
                     Inr (m, pos))))
           (\<lambda>(m, pos).
             res_bind (downCast (pos - start)) (\<lambda>len.
             res_bind (mem_set_u32 m (start + 1) len) (\<lambda>m.
               Inr (True, e\<lparr>backing_buffer := m, writePos := pos, currentExtentSize := Some (start + 1),
                   lastBufferIdEncoded := bufferId\<rparr>)))))"

text \<open>The cursor only moves forward.\<close>

lemma pack_moves: "pack m p a = Inr (m', p', c) \<Longrightarrow> p < p'"
  by (cases a) (auto simp: pack_unsigned_def pack_int32_def pack_int64_def pack_long_long_def pack_pointer_def pack_float_def
      Let_def res_bind_eq_Inr split: if_splits)

lemma compressLogHeader_moves: "compressLogHeader i t m out lt = Inr (m', p, n) \<Longrightarrow> out < p"
  by (auto simp: compressLogHeader_def res_bind_eq_Inr Let_def simp del: pack.simps dest!: pack_moves)

lemma compressSingle_moves: "compressSingle nibs input so t T (m, cnt, inp, out) = Inr (m', cnt', inp', out') \<Longrightarrow> out \<le> out'"
  by (auto simp: compressSingle_def compress_basic_def res_bind_eq_Inr Let_def dest!: pack_moves split: if_splits)

lemma compress_internal_moves:
  "compress_internal nibs input so ts Ts (m, cnt, inp, out) = Inr (m', cnt', inp', out') \<Longrightarrow> out \<le> out'"
proof (induction ts arbitrary: Ts m cnt inp out)
  case Nil
  then show ?case by (cases Ts) auto
next
  case (Cons t ts)
  then show ?case
    by (cases Ts) (fastforce simp: res_bind_eq_Inr dest: compressSingle_moves)+
qed

lemma compress_moves: "compress Ts n ts input inp m out = Inr (m', inp', out') \<Longrightarrow> out \<le> out'"
  by (fastforce simp: compress_def res_bind_eq_Inr Let_def dest: compress_internal_moves)

lemma downCast_unat: "downCast n = Inr v \<Longrightarrow> unat v = n"
  using unat_of_nat_u32 [of n] by (auto simp: downCast_def split: if_splits)

section \<open>Encoding messages\<close>

text \<open>
  The loop over the entries from \<open>inp\<close> on: the number of events, what remains and the encoder. It ends
  when nothing is left, at an entry whose identifier is not in the dictionary, at one that is longer
  than what is left, and when an entry might not fit.
\<close>

function encode_entries ::
  "bytes \<Rightarrow> static_log_info list \<Rightarrow> nat \<Rightarrow> int \<Rightarrow> u64 \<Rightarrow> nat \<Rightarrow> encoder \<Rightarrow> (nat \<times> int \<times> encoder) cres" where
  "encode_entries src dictionary inp remaining lastTimestamp events e =
     (if \<not> remaining > 0 then Inr (events, remaining, e)
      else res_bind (mem_u32 src inp) (\<lambda>fmtId.
        if length dictionary \<le> unat fmtId
        then Inr (events, remaining, e\<lparr>encodeMissDueToMetadata := encodeMissDueToMetadata e + 1,
               consecutiveEncodeMissesDueToMetadata := consecutiveEncodeMissesDueToMetadata e + 1\<rparr>)
        else res_bind (mem_u32 src (inp + 4)) (\<lambda>entrySize.
          let e = e\<lparr>consecutiveEncodeMissesDueToMetadata := 0\<rparr>
          in if int (unat entrySize) > remaining \<and> unat entrySize < STAGING_BUFFER_SIZE div 2
             then Inr (events, remaining, e)
             else res_bind (downCast (unat (2 * entrySize) + 16)) (\<lambda>maxCompressedSize.
               if unat maxCompressedSize > endOfBuffer e - writePos e then Inr (events, remaining, e)
               else res_bind (mem_u64 src (inp + 8)) (\<lambda>timestamp.
                    res_bind (compressLogHeader fmtId timestamp (backing_buffer e) (writePos e) lastTimestamp) (\<lambda>(m, pos, _).
                    let info = dictionary ! unat fmtId
                    in res_bind (compress (compressionFunction info) (sli_numNibbles info) (sli_paramTypes info)
                           src (inp + 16) m pos) (\<lambda>(m, _, pos).
                         encode_entries src dictionary (inp + unat entrySize) (remaining - int (unat entrySize))
                           timestamp (events + 1) (e\<lparr>backing_buffer := m, writePos := pos\<rparr>))))))))"
  by pat_completeness auto

termination
proof (relation "measure (\<lambda>(src, dictionary, inp, remaining, lastTimestamp, events, e). endOfBuffer e - writePos e)", goal_cases)
  case 1
  show ?case by simp
next
  case 2
  then show ?case by (auto simp: split_beta dest!: downCast_unat compressLogHeader_moves compress_moves)
qed

declare encode_entries.simps [simp del]

text \<open>The result is the number of bytes read, and the number of events.\<close>

definition encodeLogMsgs ::
  "bytes \<Rightarrow> nat \<Rightarrow> nat \<Rightarrow> u32 \<Rightarrow> bool \<Rightarrow> static_log_info list \<Rightarrow> encoder \<Rightarrow> (int \<times> nat \<times> encoder) cres" where
  "encodeLogMsgs src from_pos nbytes bufferId newPass dictionary e =
     res_bind (encodeBufferExtentStart bufferId newPass e) (\<lambda>(ok, e).
       if \<not> ok then Inr (0, 0, e)
       else let bufferStart = writePos e
            in res_bind (encode_entries src dictionary from_pos (int nbytes) 0 0 e) (\<lambda>(events, remaining, e).
               case currentExtentSize e of
                 None \<Rightarrow> Inl Fault
               | Some p \<Rightarrow>
                   res_bind (mem_u32 (backing_buffer e) p) (\<lambda>currentSize.
                   res_bind (downCast (writePos e - bufferStart)) (\<lambda>d.
                   res_bind (mem_set_u32 (backing_buffer e) p (currentSize + d)) (\<lambda>m.
                     Inr (int nbytes - remaining, events, e\<lparr>backing_buffer := m\<rparr>))))))"

definition getEncodedBytes :: "encoder \<Rightarrow> nat" where
  "getEncodedBytes e = writePos e"

text \<open>The old buffer, the number of bytes in it and its size; the encoder goes on with the new one.\<close>

definition swapBuffer :: "bytes \<Rightarrow> nat \<Rightarrow> encoder \<Rightarrow> bytes \<times> nat \<times> nat \<times> encoder" where
  "swapBuffer inBuffer inSize e =
     (backing_buffer e, writePos e, endOfBuffer e,
      e\<lparr>backing_buffer := inBuffer, writePos := 0, endOfBuffer := inSize, lastBufferIdEncoded := - 1,
        currentExtentSize := None\<rparr>)"

section \<open>Messages in an extent\<close>

record message =
  msg_id :: u32
  msg_time :: u64
  msg_types :: "param_type list"
  msg_args :: "log_arg list"

definition msg_size :: "message \<Rightarrow> nat" where
  "msg_size x = log_size (msg_types x) (msg_args x)"

definition msg_image :: "message \<Rightarrow> bytes" where
  "msg_image x = entry_image (msg_id x) (msg_time x) (msg_types x) (msg_args x)"

abbreviation messages_image :: "message list \<Rightarrow> bytes" where
  "messages_image xs \<equiv> concat (map msg_image xs)"

abbreviation msg_basics :: "message \<Rightarrow> arg list" where
  "msg_basics x \<equiv> basics (msg_types x) (msg_args x)"

text \<open>A message of some invocation site, and the dictionary's entry for that site if it has one.\<close>

definition msg_ok :: "static_log_info list \<Rightarrow> message \<Rightarrow> bool" where
  "msg_ok dictionary x \<longleftrightarrow>
     list_all2 typed (msg_types x) (msg_args x) \<and> msg_size x < STAGING_BUFFER_SIZE div 2 \<and> length (msg_basics x) < 256 \<and>
     (unat (msg_id x) < length dictionary \<longrightarrow>
        (let info = dictionary ! unat (msg_id x)
         in compressionFunction info = map log_type_of (msg_args x) \<and> sli_numNibbles info = length (msg_basics x) \<and>
            sli_paramTypes info = msg_types x))"

fun messages_at :: "bytes \<Rightarrow> nat \<Rightarrow> nat \<Rightarrow> u64 \<Rightarrow> message list \<Rightarrow> bool" where
  "messages_at m p e lastTimestamp [] \<longleftrightarrow> p = e"
| "messages_at m p e lastTimestamp (x # xs) \<longleftrightarrow>
     (let h = header_image (msg_id x) (msg_time x - lastTimestamp); q = p + length h
      in mem_read m p (length h) = Inr h \<and> compressed_at m q (msg_types x) (msg_args x) \<and>
         messages_at m (q + compressed_size (msg_types x) (msg_args x)) e (msg_time x) xs)"

lemma length_msg_image [simp]: "length (msg_image x) = msg_size x"
  by (simp add: msg_image_def msg_size_def length_entry_image)

lemma messages_at_le: "messages_at m p e lt xs \<Longrightarrow> p \<le> e"
proof (induction xs arbitrary: p lt)
  case (Cons x xs)
  have "messages_at m (p + length (header_image (msg_id x) (msg_time x - lt)) + compressed_size (msg_types x) (msg_args x)) e (msg_time x) xs"
    using Cons.prems by (simp add: Let_def)
  from Cons.IH [OF this] show ?case by simp
qed simp

text \<open>Regions with the same bytes hold the same messages.\<close>

definition same_slice :: "bytes \<Rightarrow> nat \<Rightarrow> bytes \<Rightarrow> nat \<Rightarrow> nat \<Rightarrow> bool" where
  "same_slice m p m' p' n \<longleftrightarrow>
     p + n \<le> length m \<and> p' + n \<le> length m' \<and> take n (drop p m) = take n (drop p' m')"

lemma same_slice_read:
  assumes "same_slice m p m' p' n" "i + k \<le> n"
  shows "mem_read m (p + i) k = mem_read m' (p' + i) k"
proof -
  have "take k (drop (q + i) ms) = take k (drop i (take n (drop q ms)))" for q and ms :: bytes
    using assms(2) by (simp add: drop_take min_absorb1 add.commute)
  then show ?thesis using assms by (simp add: same_slice_def mem_read_def)
qed

lemma same_slice_nth:
  assumes "same_slice m p m' p' n" "i < n"
  shows "m ! (p + i) = m' ! (p' + i)"
proof -
  have "take n (drop p m) ! i = take n (drop p' m') ! i" using assms(1) by (simp add: same_slice_def)
  then show ?thesis using assms by (simp add: same_slice_def)
qed

lemma same_slice_take:
  assumes "take e m' = take e m" "length m' = length m" "p + n \<le> e" "e \<le> length m"
  shows "same_slice m p m' p n"
proof -
  have s: "take n (drop p ms) = take n (drop p (take e ms))" for ms :: bytes
    using assms(3) by (simp add: drop_take min_absorb1)
  have "take n (drop p m) = take n (drop p m')"
    unfolding s [of m] s [of m'] assms(1) by (rule refl)
  then show ?thesis using assms(2-4) by (simp add: same_slice_def)
qed

lemma same_slice_weaken:
  assumes "same_slice m p m' p' n" "k \<le> n"
  shows "same_slice m p m' p' k"
proof -
  have "take k (take n (drop p m)) = take k (take n (drop p' m'))" using assms(1) by (simp add: same_slice_def)
  then show ?thesis using assms by (simp add: same_slice_def min_absorb1)
qed

lemma compressed_at_slice:
  assumes c: "compressed_at m (p + i) ts as" and s: "same_slice m p m' p' n" and le: "i + compressed_size ts as \<le> n"
  shows "compressed_at m' (p' + i) ts as"
proof -
  let ?bs = "basics ts as"
  let ?v = "i + (length ?bs + 1) div 2"
  have "nibble_at m' (p' + i) k = nibble_at m (p + i) k" if "k < length ?bs" for k
  proof -
    have "i + k div 2 < n" using that le by (simp add: compressed_size_def)
    from same_slice_nth [OF s this] show ?thesis by (simp add: nibble_at_def add.assoc)
  qed
  moreover have "mem_read m (p + ?v) (length (args_bytes ?bs)) = mem_read m' (p' + ?v) (length (args_bytes ?bs))"
    using le by (intro same_slice_read [OF s]) (simp add: compressed_size_def)
  moreover have "mem_read m (p + (?v + length (args_bytes ?bs))) (length (strings_image ts (- 1) as)) =
      mem_read m' (p' + (?v + length (args_bytes ?bs))) (length (strings_image ts (- 1) as))"
    using le by (intro same_slice_read [OF s]) (simp add: compressed_size_def)
  ultimately show ?thesis
    using c s le by (simp add: compressed_at_def same_slice_def Let_def add.assoc)
qed

lemma messages_at_slice:
  "messages_at m (p + i) (p + n) lt xs \<Longrightarrow> same_slice m p m' p' n \<Longrightarrow> messages_at m' (p' + i) (p' + n) lt xs"
proof (induction xs arbitrary: i lt)
  case (Cons x xs)
  let ?h = "header_image (msg_id x) (msg_time x - lt)" and ?c = "compressed_size (msg_types x) (msg_args x)"
  have c: "mem_read m (p + i) (length ?h) = Inr ?h" "compressed_at m (p + (i + length ?h)) (msg_types x) (msg_args x)"
    "messages_at m (p + (i + length ?h + ?c)) (p + n) (msg_time x) xs"
    using Cons.prems(1) by (simp_all add: Let_def add.assoc)
  have le: "i + length ?h + ?c \<le> n" using messages_at_le [OF c(3)] by simp
  show ?case
    using Cons.IH [OF c(3) Cons.prems(2)] compressed_at_slice [OF c(2) Cons.prems(2) le]
      c(1) same_slice_read [OF Cons.prems(2), of i "length ?h"] le
    by (simp add: Let_def add.assoc)
qed simp

lemma messages_at_take:
  assumes "messages_at m p e lt xs" "take e m' = take e m" "length m' = length m" "e \<le> length m"
  shows "messages_at m' p e lt xs"
proof -
  have le: "p \<le> e" using assms(1) by (rule messages_at_le)
  then have "same_slice m p m' p (e - p)" using assms(2-4) by (intro same_slice_take) auto
  from messages_at_slice [OF _ this, of 0 lt xs] show ?thesis using assms(1) le by simp
qed

section \<open>What the encoder writes\<close>

lemma length_header_image: "length (header_image i d) \<le> 13"
  using length_arg_bytes(2) [of "ArgU32 i"] length_arg_bytes(2) [of "ArgI64 d"] by (simp add: header_image_def)

lemma entry_fields_read:
  assumes "mem_read src inp (msg_size x) = Inr (msg_image x)" "msg_size x < 2 ^ 30"
  shows "mem_u32 src inp = Inr (msg_id x)" "mem_u32 src (inp + 4) = Inr (of_nat (msg_size x))"
    "mem_u64 src (inp + 8) = Inr (msg_time x)"
    "mem_read src (inp + 16) (length (args_image (msg_types x) (- 1) (msg_args x))) = Inr (args_image (msg_types x) (- 1) (msg_args x))"
proof -
  note e = entry_image_args [OF assms(1) [unfolded msg_size_def msg_image_def]]
  show "mem_u32 src inp = Inr (msg_id x)" by (rule e(2))
  show "mem_u32 src (inp + 4) = Inr (of_nat (msg_size x))" using e(3) assms(2) by (simp add: msg_size_def)
  have "unat (msg_time x) < 256 ^ 8" using unsigned_less [of "msg_time x"] by simp
  then show "mem_u64 src (inp + 8) = Inr (msg_time x)" using e(4) by (simp add: mem_u64_def unat_le_bytes_word)
  show "mem_read src (inp + 16) (length (args_image (msg_types x) (- 1) (msg_args x))) = Inr (args_image (msg_types x) (- 1) (msg_args x))"
    by (rule e(1))
qed

lemma encode_message:
  assumes ok: "msg_ok dictionary x" and known: "unat (msg_id x) < length dictionary"
    and rd: "mem_read src inp (msg_size x) = Inr (msg_image x)" and room: "out + (2 * msg_size x + 16) \<le> length m"
  shows "\<exists>m1 n q m2 inp2 out2. compressLogHeader (msg_id x) (msg_time x) m out lt = Inr (m1, q, n) \<and>
    compress (compressionFunction (dictionary ! unat (msg_id x))) (sli_numNibbles (dictionary ! unat (msg_id x)))
      (sli_paramTypes (dictionary ! unat (msg_id x))) src (inp + 16) m1 q = Inr (m2, inp2, out2) \<and>
    length m2 = length m \<and> take out m2 = take out m \<and> out2 \<le> out + (2 * msg_size x + 16) \<and>
    messages_at m2 out out2 lt [x]"
proof -
  let ?ts = "msg_types x" and ?as = "msg_args x"
  let ?h = "header_image (msg_id x) (msg_time x - lt)"
  have ty: "list_all2 typed ?ts ?as" and small: "msg_size x < 2 ^ 30" using ok by (simp_all add: msg_ok_def STAGING_BUFFER_SIZE_def)
  have len: "length ?ts = length ?as" using ty by (rule list_all2_lengthD)
  have info: "compressionFunction (dictionary ! unat (msg_id x)) = map log_type_of ?as"
    "sli_numNibbles (dictionary ! unat (msg_id x)) = length (msg_basics x)"
    "sli_paramTypes (dictionary ! unat (msg_id x)) = ?ts"
    using ok known by (simp_all add: msg_ok_def Let_def)
  have size: "msg_size x = length (args_image ?ts (- 1) ?as) + 16" by (simp add: msg_size_def log_size_def getArgSizes_image)
  have h: "length ?h \<le> 13" by (rule length_header_image)
  obtain m1 n where m1: "compressLogHeader (msg_id x) (msg_time x) m out lt = Inr (m1, out + length ?h, n)"
    "length m1 = length m" "take out m1 = take out m" "mem_read m1 out (length ?h) = Inr ?h"
    using compressLogHeader_image [of out m "msg_id x" "msg_time x" lt] room size by auto
  have r: "out + length ?h + (length (msg_basics x) + 1) div 2 + args_size (msg_basics x) + length (strings_image ?ts (- 1) ?as) \<le> length m1"
    using compress_room [OF ty] h room size m1(2) by linarith
  have "length (args_image ?ts (- 1) ?as) < 2 ^ 32" using small size by simp
  from compress_spec [OF len ty entry_fields_read(4) [OF rd small] this r] obtain m2 where
    m2: "compress (map log_type_of ?as) (length (msg_basics x)) ?ts src (inp + 16) m1 (out + length ?h) =
      Inr (m2, inp + 16 + length (args_image ?ts (- 1) ?as), out + length ?h + compressed_size ?ts ?as)"
    "length m2 = length m1" "take (out + length ?h) m2 = take (out + length ?h) m1" "compressed_at m2 (out + length ?h) ?ts ?as"
    by auto
  have "same_slice m1 out m2 out (length ?h)"
    using m2(2,3) room h m1(2) size by (intro same_slice_take [where e = "out + length ?h"]) auto
  from same_slice_read [OF this, of 0 "length ?h"] have "mem_read m2 out (length ?h) = Inr ?h" using m1(4) by simp
  moreover have "take out m2 = take out m" using arg_cong [OF m2(3), of "take out"] m1(3) by (simp add: min_absorb1)
  moreover have "compressed_size ?ts ?as \<le> 2 * length (args_image ?ts (- 1) ?as)"
    using compress_room [OF ty] length_args_bytes_size [of "msg_basics x"] by (simp add: compressed_size_def)
  ultimately show ?thesis
    using m1 m2 info h size
    by - (rule exI [of _ m1], rule exI [of _ n], rule exI [of _ "out + length ?h"], rule exI [of _ m2], simp add: Let_def)
qed

lemma encode_entries_spec:
  "mem_read src inp (length (messages_image ms)) = Inr (messages_image ms) \<Longrightarrow> \<forall>x \<in> set ms. msg_ok dictionary x \<Longrightarrow>
   endOfBuffer e \<le> length (backing_buffer e) \<Longrightarrow> writePos e \<le> endOfBuffer e \<Longrightarrow> n \<le> length (messages_image ms) \<Longrightarrow>
   \<exists>ms1 ms2 e'. ms = ms1 @ ms2 \<and> length (messages_image ms1) \<le> n \<and>
     encode_entries src dictionary inp (int n) lt events e =
       Inr (events + length ms1, int (n - length (messages_image ms1)), e') \<and>
     length (backing_buffer e') = length (backing_buffer e) \<and> endOfBuffer e' = endOfBuffer e \<and>
     currentExtentSize e' = currentExtentSize e \<and> lastBufferIdEncoded e' = lastBufferIdEncoded e \<and>
     writePos e \<le> writePos e' \<and> writePos e' \<le> endOfBuffer e \<and>
     take (writePos e) (backing_buffer e') = take (writePos e) (backing_buffer e) \<and>
     messages_at (backing_buffer e') (writePos e) (writePos e') lt ms1 \<and>
     (\<forall>x \<in> set ms1. unat (msg_id x) < length dictionary) \<and>
     (ms2 \<noteq> [] \<longrightarrow> n < length (messages_image ms1) + msg_size (hd ms2) \<or>
        length dictionary \<le> unat (msg_id (hd ms2)) \<or> endOfBuffer e - writePos e' < 2 * msg_size (hd ms2) + 16)"
proof (induction ms arbitrary: inp lt events e n)
  case Nil
  then show ?case by (intro exI [of _ "[]"] exI [of _ e]) (simp add: encode_entries.simps)
next
  case (Cons x ms)
  have rd: "mem_read src inp (msg_size x) = Inr (msg_image x)"
    "mem_read src (inp + msg_size x) (length (messages_image ms)) = Inr (messages_image ms)"
    using mem_read_split [of src inp "msg_image x" "messages_image ms"] Cons.prems(1) by simp_all
  have ok: "msg_ok dictionary x" and half: "msg_size x < STAGING_BUFFER_SIZE div 2" using Cons.prems(2) by (auto simp: msg_ok_def)
  have small: "msg_size x < 2 ^ 30" using half by (simp add: STAGING_BUFFER_SIZE_def)
  have pos: "0 < msg_size x" by (simp add: msg_size_def log_size_def)
  note f = entry_fields_read [OF rd(1) small]
  have u: "unat (of_nat (msg_size x) :: u32) = msg_size x" "unat (2 * of_nat (msg_size x) :: u32) = 2 * msg_size x"
    using small unat_of_nat_u32 [of "msg_size x"] unat_of_nat_u32 [of "2 * msg_size x"] by simp_all
  have d: "downCast (2 * msg_size x + 16) = Inr (of_nat (2 * msg_size x + 16))"
    "unat (of_nat (2 * msg_size x + 16) :: u32) = 2 * msg_size x + 16"
    using small unat_of_nat_u32 [of "2 * msg_size x + 16"] by (simp_all add: downCast_def del: of_nat_add)
  have i: "uint (of_nat (msg_size x) :: u32) = int (msg_size x)" using u(1) by (simp add: uint_nat)
  let ?e = "e\<lparr>consecutiveEncodeMissesDueToMetadata := 0\<rparr>"
  consider "n < msg_size x" | "msg_size x \<le> n" "length dictionary \<le> unat (msg_id x)"
    | "msg_size x \<le> n" "unat (msg_id x) < length dictionary" "endOfBuffer e - writePos e < 2 * msg_size x + 16"
    | "msg_size x \<le> n" "unat (msg_id x) < length dictionary" "2 * msg_size x + 16 \<le> endOfBuffer e - writePos e" by linarith
  then show ?case
  proof cases
    case 1
    then have "\<exists>e'. encode_entries src dictionary inp (int n) lt events e = Inr (events, int n, e') \<and>
        backing_buffer e' = backing_buffer e \<and> endOfBuffer e' = endOfBuffer e \<and> writePos e' = writePos e \<and>
        currentExtentSize e' = currentExtentSize e \<and> lastBufferIdEncoded e' = lastBufferIdEncoded e"
      using f u i half by (simp add: encode_entries.simps [of src dictionary inp "int n"])
    then show ?thesis using 1 Cons.prems by (intro exI [of _ "[]"] exI [of _ "x # ms"]) auto
  next
    case 2
    then show ?thesis
      using Cons.prems pos f
      by (intro exI [of _ "[]"] exI [of _ "x # ms"]) (simp add: encode_entries.simps)
  next
    case 3
    then show ?thesis
      using Cons.prems pos f u d i
      by (intro exI [of _ "[]"] exI [of _ "x # ms"]) (simp add: encode_entries.simps Let_def del: of_nat_add)
  next
    case 4
    then have "writePos e + (2 * msg_size x + 16) \<le> length (backing_buffer e)" using Cons.prems(3,4) by linarith
    from encode_message [OF ok 4(2) rd(1) this, of lt] obtain m1 h q m2 inp2 out2 where
      s: "compressLogHeader (msg_id x) (msg_time x) (backing_buffer e) (writePos e) lt = Inr (m1, q, h)"
      "compress (compressionFunction (dictionary ! unat (msg_id x))) (sli_numNibbles (dictionary ! unat (msg_id x)))
        (sli_paramTypes (dictionary ! unat (msg_id x))) src (inp + 16) m1 q = Inr (m2, inp2, out2)"
      "length m2 = length (backing_buffer e)" "take (writePos e) m2 = take (writePos e) (backing_buffer e)"
      "out2 \<le> writePos e + (2 * msg_size x + 16)" "messages_at m2 (writePos e) out2 lt [x]" by blast
    let ?e2 = "?e\<lparr>backing_buffer := m2, writePos := out2\<rparr>"
    have le: "writePos e \<le> out2" using s(6) by (rule messages_at_le)
    have step: "encode_entries src dictionary inp (int n) lt events e =
        encode_entries src dictionary (inp + msg_size x) (int (n - msg_size x)) (msg_time x) (events + 1) ?e2"
      using 4 pos f u d i s(1,2)
      by (subst encode_entries.simps) (simp add: Let_def of_nat_diff del: of_nat_add)
    have "\<forall>x \<in> set ms. msg_ok dictionary x" "endOfBuffer ?e2 \<le> length (backing_buffer ?e2)" "writePos ?e2 \<le> endOfBuffer ?e2"
      "n - msg_size x \<le> length (messages_image ms)"
      using Cons.prems(2-5) 4 s(3,5) by auto
    from Cons.IH [OF rd(2) this, of "msg_time x" "events + 1"] obtain ms1 ms2 e' where r: "ms = ms1 @ ms2"
      "length (messages_image ms1) \<le> n - msg_size x \<and>
       encode_entries src dictionary (inp + msg_size x) (int (n - msg_size x)) (msg_time x) (events + 1) ?e2 =
        Inr (events + 1 + length ms1, int (n - msg_size x - length (messages_image ms1)), e')"
      "length (backing_buffer e') = length (backing_buffer ?e2)" "endOfBuffer e' = endOfBuffer ?e2" "currentExtentSize e' = currentExtentSize ?e2"
      "lastBufferIdEncoded e' = lastBufferIdEncoded ?e2" "writePos ?e2 \<le> writePos e'" "writePos e' \<le> endOfBuffer ?e2"
      "take (writePos ?e2) (backing_buffer e') = take (writePos ?e2) (backing_buffer ?e2)"
      "messages_at (backing_buffer e') (writePos ?e2) (writePos e') (msg_time x) ms1"
      "\<forall>x \<in> set ms1. unat (msg_id x) < length dictionary"
      "ms2 \<noteq> [] \<longrightarrow> n - msg_size x < length (messages_image ms1) + msg_size (hd ms2) \<or> length dictionary \<le> unat (msg_id (hd ms2)) \<or> endOfBuffer ?e2 - writePos e' < 2 * msg_size (hd ms2) + 16"
      by blast
    note IH = r(1,2) r(3-12) [simplified]
    have "take (writePos e) (backing_buffer e') = take (writePos e) (backing_buffer e)"
      using arg_cong [OF IH(9), of "take (writePos e)"] s(4) le by (simp add: min_absorb1)
    moreover have "messages_at (backing_buffer e') (writePos e) (writePos e') lt (x # ms1)"
    proof -
      have "messages_at (backing_buffer e') (writePos e) out2 lt [x]"
        using messages_at_take [OF s(6) IH(9)] IH(3,7,8) s(3) Cons.prems(3) by simp
      then show ?thesis using IH(10) by (simp add: Let_def)
    qed
    ultimately show ?thesis
      using step IH s(3) le 4(1,2)
      by - (rule exI [of _ "x # ms1"], rule exI [of _ ms2], rule exI [of _ e'], force)
  qed
qed

text \<open>An extent: the header with its length, the identifier when it is not in the header, the messages.\<close>

definition extent_id :: "u32 \<Rightarrow> bytes" where
  "extent_id bufferId = (if bufferId < 16 then [] else arg_bytes (ArgU32 bufferId))"

definition extent_header :: "u32 \<Rightarrow> bool \<Rightarrow> nat \<Rightarrow> bytes" where
  "extent_header bufferId newPass len =
     buffer_extent newPass (bufferId < 16)
       (if bufferId < 16 then unat bufferId else fst (arg_image (ArgU32 bufferId))) # le_bytes 4 len @ extent_id bufferId"

definition extent_at :: "bytes \<Rightarrow> nat \<Rightarrow> nat \<Rightarrow> u32 \<Rightarrow> bool \<Rightarrow> message list \<Rightarrow> bool" where
  "extent_at m p e bufferId newPass ms \<longleftrightarrow>
     (let h = extent_header bufferId newPass (e - p)
      in e \<le> length m \<and> mem_read m p (length h) = Inr h \<and> messages_at m (p + length h) e 0 ms)"

lemma length_extent_header [simp]: "length (extent_header bufferId newPass len) = 5 + length (extent_id bufferId)"
  by (simp add: extent_header_def)

lemma length_extent_id: "length (extent_id bufferId) \<le> 4"
  using length_arg_bytes(2) [of "ArgU32 bufferId"] by (simp add: extent_id_def)

lemma encodeBufferExtentStart_spec:
  assumes room: "9 \<le> endOfBuffer e - writePos e" "endOfBuffer e \<le> length (backing_buffer e)"
  shows "\<exists>m'. encodeBufferExtentStart bufferId newPass e =
      Inr (True, e\<lparr>backing_buffer := m', writePos := writePos e + 5 + length (extent_id bufferId),
        currentExtentSize := Some (writePos e + 1), lastBufferIdEncoded := bufferId\<rparr>) \<and>
    length m' = length (backing_buffer e) \<and>
    take (writePos e + 5 + length (extent_id bufferId)) m' = take (writePos e) (backing_buffer e) @
      extent_header bufferId newPass (5 + length (extent_id bufferId))"
proof -
  let ?m = "backing_buffer e" and ?p = "writePos e"
  let ?id = "extent_id bufferId"
  let ?b = "buffer_extent newPass (bufferId < 16)
       (if bufferId < 16 then unat bufferId else fst (arg_image (ArgU32 bufferId)))"
  have len: "?p + 9 \<le> length ?m" using room by linarith
  have id: "length ?id \<le> 4" by (rule length_extent_id)
  have "\<exists>m. (if bufferId < 16
            then res_bind (mem_write ?m ?p [buffer_extent newPass True (unat bufferId mod 16)]) (\<lambda>m.
                   Inr (m, ?p + 5))
            else res_bind (pack ?m (?p + 5) (ArgU32 bufferId)) (\<lambda>(m, pos, code).
                   res_bind (mem_write m ?p [buffer_extent newPass False (code mod 16)]) (\<lambda>m.
                     Inr (m, pos)))) = Inr (m, ?p + 5 + length ?id) \<and> length m = length ?m \<and>
        take (?p + 1) m = take ?p ?m @ [?b] \<and> take (length ?id) (drop (?p + 5) m) = ?id"
  proof (cases "bufferId < 16")
    case True
    then have "unat bufferId < 16" by (simp add: word_less_nat_alt)
    then show ?thesis using True len by (simp add: mem_write_def extent_id_def)
  next
    case False
    obtain m1 where m1: "pack ?m (?p + 5) (ArgU32 bufferId) =
        Inr (m1, ?p + 5 + length (arg_bytes (ArgU32 bufferId)), fst (arg_image (ArgU32 bufferId)))"
      "packed ?m (?p + 5) (arg_bytes (ArgU32 bufferId)) m1"
      using pack_packed [of "?p + 5" "ArgU32 bufferId" ?m] len by auto
    have l1: "length m1 = length ?m" using m1(2) by (simp add: packed_def)
    have t1: "take (?p + 5 + length ?id) m1 = take (?p + 5) ?m @ ?id" using m1(2) False by (simp add: packed_def extent_id_def)
    have tp: "take ?p m1 = take ?p ?m" using arg_cong [OF t1, of "take ?p"] len by (simp add: min_absorb1)
    have v: "take (length ?id) (drop (?p + 5) m1) = ?id"
      using arg_cong [OF t1, of "drop (?p + 5)"] len by (simp add: drop_take)
    have code: "fst (arg_image (ArgU32 bufferId)) mod 16 = fst (arg_image (ArgU32 bufferId))"
      using header_codes(2) [of bufferId] by simp
    define m2 where "m2 = take ?p m1 @ ?b # drop (?p + 1) m1"
    have "mem_write m1 ?p [?b] = Inr m2" using len l1 by (simp add: mem_write_def m2_def)
    moreover have "length m2 = length ?m" "take (?p + 1) m2 = take ?p ?m @ [?b]" "drop (?p + 5) m2 = drop (?p + 5) m1"
      using len l1 tp by (simp_all add: m2_def add.commute)
    ultimately show ?thesis using False m1(1) code v by (intro exI [of _ m2]) (simp add: extent_id_def)
  qed
  then obtain m where m: "(if bufferId < 16
            then res_bind (mem_write ?m ?p [buffer_extent newPass True (unat bufferId mod 16)]) (\<lambda>m.
                   Inr (m, ?p + 5))
            else res_bind (pack ?m (?p + 5) (ArgU32 bufferId)) (\<lambda>(m, pos, code).
                   res_bind (mem_write m ?p [buffer_extent newPass False (code mod 16)]) (\<lambda>m.
                     Inr (m, pos)))) = Inr (m, ?p + 5 + length ?id)" "length m = length ?m"
    "take (?p + 1) m = take ?p ?m @ [?b]" "take (length ?id) (drop (?p + 5) m) = ?id" by blast
  have dc: "downCast (5 + length ?id) = Inr (of_nat (5 + length ?id))" "unat (of_nat (5 + length ?id) :: u32) = 5 + length ?id"
    using id unat_of_nat_u32 [of "5 + length ?id"] by (simp_all add: downCast_def del: of_nat_add)
  let ?m' = "take (?p + 1) m @ le_bytes 4 (5 + length ?id) @ drop (?p + 5) m"
  have w: "mem_set_u32 m (?p + 1) (of_nat (5 + length ?id)) = Inr ?m'"
    using m(2) len unfolding mem_set_u32_def mem_write_def dc(2) by (simp add: add.commute)
  have "take (?p + 5 + length ?id) ?m' = take ?p ?m @ extent_header bufferId newPass (5 + length ?id)"
    using len m(2,4) unfolding m(3) extent_header_def by (simp add: take_Cons')
  moreover have "encodeBufferExtentStart bufferId newPass e =
      Inr (True, e\<lparr>backing_buffer := ?m', writePos := ?p + 5 + length ?id,
        currentExtentSize := Some (?p + 1), lastBufferIdEncoded := bufferId\<rparr>)"
    using room(1) m(1) dc(1) w by (simp add: encodeBufferExtentStart_def Let_def)
  ultimately show ?thesis using m(2) len by (intro exI [of _ ?m']) simp
qed

lemma extent_length_update:
  assumes t: "take (p + 5 + length (extent_id bufferId)) m = A @ extent_header bufferId newPass k"
    and p: "length A = p" "p + 5 + length (extent_id bufferId) \<le> length m" and k: "k < 2 ^ 32" "n < 2 ^ 32"
  shows "\<exists>m'. mem_u32 m (p + 1) = Inr (of_nat k) \<and> mem_set_u32 m (p + 1) (of_nat n) = Inr m' \<and> length m' = length m \<and>
    take (p + 5 + length (extent_id bufferId)) m' = A @ extent_header bufferId newPass n \<and>
    drop (p + 5 + length (extent_id bufferId)) m' = drop (p + 5 + length (extent_id bufferId)) m"
proof -
  define B where "B = drop (p + 5 + length (extent_id bufferId)) m"
  obtain b where h: "extent_header bufferId newPass j = b # le_bytes 4 j @ extent_id bufferId" for j
    by (simp add: extent_header_def)
  have m: "m = (A @ [b]) @ le_bytes 4 k @ (extent_id bufferId @ B)"
    using append_take_drop_id [of "p + 5 + length (extent_id bufferId)" m] unfolding t h B_def by simp
  have l: "p + 1 = length (A @ [b])" using p(1) by simp
  have "mem_read m (p + 1) 4 = Inr (le_bytes 4 k)" unfolding m l by (simp add: mem_read_def)
  then have "mem_u32 m (p + 1) = Inr (of_nat k)" using k(1) by (simp add: mem_u32_def le_val_le_bytes)
  moreover have "mem_set_u32 m (p + 1) (of_nat n) = Inr ((A @ [b]) @ le_bytes 4 n @ (extent_id bufferId @ B))"
    using mem_write_mid [OF l, of "le_bytes 4 k" "le_bytes 4 n" "extent_id bufferId @ B"] k(2)
    by (simp add: mem_set_u32_def m unat_of_nat_u32)
  moreover have "take (p + 5 + length (extent_id bufferId)) ((A @ b # le_bytes 4 j @ extent_id bufferId) @ B) =
      A @ b # le_bytes 4 j @ extent_id bufferId"
    "drop (p + 5 + length (extent_id bufferId)) ((A @ b # le_bytes 4 j @ extent_id bufferId) @ B) = B" for j
  proof -
    have "n = length X \<Longrightarrow> take n (X @ Y) = X \<and> drop n (X @ Y) = Y" for n and X Y :: bytes by simp
    moreover have "p + 5 + length (extent_id bufferId) = length (A @ b # le_bytes 4 j @ extent_id bufferId)" using p(1) by simp
    ultimately show "take (p + 5 + length (extent_id bufferId)) ((A @ b # le_bytes 4 j @ extent_id bufferId) @ B) =
        A @ b # le_bytes 4 j @ extent_id bufferId"
      "drop (p + 5 + length (extent_id bufferId)) ((A @ b # le_bytes 4 j @ extent_id bufferId) @ B) = B" by blast+
  qed
  ultimately show ?thesis
    by (intro exI [of _ "(A @ [b]) @ le_bytes 4 n @ (extent_id bufferId @ B)"]) (simp add: h m)
qed

text \<open>
  What the encoder makes of the first \<open>n\<close> bytes of a run of entries, whatever space is left. With too little
  space for an extent it does nothing. Otherwise it compresses a prefix of the messages into one new
  extent, whose header has the extent's length and buffer; it stops before a message only when the message
  is not whole within the \<open>n\<close> bytes, when the dictionary does not have its site yet, or when less than the
  worst case of space is left for it; and the result is the number of bytes of exactly the messages
  that it took. It never writes outside the buffer or over what was there before.
\<close>

lemma encodeLogMsgs_spec:
  assumes src: "mem_read src pos (length (messages_image ms)) = Inr (messages_image ms)"
    and n: "n \<le> length (messages_image ms)" and ok: "\<forall>x \<in> set ms. msg_ok dictionary x"
    and buf: "endOfBuffer e \<le> length (backing_buffer e)" "writePos e \<le> endOfBuffer e" "endOfBuffer e < 2 ^ 32"
  shows "\<exists>ms1 ms2 e'. ms = ms1 @ ms2 \<and> length (messages_image ms1) \<le> n \<and>
    encodeLogMsgs src pos n bufferId newPass dictionary e =
      Inr (int (length (messages_image ms1)), length ms1, e') \<and>
    length (backing_buffer e') = length (backing_buffer e) \<and> endOfBuffer e' = endOfBuffer e \<and>
    writePos e \<le> writePos e' \<and> writePos e' \<le> endOfBuffer e \<and>
    take (writePos e) (backing_buffer e') = take (writePos e) (backing_buffer e) \<and>
    (if endOfBuffer e - writePos e < 9 then ms1 = [] \<and> e' = e
     else extent_at (backing_buffer e') (writePos e) (writePos e') bufferId newPass ms1 \<and>
       (\<forall>x \<in> set ms1. unat (msg_id x) < length dictionary) \<and>
       (ms2 \<noteq> [] \<longrightarrow> n < length (messages_image ms1) + msg_size (hd ms2) \<or>
         length dictionary \<le> unat (msg_id (hd ms2)) \<or> endOfBuffer e - writePos e' < 2 * msg_size (hd ms2) + 16))"
proof (cases "endOfBuffer e - writePos e < 9")
  case True
  then have "encodeBufferExtentStart bufferId newPass e = Inr (False, e)" by (simp add: encodeBufferExtentStart_def Let_def)
  then show ?thesis using True buf by (intro exI [of _ "[]"] exI [of _ ms] exI [of _ e]) (simp add: encodeLogMsgs_def)
next
  case False
  let ?p = "writePos e" and ?k = "5 + length (extent_id bufferId)"
  obtain m where m: "encodeBufferExtentStart bufferId newPass e =
      Inr (True, e\<lparr>backing_buffer := m, writePos := ?p + 5 + length (extent_id bufferId),
        currentExtentSize := Some (?p + 1), lastBufferIdEncoded := bufferId\<rparr>)"
    "length m = length (backing_buffer e)"
    "take (?p + 5 + length (extent_id bufferId)) m = take ?p (backing_buffer e) @ extent_header bufferId newPass ?k"
    using encodeBufferExtentStart_spec [of e bufferId newPass] False buf(1) by auto
  let ?e1 = "e\<lparr>backing_buffer := m, writePos := ?p + 5 + length (extent_id bufferId),
        currentExtentSize := Some (?p + 1), lastBufferIdEncoded := bufferId\<rparr>"
  have "endOfBuffer ?e1 \<le> length (backing_buffer ?e1)" "writePos ?e1 \<le> endOfBuffer ?e1"
    using buf False m(2) length_extent_id [of bufferId] by simp_all
  from encode_entries_spec [OF src ok this n, of 0 0] obtain ms1 ms2 e2 where r: "ms = ms1 @ ms2 \<and> length (messages_image ms1) \<le> n"
    "encode_entries src dictionary pos (int n) 0 0 ?e1 =
      Inr (0 + length ms1, int (n - length (messages_image ms1)), e2)"
    "length (backing_buffer e2) = length (backing_buffer ?e1)" "endOfBuffer e2 = endOfBuffer ?e1"
    "currentExtentSize e2 = currentExtentSize ?e1" "lastBufferIdEncoded e2 = lastBufferIdEncoded ?e1"
    "writePos ?e1 \<le> writePos e2" "writePos e2 \<le> endOfBuffer ?e1"
    "take (writePos ?e1) (backing_buffer e2) = take (writePos ?e1) (backing_buffer ?e1)"
    "messages_at (backing_buffer e2) (writePos ?e1) (writePos e2) 0 ms1"
    "\<forall>x \<in> set ms1. unat (msg_id x) < length dictionary"
    "ms2 \<noteq> [] \<longrightarrow> n < length (messages_image ms1) + msg_size (hd ms2) \<or> length dictionary \<le> unat (msg_id (hd ms2)) \<or>
       endOfBuffer ?e1 - writePos e2 < 2 * msg_size (hd ms2) + 16"
    by blast
  let ?q = "?p + 5 + length (extent_id bufferId)"
  note r' = r(3-12) [simplified]
  have t2: "take ?q (backing_buffer e2) = take ?p (backing_buffer e) @ extent_header bufferId newPass ?k"
    using r(9) m(3) by simp
  have sum: "(of_nat (writePos e2 - ?p) :: u32) = of_nat ?k + of_nat (writePos e2 - ?q)"
    using r'(5) unfolding of_nat_add [symmetric] by simp
  have "length (take ?p (backing_buffer e)) = ?p" "?p + 5 + length (extent_id bufferId) \<le> length (backing_buffer e2)"
    "?k < 2 ^ 32" "writePos e2 - ?p < 2 ^ 32"
    using r' m(2) buf length_extent_id [of bufferId] by simp_all
  from extent_length_update [OF t2 this] obtain m' where m': "mem_u32 (backing_buffer e2) (?p + 1) = Inr (of_nat ?k)"
    "mem_set_u32 (backing_buffer e2) (?p + 1) (of_nat (writePos e2 - ?p)) = Inr m'"
    "length m' = length (backing_buffer e2)"
    "take ?q m' = take ?p (backing_buffer e) @ extent_header bufferId newPass (writePos e2 - ?p)"
    "drop ?q m' = drop ?q (backing_buffer e2)" by blast
  have "downCast (writePos e2 - ?q) = Inr (of_nat (writePos e2 - ?q))" using r' buf by (simp add: downCast_def)
  then have "encodeLogMsgs src pos n bufferId newPass dictionary e =
      Inr (int (length (messages_image ms1)), length ms1, e2\<lparr>backing_buffer := m'\<rparr>)"
    using m(1) r(1,2,5) m'(1) m'(2) [unfolded sum] by (simp add: encodeLogMsgs_def Let_def of_nat_diff)
  moreover have "take ?p m' = take ?p (backing_buffer e)"
    using arg_cong [OF m'(4), of "take ?p"] buf by (simp add: min_absorb1)
  moreover have "extent_at m' ?p (writePos e2) bufferId newPass ms1"
  proof -
    have "take ?k (drop ?p m') = drop ?p (take ?q m')" by (simp add: drop_take)
    also have "\<dots> = extent_header bufferId newPass (writePos e2 - ?p)" unfolding m'(4) using buf by simp
    finally have "mem_read m' ?p ?k = Inr (extent_header bufferId newPass (writePos e2 - ?p))"
      using r'(1,5,6) m'(3) m(2) buf by (simp add: mem_read_def)
    moreover have "same_slice (backing_buffer e2) ?q m' ?q (writePos e2 - ?q)"
      using r' m' m(2) buf by (simp add: same_slice_def)
    from messages_at_slice [OF _ this, of 0 0 ms1] have "messages_at m' ?q (writePos e2) 0 ms1" using r' by simp
    ultimately show ?thesis using r' m' m(2) buf by (simp add: extent_at_def Let_def add.assoc)
  qed
  ultimately show ?thesis
    using False r(1) r' m' m(2)
    by (intro exI [of _ ms1] exI [of _ ms2] exI [of _ "e2\<lparr>backing_buffer := m'\<rparr>"]) simp
qed

section \<open>Dictionary fragments and checkpoints\<close>

abbreviation infos_image :: "static_log_info list \<Rightarrow> bytes" where
  "infos_image infos \<equiv> concat (map log_info_image infos)"

lemma length_c_string [simp]: "length (c_string s) = length s + 1"
  by (simp add: c_string_def)

lemma length_log_info_image [simp]:
  "length (log_info_image info) = 9 + (length (sli_filename info) + 1) + (length (sli_formatString info) + 1)"
  by (simp add: log_info_image_def compressed_log_info_def)

lemma space_u32: "limit < 2 ^ 32 \<Longrightarrow> space_u32 limit pos = limit - pos"
  using unat_of_nat_u32 [of "limit - pos"] by (simp add: space_u32_def)

lemma mem_read_join:
  assumes "mem_read m pos (length xs) = Inr xs" "mem_read m (pos + length xs) (length ys) = Inr ys"
  shows "mem_read m pos (length (xs @ ys)) = Inr (xs @ ys)"
  using assms by (auto simp: mem_read_def take_add add.commute split: if_splits)

lemma encode_infos_spec:
  "pos \<le> limit \<Longrightarrow> limit \<le> length m \<Longrightarrow> limit < 2 ^ 32 \<Longrightarrow>
   \<exists>is1 is2 m'. infos = is1 @ is2 \<and>
     encode_infos limit infos m pos cp = Inr (m', pos + length (infos_image is1), cp + length is1) \<and>
     length m' = length m \<and> take pos m' = take pos m \<and> pos + length (infos_image is1) \<le> limit \<and>
     mem_read m' pos (length (infos_image is1)) = Inr (infos_image is1) \<and>
     (is2 \<noteq> [] \<longrightarrow> limit - (pos + length (infos_image is1)) \<le> length (log_info_image (hd is2)))"
proof (induction infos arbitrary: m pos cp)
  case Nil
  then show ?case by (intro exI [of _ "[]"] exI [of _ m]) (simp add: mem_read_def)
next
  case (Cons info infos)
  let ?n = "length (log_info_image info)"
  show ?case
  proof (cases "limit - pos \<le> ?n")
    case True
    then show ?thesis
      using Cons.prems by (intro exI [of _ "[]"] exI [of _ "info # infos"] exI [of _ m]) (simp add: mem_read_def space_u32 Let_def)
  next
    case False
    then have "pos + ?n \<le> length m" using Cons.prems(2) by linarith
    then obtain m1 where m1: "mem_write m pos (log_info_image info) = Inr m1" using mem_write_ok by blast
    have l1: "length m1 = length m" using m1 by (rule mem_write_length)
    have "pos + ?n \<le> limit" "limit \<le> length m1" using False Cons.prems(2) l1 by linarith+
    from Cons.IH [OF this Cons.prems(3), of "cp + 1"] obtain is1 is2 m2 where IH: "infos = is1 @ is2"
      "encode_infos limit infos m1 (pos + ?n) (cp + 1) = Inr (m2, pos + ?n + length (infos_image is1), cp + 1 + length is1)"
      "length m2 = length m1" "take (pos + ?n) m2 = take (pos + ?n) m1" "pos + ?n + length (infos_image is1) \<le> limit"
      "mem_read m2 (pos + ?n) (length (infos_image is1)) = Inr (infos_image is1)"
      "is2 \<noteq> [] \<longrightarrow> limit - (pos + ?n + length (infos_image is1)) \<le> length (log_info_image (hd is2))" by blast
    have "take pos m2 = take pos m"
      using arg_cong [OF IH(4), of "take pos"] mem_write_take [OF m1 order_refl] by (simp add: min_absorb1)
    moreover have "mem_read m2 pos ?n = Inr (log_info_image info)"
    proof -
      have "same_slice m1 pos m2 pos ?n" using IH(3,4,5) Cons.prems(2) l1 by (intro same_slice_take [where e = "pos + ?n"]) auto
      from same_slice_read [OF this, of 0 ?n] show ?thesis using mem_read_written [OF m1 refl] by simp
    qed
    then have "mem_read m2 pos (length (infos_image (info # is1))) = Inr (infos_image (info # is1))"
      using mem_read_join [of m2 pos "log_info_image info" "infos_image is1"] IH(6) by simp
    ultimately show ?thesis
      using False m1 l1 IH Cons.prems(3)
      by - (rule exI [of _ "info # is1"], rule exI [of _ is2], rule exI [of _ m2], simp add: space_u32 Let_def ac_simps)
  qed
qed

section \<open>The contents of a log file\<close>

datatype log_item =
    ItemCheckpoint checkpoint
  | ItemDictionary "static_log_info list" nat
  | ItemExtent u32 bool "message list"

definition dictionary_image :: "static_log_info list \<Rightarrow> nat \<Rightarrow> bytes" where
  "dictionary_image infos entries =
     le_bytes 4 (LOG_MSGS_OR_DIC + 4 * (8 + length (infos_image infos))) @ le_bytes 4 entries @ infos_image infos"

fun item_at :: "bytes \<Rightarrow> nat \<Rightarrow> nat \<Rightarrow> log_item \<Rightarrow> bool" where
  "item_at m p e (ItemCheckpoint ck) \<longleftrightarrow>
     e = p + 33 \<and> e \<le> length m \<and> entry_type_of (m ! p) = CHECKPOINT \<and> mem_read m (p + 1) 32 = Inr (checkpoint_fields ck)"
| "item_at m p e (ItemDictionary infos entries) \<longleftrightarrow>
     e = p + length (dictionary_image infos entries) \<and> length (dictionary_image infos entries) < 2 ^ 30 \<and>
     mem_read m p (length (dictionary_image infos entries)) = Inr (dictionary_image infos entries)"
| "item_at m p e (ItemExtent bufferId newPass ms) \<longleftrightarrow> p < e \<and> e - p < 2 ^ 32 \<and> extent_at m p e bufferId newPass ms"

fun items_at :: "bytes \<Rightarrow> nat \<Rightarrow> nat \<Rightarrow> log_item list \<Rightarrow> bool" where
  "items_at m p e [] \<longleftrightarrow> p = e"
| "items_at m p e (x # xs) \<longleftrightarrow> (\<exists>q. item_at m p q x \<and> items_at m q e xs)"

lemma length_dictionary_image [simp]: "length (dictionary_image infos entries) = 8 + length (infos_image infos)"
  by (simp add: dictionary_image_def)

lemma item_at_less: "item_at m p e x \<Longrightarrow> p < e"
  by (cases x) auto

lemma items_at_le: "items_at m p e xs \<Longrightarrow> p \<le> e"
  by (induction xs arbitrary: p) (force dest: item_at_less)+

lemma items_at_append: "items_at m p e (xs @ ys) \<longleftrightarrow> (\<exists>q. items_at m p q xs \<and> items_at m q e ys)"
  by (induction xs arbitrary: p) auto

lemma length_checkpoint_fields [simp]: "length (checkpoint_fields ck) = 32"
  by (simp add: checkpoint_fields_def)

lemma item_at_slice:
  assumes "item_at m (p + i) (p + j) x" "same_slice m p m' p' n" "j \<le> n"
  shows "item_at m' (p' + i) (p' + j) x"
proof (cases x)
  case (ItemCheckpoint ck)
  then have j: "j = i + 33" "i + 33 \<le> n" using assms(1,3) by simp_all
  have "m ! (p + i) = m' ! (p' + i)" by (rule same_slice_nth [OF assms(2)]) (use j(2) in simp)
  moreover have "mem_read m (p + (i + 1)) 32 = mem_read m' (p' + (i + 1)) 32"
    by (rule same_slice_read [OF assms(2)]) (use j(2) in simp)
  ultimately show ?thesis using assms ItemCheckpoint by (simp add: same_slice_def add.assoc)
next
  case (ItemDictionary infos entries)
  then show ?thesis using assms same_slice_read [OF assms(2), of i "length (dictionary_image infos entries)"] by simp
next
  case (ItemExtent bufferId newPass ms)
  let ?h = "extent_header bufferId newPass (j - i)"
  have e: "i < j" "mem_read m (p + i) (length ?h) = Inr ?h" "messages_at m (p + (i + length ?h)) (p + j) 0 ms"
    using assms(1) ItemExtent by (simp_all add: extent_at_def Let_def add.assoc)
  have s: "same_slice m p m' p' j"
    using assms(2,3) same_slice_weaken by blast
  have "length ?h + i \<le> j" using messages_at_le [OF e(3)] by simp
  then show ?thesis
    using messages_at_slice [OF e(3) s] same_slice_read [OF s, of i "length ?h"] e(1,2) s assms(1) ItemExtent
    by (simp add: extent_at_def Let_def add.assoc same_slice_def)
qed

lemma item_at_take:
  assumes "item_at m p e x" "take e m' = take e m" "length m' = length m" "e \<le> length m"
  shows "item_at m' p e x"
proof -
  have "same_slice m 0 m' 0 e" using assms(2-4) by (intro same_slice_take) auto
  from item_at_slice [of m 0 p e x, OF _ this] show ?thesis using assms(1) by simp
qed

lemma items_at_take:
  "items_at m p e xs \<Longrightarrow> take e m' = take e m \<Longrightarrow> length m' = length m \<Longrightarrow> e \<le> length m \<Longrightarrow> items_at m' p e xs"
proof (induction xs arbitrary: p)
  case (Cons x xs)
  then obtain q where q: "item_at m p q x" "items_at m q e xs" by auto
  have le: "q \<le> e" using q(2) by (rule items_at_le)
  have "take q m' = take q m" using arg_cong [OF Cons.prems(2), of "take q"] le by (simp add: min_absorb1)
  then have "item_at m' p q x" using item_at_take [OF q(1)] Cons.prems(3,4) le by simp
  then show ?case using Cons.IH [OF q(2) Cons.prems(2-4)] by auto
qed simp

lemma encodeNewDictionaryEntries_spec:
  assumes buf: "endOfBuffer e \<le> length (backing_buffer e)" "writePos e \<le> endOfBuffer e" "endOfBuffer e < 2 ^ 30"
  shows "\<exists>n cp' e'. encodeNewDictionaryEntries cp infos e = Inr (n, cp', e') \<and> cp \<le> cp' \<and>
    cp' - cp \<le> length infos - cp \<and>
    length (backing_buffer e') = length (backing_buffer e) \<and> endOfBuffer e' = endOfBuffer e \<and>
    writePos e' = writePos e + n \<and> writePos e' \<le> endOfBuffer e \<and>
    take (writePos e) (backing_buffer e') = take (writePos e) (backing_buffer e) \<and>
    (if endOfBuffer e - writePos e \<le> 8 then n = 0 \<and> cp' = cp
     else item_at (backing_buffer e') (writePos e) (writePos e') (ItemDictionary (take (cp' - cp) (drop cp infos)) cp'))"
proof (cases "endOfBuffer e - writePos e \<le> 8")
  case True
  then show ?thesis using buf by (simp add: encodeNewDictionaryEntries_def space_u32 Let_def)
next
  case False
  let ?m = "backing_buffer e" and ?p = "writePos e" and ?infos = "drop cp infos"
  have "?p + 8 \<le> endOfBuffer e" "endOfBuffer e < 2 ^ 32" using False buf by simp_all
  from encode_infos_spec [OF this(1) buf(1) this(2), of ?infos cp] obtain is1 is2 m1 where s: "?infos = is1 @ is2"
    "encode_infos (endOfBuffer e) ?infos ?m (?p + 8) cp = Inr (m1, ?p + 8 + length (infos_image is1), cp + length is1)"
    "length m1 = length ?m" "take (?p + 8) m1 = take (?p + 8) ?m" "?p + 8 + length (infos_image is1) \<le> endOfBuffer e"
    "mem_read m1 (?p + 8) (length (infos_image is1)) = Inr (infos_image is1)" by blast
  let ?n = "8 + length (infos_image is1)"
  let ?h = "le_bytes 4 (LOG_MSGS_OR_DIC + 4 * ?n) @ le_bytes 4 (cp + length is1)"
  have n: "?n mod 2 ^ 30 = ?n" "?n < 2 ^ 30" using s(5) buf(3) by simp_all
  have "?p + length ?h \<le> length m1" using s(3) False buf by simp
  then obtain m2 where m2: "mem_write m1 ?p ?h = Inr m2" using mem_write_ok by blast
  have l2: "length m2 = length ?m" using mem_write_length [OF m2] s(3) by simp
  have "take ?p m2 = take ?p ?m"
    using mem_write_take [OF m2 order_refl] arg_cong [OF s(4), of "take ?p"] by (simp add: min_absorb1)
  moreover have "mem_read m2 ?p (length (dictionary_image is1 (cp + length is1))) = Inr (dictionary_image is1 (cp + length is1))"
  proof -
    have "mem_read m2 ?p (length ?h) = Inr ?h" by (rule mem_read_written [OF m2 refl])
    moreover have "mem_read m2 (?p + length ?h) (length (infos_image is1)) = Inr (infos_image is1)"
      using mem_read_other [OF m2, of "?p + 8" "length (infos_image is1)"] s(6) by simp
    ultimately show ?thesis using mem_read_join [of m2 ?p ?h "infos_image is1"] by (simp add: dictionary_image_def)
  qed
  moreover have "encodeNewDictionaryEntries cp infos e =
      Inr (?n, cp + length is1, e\<lparr>backing_buffer := m2, writePos := ?p + 8 + length (infos_image is1)\<rparr>)"
    using False buf s(2) m2 n(1) by (simp add: encodeNewDictionaryEntries_def space_u32 Let_def)
  moreover have "is1 = take (length is1) ?infos" using s(1) by simp
  moreover have "length is1 \<le> length infos - cp" unfolding length_drop [symmetric] s(1) by simp
  ultimately show ?thesis
    using False l2 s(5) n(2)
    by - (rule exI [of _ ?n], rule exI [of _ "cp + length is1"],
      rule exI [of _ "e\<lparr>backing_buffer := m2, writePos := ?p + 8 + length (infos_image is1)\<rparr>"], simp)
qed

section \<open>A log file as it grows\<close>

lemma entry_type_of_set: "t < 4 \<Longrightarrow> entry_type_of (set_entry_type b t) = t"
proof -
  assume t: "t < 4"
  have "take_bit 2 (set_entry_type b t) = take_bit 2 (word_of_nat t :: u8)"
    by (simp add: set_entry_type_def)
  then have "take_bit 2 (unat (set_entry_type b t)) = take_bit 2 (unat (word_of_nat t :: u8))"
    by (simp only: unsigned_take_bit_eq [symmetric])
  then show ?thesis using t by (simp add: entry_type_of_def take_bit_eq_mod unat_of_nat)
qed

definition first_checkpoint :: "u64 \<times> u64 \<times> u64 \<Rightarrow> checkpoint" where
  "first_checkpoint clock = \<lparr>ck_rdtsc = fst clock, ck_unixTime = fst (snd clock), ck_cyclesPerSecond = snd (snd clock),
     newMetadataBytes = 0, totalMetadataEntries = 0\<rparr>"

lemma Encoder_spec:
  assumes "sz \<le> length buf" "Encoder clock buf sz False force = Inr e"
  shows "item_at (backing_buffer e) 0 (writePos e) (ItemCheckpoint (first_checkpoint clock))" "writePos e \<le> endOfBuffer e"
    "endOfBuffer e = sz" "length (backing_buffer e) = length buf"
proof -
  have sz: "33 \<le> sz" using assms(2) by (auto simp: Encoder_def insertCheckpoint_def Let_def split: if_splits)
  then obtain b bs where buf: "buf = b # bs" using assms(1) by (cases buf) auto
  let ?m1 = "set_entry_type b CHECKPOINT # bs"
  have w1: "mem_write buf 0 [set_entry_type b CHECKPOINT] = Inr ?m1" by (simp add: mem_write_def buf)
  let ?f = "checkpoint_fields (first_checkpoint clock)"
  obtain m2 where w2: "mem_write ?m1 1 ?f = Inr m2" using mem_write_ok [of 1 ?f ?m1] sz assms(1) buf by auto
  have e: "backing_buffer e = m2" "writePos e = 33" "endOfBuffer e = sz"
    using assms(2) w1 w2 sz buf
    by (auto simp: Encoder_def insertCheckpoint_def Let_def arr_get_def first_checkpoint_def)
  have l: "length m2 = length buf" using mem_write_length [OF w2] buf by simp
  have "m2 ! 0 = set_entry_type b CHECKPOINT"
    using mem_write_take [OF w2, of 1] l buf by (cases m2) simp_all
  then show "item_at (backing_buffer e) 0 (writePos e) (ItemCheckpoint (first_checkpoint clock))"
    using e sz assms(1) l mem_read_written [OF w2] by (simp add: entry_type_of_set CHECKPOINT_def)
  show "writePos e \<le> endOfBuffer e" "endOfBuffer e = sz" "length (backing_buffer e) = length buf" using e sz l by simp_all
qed

end
