(* ===== verification/Log_Decoder.thy ===== *)
theory Log_Decoder
  imports Log_Encoder
begin

text \<open>
  The decoder of log files (\<^verbatim>\<open>Log::Decoder\<close> of \<^verbatim>\<open>src/runtime/Log.cc\<close>): checkpoints, dictionaries, extents and the
  messages in them, in the order of the file. A file is the bytes that have not been read, and whether a
  read has met its end. The metadata that the decoder keeps in one large buffer, with pointers into it, is
  a list of records; a pointer to where nothing has been written yet is \<open>None\<close>. What \<open>fprintf\<close>
  makes of the calls, and of the time, is not part of the model: a line has the time stamp.
\<close>

section \<open>Files\<close>

record log_file =
  fd_data :: bytes
  fd_eof :: bool

definition fread :: "nat \<Rightarrow> log_file \<Rightarrow> bytes \<times> log_file" where
  "fread n fd = (take n (fd_data fd), \<lparr>fd_data = drop n (fd_data fd), fd_eof = fd_eof fd \<or> length (fd_data fd) < n\<rparr>)"

definition INVALID_ENTRY :: nat where
  "INVALID_ENTRY = 0"

text \<open>The next byte is read and put back.\<close>

definition peekEntryType :: "log_file \<Rightarrow> nat \<times> log_file" where
  "peekEntryType fd =
     (case fd_data fd of [] \<Rightarrow> (INVALID_ENTRY, fd\<lparr>fd_eof := True\<rparr>) | b # _ \<Rightarrow> (entry_type_of b, fd))"

definition byte_char :: "u8 \<Rightarrow> char" where
  "byte_char b = char_of (unat b)"

text \<open>The string at a position, up to its terminator.\<close>

definition string_at :: "bytes \<Rightarrow> nat \<Rightarrow> string cres" where
  "string_at bs pos =
     (if 0 \<in> set (drop pos bs) then Inr (map byte_char (takeWhile (\<lambda>b. b \<noteq> 0) (drop pos bs))) else Inl Fault)"

definition val_at :: "bytes \<Rightarrow> nat \<Rightarrow> nat \<Rightarrow> nat" where
  "val_at bs pos n = le_val (take n (drop pos bs))"

section \<open>The state of the decoder\<close>

record decoder =
  inputFd :: log_file
  logMsgsPrinted :: nat
  good :: bool
  dec_checkpoint :: checkpoint
  fmtId2metadata :: "format_metadata option list"
  fmtId2fmtString :: "string list"
  numBufferFragmentsRead :: u32
  numCheckpointsRead :: u32

section \<open>Checkpoints with a dictionary of their own\<close>

text \<open>\<open>None\<close> is the result false.\<close>

definition readCheckpoint :: "log_file \<Rightarrow> (checkpoint option \<times> log_file) cres" where
  "readCheckpoint fd =
     (let (bs, fd) = fread 33 fd
      in if length bs < 33 then Inr (None, fd)
         else if entry_type_of (hd bs) \<noteq> CHECKPOINT then Inl Fault
         else Inr (Some \<lparr>ck_rdtsc = of_nat (val_at bs 1 8), ck_unixTime = of_nat (val_at bs 9 8),
             ck_cyclesPerSecond = of_nat (val_at bs 17 8), newMetadataBytes = of_nat (val_at bs 25 4),
             totalMetadataEntries = of_nat (val_at bs 29 4)\<rparr>, fd))"

definition format_types :: "format_type list" where
  "format_types = [NONE, unsigned_char_t, unsigned_short_int_t, unsigned_int_t, unsigned_long_int_t,
     unsigned_long_long_int_t, uintmax_t_t, size_t_t, wint_t_t, signed_char_t, short_int_t, int_t, long_int_t,
     long_long_int_t, intmax_t_t, ptrdiff_t_t, double_t, long_double_t, const_void_ptr_t, const_char_ptr_t,
     const_wchar_t_ptr_t]"

definition format_type_of :: "nat \<Rightarrow> format_type" where
  "format_type_of n = (if n < length format_types then format_types ! n else MAX_FORMAT_TYPE)"

text \<open>
  The walk over the metadata that a checkpoint brings, from a position in it. Like the code it follows the
  lengths it reads, and it may step behind the end, which is then found out.
\<close>

fun read_fragments :: "bytes \<Rightarrow> nat \<Rightarrow> nat \<Rightarrow> (print_fragment list \<times> string \<times> nat) cres" where
  "read_fragments data 0 pos = Inr ([], [], pos)"
| "read_fragments data (Suc n) pos =
     (if pos > length data then Inr ([], [], pos)
      else res_bind (mem_read data pos 3) (\<lambda>h.
           res_bind (string_at data (pos + 3)) (\<lambda>s.
             let b = val_at h 0 1; len = val_at h 1 2;
                 pf = \<lparr>argType = format_type_of (b mod 32), hasDynamicWidth = odd (b div 32),
                   hasDynamicPrecision = odd (b div 64), fragmentLength = of_nat len, formatFragment = s\<rparr>
             in res_bind (read_fragments data n (pos + 3 + len)) (\<lambda>(pfs, text', pos).
                  Inr (pf # pfs, s @ text', pos)))))"

lemma read_fragments_moves: "read_fragments data n pos = Inr (pfs, s, pos') \<Longrightarrow> pos \<le> pos'"
proof (induction n arbitrary: pos pfs s)
  case (Suc n)
  then show ?case by (fastforce simp: res_bind_eq_Inr Let_def split: if_splits)
qed simp

function read_metadata :: "bytes \<Rightarrow> nat \<Rightarrow> ((format_metadata \<times> string) list \<times> nat) cres" where
  "read_metadata data pos =
     (if \<not> pos < length data then Inr ([], pos)
      else res_bind (mem_read data pos 9) (\<lambda>h.
           res_bind (string_at data (pos + 9)) (\<lambda>fname.
             let fnameLength = val_at h 7 2
             in res_bind (read_fragments data (val_at h 1 1) (pos + 9 + fnameLength)) (\<lambda>(pfs, fmt, pos').
                let md = \<lparr>md_numNibbles = of_nat (val_at h 0 1), numPrintFragments = of_nat (val_at h 1 1),
                      logLevel = of_nat (val_at h 2 1), lineNumber = of_nat (val_at h 3 4),
                      filenameLength = of_nat fnameLength, filename = fname, fragments = pfs\<rparr>
                in res_bind (read_metadata data pos') (\<lambda>(mds, end_pos). Inr ((md, fmt) # mds, end_pos))))))"
  by pat_completeness auto

termination
proof (relation "measure (\<lambda>(data, pos). length data - pos)", goal_cases)
  case 1
  show ?case by simp
next
  case 2
  then show ?case by (fastforce dest!: read_fragments_moves)
qed

declare read_metadata.simps [simp del]

text \<open>
  A checkpoint. The metadata is read to the end of what was there, but when the old dictionary is dropped
  it is looked for at the start of the buffer: with both there, the old bytes are taken for the new ones.
\<close>

definition readDictionary :: "bool \<Rightarrow> decoder \<Rightarrow> (bool \<times> decoder) cres" where
  "readDictionary flushOldDictionary d =
     res_bind (readCheckpoint (inputFd d)) (\<lambda>(ck, fd).
       case ck of
         None \<Rightarrow> Inr (False, d\<lparr>inputFd := fd\<rparr>)
       | Some ck \<Rightarrow>
           let (data, fd) = fread (unat (newMetadataBytes ck)) fd; d = d\<lparr>inputFd := fd, dec_checkpoint := ck\<rparr>
           in if length data \<noteq> unat (newMetadataBytes ck) then Inr (False, d)
              else let stale = flushOldDictionary \<and> fmtId2metadata d \<noteq> [] \<and> data \<noteq> [];
                       d = (if flushOldDictionary then d\<lparr>fmtId2metadata := [], fmtId2fmtString := []\<rparr> else d)
                   in if stale then Inl Fault
                      else res_bind (read_metadata data 0) (\<lambda>(mds, end_pos).
                        let d = d\<lparr>fmtId2metadata := fmtId2metadata d @ map (\<lambda>x. Some (fst x)) mds,
                              fmtId2fmtString := fmtId2fmtString d @ map snd mds\<rparr>
                        in if end_pos \<noteq> length data then Inr (False, d)
                           else if length (fmtId2metadata d) \<noteq> unat (totalMetadataEntries ck) then Inr (False, d)
                           else Inr (True, d\<lparr>numCheckpointsRead := numCheckpointsRead d + 1\<rparr>)))"

section \<open>Dictionary fragments\<close>

text \<open>
  A new entry of the metadata. When \<open>createMicroCode\<close> fails the position of the next metadata is entered
  all the same, and the next format that succeeds is found there too.
\<close>

definition push_metadata :: "format_metadata cres \<Rightarrow> format_metadata option list \<Rightarrow> format_metadata option list cres" where
  "push_metadata r mds =
     (case r of
        Inl Fault \<Rightarrow> Inl Fault
      | Inl (Err _) \<Rightarrow> Inr (mds @ [None])
      | Inr md \<Rightarrow> Inr (map (\<lambda>m. case m of None \<Rightarrow> Some md | Some m \<Rightarrow> Some m) mds @ [Some md]))"

text \<open>The loop over the entries; the result is that of the function.\<close>

function read_infos :: "nat \<Rightarrow> nat \<Rightarrow> decoder \<Rightarrow> (bool \<times> decoder) cres" where
  "read_infos newBytes bytesRead d =
     (if \<not> (bytesRead < newBytes \<and> \<not> fd_eof (inputFd d)) then Inr (True, d)
      else let (cli, fd) = fread 9 (inputFd d)
           in if length cli \<noteq> 9 then Inr (False, d\<lparr>inputFd := fd\<rparr>)
              else let fnLength = val_at cli 5 2; fmtLength = val_at cli 7 2;
                       (fn, fd) = fread fnLength fd; (fmt, fd) = fread fmtLength fd; d = d\<lparr>inputFd := fd\<rparr>
                   in if 9 + length fn + length fmt \<noteq> 9 + fnLength + fmtLength then Inr (False, d)
                      else res_bind (string_at fn 0) (\<lambda>fname.
                           res_bind (string_at fmt 0) (\<lambda>format.
                           res_bind (push_metadata (createMicroCode format fname (of_nat (val_at cli 1 4)) (of_nat (val_at cli 0 1)))
                             (fmtId2metadata d)) (\<lambda>mds.
                             read_infos newBytes (bytesRead + (9 + length fn + length fmt))
                               (d\<lparr>fmtId2metadata := mds, fmtId2fmtString := fmtId2fmtString d @ [format]\<rparr>)))))"
  by pat_completeness auto

termination
  by (relation "measure (\<lambda>(newBytes, bytesRead, d). newBytes - bytesRead)") auto

declare read_infos.simps [simp del]

definition readDictionaryFragment :: "decoder \<Rightarrow> (bool \<times> decoder) cres" where
  "readDictionaryFragment d =
     (let (df, fd) = fread 8 (inputFd d); d = d\<lparr>inputFd := fd\<rparr>
      in if length df \<noteq> 8 then Inr (False, d)
         else if entry_type_of (hd df) \<noteq> LOG_MSGS_OR_DIC then Inl Fault
         else read_infos (val_at df 0 4 div 4) 8 d)"

section \<open>Extents\<close>

record buffer_fragment =
  storage :: bytes
  runtimeId :: u32
  readPos :: nat
  hasMoreLogs :: bool
  nextLogId :: u32
  nextLogTimestamp :: u64

text \<open>The bytes behind the end of what was read are not looked at. A fragment that was reset has none.\<close>

definition reset_fragment :: "buffer_fragment \<Rightarrow> buffer_fragment" where
  "reset_fragment bf = bf\<lparr>storage := [], runtimeId := - 1, readPos := 0, hasMoreLogs := False\<rparr>"

definition FRAGMENT_SIZE :: nat where
  "FRAGMENT_SIZE = STAGING_BUFFER_SIZE + (5 + 4)"

text \<open>The identifier of the buffer, and the position of the messages.\<close>

definition read_runtimeId :: "bytes \<Rightarrow> bool \<Rightarrow> nat \<Rightarrow> (u32 \<times> nat) cres" where
  "read_runtimeId st isShort nib = (if isShort then Inr (of_nat nib, 5) else unpack_int st 5 nib)"

text \<open>The result, whether the extent starts a new pass, and what is left of the file.\<close>

definition readBufferExtent :: "log_file \<Rightarrow> buffer_fragment \<Rightarrow> (bool \<times> bool \<times> buffer_fragment \<times> log_file) cres" where
  "readBufferExtent fd bf =
     (let (be, fd) = fread 5 fd
      in if length be < 5 \<or> entry_type_of (hd be) \<noteq> BUFFER_EXTENT \<or> val_at be 1 4 > FRAGMENT_SIZE
         then Inr (False, False, reset_fragment bf, fd)
         else if val_at be 1 4 < 5 then Inl Fault
         else let (rest, fd) = fread (val_at be 1 4 - 5) fd; st = be @ rest
              in if length st \<noteq> val_at be 1 4 then Inr (False, False, reset_fragment bf, fd)
                 else let b = val_at be 0 1; newPass = odd (b div 4); isShort = odd (b div 8); nib = b div 16
                      in res_bind (read_runtimeId st isShort nib) (\<lambda>(runtimeId, pos).
                         let bf = bf\<lparr>storage := st, runtimeId := runtimeId, readPos := pos, hasMoreLogs := False\<rparr>
                         in if pos = length st then Inr (True, newPass, bf, fd)
                            else res_bind (decompressLogHeader st pos 0) (\<lambda>h.
                              case h of
                                None \<Rightarrow> Inr (False, newPass, reset_fragment bf, fd)
                              | Some (logId, timestamp, pos) \<Rightarrow>
                                  Inr (True, newPass, bf\<lparr>readPos := pos, hasMoreLogs := True, nextLogId := logId,
                                    nextLogTimestamp := timestamp\<rparr>, fd))))"

section \<open>Messages\<close>

record log_line =
  line_filename :: string
  line_number :: u32
  line_level :: u8
  line_runtimeId :: u32
  line_logId :: u32
  line_timestamp :: u64
  line_calls :: "printf_call list"

text \<open>The names of the levels are an array of five.\<close>

definition decompressNextLogStatement ::
  "fp_conv \<Rightarrow> format_metadata option list \<Rightarrow> buffer_fragment \<Rightarrow> (log_line option \<times> buffer_fragment) cres" where
  "decompressNextLogStatement fp mds bf =
     (if readPos bf > length (storage bf) \<or> \<not> hasMoreLogs bf then Inr (None, bf\<lparr>hasMoreLogs := False\<rparr>)
      else if unat (nextLogId bf) \<ge> length mds then Inl (Err EINVAL)
      else case mds ! unat (nextLogId bf) of
        None \<Rightarrow> Inl Fault
      | Some md \<Rightarrow>
          if logLevel md \<ge> 5 then Inl Fault
          else res_bind (decode_message fp md (storage bf) (readPos bf)) (\<lambda>(calls, pos).
            let line = \<lparr>line_filename = filename md, line_number = lineNumber md, line_level = logLevel md,
                  line_runtimeId = runtimeId bf, line_logId = nextLogId bf, line_timestamp = nextLogTimestamp bf,
                  line_calls = calls\<rparr>
            in if pos \<ge> length (storage bf) then Inr (Some line, bf\<lparr>readPos := pos, hasMoreLogs := False\<rparr>)
               else res_bind (decompressLogHeader (storage bf) pos (nextLogTimestamp bf)) (\<lambda>h.
                 case h of
                   None \<Rightarrow> Inr (Some line, bf\<lparr>readPos := pos, hasMoreLogs := False\<rparr>)
                 | Some (logId, timestamp, pos) \<Rightarrow>
                     Inr (Some line, bf\<lparr>readPos := pos, hasMoreLogs := True, nextLogId := logId, nextLogTimestamp := timestamp\<rparr>))))"

definition hasNext :: "buffer_fragment \<Rightarrow> bool" where
  "hasNext bf = hasMoreLogs bf"

text \<open>Reading moves forward.\<close>

lemma unpack_int_moves: "unpack_int m p n = Inr (v, p') \<Longrightarrow> p \<le> p'"
  by (auto simp: unpack_int_def Let_def res_bind_eq_Inr split: if_splits)

lemma decompressLogHeader_moves: "decompressLogHeader m p lt = Inr (Some (i, ts, p')) \<Longrightarrow> p < p'"
  by (auto simp: decompressLogHeader_def res_bind_eq_Inr split: if_splits dest!: unpack_int_moves)

lemma decode_arg_moves: "decode_arg fp ty nb p = Inr (v, nb', p') \<Longrightarrow> p \<le> p'"
  by (auto simp: decode_arg_def res_bind_eq_Inr split: format_type.splits)

lemma decode_fragment_moves: "decode_fragment fp pf nb p = Inr (c, nb', p') \<Longrightarrow> p \<le> p'"
  by (auto simp: decode_fragment_def res_bind_eq_Inr split: if_splits dest: decode_arg_moves)

lemma decode_fragments_moves: "decode_fragments fp pfs nb p = Inr (cs, p') \<Longrightarrow> p \<le> p'"
  by (induction pfs arbitrary: nb p cs) (fastforce simp: res_bind_eq_Inr dest: decode_fragment_moves)+

lemma decode_message_moves: "decode_message fp md m p = Inr (cs, p') \<Longrightarrow> p \<le> p'"
  by (auto simp: decode_message_def res_bind_eq_Inr Nibbler_def getEndOfPackedArguments_def dest!: decode_fragments_moves)

lemma decompressNextLogStatement_moves:
  assumes "decompressNextLogStatement fp mds bf = Inr (line, bf')" "hasMoreLogs bf'"
  shows "storage bf' = storage bf \<and> readPos bf < readPos bf' \<and> readPos bf < length (storage bf)"
  using assms
  by (auto simp: decompressNextLogStatement_def res_bind_eq_Inr Let_def split: if_splits option.splits
      dest!: decompressLogHeader_moves decode_message_moves)

text \<open>The messages of an extent, until there are no more.\<close>

function read_messages ::
  "fp_conv \<Rightarrow> format_metadata option list \<Rightarrow> buffer_fragment \<Rightarrow> (log_line list \<times> buffer_fragment) cres" where
  "read_messages fp mds bf =
     (if \<not> hasNext bf then Inr ([], bf)
      else res_bind (decompressNextLogStatement fp mds bf) (\<lambda>(line, bf).
           res_bind (read_messages fp mds bf) (\<lambda>(lines, bf).
             Inr ((case line of None \<Rightarrow> [] | Some l \<Rightarrow> [l]) @ lines, bf))))"
  by pat_completeness auto

termination
proof (relation "measure (\<lambda>(fp, mds, bf). if hasMoreLogs bf then Suc (length (storage bf) - readPos bf) else 0)", goal_cases)
  case 1
  show ?case by simp
next
  case (2 fp mds bf x line bf')
  show ?case
  proof (cases "hasMoreLogs bf'")
    case True
    then show ?thesis using 2 decompressNextLogStatement_moves [of fp mds bf line bf'] by (simp add: hasNext_def diff_less_mono2)
  qed (use 2 in \<open>simp add: hasNext_def\<close>)
qed

declare read_messages.simps [simp del]

section \<open>A file\<close>

datatype out_event = Line log_line | NewExecution | Complete nat

text \<open>The padding between entries.\<close>

definition skip_padding :: "log_file \<Rightarrow> log_file" where
  "skip_padding fd =
     (let rest = dropWhile (\<lambda>b. entry_type_of b = INVALID_ENTRY) (fd_data fd)
      in \<lparr>fd_data = rest, fd_eof = fd_eof fd \<or> rest = []\<rparr>)"

text \<open>One entry of the file.\<close>

definition decompress_entry ::
  "fp_conv \<Rightarrow> decoder \<Rightarrow> buffer_fragment \<Rightarrow> (out_event list \<times> decoder \<times> buffer_fragment) cres" where
  "decompress_entry fp d bf =
     (let (entry, fd) = peekEntryType (inputFd d); d = d\<lparr>inputFd := fd\<rparr>
      in if entry = BUFFER_EXTENT
         then res_bind (readBufferExtent fd bf) (\<lambda>(ok, newPass, bf, fd).
                let d = d\<lparr>inputFd := fd\<rparr>
                in if \<not> ok then Inr ([], d, bf)
                   else res_bind (read_messages fp (fmtId2metadata d) bf) (\<lambda>(lines, bf).
                          Inr (map Line lines, d\<lparr>numBufferFragmentsRead := numBufferFragmentsRead d + 1,
                            logMsgsPrinted := logMsgsPrinted d + length lines\<rparr>, bf)))
         else if entry = CHECKPOINT
         then res_bind (readDictionary True d) (\<lambda>(ok, d).
                if ok then Inr ([NewExecution], d, bf) else Inr ([], d\<lparr>good := False\<rparr>, bf))
         else if entry = LOG_MSGS_OR_DIC
         then res_bind (readDictionaryFragment d) (\<lambda>(ok, d). Inr ([], d\<lparr>good := ok\<rparr>, bf))
         else Inr ([], d\<lparr>inputFd := (if fd_eof fd then fd else skip_padding fd)\<rparr>, bf))"

text \<open>Every entry takes something from the file.\<close>

definition fd_size :: "log_file \<Rightarrow> nat" where
  "fd_size fd = (if fd_eof fd then 0 else Suc (length (fd_data fd)))"

definition shrinks :: "log_file \<Rightarrow> log_file \<Rightarrow> bool" where
  "shrinks fd fd' \<longleftrightarrow> length (fd_data fd') \<le> length (fd_data fd) \<and> (fd_eof fd \<longrightarrow> fd_eof fd')"

lemma fread_shrinks: "fread n fd = (bs, fd') \<Longrightarrow> shrinks fd fd'"
  by (auto simp: fread_def shrinks_def)

lemma shrinks_trans: "shrinks a b \<Longrightarrow> shrinks b c \<Longrightarrow> shrinks a c"
  by (auto simp: shrinks_def)

lemma shrinks_refl: "shrinks a a"
  by (simp add: shrinks_def)

lemma read_infos_shrinks: "read_infos n k d = Inr (ok, d') \<Longrightarrow> shrinks (inputFd d) (inputFd d')"
proof (induction "n - k" arbitrary: k d rule: less_induct)
  case less
  show ?case
  proof (cases "k < n \<and> \<not> fd_eof (inputFd d)")
    case False
    then show ?thesis using less.prems by (subst (asm) read_infos.simps) (auto simp: shrinks_refl)
  next
    case True
    obtain cli fd1 where c: "fread 9 (inputFd d) = (cli, fd1)" by fastforce
    obtain fn fd2 where f2: "fread (val_at cli 5 2) fd1 = (fn, fd2)" by fastforce
    obtain fmt fd3 where f3: "fread (val_at cli 7 2) fd2 = (fmt, fd3)" by fastforce
    have s: "shrinks (inputFd d) fd1" "shrinks (inputFd d) fd3"
      using fread_shrinks [OF c] fread_shrinks [OF f2] fread_shrinks [OF f3] shrinks_trans by blast+
    have IH: "shrinks (inputFd d) (inputFd d')"
      if "read_infos n (k + (9 + length fn + length fmt)) (d\<lparr>inputFd := fd3, fmtId2metadata := x, fmtId2fmtString := y\<rparr>) = Inr (ok, d')" for x y
    proof -
      have "n - (k + (9 + length fn + length fmt)) < n - k" using True by linarith
      from less.hyps [OF this that] show ?thesis using s(2) shrinks_trans by simp
    qed
    from less.prems True c f2 f3 show ?thesis
      by (subst (asm) read_infos.simps)
        (auto simp: Let_def res_bind_eq_Inr s split: if_splits dest!: IH)
  qed
qed

definition consumes :: "log_file \<Rightarrow> log_file \<Rightarrow> bool" where
  "consumes fd fd' \<longleftrightarrow> length (fd_data fd') < length (fd_data fd)"

lemma fread_consumes: "fread n fd = (bs, fd') \<Longrightarrow> 0 < n \<Longrightarrow> fd_data fd \<noteq> [] \<Longrightarrow> consumes fd fd'"
  by (auto simp: fread_def consumes_def)

lemma consumes_shrinks: "consumes a b \<Longrightarrow> shrinks b c \<Longrightarrow> consumes a c"
  by (auto simp: shrinks_def consumes_def)

lemma readBufferExtent_consumes:
  assumes "readBufferExtent fd bf = Inr (ok, np, bf', fd')" "fd_data fd \<noteq> []"
  shows "consumes fd fd'"
proof -
  obtain be fd1 where f1: "fread 5 fd = (be, fd1)" by fastforce
  obtain r fd2 where f2: "fread (val_at be 1 4 - 5) fd1 = (r, fd2)" by fastforce
  have "consumes fd fd1" using fread_consumes [OF f1] assms(2) by simp
  moreover have "consumes fd fd2" using consumes_shrinks [OF calculation] fread_shrinks [OF f2] by simp
  ultimately show ?thesis
    using assms(1) f1 f2 by (auto simp: readBufferExtent_def Let_def res_bind_eq_Inr split: if_splits option.splits)
qed

lemma readDictionaryFragment_consumes:
  assumes "readDictionaryFragment d = Inr (ok, d')" "fd_data (inputFd d) \<noteq> []"
  shows "consumes (inputFd d) (inputFd d')"
proof -
  obtain df fd1 where f1: "fread 8 (inputFd d) = (df, fd1)" by fastforce
  have c: "consumes (inputFd d) fd1" using fread_consumes [OF f1] assms(2) by simp
  then show ?thesis
    using assms(1) f1 read_infos_shrinks [of _ 8 "d\<lparr>inputFd := fd1\<rparr>" ok d']
    by (auto simp: readDictionaryFragment_def Let_def split: if_splits intro: consumes_shrinks)
qed

lemma readDictionary_consumes:
  assumes "readDictionary flush d = Inr (ok, d')" "fd_data (inputFd d) \<noteq> []"
  shows "consumes (inputFd d) (inputFd d')"
proof -
  obtain bs fd1 where f1: "fread 33 (inputFd d) = (bs, fd1)" by fastforce
  have c: "consumes (inputFd d) fd1" using fread_consumes [OF f1] assms(2) by simp
  show ?thesis
  proof (cases "length bs < 33")
    case True
    then show ?thesis using assms(1) f1 c by (auto simp: readDictionary_def readCheckpoint_def)
  next
    case False
    obtain ck where ck: "readCheckpoint (inputFd d) = Inr (Some ck, fd1)"
      using assms(1) f1 False by (auto simp: readDictionary_def readCheckpoint_def split: if_splits)
    obtain data fd2 where f2: "fread (unat (newMetadataBytes ck)) fd1 = (data, fd2)" by fastforce
    have "consumes (inputFd d) fd2" using consumes_shrinks [OF c fread_shrinks [OF f2]] .
    then show ?thesis
      using assms(1) ck f2 by (auto simp: readDictionary_def Let_def res_bind_eq_Inr split: if_splits)
  qed
qed

lemma decompress_entry_size:
  assumes "decompress_entry fp d bf = Inr (out, d', bf')" "\<not> fd_eof (inputFd d)"
  shows "fd_size (inputFd d') < fd_size (inputFd d)"
proof (cases "fd_data (inputFd d)")
  case Nil
  then have "fd_eof (inputFd d')"
    using assms(1) by (auto simp: decompress_entry_def peekEntryType_def INVALID_ENTRY_def BUFFER_EXTENT_def CHECKPOINT_def LOG_MSGS_OR_DIC_def Let_def)
  then show ?thesis using assms(2) by (simp add: fd_size_def)
next
  case (Cons b bs)
  then have ne: "fd_data (inputFd d) \<noteq> []" by simp
  have pk: "peekEntryType (inputFd d) = (entry_type_of b, inputFd d)" using Cons by (simp add: peekEntryType_def)
  have "consumes (inputFd d) (inputFd d')"
  proof (cases "entry_type_of b \<in> {BUFFER_EXTENT, CHECKPOINT, LOG_MSGS_OR_DIC}")
    case True
    then show ?thesis
      using assms(1) pk ne
      by (auto simp: decompress_entry_def Let_def res_bind_eq_Inr split: if_splits
          dest!: readBufferExtent_consumes readDictionary_consumes readDictionaryFragment_consumes)
  next
    case False
    have "entry_type_of b < 4" by (simp add: entry_type_of_def)
    then have "entry_type_of b = INVALID_ENTRY"
      using False by (auto simp: BUFFER_EXTENT_def CHECKPOINT_def LOG_MSGS_OR_DIC_def INVALID_ENTRY_def)
    moreover have "length (dropWhile P bs) < Suc (length bs)" for P by (simp add: less_Suc_eq_le length_dropWhile_le)
    ultimately show ?thesis
      using assms False Cons pk
      by (auto simp: decompress_entry_def Let_def skip_padding_def consumes_def)
  qed
  then show ?thesis using assms(2) by (simp add: consumes_def fd_size_def)
qed

text \<open>All of a file that was opened. The result is whether it was read without an error.\<close>

function decompress_entries ::
  "fp_conv \<Rightarrow> decoder \<Rightarrow> buffer_fragment \<Rightarrow> (out_event list \<times> decoder) cres" where
  "decompress_entries fp d bf =
     (if fd_eof (inputFd d) \<or> \<not> good d then Inr ([], d)
      else res_bind (decompress_entry fp d bf) (\<lambda>(out, d, bf).
           res_bind (decompress_entries fp d bf) (\<lambda>(outs, d). Inr (out @ outs, d))))"
  by pat_completeness auto

termination
  by (relation "measure (\<lambda>(fp, d, bf). fd_size (inputFd d))") (auto dest: decompress_entry_size)

declare decompress_entries.simps [simp del]

definition new_fragment :: buffer_fragment where
  "new_fragment = \<lparr>storage = [], runtimeId = - 1, readPos = 0, hasMoreLogs = False, nextLogId = - 1, nextLogTimestamp = 0\<rparr>"

definition internalDecompressUnordered :: "fp_conv \<Rightarrow> decoder \<Rightarrow> (bool \<times> out_event list \<times> decoder) cres" where
  "internalDecompressUnordered fp d =
     res_bind (decompress_entries fp d new_fragment) (\<lambda>(out, d).
       Inr (good d, out @ [Complete (logMsgsPrinted d)], d))"

text \<open>A new decoder, and a file opened with it.\<close>

definition new_decoder :: "bytes \<Rightarrow> decoder" where
  "new_decoder file = \<lparr>inputFd = \<lparr>fd_data = file, fd_eof = False\<rparr>, logMsgsPrinted = 0, good = False,
     dec_checkpoint = \<lparr>ck_rdtsc = 0, ck_unixTime = 0, ck_cyclesPerSecond = 0, newMetadataBytes = 0, totalMetadataEntries = 0\<rparr>,
     fmtId2metadata = [], fmtId2fmtString = [], numBufferFragmentsRead = 0, numCheckpointsRead = 0\<rparr>"

definition open_log :: "bytes \<Rightarrow> decoder option cres" where
  "open_log file =
     res_bind (readDictionary True (new_decoder file)) (\<lambda>(ok, d).
       if \<not> ok then Inr None
       else Inr (Some (d\<lparr>numBufferFragmentsRead := 0, numCheckpointsRead := 1, logMsgsPrinted := 0, good := True\<rparr>)))"

text \<open>The number of messages, or -1.\<close>

definition decompressUnordered :: "fp_conv \<Rightarrow> decoder \<Rightarrow> (int \<times> out_event list \<times> decoder) cres" where
  "decompressUnordered fp d =
     res_bind (internalDecompressUnordered fp d) (\<lambda>(success, out, d).
       Inr (if success then int (logMsgsPrinted d) else - 1, out, d))"

section \<open>An extent is read as it was written\<close>

text \<open>The header of the next message has been read, and the fragment stands before its arguments.\<close>

definition fragment_ready :: "buffer_fragment \<Rightarrow> message list \<Rightarrow> bool" where
  "fragment_ready bf ms \<longleftrightarrow>
     (case ms of
        [] \<Rightarrow> \<not> hasMoreLogs bf
      | x # xs \<Rightarrow>
          hasMoreLogs bf \<and> nextLogId bf = msg_id x \<and> nextLogTimestamp bf = msg_time x \<and>
          readPos bf \<le> length (storage bf) \<and> compressed_at (storage bf) (readPos bf) (msg_types x) (msg_args x) \<and>
          messages_at (storage bf) (readPos bf + compressed_size (msg_types x) (msg_args x)) (length (storage bf)) (msg_time x) xs)"

lemma next_header:
  assumes "messages_at m p (length m) lt (x # xs)"
  shows "decompressLogHeader m p lt = Inr (Some (msg_id x, msg_time x, p + length (header_image (msg_id x) (msg_time x - lt))))"
    "p < length m"
    "fragment_ready (bf\<lparr>storage := m, readPos := p + length (header_image (msg_id x) (msg_time x - lt)), hasMoreLogs := True,
       nextLogId := msg_id x, nextLogTimestamp := msg_time x\<rparr>) (x # xs)"
proof -
  let ?h = "header_image (msg_id x) (msg_time x - lt)"
  have h: "mem_read m p (length ?h) = Inr ?h" "compressed_at m (p + length ?h) (msg_types x) (msg_args x)"
    "messages_at m (p + length ?h + compressed_size (msg_types x) (msg_args x)) (length m) (msg_time x) xs"
    using assms by (simp_all add: Let_def)
  show "decompressLogHeader m p lt = Inr (Some (msg_id x, msg_time x, p + length ?h))"
    using decompressLogHeader_image [OF h(1), of lt] by simp
  have le: "p + length ?h \<le> length m" using messages_at_le [OF h(3)] by simp
  moreover have "0 < length ?h" by (simp add: header_image_def)
  ultimately show "p < length m" by linarith
  show "fragment_ready (bf\<lparr>storage := m, readPos := p + length ?h, hasMoreLogs := True,
       nextLogId := msg_id x, nextLogTimestamp := msg_time x\<rparr>) (x # xs)"
    using h(2,3) le by (simp add: fragment_ready_def)
qed

text \<open>What the line of a message is.\<close>

definition msg_fits :: "fp_conv \<Rightarrow> format_metadata \<Rightarrow> message \<Rightarrow> bool" where
  "msg_fits fp md x \<longleftrightarrow>
     length (msg_basics x) < 256 \<and> unat (md_numNibbles md) = length (msg_basics x) \<and>
     (case logged_calls fp (take (unat (numPrintFragments md)) (fragments md)) (msg_types x) (- 1) (msg_args x) of
        None \<Rightarrow> False | Some cs \<Rightarrow> list_all star_ok cs)"

definition msg_line :: "fp_conv \<Rightarrow> format_metadata \<Rightarrow> u32 \<Rightarrow> message \<Rightarrow> log_line" where
  "msg_line fp md bufferId x =
     \<lparr>line_filename = filename md, line_number = lineNumber md, line_level = logLevel md, line_runtimeId = bufferId,
      line_logId = msg_id x, line_timestamp = msg_time x,
      line_calls = (case logged_calls fp (take (unat (numPrintFragments md)) (fragments md)) (msg_types x) (- 1) (msg_args x) of
        None \<Rightarrow> [] | Some cs \<Rightarrow> cs)\<rparr>"

lemma decode_msg:
  assumes "compressed_at m p (msg_types x) (msg_args x)" "msg_fits fp md x"
  shows "decode_message fp md m p =
    Inr (line_calls (msg_line fp md bufferId x), p + compressed_size (msg_types x) (msg_args x))"
proof -
  obtain cs where cs: "logged_calls fp (take (unat (numPrintFragments md)) (fragments md)) (msg_types x) (- 1) (msg_args x) = Some cs"
    "list_all star_ok cs" using assms(2) by (auto simp: msg_fits_def split: option.splits)
  have "length (msg_basics x) < 2 ^ 28" using assms(2) by (simp add: msg_fits_def)
  from decode_message_compressed [OF assms(1) this _ cs] assms(2) show ?thesis
    by (simp add: msg_fits_def msg_line_def cs(1))
qed

definition decodable :: "fp_conv \<Rightarrow> format_metadata option list \<Rightarrow> message \<Rightarrow> bool" where
  "decodable fp mds x \<longleftrightarrow> unat (msg_id x) < length mds \<and>
     (case mds ! unat (msg_id x) of None \<Rightarrow> False | Some md \<Rightarrow> logLevel md < 5 \<and> msg_fits fp md x)"

definition line_of :: "fp_conv \<Rightarrow> format_metadata option list \<Rightarrow> u32 \<Rightarrow> message \<Rightarrow> log_line" where
  "line_of fp mds bufferId x = msg_line fp (the (mds ! unat (msg_id x))) bufferId x"

lemma decompressNext_ready:
  assumes r: "fragment_ready bf (x # xs)" and d: "decodable fp mds x"
  shows "\<exists>bf'. decompressNextLogStatement fp mds bf = Inr (Some (line_of fp mds (runtimeId bf) x), bf') \<and>
    fragment_ready bf' xs \<and> runtimeId bf' = runtimeId bf"
proof -
  let ?c = "compressed_size (msg_types x) (msg_args x)"
  obtain md where md: "mds ! unat (msg_id x) = Some md" "logLevel md < 5" "msg_fits fp md x" "unat (msg_id x) < length mds"
    using d by (auto simp: decodable_def split: option.splits)
  have b: "hasMoreLogs bf" "nextLogId bf = msg_id x" "nextLogTimestamp bf = msg_time x" "readPos bf \<le> length (storage bf)"
    "compressed_at (storage bf) (readPos bf) (msg_types x) (msg_args x)"
    "messages_at (storage bf) (readPos bf + ?c) (length (storage bf)) (msg_time x) xs"
    using r by (simp_all add: fragment_ready_def)
  have line: "line_of fp mds (runtimeId bf) x = msg_line fp md (runtimeId bf) x" by (simp add: line_of_def md(1))
  note dm = decode_msg [OF b(5) md(3), of "runtimeId bf"]
  show ?thesis
  proof (cases xs)
    case Nil
    then have "readPos bf + ?c = length (storage bf)" using b(6) by simp
    then show ?thesis
      using Nil b(1-4) md dm unfolding line
      by (simp add: decompressNextLogStatement_def Let_def fragment_ready_def msg_line_def not_le not_less)
  next
    case (Cons y ys)
    note n = next_header(1,2) [OF b(6) [unfolded Cons]] next_header(3) [OF b(6) [unfolded Cons], of bf]
    show ?thesis
      using Cons b(1-4) md dm n unfolding line
      by (simp add: decompressNextLogStatement_def Let_def msg_line_def not_le not_less)
  qed
qed

lemma read_messages_ready:
  "fragment_ready bf ms \<Longrightarrow> \<forall>x \<in> set ms. decodable fp mds x \<Longrightarrow>
     \<exists>bf'. read_messages fp mds bf = Inr (map (line_of fp mds (runtimeId bf)) ms, bf')"
proof (induction ms arbitrary: bf)
  case Nil
  then show ?case by (simp add: read_messages.simps [of fp mds bf] fragment_ready_def hasNext_def)
next
  case (Cons x xs)
  have "decodable fp mds x" using Cons.prems(2) by simp
  from decompressNext_ready [OF Cons.prems(1) this] obtain bf' where
    s: "decompressNextLogStatement fp mds bf = Inr (Some (line_of fp mds (runtimeId bf) x), bf')"
    "fragment_ready bf' xs" "runtimeId bf' = runtimeId bf" by blast
  obtain bf'' where "read_messages fp mds bf' = Inr (map (line_of fp mds (runtimeId bf)) xs, bf'')"
    using Cons.IH [OF s(2)] Cons.prems(2) s(3) by auto
  moreover have "hasNext bf" using Cons.prems(1) by (simp add: fragment_ready_def hasNext_def)
  ultimately show ?case using s(1) by (simp add: read_messages.simps [of fp mds bf])
qed

lemma buffer_extent_fields:
  assumes "nib < 16"
  shows "entry_type_of (buffer_extent np s nib) = BUFFER_EXTENT" "odd (unat (buffer_extent np s nib) div 4) = np"
    "odd (unat (buffer_extent np s nib) div 8) = s" "unat (buffer_extent np s nib) div 16 = nib"
proof -
  have "unat (of_nat n :: u8) = n" if "n < 256" for n using that by (simp add: unat_of_nat take_bit_nat_eq_self)
  moreover have "2 + 4 * of_bool np + 8 * of_bool s + 16 * nib < 256" using assms by (cases np; cases s; simp)
  ultimately have u: "unat (buffer_extent np s nib) = 2 + 4 * of_bool np + 8 * of_bool s + 16 * nib"
    unfolding buffer_extent_def BUFFER_EXTENT_def .
  show "entry_type_of (buffer_extent np s nib) = BUFFER_EXTENT"
    unfolding entry_type_of_def u BUFFER_EXTENT_def by (cases np; cases s; simp; presburger)
  show "odd (unat (buffer_extent np s nib) div 4) = np" unfolding u by (cases np; cases s; simp; presburger)
  show "odd (unat (buffer_extent np s nib) div 8) = s" unfolding u by (cases np; cases s; simp; presburger)
  show "unat (buffer_extent np s nib) div 16 = nib" unfolding u by (cases np; cases s; simp; presburger)
qed

lemma readBufferExtent_extent:
  assumes x: "extent_at (fd_data fd) 0 e bufferId np ms" and len: "e \<le> FRAGMENT_SIZE"
  shows "\<exists>bf'. readBufferExtent fd bf = Inr (True, np, bf', fd\<lparr>fd_data := drop e (fd_data fd)\<rparr>) \<and>
    fragment_ready bf' ms \<and> runtimeId bf' = bufferId"
proof -
  let ?data = "fd_data fd"
  let ?h = "extent_header bufferId np e" and ?id = "extent_id bufferId"
  have h: "e \<le> length ?data" "mem_read ?data 0 (length ?h) = Inr ?h" "messages_at ?data (5 + length ?id) e 0 ms"
    using x by (simp_all add: extent_at_def Let_def)
  have le: "5 + length ?id \<le> e" using messages_at_le [OF h(3)] .
  define st where "st = take e ?data"
  have lst: "length st = e" using h(1) by (simp add: st_def)
  have th: "take (5 + length ?id) st = ?h" using h(1,2) le by (simp add: st_def mem_read_def min_absorb1 split: if_splits)
  have fr5: "fread 5 fd = (take 5 st, fd\<lparr>fd_data := drop 5 ?data\<rparr>)"
    using h(1) le by (cases fd) (simp add: fread_def st_def min_absorb1)
  have t5: "take 5 st = take 5 ?h" using arg_cong [OF th, of "take 5"] by (simp add: min_absorb1)
  have e32: "e < 2 ^ 32" using len by (simp add: FRAGMENT_SIZE_def STAGING_BUFFER_SIZE_def)
  define b where "b = buffer_extent np (bufferId < 16) (if bufferId < 16 then unat bufferId else fst (arg_image (ArgU32 bufferId)))"
  have h5: "take 5 ?h = b # le_bytes 4 e" by (simp add: extent_header_def b_def)
  have len_field: "val_at (take 5 st) 1 4 = e" unfolding t5 h5 using e32 by (simp add: val_at_def le_val_le_bytes)
  have b_field: "val_at (take 5 st) 0 1 = unat b" "hd (take 5 st) = b" "length (take 5 st) = 5"
    unfolding t5 h5 by (simp_all add: val_at_def)
  have nib: "(if bufferId < 16 then unat bufferId else fst (arg_image (ArgU32 bufferId))) < 16"
    using header_codes(2) [of bufferId] by (auto simp: word_less_nat_alt)
  note f = buffer_extent_fields [OF nib, of np "bufferId < 16", folded b_def]
  have rest: "fread (e - 5) (fd\<lparr>fd_data := drop 5 ?data\<rparr>) = (drop 5 st, fd\<lparr>fd_data := drop e ?data\<rparr>)"
    using h(1) le by (cases fd) (auto simp: fread_def st_def drop_take)
  have id: "read_runtimeId st (bufferId < 16) (unat b div 16) = Inr (bufferId, 5 + length ?id)"
  proof (cases "bufferId < 16")
    case True
    then show ?thesis using f(4) by (simp add: extent_id_def read_runtimeId_def)
  next
    case False
    have "drop 5 (take (5 + length ?id) st) = ?id" unfolding th by (simp add: extent_header_def)
    then have "mem_read st 5 (length ?id) = Inr ?id" using lst le by (simp add: mem_read_def drop_take)
    then have "unpack_int st 5 (fst (arg_image (ArgU32 bufferId))) = Inr (bufferId, 5 + length ?id)"
      using unpack_int_small [of st 5 bufferId] False by (simp add: extent_id_def arg_bytes_def int_width_def)
    then show ?thesis using False f(4) by (simp add: read_runtimeId_def)
  qed
  have ms: "messages_at st (5 + length ?id) (length st) 0 ms"
  proof -
    have "same_slice ?data 0 st 0 e" using h(1) by (simp add: same_slice_def st_def)
    from messages_at_slice [of ?data 0 "5 + length ?id" e, OF _ this] show ?thesis using h(3) lst by simp
  qed
  let ?bf = "bf\<lparr>storage := st, runtimeId := bufferId, readPos := 5 + length ?id, hasMoreLogs := False\<rparr>"
  have common: "readBufferExtent fd bf =
      (if 5 + length ?id = e then Inr (True, np, ?bf, fd\<lparr>fd_data := drop e ?data\<rparr>)
       else res_bind (decompressLogHeader st (5 + length ?id) 0) (\<lambda>h.
              case h of
                None \<Rightarrow> Inr (False, np, reset_fragment ?bf, fd\<lparr>fd_data := drop e ?data\<rparr>)
              | Some (logId, timestamp, pos) \<Rightarrow>
                  Inr (True, np, ?bf\<lparr>readPos := pos, hasMoreLogs := True, nextLogId := logId,
                    nextLogTimestamp := timestamp\<rparr>, fd\<lparr>fd_data := drop e ?data\<rparr>)))"
  proof -
    have "take 5 st @ drop 5 st = st" by simp
    then show ?thesis
      using fr5 b_field len_field f(1-3) rest id len le lst
      by (simp add: readBufferExtent_def Let_def not_less)
  qed
  show ?thesis
  proof (cases ms)
    case Nil
    then have "5 + length ?id = e" using ms lst by simp
    then show ?thesis using common Nil by (simp add: fragment_ready_def)
  next
    case (Cons y ys)
    note n = next_header(1,2) [OF ms [unfolded Cons]] next_header(3) [OF ms [unfolded Cons], of ?bf]
    have "5 + length ?id \<noteq> e" using n(2) lst by simp
    then show ?thesis using common n(1,3) Cons by (simp add: fragment_ready_def)
  qed
qed

section \<open>A dictionary is read as it was written\<close>

text \<open>A site whose texts are C strings of less than 2 to the 16 bytes, and the metadata of its format.\<close>

definition info_ok :: "static_log_info \<Rightarrow> format_metadata \<Rightarrow> bool" where
  "info_ok info md \<longleftrightarrow>
     CHR 0x00 \<notin> set (sli_filename info) \<and> CHR 0x00 \<notin> set (sli_formatString info) \<and>
     length (sli_filename info) + 1 < 2 ^ 16 \<and> length (sli_formatString info) + 1 < 2 ^ 16 \<and>
     createMicroCode (sli_formatString info) (sli_filename info) (sli_lineNum info) (sli_severity info) = Inr md"

lemma byte_char_byte [simp]: "byte_char (char_byte c) = c"
proof -
  have "of_char c < (256 :: nat)" by simp
  then have "unat (word_of_nat (of_char c) :: u8) = of_char c" by (simp add: unat_of_nat take_bit_nat_eq_self)
  then show ?thesis by (simp add: byte_char_def char_byte_def)
qed

lemma char_byte_zero: "char_byte c = 0 \<longleftrightarrow> c = CHR 0x00"
proof
  assume "char_byte c = 0"
  then have "c = byte_char 0" by (metis byte_char_byte)
  then show "c = CHR 0x00" by (simp add: byte_char_def char_of_def)
qed (simp add: char_byte_def)

lemma string_at_c_string: "CHR 0x00 \<notin> set s \<Longrightarrow> string_at (c_string s) 0 = Inr s"
proof -
  assume s: "CHR 0x00 \<notin> set s"
  then have "\<forall>b \<in> set (map char_byte s). b \<noteq> 0" by (auto simp: char_byte_zero)
  then have "takeWhile (\<lambda>b. b \<noteq> 0) (map char_byte s @ [0]) = map char_byte s" by (subst takeWhile_append2) auto
  then show ?thesis by (simp add: string_at_def c_string_def comp_def)
qed

lemma fread_append: "length xs = n \<Longrightarrow> fread n \<lparr>fd_data = xs @ ys, fd_eof = eof\<rparr> = (xs, \<lparr>fd_data = ys, fd_eof = eof\<rparr>)"
  by (auto simp: fread_def)

lemma compressed_log_info_fields:
  assumes "length (sli_filename info) + 1 < 2 ^ 16" "length (sli_formatString info) + 1 < 2 ^ 16"
  shows "length (compressed_log_info info) = 9" "val_at (compressed_log_info info) 0 1 = unat (sli_severity info)"
    "(of_nat (val_at (compressed_log_info info) 1 4) :: u32) = sli_lineNum info"
    "val_at (compressed_log_info info) 5 2 = length (sli_filename info) + 1"
    "val_at (compressed_log_info info) 7 2 = length (sli_formatString info) + 1"
proof -
  have l: "unat (sli_lineNum info) < 2 ^ 32" using unsigned_less [of "sli_lineNum info"] by simp
  show "length (compressed_log_info info) = 9" "val_at (compressed_log_info info) 0 1 = unat (sli_severity info)"
    "(of_nat (val_at (compressed_log_info info) 1 4) :: u32) = sli_lineNum info"
    "val_at (compressed_log_info info) 5 2 = length (sli_filename info) + 1"
    "val_at (compressed_log_info info) 7 2 = length (sli_formatString info) + 1"
    using assms l by (simp_all add: compressed_log_info_def val_at_def le_val_le_bytes)
qed

lemma push_metadata_ok:
  assumes "None \<notin> set mds"
  shows "push_metadata (Inr md) mds = Inr (mds @ [Some md])"
proof -
  have "(case m of None \<Rightarrow> Some md | Some m \<Rightarrow> Some m) = m" if "m \<in> set mds" for m
    using assms that by (cases m) auto
  then have "map (\<lambda>m. case m of None \<Rightarrow> Some md | Some m \<Rightarrow> Some m) mds = mds" by (intro map_idI)
  then show ?thesis by (simp add: push_metadata_def)
qed

lemma read_infos_image:
  "list_all2 info_ok infos mds \<Longrightarrow> None \<notin> set (fmtId2metadata d) \<Longrightarrow>
   inputFd d = \<lparr>fd_data = infos_image infos @ rest, fd_eof = False\<rparr> \<Longrightarrow> n = k + length (infos_image infos) \<Longrightarrow>
     read_infos n k d = Inr (True, d\<lparr>inputFd := \<lparr>fd_data = rest, fd_eof = False\<rparr>,
       fmtId2metadata := fmtId2metadata d @ map Some mds,
       fmtId2fmtString := fmtId2fmtString d @ map sli_formatString infos\<rparr>)"
proof (induction infos mds arbitrary: d k rule: list_all2_induct)
  case Nil
  then show ?case by (cases d) (simp add: read_infos.simps [of k k])
next
  case (Cons info infos md mds)
  let ?cli = "compressed_log_info info" and ?fn = "c_string (sli_filename info)" and ?fmt = "c_string (sli_formatString info)"
  let ?rest = "infos_image infos @ rest"
  have ok: "length (sli_filename info) + 1 < 2 ^ 16" "length (sli_formatString info) + 1 < 2 ^ 16"
    "CHR 0x00 \<notin> set (sli_filename info)" "CHR 0x00 \<notin> set (sli_formatString info)"
    "createMicroCode (sli_formatString info) (sli_filename info) (sli_lineNum info) (sli_severity info) = Inr md"
    using Cons.hyps(1) by (simp_all add: info_ok_def)
  note f = compressed_log_info_fields [OF ok(1,2)]
  have fd: "inputFd d = \<lparr>fd_data = ?cli @ ?fn @ ?fmt @ ?rest, fd_eof = False\<rparr>"
    using Cons.prems(2) by (simp add: log_info_image_def [of info])
  have lt: "k < n" using Cons.prems(3) by simp
  let ?d = "d\<lparr>inputFd := \<lparr>fd_data = ?rest, fd_eof = False\<rparr>, fmtId2metadata := fmtId2metadata d @ [Some md],
      fmtId2fmtString := fmtId2fmtString d @ [sli_formatString info]\<rparr>"
  have step: "read_infos n k d = read_infos n (k + (9 + length ?fn + length ?fmt)) ?d"
    using lt fd f ok(3-5) Cons.prems(1)
    by (subst read_infos.simps)
      (simp add: fread_append string_at_c_string push_metadata_ok Let_def)
  have "read_infos n (k + (9 + length ?fn + length ?fmt)) ?d = Inr (True, ?d\<lparr>inputFd := \<lparr>fd_data = rest, fd_eof = False\<rparr>,
       fmtId2metadata := fmtId2metadata ?d @ map Some mds,
       fmtId2fmtString := fmtId2fmtString ?d @ map sli_formatString infos\<rparr>)"
    using Cons.prems by (intro Cons.IH) auto
  then show ?case unfolding step by simp
qed

end
