(* ===== verification/Log_File.thy ===== *)
theory Log_File
  imports Log_Decoder
begin

text \<open>
  The encoder and the decoder together: what a log file holds, how the encoder makes it grow, and that the
  decoder prints from it the messages that were logged. The sites of the program are a list, in the
  order in which they were registered; the dictionary in the file is a prefix of it.
\<close>

section \<open>What the decoder prints from a file\<close>

definition RELEASE_THRESHOLD :: nat where
  "RELEASE_THRESHOLD = STAGING_BUFFER_SIZE div 2"

text \<open>
  The items of a file, when the first \<open>c\<close> sites are in the dictionary so far: a checkpoint starts the
  dictionary again, a fragment continues it, and an extent holds messages of sites in it, of no
  more bytes than the runtime gives to the encoder at once.
\<close>

fun items_ok :: "fp_conv \<Rightarrow> static_log_info list \<Rightarrow> format_metadata list \<Rightarrow> nat \<Rightarrow> log_item list \<Rightarrow> bool" where
  "items_ok fp sites mds c [] \<longleftrightarrow> True"
| "items_ok fp sites mds c (ItemCheckpoint ck # xs) \<longleftrightarrow>
     newMetadataBytes ck = 0 \<and> totalMetadataEntries ck = 0 \<and> items_ok fp sites mds 0 xs"
| "items_ok fp sites mds c (ItemDictionary infos entries # xs) \<longleftrightarrow>
     infos = take (length infos) (drop c sites) \<and> items_ok fp sites mds (c + length infos) xs"
| "items_ok fp sites mds c (ItemExtent bufferId np ms # xs) \<longleftrightarrow>
     length (messages_image ms) \<le> RELEASE_THRESHOLD \<and>
     (\<forall>x \<in> set ms. list_all2 typed (msg_types x) (msg_args x) \<and> decodable fp (map Some (take c mds)) x) \<and>
     items_ok fp sites mds c xs"

fun file_events :: "fp_conv \<Rightarrow> format_metadata list \<Rightarrow> nat \<Rightarrow> log_item list \<Rightarrow> out_event list" where
  "file_events fp mds c [] = []"
| "file_events fp mds c (ItemCheckpoint ck # xs) = NewExecution # file_events fp mds 0 xs"
| "file_events fp mds c (ItemDictionary infos entries # xs) = file_events fp mds (c + length infos) xs"
| "file_events fp mds c (ItemExtent bufferId np ms # xs) =
     map (\<lambda>x. Line (line_of fp (map Some (take c mds)) bufferId x)) ms @ file_events fp mds c xs"

fun item_messages :: "log_item \<Rightarrow> (u32 \<times> message) list" where
  "item_messages (ItemExtent bufferId np ms) = map (\<lambda>x. (bufferId, x)) ms"
| "item_messages _ = []"

abbreviation file_messages :: "log_item list \<Rightarrow> (u32 \<times> message) list" where
  "file_messages xs \<equiv> concat (map item_messages xs)"

text \<open>Compression at most adds half of what it is given.\<close>

lemma messages_at_size:
  "messages_at m p e lt ms \<Longrightarrow> \<forall>x \<in> set ms. list_all2 typed (msg_types x) (msg_args x) \<Longrightarrow>
     2 * (e - p) \<le> 3 * length (messages_image ms)"
proof (induction ms arbitrary: p lt)
  case (Cons x xs)
  let ?h = "header_image (msg_id x) (msg_time x - lt)" and ?c = "compressed_size (msg_types x) (msg_args x)"
  let ?q = "p + length ?h + ?c"
  have m: "messages_at m ?q e (msg_time x) xs" using Cons.prems(1) by (simp add: Let_def)
  have ty: "list_all2 typed (msg_types x) (msg_args x)" using Cons.prems(2) by simp
  let ?L = "length (args_image (msg_types x) (- 1) (msg_args x))"
  have "args_size (msg_basics x) + length (strings_image (msg_types x) (- 1) (msg_args x)) \<le> ?L"
    using ty by (rule compressed_room)
  moreover have "length (msg_basics x) \<le> args_size (msg_basics x)" by (rule length_le_args_size)
  moreover have "length (args_bytes (msg_basics x)) \<le> args_size (msg_basics x)" by (rule length_args_bytes_size)
  ultimately have "2 * ?c \<le> 3 * ?L + 1" by (simp add: compressed_size_def)
  moreover have "length ?h \<le> 13" by (rule length_header_image)
  moreover have "msg_size x = ?L + 16" by (simp add: msg_size_def log_size_def getArgSizes_image)
  ultimately have "2 * (length ?h + ?c) \<le> 3 * msg_size x" by simp
  moreover have "2 * (e - ?q) \<le> 3 * length (messages_image xs)" using Cons.prems(2) by (intro Cons.IH [OF m]) simp
  moreover have "?q \<le> e" using m by (rule messages_at_le)
  ultimately show ?case by simp
qed simp

lemma extent_fits:
  assumes "extent_at m p e bufferId np ms" "\<forall>x \<in> set ms. list_all2 typed (msg_types x) (msg_args x)"
    "length (messages_image ms) \<le> RELEASE_THRESHOLD"
  shows "e - p \<le> FRAGMENT_SIZE"
proof -
  have m: "messages_at m (p + (5 + length (extent_id bufferId))) e 0 ms" using assms(1) by (simp add: extent_at_def Let_def)
  have "length (extent_id bufferId) \<le> 4" by (rule length_extent_id)
  moreover have "2 * (e - (p + (5 + length (extent_id bufferId)))) \<le> 3 * RELEASE_THRESHOLD"
    using messages_at_size [OF m assms(2)] assms(3) by linarith
  moreover have "3 * RELEASE_THRESHOLD \<le> 2 * STAGING_BUFFER_SIZE" by (simp add: RELEASE_THRESHOLD_def STAGING_BUFFER_SIZE_def)
  ultimately show ?thesis unfolding FRAGMENT_SIZE_def by linarith
qed

lemma checkpoint_fields_vals:
  assumes "drop 1 bs = checkpoint_fields ck"
  shows "of_nat (val_at bs 1 8) = ck_rdtsc ck" "of_nat (val_at bs 9 8) = ck_unixTime ck" "of_nat (val_at bs 17 8) = ck_cyclesPerSecond ck"
    "of_nat (val_at bs 25 4) = newMetadataBytes ck" "of_nat (val_at bs 29 4) = totalMetadataEntries ck"
proof -
  have v: "val_at bs (1 + k) n = le_val (take n (drop k (checkpoint_fields ck)))" for k n
    unfolding val_at_def assms [symmetric] by (simp add: add.commute)
  have w64: "unat (w :: u64) < 256 ^ 8" for w using unsigned_less [of w] by simp
  have w32: "unat (w :: u32) < 256 ^ 4" for w using unsigned_less [of w] by simp
  show "of_nat (val_at bs 1 8) = ck_rdtsc ck" "of_nat (val_at bs 9 8) = ck_unixTime ck" "of_nat (val_at bs 17 8) = ck_cyclesPerSecond ck"
    "of_nat (val_at bs 25 4) = newMetadataBytes ck" "of_nat (val_at bs 29 4) = totalMetadataEntries ck"
    using v [of 0 8] v [of 8 8] v [of 16 8] v [of 24 4] v [of 28 4]
    by (simp_all add: checkpoint_fields_def unat_le_bytes_word [OF w64] unat_le_bytes_word [OF w32])
qed

lemma same_slice_drop: "q \<le> length m \<Longrightarrow> p \<le> q \<Longrightarrow> same_slice m p (drop p m) 0 (q - p)"
  by (simp add: same_slice_def)

lemma readDictionary_checkpoint:
  assumes "item_at m p q (ItemCheckpoint ck)" "newMetadataBytes ck = 0" "totalMetadataEntries ck = 0"
    and "inputFd d = \<lparr>fd_data = drop p m, fd_eof = False\<rparr>"
  shows "readDictionary True d = Inr (True, d\<lparr>inputFd := \<lparr>fd_data = drop q m, fd_eof = False\<rparr>, dec_checkpoint := ck,
    fmtId2metadata := [], fmtId2fmtString := [], numCheckpointsRead := numCheckpointsRead d + 1\<rparr>)"
proof -
  let ?bs = "take 33 (drop p m)"
  have i: "q = p + 33" "q \<le> length m" "entry_type_of (m ! p) = CHECKPOINT" "mem_read m (p + 1) 32 = Inr (checkpoint_fields ck)"
    using assms(1) by simp_all
  have fr: "fread 33 (inputFd d) = (?bs, \<lparr>fd_data = drop q m, fd_eof = False\<rparr>)"
    using i(1,2) assms(4) by (simp add: fread_def add.commute)
  have "drop 1 ?bs = checkpoint_fields ck" using i(1,2,4) by (simp add: mem_read_def drop_take add.commute split: if_splits)
  note v = checkpoint_fields_vals [OF this]
  have "hd ?bs = m ! p" using i(1,2) by (simp add: hd_conv_nth)
  then have ck: "readCheckpoint (inputFd d) = Inr (Some ck, \<lparr>fd_data = drop q m, fd_eof = False\<rparr>)"
    using fr i(1,2,3) v by (simp add: readCheckpoint_def)
  show ?thesis
    using ck assms(2,3) by (cases d) (simp add: readDictionary_def fread_def read_metadata.simps [of "[]" 0])
qed

lemma peek_data: "p < length m \<Longrightarrow> peekEntryType \<lparr>fd_data = drop p m, fd_eof = eof\<rparr> = (entry_type_of (m ! p), \<lparr>fd_data = drop p m, fd_eof = eof\<rparr>)"
  by (auto simp: peekEntryType_def Cons_nth_drop_Suc [symmetric])

lemma inputFd_same [simp]: "d\<lparr>inputFd := inputFd d\<rparr> = (d :: decoder)"
  by (cases d) simp

lemma decompress_checkpoint:
  assumes "item_at m p q (ItemCheckpoint ck)" "newMetadataBytes ck = 0" "totalMetadataEntries ck = 0"
    and "inputFd d = \<lparr>fd_data = drop p m, fd_eof = False\<rparr>"
  shows "\<exists>d'. decompress_entry fp d bf = Inr ([NewExecution], d', bf) \<and> good d' = good d \<and>
    inputFd d' = \<lparr>fd_data = drop q m, fd_eof = False\<rparr> \<and> fmtId2metadata d' = [] \<and> logMsgsPrinted d' = logMsgsPrinted d"
proof -
  have "peekEntryType (inputFd d) = (CHECKPOINT, inputFd d)" using assms(1,4) peek_data [of p m False] by simp
  then show ?thesis
    using readDictionary_checkpoint [OF assms] by (simp add: decompress_entry_def CHECKPOINT_def BUFFER_EXTENT_def)
qed

lemma decompress_dictionary:
  assumes i: "item_at m p q (ItemDictionary infos entries)" and ok: "list_all2 info_ok infos mds" "None \<notin> set (fmtId2metadata d)"
    and fd: "inputFd d = \<lparr>fd_data = drop p m, fd_eof = False\<rparr>"
  shows "\<exists>d'. decompress_entry fp d bf = Inr ([], d', bf) \<and> good d' \<and>
    inputFd d' = \<lparr>fd_data = drop q m, fd_eof = False\<rparr> \<and> fmtId2metadata d' = fmtId2metadata d @ map Some mds \<and>
    logMsgsPrinted d' = logMsgsPrinted d"
proof -
  let ?n = "8 + length (infos_image infos)"
  let ?h = "le_bytes 4 (LOG_MSGS_OR_DIC + 4 * ?n) @ le_bytes 4 entries"
  have q: "q = p + ?n" "?n < 2 ^ 30" "mem_read m p ?n = Inr (?h @ infos_image infos)"
    using i by (simp_all add: dictionary_image_def)
  have data: "drop p m = ?h @ infos_image infos @ drop q m"
    using mem_read_drop_prefix [of m p "?h @ infos_image infos"] q by simp
  have lt: "p < length m" using q(3) by (simp add: mem_read_def split: if_splits)
  have "LOG_MSGS_OR_DIC + 4 * ?n < 256 ^ 4" using q(2) by (simp add: LOG_MSGS_OR_DIC_def)
  then have word: "val_at ?h 0 4 = LOG_MSGS_OR_DIC + 4 * ?n" by (simp add: val_at_def le_val_le_bytes)
  then have n: "val_at ?h 0 4 div 4 = ?n" by (simp add: LOG_MSGS_OR_DIC_def)
  define b where "b = (word_of_nat ((LOG_MSGS_OR_DIC + 4 * ?n) mod 256) :: u8)"
  have "le_bytes (Suc 3) (LOG_MSGS_OR_DIC + 4 * ?n) = b # le_bytes 3 ((LOG_MSGS_OR_DIC + 4 * ?n) div 256)"
    unfolding le_bytes.simps b_def ..
  moreover have "Suc 3 = 4" by simp
  ultimately have hd: "hd ?h = b" "?h \<noteq> []" by simp_all
  have "unat b = (LOG_MSGS_OR_DIC + 4 * ?n) mod 256" unfolding b_def by (simp add: unat_of_nat take_bit_nat_eq_self del: of_nat_mod)
  then have "unat b mod 4 = (LOG_MSGS_OR_DIC + 4 * ?n) mod 4" by (simp add: mod_mod_cancel)
  also have "\<dots> = 1" by (simp only: LOG_MSGS_OR_DIC_def mod_mult_self2) simp
  finally have "unat b mod 4 = 1" .
  moreover have "m ! p = b"
    using data hd lt by (metis append_is_Nil_conv hd_append2 hd_drop_conv_nth)
  ultimately have ty: "entry_type_of (hd ?h) = LOG_MSGS_OR_DIC" "entry_type_of (m ! p) = LOG_MSGS_OR_DIC"
    using hd by (simp_all add: entry_type_of_def LOG_MSGS_OR_DIC_def)
  have fr: "fread 8 (inputFd d) = (?h, \<lparr>fd_data = infos_image infos @ drop q m, fd_eof = False\<rparr>)"
    using fread_append [of ?h 8 "infos_image infos @ drop q m" False] fd data by simp
  have rd: "readDictionaryFragment d = Inr (True, d\<lparr>inputFd := \<lparr>fd_data = drop q m, fd_eof = False\<rparr>,
      fmtId2metadata := fmtId2metadata d @ map Some mds, fmtId2fmtString := fmtId2fmtString d @ map sli_formatString infos\<rparr>)"
    using read_infos_image [OF ok(1), of "d\<lparr>inputFd := \<lparr>fd_data = infos_image infos @ drop q m, fd_eof = False\<rparr>\<rparr>" "drop q m" ?n 8]
      ok(2) fr ty(1) n
    by (simp add: readDictionaryFragment_def Let_def)
  have "peekEntryType (inputFd d) = (LOG_MSGS_OR_DIC, inputFd d)" using fd ty(2) peek_data [OF lt, of False] by simp
  then show ?thesis
    using rd by (simp add: decompress_entry_def CHECKPOINT_def BUFFER_EXTENT_def LOG_MSGS_OR_DIC_def)
qed

lemma decompress_extent:
  assumes i: "item_at m p q (ItemExtent bufferId np ms)" and q: "q \<le> length m" "q - p \<le> FRAGMENT_SIZE"
    and ok: "\<forall>x \<in> set ms. decodable fp (fmtId2metadata d) x"
    and fd: "inputFd d = \<lparr>fd_data = drop p m, fd_eof = False\<rparr>"
  shows "\<exists>d' bf'. decompress_entry fp d bf = Inr (map (\<lambda>x. Line (line_of fp (fmtId2metadata d) bufferId x)) ms, d', bf') \<and>
    good d' = good d \<and> inputFd d' = \<lparr>fd_data = drop q m, fd_eof = False\<rparr> \<and> fmtId2metadata d' = fmtId2metadata d \<and>
    logMsgsPrinted d' = logMsgsPrinted d + length ms"
proof -
  have pq: "p < q" "extent_at m p q bufferId np ms" using i by simp_all
  have "item_at (drop p m) 0 (q - p) (ItemExtent bufferId np ms)"
    using item_at_slice [of m p 0 "q - p" "ItemExtent bufferId np ms" "drop p m" 0 "q - p"] same_slice_drop [OF q(1)] i pq(1) by simp
  then have x: "extent_at (fd_data (inputFd d)) 0 (q - p) bufferId np ms" using fd by simp
  from readBufferExtent_extent [OF x q(2), of bf] obtain bf1 where
    r: "readBufferExtent (inputFd d) bf = Inr (True, np, bf1, \<lparr>fd_data = drop q m, fd_eof = False\<rparr>)"
    "fragment_ready bf1 ms" "runtimeId bf1 = bufferId"
    using fd pq(1) by auto
  from read_messages_ready [OF r(2), of fp "fmtId2metadata d"] ok obtain bf2 where
    rm: "read_messages fp (fmtId2metadata d) bf1 = Inr (map (line_of fp (fmtId2metadata d) bufferId) ms, bf2)"
    using r(3) by auto
  have "entry_type_of (m ! p) = BUFFER_EXTENT"
  proof -
    have "mem_read m p (length (extent_header bufferId np (q - p))) = Inr (extent_header bufferId np (q - p))"
      using pq(2) by (simp add: extent_at_def Let_def)
    from mem_read_drop_prefix [OF this] have "hd (drop p m) = hd (extent_header bufferId np (q - p))"
      by (simp add: extent_header_def)
    moreover have "(if bufferId < 16 then unat bufferId else fst (arg_image (ArgU32 bufferId))) < 16"
      using header_codes(2) [of bufferId] by (auto simp: word_less_nat_alt)
    ultimately show ?thesis
      using buffer_extent_fields(1) pq(1) q(1) by (simp add: extent_header_def hd_drop_conv_nth)
  qed
  moreover have "p < length m" using pq(1) q(1) by simp
  ultimately have "peekEntryType (inputFd d) = (BUFFER_EXTENT, inputFd d)" using fd peek_data [of p m False] by simp
  then show ?thesis using rm r by (simp add: decompress_entry_def comp_def)
qed


lemma decompress_items:
  assumes sites: "list_all2 info_ok sites mds"
  shows "items_at m p (length m) its \<Longrightarrow> items_ok fp sites mds c its \<Longrightarrow>
     inputFd d = \<lparr>fd_data = drop p m, fd_eof = False\<rparr> \<Longrightarrow> good d \<Longrightarrow> fmtId2metadata d = map Some (take c mds) \<Longrightarrow>
     \<exists>d'. decompress_entries fp d bf = Inr (file_events fp mds c its, d') \<and> good d' \<and>
       logMsgsPrinted d' = logMsgsPrinted d + length (file_messages its)"
proof (induction its arbitrary: p c d bf)
  case Nil
  let ?d = "d\<lparr>inputFd := \<lparr>fd_data = [], fd_eof = True\<rparr>\<rparr>"
  have "inputFd d = \<lparr>fd_data = [], fd_eof = False\<rparr>" using Nil.prems by simp
  then have "decompress_entry fp d bf = Inr ([], ?d, bf)"
    by (simp add: decompress_entry_def peekEntryType_def INVALID_ENTRY_def BUFFER_EXTENT_def CHECKPOINT_def LOG_MSGS_OR_DIC_def)
  moreover have "decompress_entries fp ?d bf = Inr ([], ?d)" by (simp add: decompress_entries.simps [of fp ?d])
  ultimately have "decompress_entries fp d bf = Inr ([], ?d)"
    using Nil.prems by (simp add: decompress_entries.simps [of fp d])
  then show ?case using Nil.prems by simp
next
  case (Cons x its)
  obtain q where q: "item_at m p q x" "items_at m q (length m) its" using Cons.prems(1) by auto
  have le: "q \<le> length m" using q(2) by (rule items_at_le)
  have step: "\<exists>d'. decompress_entries fp d bf = Inr (out @ file_events fp mds c' its, d') \<and> good d' \<and>
       logMsgsPrinted d' = logMsgsPrinted d + k + length (file_messages its)"
    if "decompress_entry fp d bf = Inr (out, d1, bf1)" "items_ok fp sites mds c' its" "good d1"
      "inputFd d1 = \<lparr>fd_data = drop q m, fd_eof = False\<rparr>" "fmtId2metadata d1 = map Some (take c' mds)"
      "logMsgsPrinted d1 = logMsgsPrinted d + k" for out d1 bf1 c' k
    using Cons.IH [OF q(2) that(2) that(4) that(3) that(5), of bf1] that(1,6) Cons.prems(3,4)
    by (auto simp: decompress_entries.simps [of fp d])
  show ?case
  proof (cases x)
    case (ItemCheckpoint ck)
    from decompress_checkpoint [OF q(1) [unfolded ItemCheckpoint] _ _ Cons.prems(3), of fp bf] obtain d1 where
      "decompress_entry fp d bf = Inr ([NewExecution], d1, bf)" "good d1 = good d"
      "inputFd d1 = \<lparr>fd_data = drop q m, fd_eof = False\<rparr>" "fmtId2metadata d1 = []" "logMsgsPrinted d1 = logMsgsPrinted d"
      using Cons.prems(2) ItemCheckpoint by auto
    then show ?thesis
      using step [of "[NewExecution]" d1 bf 0 0] Cons.prems(2,4) ItemCheckpoint by simp
  next
    case (ItemDictionary infos entries)
    let ?n = "length infos"
    have ok: "infos = take ?n (drop c sites)" "items_ok fp sites mds (c + ?n) its" using Cons.prems(2) ItemDictionary by simp_all
    have "list_all2 info_ok infos (take ?n (drop c mds))"
      using list_all2_takeI [OF list_all2_dropI [OF sites, of c], of ?n] ok(1) by simp
    from decompress_dictionary [OF q(1) [unfolded ItemDictionary] this _ Cons.prems(3), of fp bf] obtain d1 where
      "decompress_entry fp d bf = Inr ([], d1, bf)" "good d1" "inputFd d1 = \<lparr>fd_data = drop q m, fd_eof = False\<rparr>"
      "fmtId2metadata d1 = map Some (take c mds) @ map Some (take ?n (drop c mds))" "logMsgsPrinted d1 = logMsgsPrinted d"
      using Cons.prems(5) by auto
    then show ?thesis
      using step [of "[]" d1 bf "c + ?n" 0] ok(2) ItemDictionary by (simp add: take_add)
  next
    case (ItemExtent bufferId np ms)
    have ok: "length (messages_image ms) \<le> RELEASE_THRESHOLD" "items_ok fp sites mds c its"
      "\<forall>x \<in> set ms. list_all2 typed (msg_types x) (msg_args x)" "\<forall>x \<in> set ms. decodable fp (fmtId2metadata d) x"
      using Cons.prems(2,5) ItemExtent by simp_all
    have "extent_at m p q bufferId np ms" using q(1) ItemExtent by simp
    then have "q - p \<le> FRAGMENT_SIZE" by (rule extent_fits [OF _ ok(3,1)])
    from decompress_extent [OF q(1) [unfolded ItemExtent] le this ok(4) Cons.prems(3), of bf] obtain d1 bf1 where
      r: "decompress_entry fp d bf = Inr (map (\<lambda>x. Line (line_of fp (fmtId2metadata d) bufferId x)) ms, d1, bf1)"
      "good d1 = good d" "inputFd d1 = \<lparr>fd_data = drop q m, fd_eof = False\<rparr>"
      "fmtId2metadata d1 = fmtId2metadata d" "logMsgsPrinted d1 = logMsgsPrinted d + length ms" by auto
    then show ?thesis
      using step [OF r(1) ok(2), of "length ms"] Cons.prems(4,5) ItemExtent by (simp add: add.assoc)
  qed
qed

text \<open>A file that starts with a checkpoint is opened there, and then read to its end.\<close>

lemma decompress_file:
  assumes sites: "list_all2 info_ok sites mds" and m: "items_at m 0 (length m) (ItemCheckpoint ck # its)"
    and ok: "items_ok fp sites mds 0 (ItemCheckpoint ck # its)"
  shows "\<exists>d d'. open_log m = Inr (Some d) \<and>
    decompressUnordered fp d = Inr (int (length (file_messages its)),
      file_events fp mds 0 its @ [Complete (length (file_messages its))], d')"
proof -
  obtain q where q: "item_at m 0 q (ItemCheckpoint ck)" "items_at m q (length m) its" using m by auto
  have ck: "newMetadataBytes ck = 0" "totalMetadataEntries ck = 0" "items_ok fp sites mds 0 its" using ok by simp_all
  define d where "d = (new_decoder m)\<lparr>inputFd := \<lparr>fd_data = drop q m, fd_eof = False\<rparr>, dec_checkpoint := ck,
    numBufferFragmentsRead := 0, numCheckpointsRead := 1, logMsgsPrinted := 0, good := True\<rparr>"
  have "open_log m = Inr (Some d)"
    using readDictionary_checkpoint [OF q(1) ck(1,2), of "new_decoder m"]
    by (simp add: open_log_def d_def new_decoder_def)
  moreover have "inputFd d = \<lparr>fd_data = drop q m, fd_eof = False\<rparr>" "good d" "fmtId2metadata d = map Some (take 0 mds)"
    "logMsgsPrinted d = 0" by (simp_all add: d_def new_decoder_def)
  from decompress_items [OF sites q(2) ck(3) this(1-3), of new_fragment] this(4) obtain d' where
    "decompress_entries fp d new_fragment = Inr (file_events fp mds 0 its, d')" "good d'"
    "logMsgsPrinted d' = length (file_messages its)" by auto
  then have "decompressUnordered fp d = Inr (int (length (file_messages its)),
      file_events fp mds 0 its @ [Complete (length (file_messages its))], d')"
    by (simp add: decompressUnordered_def internalDecompressUnordered_def)
  ultimately show ?thesis by blast
qed


section \<open>Enough space\<close>

lemma encode_infos_all:
  assumes "pos + length (infos_image infos) < limit" "limit \<le> length m" "limit < 2 ^ 32"
  shows "\<exists>m'. encode_infos limit infos m pos cp = Inr (m', pos + length (infos_image infos), cp + length infos)"
proof -
  have "pos \<le> limit" using assms(1) by simp
  from encode_infos_spec [OF this assms(2,3), of infos cp] obtain is1 is2 m' where s: "infos = is1 @ is2"
    "encode_infos limit infos m pos cp = Inr (m', pos + length (infos_image is1), cp + length is1)"
    "is2 \<noteq> [] \<longrightarrow> limit - (pos + length (infos_image is1)) \<le> length (log_info_image (hd is2))" by blast
  have "is2 = []"
  proof (rule ccontr)
    assume "is2 \<noteq> []"
    moreover have "length (infos_image is2) = length (log_info_image (hd is2)) + length (infos_image (tl is2))"
      using calculation by (cases is2) simp_all
    moreover have "length (infos_image infos) = length (infos_image is1) + length (infos_image is2)" using s(1) by simp
    ultimately show False using s(3) assms(1) by linarith
  qed
  then show ?thesis using s(1,2) by simp
qed

lemma encodeNewDictionaryEntries_all:
  assumes "writePos e + 8 + length (infos_image (drop cp infos)) < endOfBuffer e" "endOfBuffer e \<le> length (backing_buffer e)"
    "endOfBuffer e < 2 ^ 30" "cp \<le> length infos"
  shows "\<exists>e'. encodeNewDictionaryEntries cp infos e = Inr (8 + length (infos_image (drop cp infos)), length infos, e')"
proof -
  let ?p = "writePos e + 8" and ?n = "8 + length (infos_image (drop cp infos))"
  have lim: "endOfBuffer e < 2 ^ 32" using assms(3) by simp
  from encode_infos_all [OF assms(1,2) lim, of cp] obtain m1 where
    m1: "encode_infos (endOfBuffer e) (drop cp infos) (backing_buffer e) ?p cp =
      Inr (m1, ?p + length (infos_image (drop cp infos)), length infos)" using assms(4) by auto
  have "?p \<le> endOfBuffer e" using assms(1) by simp
  from encode_infos_spec [OF this assms(2) lim, of "drop cp infos" cp] m1 have "length m1 = length (backing_buffer e)" by auto
  then have "\<exists>m2. mem_write m1 (writePos e) (le_bytes 4 (LOG_MSGS_OR_DIC + 4 * ?n) @ le_bytes 4 (length infos)) = Inr m2"
    using assms(1,2) by (intro mem_write_ok) simp
  moreover have "?n mod 2 ^ 30 = ?n" using assms(1,3) by simp
  ultimately show ?thesis
    using m1 assms(1) lim by (auto simp: encodeNewDictionaryEntries_def space_u32 Let_def)
qed

lemma extent_size:
  assumes "extent_at m p e bufferId np ms" "\<forall>x \<in> set ms. list_all2 typed (msg_types x) (msg_args x)"
  shows "2 * (e - p) \<le> 18 + 3 * length (messages_image ms)"
proof -
  have "messages_at m (p + (5 + length (extent_id bufferId))) e 0 ms" using assms(1) by (simp add: extent_at_def Let_def)
  from messages_at_size [OF this assms(2)] length_extent_id [of bufferId] show ?thesis by linarith
qed

text \<open>With space for twice the bytes, the worst case of the next message is there at every message.\<close>

lemma extent_takes_all:
  assumes ms: "ms = ms1 @ ms2" and x: "extent_at m p e bufferId np ms1"
    and ty: "\<forall>x \<in> set ms. list_all2 typed (msg_types x) (msg_args x)"
    and n: "n = length (messages_image ms)" and known: "\<forall>x \<in> set ms. unat (msg_id x) < k" and room: "2 * n + 25 \<le> limit - p"
    and stop: "ms2 \<noteq> [] \<longrightarrow> n < length (messages_image ms1) + msg_size (hd ms2) \<or> k \<le> unat (msg_id (hd ms2)) \<or>
      limit - e < 2 * msg_size (hd ms2) + 16"
  shows "ms1 = ms"
proof (rule ccontr)
  assume "ms1 \<noteq> ms"
  then have ne: "ms2 \<noteq> []" using ms by simp
  then have "length (messages_image ms2) = msg_size (hd ms2) + length (messages_image (tl ms2))" by (cases ms2) simp_all
  then have "length (messages_image ms1) + msg_size (hd ms2) \<le> n" using n ms by simp
  moreover have "unat (msg_id (hd ms2)) < k" using known ne ms by simp
  moreover have "2 * (e - p) \<le> 18 + 3 * length (messages_image ms1)" using ty ms by (intro extent_size [OF x]) simp
  ultimately show False using stop ne room by linarith
qed

lemma encodeLogMsgs_all:
  assumes src: "mem_read src pos (length (messages_image ms)) = Inr (messages_image ms)" and ok: "\<forall>x \<in> set ms. msg_ok dictionary x"
    and buf: "endOfBuffer e \<le> length (backing_buffer e)" "writePos e \<le> endOfBuffer e" "endOfBuffer e < 2 ^ 32"
    and known: "\<forall>x \<in> set ms. unat (msg_id x) < length dictionary"
    and room: "2 * length (messages_image ms) + 25 \<le> endOfBuffer e - writePos e"
  shows "\<exists>e'. encodeLogMsgs src pos (length (messages_image ms)) bufferId newPass dictionary e =
    Inr (int (length (messages_image ms)), length ms, e')"
proof -
  have full: "(endOfBuffer e - writePos e < 9) = False" using room by simp
  from encodeLogMsgs_spec [OF src order_refl ok buf, of bufferId newPass, unfolded full if_False] obtain ms1 ms2 e' where s: "ms = ms1 @ ms2"
    "encodeLogMsgs src pos (length (messages_image ms)) bufferId newPass dictionary e =
       Inr (int (length (messages_image ms1)), length ms1, e')"
    "extent_at (backing_buffer e') (writePos e) (writePos e') bufferId newPass ms1"
    "ms2 \<noteq> [] \<longrightarrow> length (messages_image ms) < length (messages_image ms1) + msg_size (hd ms2) \<or>
       length dictionary \<le> unat (msg_id (hd ms2)) \<or> endOfBuffer e - writePos e' < 2 * msg_size (hd ms2) + 16"
    by blast
  have "\<forall>x \<in> set ms. list_all2 typed (msg_types x) (msg_args x)" using ok by (simp add: msg_ok_def)
  from extent_takes_all [OF s(1,3) this refl known room s(4)] show ?thesis using s(2) by simp
qed

text \<open>
  C28. Progress of the encoder. What \<open>encodeLogMsgs\<close> makes of the first \<open>n\<close> bytes of a run of entries, whatever
  space is left. With too little space for an extent it does nothing. Otherwise it compresses a prefix of
  the messages into one new extent, whose header has the extent's length and buffer; it stops before a
  message only when the message is not whole within the \<open>n\<close> bytes, when the dictionary does not have
  its site yet, or when less than the worst case of space is left for it. The result is the number of
  bytes of exactly the messages that it took. With all the sites known and space for twice the bytes and 25
  more it takes every message, so that an output buffer that was just swapped in takes whatever the
  runtime gives to the encoder at once. It never writes outside the buffer or over what was there before.
\<close>

theorem encodeLogMsgs_takes_prefix:
  assumes src: "mem_read src pos (length (messages_image ms)) = Inr (messages_image ms)"
    and n: "n \<le> length (messages_image ms)" and ok: "\<forall>x \<in> set ms. msg_ok dictionary x"
    and buf: "endOfBuffer e \<le> length (backing_buffer e)" "writePos e \<le> endOfBuffer e" "endOfBuffer e < 2 ^ 32"
  shows "\<exists>ms1 ms2 e'. ms = ms1 @ ms2 \<and> length (messages_image ms1) \<le> n \<and>
    encodeLogMsgs src pos n bufferId newPass dictionary e =
      Inr (int (length (messages_image ms1)), length ms1, e') \<and>
    length (backing_buffer e') = length (backing_buffer e) \<and> endOfBuffer e' = endOfBuffer e \<and>
    writePos e \<le> writePos e' \<and> writePos e' \<le> endOfBuffer e \<and>
    take (writePos e) (backing_buffer e') = take (writePos e) (backing_buffer e) \<and>
    (if endOfBuffer e - writePos e < 9 then ms1 = [] \<and> e' = e
     else extent_at (backing_buffer e') (writePos e) (writePos e') bufferId newPass ms1 \<and>
       (\<forall>x \<in> set ms1. unat (msg_id x) < length dictionary) \<and>
       (ms2 \<noteq> [] \<longrightarrow> n < length (messages_image ms1) + msg_size (hd ms2) \<or>
         length dictionary \<le> unat (msg_id (hd ms2)) \<or> endOfBuffer e - writePos e' < 2 * msg_size (hd ms2) + 16)) \<and>
    (n = length (messages_image ms) \<and> (\<forall>x \<in> set ms. unat (msg_id x) < length dictionary) \<and>
       2 * n + 25 \<le> endOfBuffer e - writePos e \<longrightarrow> ms1 = ms)"
proof -
  from encodeLogMsgs_spec [OF src n ok buf, of bufferId newPass] obtain ms1 ms2 e' where s: "ms = ms1 @ ms2"
    "length (messages_image ms1) \<le> n \<and>
     encodeLogMsgs src pos n bufferId newPass dictionary e = Inr (int (length (messages_image ms1)), length ms1, e') \<and>
     length (backing_buffer e') = length (backing_buffer e) \<and> endOfBuffer e' = endOfBuffer e \<and>
     writePos e \<le> writePos e' \<and> writePos e' \<le> endOfBuffer e \<and>
     take (writePos e) (backing_buffer e') = take (writePos e) (backing_buffer e)"
    "if endOfBuffer e - writePos e < 9 then ms1 = [] \<and> e' = e
     else extent_at (backing_buffer e') (writePos e) (writePos e') bufferId newPass ms1 \<and>
       (\<forall>x \<in> set ms1. unat (msg_id x) < length dictionary) \<and>
       (ms2 \<noteq> [] \<longrightarrow> n < length (messages_image ms1) + msg_size (hd ms2) \<or>
         length dictionary \<le> unat (msg_id (hd ms2)) \<or> endOfBuffer e - writePos e' < 2 * msg_size (hd ms2) + 16)" by blast
  have "ms1 = ms" if "n = length (messages_image ms)" "\<forall>x \<in> set ms. unat (msg_id x) < length dictionary"
    "2 * n + 25 \<le> endOfBuffer e - writePos e"
    using encodeLogMsgs_all [OF src ok buf that(2), of bufferId newPass] that s(1,2) by auto
  then show ?thesis using s by blast
qed

section \<open>A log file as the runtime writes it\<close>

text \<open>
  The steps of the thread that writes the log (\<^verbatim>\<open>compressionThreadMain\<close> and \<^verbatim>\<open>setLogFile_internal\<close> of
  \<^verbatim>\<open>src/runtime/RuntimeLogger.cc\<close>): the state is the file, the encoder and how many of the sites
  are in the dictionary, and the last component collects what was logged. A run starts with an
  encoder of its own, on a new file or behind what a finished run has left; it adds to the dictionary
  whatever sites there are by then; it encodes at most \<open>RELEASE_THRESHOLD\<close> bytes of the entries in a staging
  buffer, with the sites that are in the dictionary; and it writes the buffer to the file.
\<close>

inductive logging :: "static_log_info list \<Rightarrow> (message \<Rightarrow> bool) \<Rightarrow> bytes \<Rightarrow> encoder \<Rightarrow> nat \<Rightarrow> (u32 \<times> message) option list \<Rightarrow> bool"
  for sites :: "static_log_info list" and valid :: "message \<Rightarrow> bool" where
  start: "sz \<le> length buf \<Longrightarrow> sz < 2 ^ 30 \<Longrightarrow> Encoder clock buf sz False force = Inr e \<Longrightarrow>
     logging sites valid [] e 0 []"
| restart: "logging sites valid file e cp log \<Longrightarrow> getEncodedBytes e = 0 \<Longrightarrow> sz \<le> length buf \<Longrightarrow> sz < 2 ^ 30 \<Longrightarrow>
     Encoder clock buf sz False force = Inr e' \<Longrightarrow> logging sites valid file e' 0 (log @ [None])"
| dictionary: "logging sites valid file e cp log \<Longrightarrow>
     encodeNewDictionaryEntries cp (take k sites) e = Inr (n, cp', e') \<Longrightarrow> logging sites valid file e' cp' log"
| messages: "logging sites valid file e cp log \<Longrightarrow>
     mem_read src pos (length (messages_image ms)) = Inr (messages_image ms) \<Longrightarrow> \<forall>x \<in> set ms. valid x \<Longrightarrow>
     n \<le> length (messages_image ms) \<Longrightarrow> n \<le> RELEASE_THRESHOLD \<Longrightarrow>
     encodeLogMsgs src pos n bufferId newPass (take cp sites) e = Inr (bytes_read, events, e') \<Longrightarrow>
     logging sites valid file e' cp (log @ map (\<lambda>x. Some (bufferId, x)) (take events ms))"
| flush: "logging sites valid file e cp log \<Longrightarrow> insz \<le> length inbuf \<Longrightarrow> insz < 2 ^ 30 \<Longrightarrow>
     swapBuffer inbuf insz e = (old, len, oldsz, e') \<Longrightarrow> logging sites valid (file @ take len old) e' cp log"


text \<open>A message of a site of the program that \<open>log\<close> accepts and \<open>fprintf\<close> can be called for.\<close>

definition site_message :: "fp_conv \<Rightarrow> static_log_info list \<Rightarrow> format_metadata list \<Rightarrow> message \<Rightarrow> bool" where
  "site_message fp sites mds x \<longleftrightarrow> msg_ok sites x \<and>
     (unat (msg_id x) < length sites \<longrightarrow>
        logLevel (mds ! unat (msg_id x)) < 5 \<and> msg_fits fp (mds ! unat (msg_id x)) x)"

definition log_event :: "fp_conv \<Rightarrow> format_metadata list \<Rightarrow> (u32 \<times> message) option \<Rightarrow> out_event" where
  "log_event fp mds l =
     (case l of None \<Rightarrow> NewExecution | Some (bufferId, x) \<Rightarrow> Line (msg_line fp (mds ! unat (msg_id x)) bufferId x))"

text \<open>How many sites are in the dictionary behind some items.\<close>

fun sites_known :: "nat \<Rightarrow> log_item list \<Rightarrow> nat" where
  "sites_known c [] = c"
| "sites_known c (ItemCheckpoint ck # xs) = sites_known 0 xs"
| "sites_known c (ItemDictionary infos entries # xs) = sites_known (c + length infos) xs"
| "sites_known c (ItemExtent bufferId np ms # xs) = sites_known c xs"

lemma sites_known_append: "sites_known c (xs @ ys) = sites_known (sites_known c xs) ys"
  by (induction c xs rule: sites_known.induct) auto

lemma items_ok_append:
  "items_ok fp sites mds c (xs @ ys) \<longleftrightarrow> items_ok fp sites mds c xs \<and> items_ok fp sites mds (sites_known c xs) ys"
  by (induction c xs rule: sites_known.induct) auto

lemma file_events_append:
  "file_events fp mds c (xs @ ys) = file_events fp mds c xs @ file_events fp mds (sites_known c xs) ys"
  by (induction c xs rule: sites_known.induct) auto

lemma items_at_same:
  "items_at m p e xs \<Longrightarrow> same_slice m 0 m' 0 e \<Longrightarrow> items_at m' p e xs"
proof (induction xs arbitrary: p)
  case (Cons x xs)
  then obtain q where q: "item_at m p q x" "items_at m q e xs" by auto
  have "item_at m' p q x"
    using item_at_slice [of m 0 p q x, OF _ Cons.prems(2)] q items_at_le [OF q(2)] by simp
  then show ?case using Cons.IH [OF q(2) Cons.prems(2)] by auto
qed simp

text \<open>What the file would be if the buffer were written to it now.\<close>

abbreviation written :: "bytes \<Rightarrow> encoder \<Rightarrow> bytes" where
  "written file e \<equiv> file @ take (writePos e) (backing_buffer e)"

definition log_file_ok :: "fp_conv \<Rightarrow> static_log_info list \<Rightarrow> format_metadata list \<Rightarrow> bytes \<Rightarrow> encoder \<Rightarrow> nat \<Rightarrow>
    (u32 \<times> message) option list \<Rightarrow> bool" where
  "log_file_ok fp sites mds file e cp log \<longleftrightarrow>
     writePos e \<le> endOfBuffer e \<and> endOfBuffer e \<le> length (backing_buffer e) \<and> endOfBuffer e < 2 ^ 30 \<and> cp \<le> length sites \<and>
     (\<exists>clock its. items_at (written file e) 0 (length (written file e)) (ItemCheckpoint (first_checkpoint clock) # its) \<and>
        items_ok fp sites mds 0 its \<and> sites_known 0 its = cp \<and> file_events fp mds 0 its = map (log_event fp mds) log \<and>
        file_messages its = map the (filter (\<lambda>l. l \<noteq> None) log))"

text \<open>An encoder that went on behind what was there has added items to the file.\<close>

lemma written_append:
  assumes items: "items_at (written file e) 0 (length (written file e)) its"
    and buf: "writePos e \<le> length (backing_buffer e)" "length (backing_buffer e') = length (backing_buffer e)"
      "writePos e' \<le> length (backing_buffer e)" "take (writePos e) (backing_buffer e') = take (writePos e) (backing_buffer e)"
    and new: "items_at (backing_buffer e') (writePos e) (writePos e') xs"
  shows "items_at (written file e') 0 (length (written file e')) (its @ xs)"
proof -
  let ?w = "length (written file e)" and ?w' = "length (written file e')"
  have le: "writePos e \<le> writePos e'" using new by (rule items_at_le)
  have "take ?w (written file e') = written file e" using buf le by (simp add: min_absorb1)
  then have "same_slice (written file e) 0 (written file e') 0 ?w" using buf le by (simp add: same_slice_def)
  from items_at_same [OF items this] have "items_at (written file e') 0 ?w its" .
  moreover have "items_at (written file e') (length file + i) (length file + writePos e') ys"
    if "items_at (backing_buffer e') i (writePos e') ys" for i ys
    using that
  proof (induction ys arbitrary: i)
    case (Cons y ys)
    then obtain q where q: "item_at (backing_buffer e') i q y" "items_at (backing_buffer e') q (writePos e') ys" by auto
    have "same_slice (backing_buffer e') 0 (written file e') (length file) (writePos e')"
      using buf by (simp add: same_slice_def)
    from item_at_slice [of _ 0 i q y, OF _ this] have "item_at (written file e') (length file + i) (length file + q) y"
      using q(1) items_at_le [OF q(2)] by simp
    then show ?case using Cons.IH [OF q(2)] by auto
  qed simp
  from this [OF new] have "items_at (written file e') ?w ?w' xs" using buf by (simp add: min_absorb2)
  ultimately show ?thesis by (auto simp: items_at_append)
qed

lemma log_file_ok_append:
  assumes ok: "log_file_ok fp sites mds file e cp log"
    and buf: "length (backing_buffer e') = length (backing_buffer e)" "endOfBuffer e' = endOfBuffer e"
      "writePos e' \<le> endOfBuffer e" "take (writePos e) (backing_buffer e') = take (writePos e) (backing_buffer e)"
    and new: "items_at (backing_buffer e') (writePos e) (writePos e') xs" "items_ok fp sites mds cp xs"
      "sites_known cp xs = cp'" "cp' \<le> length sites" "file_events fp mds cp xs = map (log_event fp mds) l"
      "file_messages xs = map the (filter (\<lambda>l. l \<noteq> None) l)"
  shows "log_file_ok fp sites mds file e' cp' (log @ l)"
proof -
  obtain clock its where i: "items_at (written file e) 0 (length (written file e)) (ItemCheckpoint (first_checkpoint clock) # its)"
    "items_ok fp sites mds 0 its" "sites_known 0 its = cp" "file_events fp mds 0 its = map (log_event fp mds) log"
    "file_messages its = map the (filter (\<lambda>l. l \<noteq> None) log)"
    using ok by (auto simp: log_file_ok_def simp del: items_at.simps)
  have b: "writePos e \<le> endOfBuffer e" "endOfBuffer e \<le> length (backing_buffer e)" "endOfBuffer e < 2 ^ 30"
    using ok by (simp_all add: log_file_ok_def)
  have "items_at (written file e') 0 (length (written file e')) ((ItemCheckpoint (first_checkpoint clock) # its) @ xs)"
    using b buf by (intro written_append [OF i(1) _ buf(1) _ buf(4) new(1)]) linarith+
  then show ?thesis
    using i(2-5) b buf new(2-6) unfolding log_file_ok_def
    by (intro conjI exI [of _ clock] exI [of _ "its @ xs"]) (simp_all add: items_ok_append sites_known_append file_events_append)
qed


lemma log_file_ok_start:
  assumes "sz \<le> length buf" "sz < 2 ^ 30" "Encoder clock buf sz False force = Inr e"
  shows "log_file_ok fp sites mds [] e 0 []"
proof -
  note s = Encoder_spec [OF assms(1,3)]
  let ?x = "ItemCheckpoint (first_checkpoint clock)"
  have "items_at (backing_buffer e) 0 (writePos e) [?x]" using s(1) by simp
  moreover have "same_slice (backing_buffer e) 0 (written [] e) 0 (writePos e)" using s(2-4) assms(1) by (simp add: same_slice_def)
  ultimately have i: "items_at (written [] e) 0 (writePos e) [?x]" by (rule items_at_same)
  have "length (written [] e) = writePos e" using s(2-4) assms(1) by simp
  then show ?thesis
    using i s(2-4) assms(1,2) unfolding log_file_ok_def
    by (intro conjI exI [of _ clock] exI [of _ "[]"]) (simp_all del: items_at.simps(2))
qed

lemma log_file_ok_restart:
  assumes ok: "log_file_ok fp sites mds file e cp log" and empty: "getEncodedBytes e = 0"
    and new: "sz \<le> length buf" "sz < 2 ^ 30" "Encoder clock buf sz False force = Inr e'"
  shows "log_file_ok fp sites mds file e' 0 (log @ [None])"
proof -
  note s = Encoder_spec [OF new(1,3)]
  let ?x = "ItemCheckpoint (first_checkpoint clock)"
  let ?e = "e'\<lparr>writePos := 0\<rparr>"
  have "log_file_ok fp sites mds file ?e cp log"
    using ok empty s(3,4) new(1,2) by (simp add: log_file_ok_def getEncodedBytes_def)
  moreover have "items_at (backing_buffer e') (writePos ?e) (writePos e') [?x]" using s(1) by simp
  ultimately show ?thesis
    using s(2) log_file_ok_append [of fp sites mds "file" ?e cp log e' "[?x]" 0 "[None]"]
    by (simp add: log_event_def first_checkpoint_def del: items_at.simps(2))
qed

lemma log_file_ok_dictionary:
  assumes ok: "log_file_ok fp sites mds file e cp log"
    and enc: "encodeNewDictionaryEntries cp (take k sites) e = Inr (n, cp', e')"
  shows "log_file_ok fp sites mds file e' cp' log"
proof -
  have b: "endOfBuffer e \<le> length (backing_buffer e)" "writePos e \<le> endOfBuffer e" "endOfBuffer e < 2 ^ 30" "cp \<le> length sites"
    using ok by (simp_all add: log_file_ok_def)
  have s: "cp \<le> cp'" "cp' - cp \<le> length (take k sites) - cp" "length (backing_buffer e') = length (backing_buffer e)"
    "endOfBuffer e' = endOfBuffer e" "writePos e' = writePos e + n" "writePos e' \<le> endOfBuffer e"
    "take (writePos e) (backing_buffer e') = take (writePos e) (backing_buffer e)"
    "if endOfBuffer e - writePos e \<le> 8 then n = 0 \<and> cp' = cp
     else item_at (backing_buffer e') (writePos e) (writePos e') (ItemDictionary (take (cp' - cp) (drop cp (take k sites))) cp')"
    using encodeNewDictionaryEntries_spec [OF b(1-3), of cp "take k sites"] enc by auto
  show ?thesis
  proof (cases "endOfBuffer e - writePos e \<le> 8")
    case True
    then show ?thesis
      using log_file_ok_append [OF ok s(3,4,6,7), of "[]" cp' "[]"] s(5,8) b by simp
  next
    case False
    let ?infos = "take (cp' - cp) (drop cp (take k sites))"
    have len: "length ?infos = cp' - cp" "cp' \<le> length sites" using s(1,2) b(4) by auto
    have "?infos = take (length ?infos) (drop cp sites)" using s(2) by (simp add: drop_take min_absorb1)
    then show ?thesis
      using log_file_ok_append [OF ok s(3,4,6,7), of "[ItemDictionary ?infos cp']" cp' "[]"] s(1,8) len False by simp
  qed
qed

lemma log_file_ok_messages:
  assumes ok: "log_file_ok fp sites mds file e cp log" and sites: "length mds = length sites"
    and src: "mem_read src pos (length (messages_image ms)) = Inr (messages_image ms)"
    and valid: "\<forall>x \<in> set ms. site_message fp sites mds x"
    and n: "n \<le> length (messages_image ms)" "n \<le> RELEASE_THRESHOLD"
    and enc: "encodeLogMsgs src pos n bufferId newPass (take cp sites) e = Inr (bytes_read, events, e')"
  shows "log_file_ok fp sites mds file e' cp (log @ map (\<lambda>x. Some (bufferId, x)) (take events ms))"
proof -
  have b: "endOfBuffer e \<le> length (backing_buffer e)" "writePos e \<le> endOfBuffer e" "endOfBuffer e < 2 ^ 32" "cp \<le> length sites"
    using ok by (simp_all add: log_file_ok_def)
  have "\<forall>x \<in> set ms. msg_ok (take cp sites) x" using valid by (auto simp: site_message_def msg_ok_def)
  from encodeLogMsgs_spec [OF src n(1) this b(1-3), of bufferId newPass] obtain ms1 ms2 where
    s: "ms = ms1 @ ms2" "length (messages_image ms1) \<le> n" "events = length ms1"
    "length (backing_buffer e') = length (backing_buffer e)" "endOfBuffer e' = endOfBuffer e"
    "writePos e' \<le> endOfBuffer e" "take (writePos e) (backing_buffer e') = take (writePos e) (backing_buffer e)"
    "writePos e \<le> writePos e'"
    "if endOfBuffer e - writePos e < 9 then ms1 = [] \<and> e' = e
     else extent_at (backing_buffer e') (writePos e) (writePos e') bufferId newPass ms1 \<and>
       (\<forall>x \<in> set ms1. unat (msg_id x) < length (take cp sites))"
    using enc by (auto split: if_splits)
  show ?thesis
  proof (cases "endOfBuffer e - writePos e < 9")
    case True
    then show ?thesis using s(3,9) ok by simp
  next
    case False
    let ?x = "ItemExtent bufferId newPass ms1"
    have x: "extent_at (backing_buffer e') (writePos e) (writePos e') bufferId newPass ms1"
      "\<forall>x \<in> set ms1. unat (msg_id x) < cp" using s(9) False b(4) by auto
    have lt: "writePos e < writePos e'"
      using x(1) messages_at_le [of "backing_buffer e'" _ "writePos e'" 0 ms1] by (fastforce simp: extent_at_def Let_def)
    have dec: "decodable fp (map Some (take cp mds)) y \<and> list_all2 typed (msg_types y) (msg_args y) \<and>
        line_of fp (map Some (take cp mds)) bufferId y = msg_line fp (mds ! unat (msg_id y)) bufferId y" if "y \<in> set ms1" for y
    proof -
      have "unat (msg_id y) < cp" "site_message fp sites mds y" using that x(2) valid s(1) by auto
      then show ?thesis using b(4) sites by (simp add: decodable_def line_of_def site_message_def msg_ok_def)
    qed
    have "items_at (backing_buffer e') (writePos e) (writePos e') [?x]" using x(1) lt s(6) b(3) by simp
    moreover have "items_ok fp sites mds cp [?x]" using dec s(2) n(2) by simp
    moreover have "file_events fp mds cp [?x] = map (log_event fp mds) (map (\<lambda>x. Some (bufferId, x)) ms1)"
      using dec by (simp add: log_event_def)
    moreover have "file_messages [?x] = map the (filter (\<lambda>l. l \<noteq> None) (map (\<lambda>x. Some (bufferId, x)) ms1))"
      by (simp add: comp_def)
    ultimately have "log_file_ok fp sites mds file e' cp (log @ map (\<lambda>x. Some (bufferId, x)) ms1)"
      using b(4) by (intro log_file_ok_append [OF ok s(4-7), where xs = "[?x]"]) simp_all
    then show ?thesis using s(1,3) by simp
  qed
qed

lemma log_file_ok_flush:
  assumes ok: "log_file_ok fp sites mds file e cp log" and buf: "insz \<le> length inbuf" "insz < 2 ^ 30"
    and sw: "swapBuffer inbuf insz e = (old, len, oldsz, e')"
  shows "log_file_ok fp sites mds (file @ take len old) e' cp log"
proof -
  have e: "old = backing_buffer e" "len = writePos e" "writePos e' = 0" "endOfBuffer e' = insz" "backing_buffer e' = inbuf"
    using sw by (auto simp: swapBuffer_def)
  have w: "(file @ take len old) @ take 0 inbuf = written file e" by (simp add: e)
  show ?thesis using ok buf unfolding log_file_ok_def w e(3-5) by (simp only: le0 simp_thms)
qed

lemma logging_ok:
  assumes "logging sites (site_message fp sites mds) file e cp log" "length mds = length sites"
  shows "log_file_ok fp sites mds file e cp log"
  using assms(1)
proof (induction rule: logging.induct)
  case (start sz buf clock force e)
  then show ?case by (rule log_file_ok_start)
next
  case (restart _ e cp log sz buf clock force e')
  show ?case using restart(6) restart(2-5) by (rule log_file_ok_restart)
next
  case (dictionary _ e cp log k n cp' e')
  show ?case using dictionary(3) dictionary(2) by (rule log_file_ok_dictionary)
next
  case (messages _ e cp log src pos ms n bufferId newPass bytes_read events e')
  show ?case using messages(7) assms(2) messages(2-6) by (rule log_file_ok_messages)
next
  case (flush _ e cp log insz inbuf old len oldsz e')
  show ?case using flush(5) flush(2-4) by (rule log_file_ok_flush)
qed


text \<open>
  C15. A log file holds what was logged. Take any run of the steps of the thread that writes the log,
  over several executions of the program, with buffers of any size that a checkpoint fits in, with the
  dictionary growing while messages are encoded, and with each call of the encoder taking as many messages
  as fit. Then the file together with what is in the buffer is opened by the decoder, and decompressed
  without an error to exactly the messages that the encoder said it took, in that order: each line has the
  file name, line number and severity of the site, the message's time stamp and staging buffer, and the
  calls of \<open>fprintf\<close> that its format asks for with the arguments that were logged; and the number
  of messages is the result.
\<close>

theorem log_file_round_trip:
  assumes "logging sites (site_message fp sites mds) file e cp log" "list_all2 info_ok sites mds"
  shows "\<exists>d d'. open_log (written file e) = Inr (Some d) \<and>
    decompressUnordered fp d = Inr (int (length (filter (\<lambda>l. l \<noteq> None) log)),
      map (log_event fp mds) log @ [Complete (length (filter (\<lambda>l. l \<noteq> None) log))], d')"
proof -
  have "length mds = length sites" using list_all2_lengthD [OF assms(2)] by simp
  from logging_ok [OF assms(1) this] obtain clock its where
    i: "items_at (written file e) 0 (length (written file e)) (ItemCheckpoint (first_checkpoint clock) # its)"
    "items_ok fp sites mds 0 its" "file_events fp mds 0 its = map (log_event fp mds) log"
    "file_messages its = map the (filter (\<lambda>l. l \<noteq> None) log)" unfolding log_file_ok_def by blast
  have "items_ok fp sites mds 0 (ItemCheckpoint (first_checkpoint clock) # its)"
    using i(2) by (simp add: first_checkpoint_def)
  from decompress_file [OF assms(2) i(1) this] show ?thesis using i(3,4) by simp
qed


text \<open>A site, a message of it, and a run that writes it.\<close>

definition name_site :: static_log_info where
  "name_site = \<lparr>compressionFunction = map log_type_of name_args, sli_filename = ''a.cc'', sli_lineNum = 7, sli_severity = 3,
     sli_formatString = ''%d %.*s'', sli_numNibbles = 2,
     sli_paramTypes = [NON_STRING, DYNAMIC_PRECISION, STRING_WITH_DYNAMIC_PRECISION]\<rparr>"

definition name_message :: message where
  "name_message = \<lparr>msg_id = 0, msg_time = 900,
     msg_types = [NON_STRING, DYNAMIC_PRECISION, STRING_WITH_DYNAMIC_PRECISION], msg_args = name_args\<rparr>"

lemma name_message_size: "msg_size name_message = 30"
  by (simp add: msg_size_def log_size_def name_message_def name_args_def clip_string_def)

lemma name_message_ok: "msg_ok [name_site] name_message"
  using name_message_size
  by (simp add: msg_ok_def name_site_def STAGING_BUFFER_SIZE_def) (simp add: name_message_def name_args_def)

lemma name_site_message: "site_message fp [name_site] [name_metadata] name_message"
  using name_message_ok name_calls_logged [of fp]
  by (simp add: site_message_def msg_fits_def name_message_def name_metadata_def name_args_def name_calls_def)

lemma name_site_ok: "info_ok name_site name_metadata"
  using name_format_metadata by (simp add: info_ok_def name_site_def)

theorem encodeLogMsgs_takes_prefix_witness:
  "\<exists>e'. encodeLogMsgs (msg_image name_message) 0 30 3 True [name_site]
     \<lparr>backing_buffer = replicate 100 0, writePos = 10, endOfBuffer = 95, lastBufferIdEncoded = - 1, currentExtentSize = None,
      encodeMissDueToMetadata = 0, consecutiveEncodeMissesDueToMetadata = 0\<rparr> = Inr (30, 1, e') \<and>
     extent_at (backing_buffer e') 10 (writePos e') 3 True [name_message]"
proof -
  let ?e = "\<lparr>backing_buffer = replicate 100 0, writePos = 10, endOfBuffer = 95, lastBufferIdEncoded = - 1, currentExtentSize = None,
      encodeMissDueToMetadata = 0, consecutiveEncodeMissesDueToMetadata = 0\<rparr> :: encoder"
  have "unat (msg_id name_message) = 0" by (simp add: name_message_def)
  then show ?thesis
    using encodeLogMsgs_takes_prefix [of "msg_image name_message" 0 "[name_message]" 30 "[name_site]" ?e 3 True]
      name_message_ok name_message_size by (auto simp: mem_read_def)
qed

theorem log_file_round_trip_witness:
  "\<exists>file e d d'. logging [name_site] (site_message \<lparr>f32_to_f64 = ucast, f32_to_ld = ucast\<rparr> [name_site] [name_metadata]) file e 1
      [Some (3, name_message)] \<and>
    open_log (written file e) = Inr (Some d) \<and>
    decompressUnordered \<lparr>f32_to_f64 = ucast, f32_to_ld = ucast\<rparr> d = Inr (1,
      [Line \<lparr>line_filename = ''a.cc'', line_number = 7, line_level = 3, line_runtimeId = 3, line_logId = 0, line_timestamp = 900,
         line_calls = name_calls\<rparr>, Complete 1], d')"
proof -
  let ?fp = "\<lparr>f32_to_f64 = ucast, f32_to_ld = ucast\<rparr>"
  let ?valid = "site_message ?fp [name_site] [name_metadata]"
  have "\<exists>e. Encoder (1, 2, 3) (replicate 200 0) 200 False False = Inr e"
    by (simp add: Encoder_def insertCheckpoint_def Let_def arr_get_def mem_write_def checkpoint_fields_def)
  then obtain e where e: "Encoder (1, 2, 3) (replicate 200 0) 200 False False = Inr e" by blast
  have l0: "logging [name_site] ?valid [] e 0 []" by (rule logging.start [OF _ _ e]) simp_all
  have b0: "writePos e = 33" "endOfBuffer e = 200" "length (backing_buffer e) = 200"
    using Encoder_spec [OF _ e] by simp_all
  have "length (infos_image [name_site]) = 22" by (simp add: name_site_def)
  then obtain e1 where e1: "encodeNewDictionaryEntries 0 [name_site] e = Inr (30, 1, e1)"
    using encodeNewDictionaryEntries_all [of e 0 "[name_site]"] b0 by auto
  then have l1: "logging [name_site] ?valid [] e1 1 []" using logging.dictionary [OF l0, of 1] by simp
  have b1: "writePos e1 = 63" "endOfBuffer e1 = 200" "length (backing_buffer e1) = 200"
    using encodeNewDictionaryEntries_spec [of e 0 "[name_site]"] b0 e1 by auto
  have "unat (msg_id name_message) = 0" by (simp add: name_message_def)
  then obtain e2 where e2: "encodeLogMsgs (msg_image name_message) 0 30 3 True [name_site] e1 = Inr (30, 1, e2)"
    using encodeLogMsgs_all [of "msg_image name_message" 0 "[name_message]" "[name_site]" e1 3 True]
      b1 name_message_ok name_message_size by (auto simp: mem_read_def)
  have l2: "logging [name_site] ?valid [] e2 1 [Some (3, name_message)]"
    using logging.messages [OF l1, of "msg_image name_message" 0 "[name_message]" 30 3 True 30 1 e2] e2
      name_message_size name_site_message by (simp add: mem_read_def RELEASE_THRESHOLD_def STAGING_BUFFER_SIZE_def)
  obtain old len oldsz e3 where "swapBuffer (replicate 50 0) 50 e2 = (old, len, oldsz, e3)" by (rule prod_cases4)
  then have l3: "logging [name_site] ?valid (take len old) e3 1 [Some (3, name_message)]"
    using logging.flush [OF l2, of 50 "replicate 50 0"] by simp
  have "log_event ?fp [name_metadata] (Some (3, name_message)) = Line \<lparr>line_filename = ''a.cc'', line_number = 7, line_level = 3,
      line_runtimeId = 3, line_logId = 0, line_timestamp = 900, line_calls = name_calls\<rparr>"
    using name_calls_logged [of ?fp] by (simp add: log_event_def msg_line_def name_message_def name_metadata_def)
  then show ?thesis
    using log_file_round_trip [OF l3] l3 name_site_ok by auto
qed

end
