(* ===== verification/Bpf_Programs.thy ===== *)
theory Bpf_Programs
  imports Prelude
begin

text \<open>
  The kernel side of the monitors: \<^verbatim>\<open>src/bpftools/process.bpf.c\<close>,
  \<^verbatim>\<open>src/bpftools/mount.bpf.c\<close>, \<^verbatim>\<open>src/bpftools/tcpstate.bpf.c\<close> and
  \<^verbatim>\<open>src/bpftools/ipc.bpf.c\<close>, with the event records of their headers.

  The kernel is not part of the repository. What a program obtains from it during one
  invocation is an argument: the values the helpers return (\<open>task_env\<close>), the strings the
  probe-read helpers copy, whether a ring buffer reservation or a perf output succeeds, and
  the operations of the BPF hash maps (\<open>map_ops\<close>). \<open>map_ops_ok\<close> is the documented
  behaviour of a hash map: a lookup after a delete finds nothing, an update either stores the
  value or (a full map) changes nothing and always succeeds on a present key, and neither
  touches another key. Every program returns its state and its return value.
\<close>

section \<open>Kernel interface\<close>

record ('m, 'k, 'v) map_ops =
  map_lookup :: "'m \<Rightarrow> 'k \<Rightarrow> 'v option"
  map_update :: "'m \<Rightarrow> 'k \<Rightarrow> 'v \<Rightarrow> 'm"
  map_delete :: "'m \<Rightarrow> 'k \<Rightarrow> 'm"

definition map_ops_ok :: "('m, 'k, 'v) map_ops \<Rightarrow> bool" where
  "map_ops_ok ops \<longleftrightarrow>
     (\<forall>m k. map_lookup ops (map_delete ops m k) k = None) \<and>
     (\<forall>m k k'. k' \<noteq> k \<longrightarrow> map_lookup ops (map_delete ops m k) k' = map_lookup ops m k') \<and>
     (\<forall>m k v. map_lookup ops (map_update ops m k v) k \<in> {Some v, map_lookup ops m k}) \<and>
     (\<forall>m k v. map_lookup ops m k \<noteq> None \<longrightarrow> map_lookup ops (map_update ops m k v) k = Some v) \<and>
     (\<forall>m k k' v. k' \<noteq> k \<longrightarrow> map_lookup ops (map_update ops m k v) k' = map_lookup ops m k')"

text \<open>
  What an update of the map does at a key: it stores the value. This is so when the key is present, and
  otherwise when the map is not full.
\<close>

definition map_stores :: "('m, 'k, 'v) map_ops \<Rightarrow> 'm \<Rightarrow> 'k \<Rightarrow> bool" where
  "map_stores ops m k \<longleftrightarrow> (\<forall>v. map_lookup ops (map_update ops m k v) k = Some v)"

text \<open>A bounded association list, an instance of the documented behaviour.\<close>

definition bounded_map :: "nat \<Rightarrow> (('k \<times> 'v) list, 'k, 'v) map_ops" where
  "bounded_map cap =
     \<lparr>map_lookup = map_of,
      map_update = (\<lambda>m k v. if map_of m k \<noteq> None \<or> length m < cap then (k, v) # m else m),
      map_delete = (\<lambda>m k. filter (\<lambda>(k', _). k' \<noteq> k) m)\<rparr>"

record task_env =
  pid_tgid :: u64
  ktime_ns :: u64
  real_parent_tgid :: u32
  task_exit_code :: u32
  mnt_ns_inum :: u32
  current_comm :: bytes

abbreviation tgid_of :: "u64 \<Rightarrow> u32" where
  "tgid_of pt \<equiv> ucast (drop_bit 32 pt)"

abbreviation tid_of :: "u64 \<Rightarrow> u32" where
  "tid_of pt \<equiv> ucast pt"

text \<open>
  A probe-read of a string overwrites the start of the destination with the string and its
  terminator and leaves the rest of the destination as it was.
\<close>

definition overlay :: "bytes \<Rightarrow> bytes \<Rightarrow> bytes" where
  "overlay dst s = take (length dst) s @ drop (length s) dst"

section \<open>Process life cycle\<close>

record process_event =
  pe_pid :: u32
  pe_ppid :: u32
  pe_exit_code :: u32
  pe_duration_ns :: u64
  pe_comm :: bytes
  pe_filename :: bytes
  pe_exit_event :: bool

record 'm process_prog =
  exec_start :: 'm
  process_rb :: "process_event list"

text \<open>
  \<open>reserve\<close> is the outcome of \<open>bpf_ringbuf_reserve\<close>: no space, or a slot with whatever the
  memory held before. \<open>read_ctx_str\<close> reads a string at an offset of the tracepoint context.
\<close>

definition handle_exec ::
  "('m, u32, u64) map_ops \<Rightarrow> u64 \<Rightarrow> task_env \<Rightarrow> u32 \<Rightarrow> (u32 \<Rightarrow> nat \<Rightarrow> bytes) \<Rightarrow>
   process_event option \<Rightarrow> 'm process_prog \<Rightarrow> 'm process_prog \<times> int" where
  "handle_exec ops min_duration_ns t data_loc_filename read_ctx_str reserve s =
     (let pid = tgid_of (pid_tgid t);
          ts = ktime_ns t;
          s = s\<lparr>exec_start := map_update ops (exec_start s) pid ts\<rparr>
      in if min_duration_ns \<noteq> 0 then (s, 0)
         else (case reserve of
             None \<Rightarrow> (s, 0)
           | Some e \<Rightarrow>
               let fname_off = data_loc_filename AND 0xFFFF;
                   e = e\<lparr>pe_exit_event := False, pe_pid := pid,
                         pe_ppid := real_parent_tgid t,
                         pe_comm := current_comm t,
                         pe_filename := overlay (pe_filename e)
                           (read_ctx_str fname_off (length (pe_filename e)))\<rparr>
               in (s\<lparr>process_rb := process_rb s @ [e]\<rparr>, 0)))"

definition handle_exit ::
  "('m, u32, u64) map_ops \<Rightarrow> u64 \<Rightarrow> task_env \<Rightarrow> process_event option \<Rightarrow>
   'm process_prog \<Rightarrow> 'm process_prog \<times> int" where
  "handle_exit ops min_duration_ns t reserve s =
     (let pid = tgid_of (pid_tgid t); tid = tid_of (pid_tgid t)
      in if pid \<noteq> tid then (s, 0)
         else
           let start_ts = map_lookup ops (exec_start s) pid
           in if start_ts = None \<and> min_duration_ns \<noteq> 0 then (s, 0)
              else
                let duration_ns = (case start_ts of Some st \<Rightarrow> ktime_ns t - st | None \<Rightarrow> 0);
                    s = s\<lparr>exec_start := map_delete ops (exec_start s) pid\<rparr>
                in if min_duration_ns \<noteq> 0 \<and> duration_ns < min_duration_ns then (s, 0)
                   else (case reserve of
                       None \<Rightarrow> (s, 0)
                     | Some e \<Rightarrow>
                         let e = e\<lparr>pe_exit_event := True, pe_duration_ns := duration_ns,
                                   pe_pid := pid, pe_ppid := real_parent_tgid t,
                                   pe_exit_code :=
                                     signed_drop_bit 8 (task_exit_code t) AND 0xff,
                                   pe_comm := current_comm t\<rparr>
                         in (s\<lparr>process_rb := process_rb s @ [e]\<rparr>, 0)))"

text \<open>A tracepoint hit with its environment, and what it does to the program's state.\<close>

datatype process_hit =
    Exec task_env u32 "u32 \<Rightarrow> nat \<Rightarrow> bytes" "process_event option"
  | Exit task_env "process_event option"

fun process_do ::
  "('m, u32, u64) map_ops \<times> u64 \<Rightarrow> process_hit \<Rightarrow> 'm process_prog \<Rightarrow> 'm process_prog" where
  "process_do (ops, min_ns) (Exec t dl rd slot) s = fst (handle_exec ops min_ns t dl rd slot s)"
| "process_do (ops, min_ns) (Exit t slot) s = fst (handle_exit ops min_ns t slot s)"

text \<open>The states of the program: any tracepoint may fire at any time.\<close>

inductive process_reach ::
  "('m, u32, u64) map_ops \<times> u64 \<Rightarrow> 'm \<Rightarrow> 'm process_prog \<Rightarrow> bool"
  for env m0 where
  start: "process_reach env m0 \<lparr>exec_start = m0, process_rb = []\<rparr>"
| hit: "process_reach env m0 s \<Longrightarrow> process_reach env m0 (process_do env h s)"

section \<open>Mount and umount system calls\<close>

datatype mount_op = MOUNT | UMOUNT

record mount_arg =
  ma_ts :: u64
  ma_flags :: u64
  ma_src :: u64
  ma_dest :: u64
  ma_fs :: u64
  ma_data :: u64
  ma_op :: mount_op

record mount_event =
  me_delta :: u64
  me_flags :: u64
  me_pid :: u32
  me_tid :: u32
  me_mnt_ns :: u32
  me_ret :: u32
  me_comm :: bytes
  me_fs :: bytes
  me_src :: bytes
  me_dest :: bytes
  me_data :: bytes
  me_op :: mount_op

text \<open>
  \<open>mount_args\<close> is the hash map \<open>args\<close>, \<open>mount_heap\<close> the one slot of the per-CPU array
  \<open>heap\<close> of the CPU the program runs on, \<open>mount_out\<close> the events handed to the perf buffer.
\<close>

record 'm mount_prog =
  mount_args :: 'm
  mount_heap :: "nat \<Rightarrow> mount_event"
  mount_out :: "mount_event list"

definition probe_entry ::
  "('m, u32, mount_arg) map_ops \<Rightarrow> task_env \<Rightarrow> u64 \<Rightarrow> u64 \<Rightarrow> u64 \<Rightarrow> u64 \<Rightarrow> u64 \<Rightarrow> mount_op \<Rightarrow>
   'm mount_prog \<Rightarrow> 'm mount_prog \<times> int" where
  "probe_entry ops t src dest fs flags data op s =
     (let tid = tid_of (pid_tgid t);
          arg = \<lparr>ma_ts = ktime_ns t, ma_flags = flags, ma_src = src, ma_dest = dest,
                 ma_fs = fs, ma_data = data, ma_op = op\<rparr>
      in (s\<lparr>mount_args := map_update ops (mount_args s) tid arg\<rparr>, 0))"

text \<open>
  \<open>read_user p n\<close> is the string that \<open>bpf_probe_read_user_str\<close> copies from user address
  \<open>p\<close> into \<open>n\<close> bytes; \<open>heap_ok\<close> tells whether the heap lookup succeeds,
  \<open>output_ok\<close> whether the perf buffer takes the event.
\<close>

definition read_or_clear :: "(u64 \<Rightarrow> nat \<Rightarrow> bytes) \<Rightarrow> u64 \<Rightarrow> bytes \<Rightarrow> bytes" where
  "read_or_clear read_user p dst =
     (if p \<noteq> 0 then overlay dst (read_user p (length dst)) else overlay dst [0])"

definition probe_exit ::
  "('m, u32, mount_arg) map_ops \<Rightarrow> task_env \<Rightarrow> nat \<Rightarrow> (u64 \<Rightarrow> nat \<Rightarrow> bytes) \<Rightarrow> bool \<Rightarrow> bool \<Rightarrow>
   u32 \<Rightarrow> 'm mount_prog \<Rightarrow> 'm mount_prog \<times> int" where
  "probe_exit ops t cpu read_user heap_ok output_ok ret s =
     (let pid = tgid_of (pid_tgid t); tid = tid_of (pid_tgid t)
      in case map_lookup ops (mount_args s) tid of
           None \<Rightarrow> (s, 0)
         | Some argp \<Rightarrow>
             if \<not> heap_ok then (s, 0)
             else
               let eventp = mount_heap s cpu;
                   eventp = eventp\<lparr>me_delta := ktime_ns t - ma_ts argp,
                                   me_flags := ma_flags argp,
                                   me_pid := pid, me_tid := tid,
                                   me_mnt_ns := mnt_ns_inum t, me_ret := ret,
                                   me_op := ma_op argp, me_comm := current_comm t\<rparr>;
                   eventp = eventp\<lparr>me_src := read_or_clear read_user (ma_src argp) (me_src eventp)\<rparr>;
                   eventp = eventp\<lparr>me_dest := read_or_clear read_user (ma_dest argp) (me_dest eventp)\<rparr>;
                   eventp = eventp\<lparr>me_fs := read_or_clear read_user (ma_fs argp) (me_fs eventp)\<rparr>;
                   eventp = eventp\<lparr>me_data := read_or_clear read_user (ma_data argp) (me_data eventp)\<rparr>
               in (s\<lparr>mount_heap := (mount_heap s)(cpu := eventp),
                     mount_out := mount_out s @ (if output_ok then [eventp] else []),
                     mount_args := map_delete ops (mount_args s) tid\<rparr>, 0))"

definition mount_entry ::
  "('m, u32, mount_arg) map_ops \<Rightarrow> task_env \<Rightarrow> (nat \<Rightarrow> u64) \<Rightarrow> 'm mount_prog \<Rightarrow> 'm mount_prog \<times> int" where
  "mount_entry ops t args s =
     probe_entry ops t (args 0) (args 1) (args 2) (args 3) (args 4) MOUNT s"

definition umount_entry ::
  "('m, u32, mount_arg) map_ops \<Rightarrow> task_env \<Rightarrow> (nat \<Rightarrow> u64) \<Rightarrow> 'm mount_prog \<Rightarrow> 'm mount_prog \<times> int" where
  "umount_entry ops t args s = probe_entry ops t 0 (args 0) 0 (args 1) 0 UMOUNT s"

definition mount_exit ::
  "('m, u32, mount_arg) map_ops \<Rightarrow> task_env \<Rightarrow> nat \<Rightarrow> (u64 \<Rightarrow> nat \<Rightarrow> bytes) \<Rightarrow> bool \<Rightarrow> bool \<Rightarrow>
   u64 \<Rightarrow> 'm mount_prog \<Rightarrow> 'm mount_prog \<times> int" where
  "mount_exit ops t cpu read_user heap_ok output_ok ret s =
     probe_exit ops t cpu read_user heap_ok output_ok (ucast ret) s"

definition umount_exit ::
  "('m, u32, mount_arg) map_ops \<Rightarrow> task_env \<Rightarrow> nat \<Rightarrow> (u64 \<Rightarrow> nat \<Rightarrow> bytes) \<Rightarrow> bool \<Rightarrow> bool \<Rightarrow>
   u64 \<Rightarrow> 'm mount_prog \<Rightarrow> 'm mount_prog \<times> int" where
  "umount_exit ops t cpu read_user heap_ok output_ok ret s =
     probe_exit ops t cpu read_user heap_ok output_ok (ucast ret) s"

text \<open>A run: a list of tracepoint hits, each with its environment.\<close>

datatype mount_hit =
    EnterMount task_env "nat \<Rightarrow> u64"
  | EnterUmount task_env "nat \<Rightarrow> u64"
  | ExitMount task_env nat "u64 \<Rightarrow> nat \<Rightarrow> bytes" bool bool u64
  | ExitUmount task_env nat "u64 \<Rightarrow> nat \<Rightarrow> bytes" bool bool u64

fun hit_env :: "mount_hit \<Rightarrow> task_env" where
  "hit_env (EnterMount t _) = t"
| "hit_env (EnterUmount t _) = t"
| "hit_env (ExitMount t _ _ _ _ _) = t"
| "hit_env (ExitUmount t _ _ _ _ _) = t"

fun mount_do ::
  "('m, u32, mount_arg) map_ops \<Rightarrow> mount_hit \<Rightarrow> 'm mount_prog \<Rightarrow> 'm mount_prog" where
  "mount_do ops (EnterMount t a) s = fst (mount_entry ops t a s)"
| "mount_do ops (EnterUmount t a) s = fst (umount_entry ops t a s)"
| "mount_do ops (ExitMount t c r h p v) s = fst (mount_exit ops t c r h p v s)"
| "mount_do ops (ExitUmount t c r h p v) s = fst (umount_exit ops t c r h p v s)"

section \<open>TCP state transitions\<close>

record tcpstate_event =
  te_saddr :: bytes
  te_daddr :: bytes
  te_skaddr :: u64
  te_ts_us :: u64
  te_delta_us :: u64
  te_pid :: u32
  te_oldstate :: u32
  te_newstate :: u32
  te_family :: u16
  te_sport :: u16
  te_dport :: u16
  te_task :: bytes

record sock_ctx =
  ctx_skaddr :: u64
  ctx_oldstate :: u32
  ctx_newstate :: u32
  ctx_sport :: u16
  ctx_dport :: u16
  ctx_family :: u16
  ctx_protocol :: u16

text \<open>The read-only configuration, and the address fields the probe reads from the socket.\<close>

record tcp_config =
  filter_by_sport :: bool
  filter_by_dport :: bool
  target_family :: "16 word"

datatype sock_field = SKC_RCV_SADDR | SKC_DADDR | SKC_V6_RCV_SADDR | SKC_V6_DADDR

record ('p, 'm) tcp_prog =
  sports :: 'p
  dports :: 'p
  timestamps :: 'm
  tcp_out :: "tcpstate_event list"

abbreviation "IPPROTO_TCP \<equiv> (6 :: u16)"
abbreviation "AF_INET \<equiv> (2 :: u16)"
abbreviation "AF_INET6 \<equiv> (10 :: u16)"
abbreviation "TCP_CLOSE \<equiv> (7 :: u32)"

definition handle_set_state ::
  "('p, u16, u16) map_ops \<Rightarrow> ('m, u64, u64) map_ops \<Rightarrow> tcp_config \<Rightarrow> task_env \<Rightarrow>
   (u64 \<Rightarrow> sock_field \<Rightarrow> nat \<Rightarrow> bytes) \<Rightarrow> bool \<Rightarrow> sock_ctx \<Rightarrow>
   ('p, 'm) tcp_prog \<Rightarrow> ('p, 'm) tcp_prog \<times> int" where
  "handle_set_state pops ops cfg t read_kernel output_ok ctx s =
     (let sk = ctx_skaddr ctx; family = ctx_family ctx;
          sport = ctx_sport ctx; dport = ctx_dport ctx
      in if ctx_protocol ctx \<noteq> IPPROTO_TCP then (s, 0)
         else if target_family cfg \<noteq> 0 \<and> (scast (target_family cfg) :: u32) \<noteq> ucast family
         then (s, 0)
         else if filter_by_sport cfg \<and> map_lookup pops (sports s) sport = None then (s, 0)
         else if filter_by_dport cfg \<and> map_lookup pops (dports s) dport = None then (s, 0)
         else
           let tsp = map_lookup ops (timestamps s) sk;
               ts = ktime_ns t;
               delta_us = (case tsp of None \<Rightarrow> 0 | Some t0 \<Rightarrow> (ts - t0) div 1000);
               event = \<lparr>te_saddr =
                          (if family = AF_INET then read_kernel sk SKC_RCV_SADDR 16
                           else read_kernel sk SKC_V6_RCV_SADDR 16),
                        te_daddr =
                          (if family = AF_INET then read_kernel sk SKC_DADDR 16
                           else read_kernel sk SKC_V6_DADDR 16),
                        te_skaddr = sk, te_ts_us = ts div 1000, te_delta_us = delta_us,
                        te_pid = tgid_of (pid_tgid t),
                        te_oldstate = ctx_oldstate ctx, te_newstate = ctx_newstate ctx,
                        te_family = family, te_sport = sport, te_dport = dport,
                        te_task = current_comm t\<rparr>;
               s = s\<lparr>tcp_out := tcp_out s @ (if output_ok then [event] else [])\<rparr>
           in if ctx_newstate ctx = TCP_CLOSE
              then (s\<lparr>timestamps := map_delete ops (timestamps s) sk\<rparr>, 0)
              else (s\<lparr>timestamps := map_update ops (timestamps s) sk ts\<rparr>, 0))"

section \<open>IPC permission checks\<close>

record kern_ipc_perm =
  kip_uid :: u32
  kip_gid :: u32
  kip_cuid :: u32
  kip_cgid :: u32

record ipc_event =
  ie_pid :: u32
  ie_uid :: u32
  ie_gid :: u32
  ie_cuid :: u32
  ie_cgid :: u32

definition ipc_permission ::
  "task_env \<Rightarrow> kern_ipc_perm \<Rightarrow> ipc_event option \<Rightarrow> ipc_event list \<Rightarrow> ipc_event list \<times> int" where
  "ipc_permission t ipcp reserve events =
     (let pid = (ucast (pid_tgid t) :: u32)
      in case reserve of
           None \<Rightarrow> (events, 0)
         | Some event \<Rightarrow>
             let event = event\<lparr>ie_pid := pid, ie_uid := kip_uid ipcp, ie_gid := kip_gid ipcp,
                               ie_cuid := kip_cuid ipcp, ie_cgid := kip_cgid ipcp\<rparr>
             in (events @ [event], 0))"

section \<open>Sessions in a keyed store\<close>

text \<open>
  The three programs that pair events use a hash map the same way: the first event of a
  session stores a value under a key, the last one looks it up, and events that do not
  touch the key leave its entry alone. What follows for a whole run is proved here once.
\<close>

locale keyed_sessions =
  fixes ok :: "'o \<Rightarrow> bool"
    and do_hit :: "'o \<Rightarrow> 'h \<Rightarrow> 's \<Rightarrow> 's"
    and touches :: "'h \<Rightarrow> 'k \<Rightarrow> bool"
    and look :: "'o \<Rightarrow> 's \<Rightarrow> 'k \<Rightarrow> 'v option"
  assumes frame: "ok env \<Longrightarrow> \<not> touches h k \<Longrightarrow> look env (do_hit env h s) k = look env s k"
begin

lemma run_frame:
  assumes "ok env" "\<forall>h \<in> set hs. \<not> touches h k"
  shows "look env (fold (do_hit env) hs s) k = look env s k"
  using assms(2) by (induction hs arbitrary: s) (simp_all add: frame [OF assms(1)])

lemma session:
  assumes "ok env" "look env (do_hit env h0 s) k = Some v" "\<forall>h \<in> set hs. \<not> touches h k"
  shows "look env (fold (do_hit env) (h0 # hs) s) k = Some v"
  using run_frame [OF assms(1,3)] assms(2) by simp

end

lemma map_ops_okD:
  assumes "map_ops_ok ops"
  shows "map_lookup ops (map_delete ops m k) k = None"
    and "k' \<noteq> k \<Longrightarrow> map_lookup ops (map_delete ops m k) k' = map_lookup ops m k'"
    and "map_lookup ops (map_update ops m k v) k \<in> {Some v, map_lookup ops m k}"
    and "map_lookup ops m k \<noteq> None \<Longrightarrow> map_lookup ops (map_update ops m k v) k = Some v"
    and "k' \<noteq> k \<Longrightarrow> map_lookup ops (map_update ops m k v) k' = map_lookup ops m k'"
  using assms by (auto simp: map_ops_ok_def)

lemma map_stores_present: "map_ops_ok ops \<Longrightarrow> map_lookup ops m k \<noteq> None \<Longrightarrow> map_stores ops m k"
  by (simp add: map_stores_def map_ops_okD(4))

lemma bounded_map_stores: "map_of m k \<noteq> None \<or> length m < cap \<Longrightarrow> map_stores (bounded_map cap) m k"
  by (auto simp: map_stores_def bounded_map_def)

lemma map_of_filter_neq:
  "map_of (filter (\<lambda>(k', _). k' \<noteq> k) m) j = (if j = k then None else map_of m j)"
  by (induction m) auto

lemma bounded_map_ok: "map_ops_ok (bounded_map cap)"
  by (auto simp: map_ops_ok_def bounded_map_def map_of_filter_neq)

subsection \<open>Processes\<close>

fun process_touches :: "process_hit \<Rightarrow> u32 \<Rightarrow> bool" where
  "process_touches (Exec t _ _ _) p = (tgid_of (pid_tgid t) = p)"
| "process_touches (Exit t _) p =
     (tgid_of (pid_tgid t) = p \<and> tgid_of (pid_tgid t) = tid_of (pid_tgid t))"

fun process_env_ok :: "('m, u32, u64) map_ops \<times> u64 \<Rightarrow> bool" where
  "process_env_ok (ops, _) = map_ops_ok ops"

fun process_look :: "('m, u32, u64) map_ops \<times> u64 \<Rightarrow> 'm process_prog \<Rightarrow> u32 \<Rightarrow> u64 option" where
  "process_look (ops, _) s p = map_lookup ops (exec_start s) p"

lemma exec_start_handle_exec [simp]:
  "exec_start (fst (handle_exec ops min_ns t dl rd slot s)) =
     map_update ops (exec_start s) (tgid_of (pid_tgid t)) (ktime_ns t)"
  by (simp add: handle_exec_def Let_def split: option.split)

lemma exec_start_handle_exit:
  "exec_start (fst (handle_exit ops min_ns t slot s)) =
     (let pid = tgid_of (pid_tgid t)
      in if pid \<noteq> tid_of (pid_tgid t) \<or> map_lookup ops (exec_start s) pid = None \<and> min_ns \<noteq> 0
         then exec_start s else map_delete ops (exec_start s) pid)"
  by (auto simp: handle_exit_def Let_def split: option.split)

interpretation proc: keyed_sessions process_env_ok process_do process_touches process_look
proof
  fix env :: "('m, u32, u64) map_ops \<times> u64" and h k and s :: "'m process_prog"
  assume ok: "process_env_ok env" and nt: "\<not> process_touches h k"
  obtain ops min_ns where env: "env = (ops, min_ns)" by (cases env)
  show "process_look env (process_do env h s) k = process_look env s k"
    using ok nt unfolding env
    by (cases h) (auto simp: exec_start_handle_exit Let_def map_ops_okD(2,5))
qed

lemma handle_exit_emits:
  assumes "tgid_of (pid_tgid t) = tid_of (pid_tgid t)"
    and "map_lookup ops (exec_start s) (tgid_of (pid_tgid t)) = Some st"
    and "min_ns = 0 \<or> min_ns \<le> ktime_ns t - st"
  shows "process_rb (fst (handle_exit ops min_ns t (Some e) s)) = process_rb s @
           [e\<lparr>pe_exit_event := True, pe_duration_ns := ktime_ns t - st,
              pe_pid := tgid_of (pid_tgid t), pe_ppid := real_parent_tgid t,
              pe_exit_code := signed_drop_bit 8 (task_exit_code t) AND 0xff,
              pe_comm := current_comm t\<rparr>]"
  using assms by (auto simp: handle_exit_def Let_def)

text \<open>
  C3. The lifetime an exit event reports is the time since the process's last exec: whatever the map holds
  when process p does an exec - the time of an earlier exec of p included - as long as it is not full,
  after any run of other tracepoint hits - other processes, and exits of non-leader threads of p
  itself - the exit of p's leader emits exactly one event with the time since that exec (when it meets
  the minimum duration) and forgets the process.
\<close>

theorem process_lifetime:
  assumes ok: "map_ops_ok ops"
    and room: "map_stores ops (exec_start s) (tgid_of (pid_tgid t0))"
    and between: "\<forall>h \<in> set hs. \<not> process_touches h (tgid_of (pid_tgid t0))"
    and leader: "pid_tgid t1 = pid_tgid t0" "tgid_of (pid_tgid t1) = tid_of (pid_tgid t1)"
    and long: "min_ns = 0 \<or> min_ns \<le> ktime_ns t1 - ktime_ns t0"
  shows "let s1 = fold (process_do (ops, min_ns)) (Exec t0 dl rd slot # hs) s;
             s2 = process_do (ops, min_ns) (Exit t1 (Some e)) s1
         in \<exists>ev. process_rb s2 = process_rb s1 @ [ev] \<and> pe_exit_event ev \<and>
              pe_pid ev = tgid_of (pid_tgid t0) \<and>
              pe_duration_ns ev = ktime_ns t1 - ktime_ns t0 \<and>
              pe_exit_code ev = signed_drop_bit 8 (task_exit_code t1) AND 0xff \<and>
              map_lookup ops (exec_start s2) (tgid_of (pid_tgid t0)) = None"
proof -
  let ?p = "tgid_of (pid_tgid t0)"
  let ?s1 = "fold (process_do (ops, min_ns)) (Exec t0 dl rd slot # hs) s"
  have stored: "map_lookup ops (exec_start (process_do (ops, min_ns) (Exec t0 dl rd slot) s)) ?p = Some (ktime_ns t0)"
    using room by (simp add: map_stores_def)
  have l: "map_lookup ops (exec_start ?s1) ?p = Some (ktime_ns t0)"
    using proc.session [of "(ops, min_ns)" "Exec t0 dl rd slot" s ?p "ktime_ns t0" hs]
      ok stored between by simp
  have "map_lookup ops (exec_start (fst (handle_exit ops min_ns t1 (Some e) ?s1))) ?p = None"
    using l leader by (simp add: exec_start_handle_exit Let_def map_ops_okD(1) [OF ok])
  moreover have "process_rb (fst (handle_exit ops min_ns t1 (Some e) ?s1)) =
      process_rb ?s1 @ [e\<lparr>pe_exit_event := True, pe_duration_ns := ktime_ns t1 - ktime_ns t0,
        pe_pid := ?p, pe_ppid := real_parent_tgid t1,
        pe_exit_code := signed_drop_bit 8 (task_exit_code t1) AND 0xff,
        pe_comm := current_comm t1\<rparr>]"
    using handle_exit_emits [of t1 ops ?s1 "ktime_ns t0" min_ns e] l leader long by simp
  ultimately show ?thesis by (simp add: Let_def)
qed


definition sample_env :: "u64 \<Rightarrow> u64 \<Rightarrow> task_env" where
  "sample_env pt ns = \<lparr>pid_tgid = pt, ktime_ns = ns, real_parent_tgid = 1, task_exit_code = 0,
     mnt_ns_inum = 0, current_comm = replicate 16 0\<rparr>"

definition sample_event :: process_event where
  "sample_event = \<lparr>pe_pid = 0, pe_ppid = 0, pe_exit_code = 0, pe_duration_ns = 0,
     pe_comm = replicate 16 0, pe_filename = replicate 127 0, pe_exit_event = False\<rparr>"

theorem process_lifetime_witness:
  "let ops = bounded_map 2; s = \<lparr>exec_start = [(5, 3)], process_rb = []\<rparr>;
       other = Exec (sample_env 0x600000006 20) 0 (\<lambda>_ _. []) None;
       t0 = sample_env 0x500000005 10; t1 = sample_env 0x500000005 40;
       s1 = fold (process_do (ops, 25)) [Exec t0 0 (\<lambda>_ _. []) None, other] s;
       s2 = process_do (ops, 25) (Exit t1 (Some sample_event)) s1
   in \<exists>ev. process_rb s2 = process_rb s1 @ [ev] \<and> pe_exit_event ev \<and> pe_pid ev = 5 \<and>
        pe_duration_ns ev = 30 \<and> pe_exit_code ev = 0 \<and> map_lookup ops (exec_start s2) 5 = None"
proof -
  let ?ops = "bounded_map 2 :: ((u32 \<times> u64) list, u32, u64) map_ops"
  let ?s = "\<lparr>exec_start = [(5, 3)], process_rb = []\<rparr>"
  let ?t0 = "sample_env 0x500000005 10" and ?t1 = "sample_env 0x500000005 40"
  let ?other = "Exec (sample_env 0x600000006 20) 0 (\<lambda>_ _. []) None"
  have p: "tgid_of (pid_tgid ?t0) = 5" "tid_of (pid_tgid ?t0) = 5"
    "pid_tgid ?t1 = pid_tgid ?t0" "ktime_ns ?t1 - ktime_ns ?t0 = 30"
    "tgid_of (pid_tgid (sample_env 0x600000006 20)) = 6"
    by (simp_all add: sample_env_def drop_bit_eq_div)
  have st: "map_stores ?ops (exec_start ?s) (tgid_of (pid_tgid ?t0))" by (rule bounded_map_stores) (simp add: p)
  show ?thesis
    using process_lifetime [OF bounded_map_ok st, of "[?other]" ?t1 25 0 "\<lambda>_ _. []" None sample_event] p
    by (simp add: sample_env_def Let_def)
qed

lemma process_submits_long:
  assumes "process_reach (ops, min_ns) m0 s" "min_ns \<noteq> 0"
  shows "\<forall>ev \<in> set (process_rb s). pe_exit_event ev \<and> min_ns \<le> pe_duration_ns ev"
  using assms(1)
proof (induction rule: process_reach.induct)
  case start
  then show ?case by simp
next
  case (hit s h)
  show ?case
    by (cases h) (use hit(2) assms(2) in
      \<open>auto simp: handle_exec_def handle_exit_def Let_def not_less split: option.splits if_splits\<close>)
qed

text \<open>
  C4. With a minimum duration configured, every event the program ever submits is an exit
  event of at least that duration, whatever tracepoints fire in whatever order.
\<close>

theorem process_min_duration:
  assumes "process_reach (ops, min_ns) m0 s" "min_ns \<noteq> 0" "ev \<in> set (process_rb s)"
  shows "pe_exit_event ev \<and> min_ns \<le> pe_duration_ns ev"
  using process_submits_long [OF assms(1,2)] assms(3) by simp

theorem process_min_duration_witness:
  "let t0 = sample_env 0x500000005 10; t1 = sample_env 0x500000005 40; env = (bounded_map 2, 25);
       s = process_do env (Exit t1 (Some sample_event))
             (process_do env (Exec t0 0 (\<lambda>_ _. []) None) \<lparr>exec_start = [], process_rb = []\<rparr>)
   in \<forall>ev \<in> set (process_rb s). pe_exit_event ev \<and> 25 \<le> pe_duration_ns ev"
proof -
  let ?env = "(bounded_map 2, 25) :: ((u32 \<times> u64) list, u32, u64) map_ops \<times> u64"
  let ?s = "process_do ?env (Exit (sample_env 0x500000005 40) (Some sample_event))
      (process_do ?env (Exec (sample_env 0x500000005 10) 0 (\<lambda>_ _. []) None)
        \<lparr>exec_start = [], process_rb = []\<rparr>)"
  have "process_reach ?env [] ?s" by (intro process_reach.intros)
  from process_min_duration [OF this] show ?thesis by (simp only: Let_def) simp
qed

subsection \<open>Mounts\<close>

fun mount_touches :: "mount_hit \<Rightarrow> u32 \<Rightarrow> bool" where
  "mount_touches h k = (tid_of (pid_tgid (hit_env h)) = k)"

definition mount_look ::
  "('m, u32, mount_arg) map_ops \<Rightarrow> 'm mount_prog \<Rightarrow> u32 \<Rightarrow> mount_arg option" where
  "mount_look ops s k = map_lookup ops (mount_args s) k"

lemma mount_args_probe_entry:
  "mount_args (fst (probe_entry ops t src dest fs flags data op s)) =
     map_update ops (mount_args s) (tid_of (pid_tgid t))
       \<lparr>ma_ts = ktime_ns t, ma_flags = flags, ma_src = src, ma_dest = dest,
        ma_fs = fs, ma_data = data, ma_op = op\<rparr>"
  by (simp add: probe_entry_def Let_def)

lemma mount_args_probe_exit:
  "mount_args (fst (probe_exit ops t cpu rd heap_ok out_ok ret s)) =
     (if map_lookup ops (mount_args s) (tid_of (pid_tgid t)) = None \<or> \<not> heap_ok
      then mount_args s else map_delete ops (mount_args s) (tid_of (pid_tgid t)))"
  by (auto simp: probe_exit_def Let_def split: option.split)

lemmas mount_entry_defs = mount_entry_def umount_entry_def mount_exit_def umount_exit_def

interpretation mnt: keyed_sessions map_ops_ok mount_do mount_touches mount_look
  by unfold_locales
    (case_tac h; simp add: mount_entry_defs mount_look_def mount_args_probe_entry
      mount_args_probe_exit map_ops_okD(2,5))

text \<open>
  C5. A mount system call is reported with what its own entry saw: whatever the map holds when a thread
  enters a mount call - what an earlier call of the thread has left behind included - as long as it is
  not full, after any run of tracepoint hits on other threads (entries and exits of mount and
  umount, on any CPU) the exit on the thread reports flags, operation, thread and elapsed time of that
  very call, the strings read from the entry's pointers, and removes the entry.
\<close>

theorem mount_call_pairing:
  assumes ok: "map_ops_ok ops"
    and room: "map_stores ops (mount_args s) (tid_of (pid_tgid t0))"
    and between: "\<forall>h \<in> set hs. \<not> mount_touches h (tid_of (pid_tgid t0))"
    and thread: "pid_tgid t1 = pid_tgid t0"
  shows "let s1 = fold (mount_do ops) (EnterMount t0 a # hs) s;
             s2 = mount_do ops (ExitMount t1 cpu rd True True ret) s1
         in \<exists>ev. mount_out s2 = mount_out s1 @ [ev] \<and> me_op ev = MOUNT \<and>
              me_delta ev = ktime_ns t1 - ktime_ns t0 \<and> me_flags ev = a 3 \<and>
              me_tid ev = tid_of (pid_tgid t0) \<and> me_pid ev = tgid_of (pid_tgid t0) \<and>
              me_ret ev = ucast ret \<and>
              me_src ev = read_or_clear rd (a 0) (me_src (mount_heap s1 cpu)) \<and>
              me_dest ev = read_or_clear rd (a 1) (me_dest (mount_heap s1 cpu)) \<and>
              me_fs ev = read_or_clear rd (a 2) (me_fs (mount_heap s1 cpu)) \<and>
              me_data ev = read_or_clear rd (a 4) (me_data (mount_heap s1 cpu)) \<and>
              map_lookup ops (mount_args s2) (tid_of (pid_tgid t0)) = None"
proof -
  let ?k = "tid_of (pid_tgid t0)"
  let ?s1 = "fold (mount_do ops) (EnterMount t0 a # hs) s"
  have stored: "map_lookup ops (mount_args (mount_do ops (EnterMount t0 a) s)) ?k =
      Some \<lparr>ma_ts = ktime_ns t0, ma_flags = a 3, ma_src = a 0, ma_dest = a 1,
            ma_fs = a 2, ma_data = a 4, ma_op = MOUNT\<rparr>"
    using room by (simp add: map_stores_def mount_entry_def mount_args_probe_entry)
  have l: "map_lookup ops (mount_args ?s1) ?k =
      Some \<lparr>ma_ts = ktime_ns t0, ma_flags = a 3, ma_src = a 0, ma_dest = a 1,
            ma_fs = a 2, ma_data = a 4, ma_op = MOUNT\<rparr>"
    using mnt.session [OF ok, of "EnterMount t0 a" s ?k _ hs] stored between
    by (simp only: mount_look_def)
  have "map_lookup ops (mount_args (mount_do ops (ExitMount t1 cpu rd True True ret) ?s1)) ?k = None"
    using l thread by (simp add: mount_exit_def mount_args_probe_exit map_ops_okD(1) [OF ok])
  then show ?thesis using l thread
    by (simp add: Let_def mount_exit_def) (simp add: probe_exit_def Let_def)
qed


definition blank_mount :: mount_event where
  "blank_mount = \<lparr>me_delta = 0, me_flags = 0, me_pid = 0, me_tid = 0, me_mnt_ns = 0, me_ret = 0,
     me_comm = [], me_fs = [], me_src = [], me_dest = [], me_data = [], me_op = MOUNT\<rparr>"

theorem mount_call_pairing_witness:
  "let ops = bounded_map 4; t0 = sample_env 0x500000007 10; t1 = sample_env 0x500000007 40;
       other = EnterUmount (sample_env 0x500000008 20) (\<lambda>_. 9);
       s1 = fold (mount_do ops) [EnterMount t0 (\<lambda>i. if i = 3 then 32 else 0), other]
              \<lparr>mount_args = [], mount_heap = (\<lambda>_. blank_mount), mount_out = []\<rparr>;
       s2 = mount_do ops (ExitMount t1 0 (\<lambda>_ _. []) True True (-1)) s1
   in \<exists>ev. mount_out s2 = mount_out s1 @ [ev] \<and> me_op ev = MOUNT \<and> me_delta ev = 30 \<and>
        me_flags ev = 32 \<and> me_tid ev = 7 \<and> me_pid ev = 5 \<and> map_lookup ops (mount_args s2) 7 = None"
proof -
  let ?ops = "bounded_map 4 :: ((u32 \<times> mount_arg) list, u32, mount_arg) map_ops"
  let ?s = "\<lparr>mount_args = [], mount_heap = (\<lambda>_. blank_mount), mount_out = []\<rparr>"
  let ?t0 = "sample_env 0x500000007 10" and ?t1 = "sample_env 0x500000007 40"
  let ?a = "\<lambda>i::nat. if i = 3 then 32 else 0 :: u64"
  let ?other = "EnterUmount (sample_env 0x500000008 20) (\<lambda>_. 9)"
  have p: "tid_of (pid_tgid ?t0) = 7" "tgid_of (pid_tgid ?t0) = 5" "ktime_ns ?t1 - ktime_ns ?t0 = 30"
    "pid_tgid ?t1 = pid_tgid ?t0" "tid_of (pid_tgid (sample_env 0x500000008 20)) = 8"
    by (simp_all add: sample_env_def drop_bit_eq_div)
  have st: "map_stores ?ops (mount_args ?s) (tid_of (pid_tgid ?t0))" by (rule bounded_map_stores) simp
  have nt: "\<forall>x \<in> set [?other]. \<not> mount_touches x (tid_of (pid_tgid ?t0))"
    using p by simp
  show ?thesis
    using mount_call_pairing [OF bounded_map_ok st nt p(4), where cpu = 0 and rd = "\<lambda>_ _. []" and ret = "-1" and a = ?a]
    unfolding Let_def p by auto
qed

subsection \<open>TCP connections\<close>

text \<open>A hit of the tracepoint: the environment, the socket reads, the perf output's outcome.\<close>

type_synonym tcp_hit = "task_env \<times> (u64 \<Rightarrow> sock_field \<Rightarrow> nat \<Rightarrow> bytes) \<times> bool \<times> sock_ctx"

fun tcp_do ::
  "('p, u16, u16) map_ops \<times> ('m, u64, u64) map_ops \<times> tcp_config \<Rightarrow> tcp_hit \<Rightarrow>
   ('p, 'm) tcp_prog \<Rightarrow> ('p, 'm) tcp_prog" where
  "tcp_do (pops, ops, cfg) (t, rd, ok, ctx) s = fst (handle_set_state pops ops cfg t rd ok ctx s)"

text \<open>The transitions the configuration lets through.\<close>

definition tcp_selected ::
  "('p, u16, u16) map_ops \<Rightarrow> tcp_config \<Rightarrow> 'p \<Rightarrow> 'p \<Rightarrow> sock_ctx \<Rightarrow> bool" where
  "tcp_selected pops cfg sp dp ctx \<longleftrightarrow>
     ctx_protocol ctx = IPPROTO_TCP \<and>
     (target_family cfg = 0 \<or> scast (target_family cfg) = (ucast (ctx_family ctx) :: u32)) \<and>
     (filter_by_sport cfg \<longrightarrow> map_lookup pops sp (ctx_sport ctx) \<noteq> None) \<and>
     (filter_by_dport cfg \<longrightarrow> map_lookup pops dp (ctx_dport ctx) \<noteq> None)"

lemma handle_set_state_ports:
  "sports (fst (handle_set_state pops ops cfg t rd ok ctx s)) = sports s \<and>
   dports (fst (handle_set_state pops ops cfg t rd ok ctx s)) = dports s"
  by (simp add: handle_set_state_def Let_def)

lemma handle_set_state_skip:
  "\<not> tcp_selected pops cfg (sports s) (dports s) ctx \<Longrightarrow>
   handle_set_state pops ops cfg t rd ok ctx s = (s, 0)"
  by (auto simp: handle_set_state_def tcp_selected_def Let_def)

lemma timestamps_handle_set_state:
  "timestamps (fst (handle_set_state pops ops cfg t rd ok ctx s)) =
     (if \<not> tcp_selected pops cfg (sports s) (dports s) ctx then timestamps s
      else if ctx_newstate ctx = TCP_CLOSE then map_delete ops (timestamps s) (ctx_skaddr ctx)
      else map_update ops (timestamps s) (ctx_skaddr ctx) (ktime_ns t))"
  by (auto simp: handle_set_state_def tcp_selected_def Let_def)

fun tcp_ok where "tcp_ok (pops, ops, cfg) = map_ops_ok ops"

fun tcp_touches :: "tcp_hit \<Rightarrow> u64 \<Rightarrow> bool" where
  "tcp_touches (_, _, _, ctx) sk = (ctx_skaddr ctx = sk)"

fun tcp_look where "tcp_look (pops, ops, cfg) s sk = map_lookup ops (timestamps s) sk"

interpretation tcp: keyed_sessions tcp_ok tcp_do tcp_touches tcp_look
  by unfold_locales (auto simp: timestamps_handle_set_state map_ops_okD(2,5))

lemma tcp_run_ports:
  "sports (fold (tcp_do env) hs s) = sports s \<and> dports (fold (tcp_do env) hs s) = dports s"
proof (induction hs arbitrary: s)
  case (Cons h hs)
  obtain pops ops cfg where "env = (pops, ops, cfg)" by (cases env)
  moreover obtain t rd ok ctx where "h = (t, rd, ok, ctx)" by (cases h)
  ultimately show ?case using Cons by (simp add: handle_set_state_ports)
qed simp

text \<open>
  C6. The time a TCP transition event reports is the time since the last transition of the same socket that
  was selected: after such a transition, not to CLOSE and with the map of timestamps - whatever
  it holds for the socket - not full, and any run of transitions of other sockets, the next
  one of the socket reports the elapsed time in microseconds, and a transition to CLOSE forgets the socket.
\<close>

theorem tcp_delta_pairing:
  fixes s :: "('p, 'm) tcp_prog"
  assumes ok: "map_ops_ok ops"
    and first: "tcp_selected pops cfg (sports s) (dports s) c0" "ctx_newstate c0 \<noteq> TCP_CLOSE"
    and room: "map_stores ops (timestamps s) (ctx_skaddr c0)"
    and between: "\<forall>h \<in> set hs. \<not> tcp_touches h (ctx_skaddr c0)"
    and sel: "ctx_skaddr c1 = ctx_skaddr c0" "tcp_selected pops cfg (sports s) (dports s) c1"
  shows "let s1 = fold (tcp_do (pops, ops, cfg)) ((t0, rd0, o0, c0) # hs) s;
             s2 = tcp_do (pops, ops, cfg) (t1, rd1, True, c1) s1
         in \<exists>ev. tcp_out s2 = tcp_out s1 @ [ev] \<and> te_skaddr ev = ctx_skaddr c0 \<and>
              te_delta_us ev = (ktime_ns t1 - ktime_ns t0) div 1000 \<and>
              te_oldstate ev = ctx_oldstate c1 \<and> te_newstate ev = ctx_newstate c1 \<and>
              te_pid ev = tgid_of (pid_tgid t1) \<and>
              (ctx_newstate c1 = TCP_CLOSE \<longrightarrow>
                 map_lookup ops (timestamps s2) (ctx_skaddr c0) = None)"
proof -
  let ?env = "(pops, ops, cfg)"
  let ?s1 = "fold (tcp_do ?env) ((t0, rd0, o0, c0) # hs) s"
  have stored: "map_lookup ops (timestamps (tcp_do ?env (t0, rd0, o0, c0) s)) (ctx_skaddr c0) = Some (ktime_ns t0)"
    using first room by (simp add: map_stores_def timestamps_handle_set_state)
  have l: "map_lookup ops (timestamps ?s1) (ctx_skaddr c0) = Some (ktime_ns t0)"
    using tcp.session [of ?env "(t0, rd0, o0, c0)" s "ctx_skaddr c0" "ktime_ns t0" hs]
      ok stored between by simp
  have s1: "tcp_selected pops cfg (sports ?s1) (dports ?s1) c1"
    using sel(2) by (simp only: tcp_run_ports)
  then have "map_lookup ops (timestamps (tcp_do ?env (t1, rd1, True, c1) ?s1)) (ctx_skaddr c0) = None"
    if "ctx_newstate c1 = TCP_CLOSE"
    using that sel(1) by (simp add: timestamps_handle_set_state map_ops_okD(1) [OF ok])
  with l s1 sel(1) show ?thesis
    unfolding Let_def tcp_selected_def tcp_do.simps handle_set_state_def
    by (auto simp: Let_def simp del: fold_simps)
qed

theorem tcp_delta_pairing_witness:
  "let ops = bounded_map 4; pops = bounded_map 1;
       cfg = \<lparr>filter_by_sport = False, filter_by_dport = True, target_family = 2\<rparr>;
       c = (\<lambda>sk old new. \<lparr>ctx_skaddr = sk, ctx_oldstate = old, ctx_newstate = new, ctx_sport = 80,
              ctx_dport = 443, ctx_family = AF_INET, ctx_protocol = IPPROTO_TCP\<rparr>);
       s1 = fold (tcp_do (pops, ops, cfg))
              [(sample_env 0x500000005 1000, \<lambda>_ _ _. [], True, c 1 2 1),
               (sample_env 0x500000005 2000, \<lambda>_ _ _. [], True, c 2 2 1)]
              \<lparr>sports = [], dports = [(443, 443)], timestamps = [], tcp_out = []\<rparr>;
       s2 = tcp_do (pops, ops, cfg) (sample_env 0x500000005 9500, \<lambda>_ _ _. [], True, c 1 1 7) s1
   in \<exists>ev. tcp_out s2 = tcp_out s1 @ [ev] \<and> te_delta_us ev = 8 \<and> te_newstate ev = 7 \<and>
        map_lookup ops (timestamps s2) 1 = None"
proof -
  let ?ops = "bounded_map 4 :: ((u64 \<times> u64) list, u64, u64) map_ops"
  let ?pops = "bounded_map 1 :: ((u16 \<times> u16) list, u16, u16) map_ops"
  let ?cfg = "\<lparr>filter_by_sport = False, filter_by_dport = True, target_family = 2\<rparr>"
  let ?c = "\<lambda>sk old new. \<lparr>ctx_skaddr = sk, ctx_oldstate = old, ctx_newstate = new, ctx_sport = 80,
              ctx_dport = 443, ctx_family = AF_INET, ctx_protocol = IPPROTO_TCP\<rparr>"
  let ?s = "\<lparr>sports = [], dports = [(443, 443)], timestamps = [], tcp_out = []\<rparr>"
  let ?rd = "\<lambda>_ _ _. [] :: bytes"
  have st: "map_stores ?ops (timestamps ?s) (ctx_skaddr (?c 1 2 1))" by (rule bounded_map_stores) simp
  have first: "tcp_selected ?pops ?cfg (sports ?s) (dports ?s) (?c 1 2 1)" "ctx_newstate (?c 1 2 1) \<noteq> TCP_CLOSE"
    by (simp_all add: tcp_selected_def bounded_map_def)
  have nt: "\<forall>h \<in> set [(sample_env 0x500000005 2000, ?rd, True, ?c 2 2 1)].
      \<not> tcp_touches h (ctx_skaddr (?c 1 2 1))" by simp
  have sel: "tcp_selected ?pops ?cfg (sports ?s) (dports ?s) (?c 1 1 7)"
    by (simp add: tcp_selected_def bounded_map_def)
  have d: "ktime_ns (sample_env 0x500000005 9500) - ktime_ns (sample_env 0x500000005 1000) = 8500"
    by (simp add: sample_env_def)
  show ?thesis
    using tcp_delta_pairing [OF bounded_map_ok first st nt _ sel, of "sample_env 0x500000005 1000" ?rd True "sample_env 0x500000005 9500" ?rd]
    unfolding Let_def d by auto
qed

subsection \<open>IPC\<close>

text \<open>What the event calls a pid is the thread's id, not the id of its process.\<close>

lemma ipc_reports_thread:
  "ipc_permission t ipcp (Some e) evs = (evs', r) \<Longrightarrow>
   r = 0 \<and> ie_pid (last evs') = tid_of (pid_tgid t) \<and> ie_cuid (last evs') = kip_cuid ipcp"
  by (auto simp: ipc_permission_def Let_def)

lemma ipc_reports_thread_not_process:
  "ie_pid (last (fst (ipc_permission (sample_env 0x500000007 0)
     \<lparr>kip_uid = 0, kip_gid = 0, kip_cuid = 0, kip_cgid = 0\<rparr>
     (Some \<lparr>ie_pid = 0, ie_uid = 0, ie_gid = 0, ie_cuid = 0, ie_cgid = 0\<rparr>) []))) = 7 \<and>
   tgid_of (pid_tgid (sample_env 0x500000007 0)) = 5"
  by (simp add: ipc_permission_def sample_env_def drop_bit_eq_div)

end
