(* ===== verification/Monitor_Config.thy ===== *)
theory Monitor_Config
  imports Bpf_Programs "HOL-Library.Char_ord"
begin

text \<open>
  The user side of the monitors: the configuration classes of \<^verbatim>\<open>src/bpftools/monitors.h\<close>
  with their white lists, and what the event handlers of \<^verbatim>\<open>process_monitor.cc\<close>,
  \<^verbatim>\<open>mount_monitor.cc\<close>, \<^verbatim>\<open>tcpstate_monitor.cc\<close> and \<^verbatim>\<open>ipc_monitor.cc\<close> beside it log for an event.

  A \<^verbatim>\<open>std::string\<close> is a list of characters, a \<^verbatim>\<open>std::set\<close> a set. A call of \<^verbatim>\<open>NANO_LOG\<close> is a
  value: its format and its arguments. The time a handler prints is an argument of it.
  The methods hold the mutex of their object or touch one atomic value, so each of them is
  one step; nothing is printed by this model, and the methods that only print are left out.
\<close>

section \<open>Log lines\<close>

datatype log_arg = LStr string | LU32 u32 | LU64 u64 | LThousandths u64 | LPtr

record log_line =
  log_format :: string
  log_args :: "log_arg list"

text \<open>
  \<open>LThousandths n\<close> is the floating-point value \<open>n / 1000\<close>, \<open>LPtr\<close> an address, which is what is
  logged for a string whose conversion is not \<^verbatim>\<open>%s\<close>.
\<close>

text \<open>A C string in an array: the characters before its terminator, which has to be there.\<close>

definition c_string :: "bytes \<Rightarrow> string cres" where
  "c_string b = (if 0 \<in> set b then Inr (map (\<lambda>x. char_of (unat x)) (takeWhile (\<lambda>x. x \<noteq> 0) b)) else Inl Fault)"

section \<open>Configurations\<close>

record config =
  exit_flag :: bool
  config_id :: string
  config_name :: string

definition SetExit :: "bool \<Rightarrow> 'a config_scheme \<Rightarrow> 'a config_scheme" where
  "SetExit b c = c\<lparr>exit_flag := b\<rparr>"

definition IsExit :: "'a config_scheme \<Rightarrow> bool" where
  "IsExit c = exit_flag c"

subsection \<open>Processes\<close>

record process_config = config +
  pc_min_duration :: u64
  pc_pid_enable :: bool
  pc_comm_enable :: bool
  pc_pids :: "u32 set"
  pc_comms :: "string set"

definition ProcessConfig :: "string \<Rightarrow> string \<Rightarrow> bool \<Rightarrow> bool \<Rightarrow> u64 \<Rightarrow> process_config" where
  "ProcessConfig mid mname pideb commeb mduration =
     \<lparr>exit_flag = False, config_id = mid, config_name = mname, pc_min_duration = mduration,
      pc_pid_enable = pideb, pc_comm_enable = commeb, pc_pids = {}, pc_comms = {}\<rparr>"

definition process_AddPid :: "u32 \<Rightarrow> process_config \<Rightarrow> process_config" where
  "process_AddPid pid c =
     (let c = (if \<not> pc_pid_enable c then c\<lparr>pc_pid_enable := True\<rparr> else c)
      in c\<lparr>pc_pids := insert pid (pc_pids c)\<rparr>)"

definition process_IsPidFilter :: "process_config \<Rightarrow> u32 \<Rightarrow> bool" where
  "process_IsPidFilter c pid =
     (if \<not> pc_pid_enable c then False else if pid \<in> pc_pids c then False else True)"

definition process_AddComm :: "string \<Rightarrow> process_config \<Rightarrow> process_config" where
  "process_AddComm comm c =
     (let c = (if \<not> pc_comm_enable c then c\<lparr>pc_comm_enable := True\<rparr> else c)
      in c\<lparr>pc_comms := insert comm (pc_comms c)\<rparr>)"

definition process_IsCommFilter :: "process_config \<Rightarrow> string \<Rightarrow> bool" where
  "process_IsCommFilter c comm =
     (if \<not> pc_comm_enable c then False else if comm \<in> pc_comms c then False else True)"

definition SetMinDuration :: "u64 \<Rightarrow> process_config \<Rightarrow> process_config" where
  "SetMinDuration mduration c = c\<lparr>pc_min_duration := mduration\<rparr>"

definition IsDutationFilter :: "process_config \<Rightarrow> u64 \<Rightarrow> bool" where
  "IsDutationFilter c duration \<longleftrightarrow> duration < pc_min_duration c"

definition GetMinDuration :: "process_config \<Rightarrow> u64" where
  "GetMinDuration c = pc_min_duration c"

text \<open>What the user answers: a flag and a process ID, a flag and a command.\<close>

definition process_SetConfig :: "char \<Rightarrow> u32 \<Rightarrow> char \<Rightarrow> string \<Rightarrow> process_config \<Rightarrow> process_config" where
  "process_SetConfig flag1 pid flag2 command c =
     (let c = (if flag1 = CHR ''y'' \<or> flag1 = CHR ''Y'' then process_AddPid pid c else c)
      in if flag2 = CHR ''y'' \<or> flag2 = CHR ''Y'' then process_AddComm command c else c)"

subsection \<open>Mounts\<close>

text \<open>The set of process IDs has 16-bit elements, the methods take 32-bit ones.\<close>

record mount_config = config +
  mc_pid_enable :: bool
  mc_comm_enable :: bool
  mc_dest_enable :: bool
  mc_src_enable :: bool
  mc_pids :: "u16 set"
  mc_comms :: "string set"
  mc_dests :: "string set"
  mc_srcs :: "string set"

definition MountConfig :: "string \<Rightarrow> string \<Rightarrow> bool \<Rightarrow> bool \<Rightarrow> bool \<Rightarrow> bool \<Rightarrow> mount_config" where
  "MountConfig mid mname pideb commeb desteb srceb =
     \<lparr>exit_flag = False, config_id = mid, config_name = mname,
      mc_pid_enable = pideb, mc_comm_enable = commeb, mc_dest_enable = desteb, mc_src_enable = srceb,
      mc_pids = {}, mc_comms = {}, mc_dests = {}, mc_srcs = {}\<rparr>"

definition mount_AddPid :: "u32 \<Rightarrow> mount_config \<Rightarrow> mount_config" where
  "mount_AddPid pid c =
     (let c = (if \<not> mc_pid_enable c then c\<lparr>mc_pid_enable := True\<rparr> else c)
      in c\<lparr>mc_pids := insert (ucast pid) (mc_pids c)\<rparr>)"

definition mount_AddComm :: "string \<Rightarrow> mount_config \<Rightarrow> mount_config" where
  "mount_AddComm comm c =
     (let c = (if \<not> mc_comm_enable c then c\<lparr>mc_comm_enable := True\<rparr> else c)
      in c\<lparr>mc_comms := insert comm (mc_comms c)\<rparr>)"

definition mount_AddSrc :: "string \<Rightarrow> mount_config \<Rightarrow> mount_config" where
  "mount_AddSrc src c =
     (let c = (if \<not> mc_src_enable c then c\<lparr>mc_src_enable := True\<rparr> else c)
      in c\<lparr>mc_srcs := insert src (mc_srcs c)\<rparr>)"

definition mount_AddDest :: "string \<Rightarrow> mount_config \<Rightarrow> mount_config" where
  "mount_AddDest dest c =
     (let c = (if \<not> mc_dest_enable c then c\<lparr>mc_dest_enable := True\<rparr> else c)
      in c\<lparr>mc_dests := insert dest (mc_dests c)\<rparr>)"

definition mount_IsPidFilter :: "mount_config \<Rightarrow> u32 \<Rightarrow> bool" where
  "mount_IsPidFilter c pid =
     (if \<not> mc_pid_enable c then False else if ucast pid \<in> mc_pids c then False else True)"

definition mount_IsCommFilter :: "mount_config \<Rightarrow> string \<Rightarrow> bool" where
  "mount_IsCommFilter c comm =
     (if \<not> mc_comm_enable c then False else if comm \<in> mc_comms c then False else True)"

definition mount_IsDestFilter :: "mount_config \<Rightarrow> string \<Rightarrow> bool" where
  "mount_IsDestFilter c dest =
     (if \<not> mc_dest_enable c then False else if dest \<in> mc_dests c then False else True)"

definition mount_IsSrcFilter :: "mount_config \<Rightarrow> string \<Rightarrow> bool" where
  "mount_IsSrcFilter c src =
     (if \<not> mc_src_enable c then False else if src \<in> mc_srcs c then False else True)"

subsection \<open>TCP states\<close>

record tcpstate_config = config +
  tc_emit_timestamp :: bool
  tc_wide_output :: bool
  tc_saddr_enable :: bool
  tc_pid_enable :: bool
  tc_sport_enable :: bool
  tc_dport_enable :: bool
  tc_saddrs :: "128 word set"
  tc_pids :: "u32 set"
  tc_sports :: "u16 set"
  tc_dports :: "u16 set"

definition TcpStateConfig ::
  "string \<Rightarrow> string \<Rightarrow> bool \<Rightarrow> bool \<Rightarrow> bool \<Rightarrow> bool \<Rightarrow> bool \<Rightarrow> bool \<Rightarrow> tcpstate_config" where
  "TcpStateConfig mid mname emit wide saddr_eb pid_eb sport_eb dport_eb =
     \<lparr>exit_flag = False, config_id = mid, config_name = mname,
      tc_emit_timestamp = emit, tc_wide_output = wide, tc_saddr_enable = saddr_eb,
      tc_pid_enable = pid_eb, tc_sport_enable = sport_eb, tc_dport_enable = dport_eb,
      tc_saddrs = {}, tc_pids = {}, tc_sports = {}, tc_dports = {}\<rparr>"

definition tcp_AddSaddr :: "128 word \<Rightarrow> tcpstate_config \<Rightarrow> tcpstate_config" where
  "tcp_AddSaddr saddr c =
     (let c = (if \<not> tc_saddr_enable c then c\<lparr>tc_saddr_enable := True\<rparr> else c)
      in c\<lparr>tc_saddrs := insert saddr (tc_saddrs c)\<rparr>)"

definition tcp_AddPid :: "u32 \<Rightarrow> tcpstate_config \<Rightarrow> tcpstate_config" where
  "tcp_AddPid pid c =
     (let c = (if \<not> tc_pid_enable c then c\<lparr>tc_pid_enable := True\<rparr> else c)
      in c\<lparr>tc_pids := insert pid (tc_pids c)\<rparr>)"

definition tcp_AddSport :: "u16 \<Rightarrow> tcpstate_config \<Rightarrow> tcpstate_config" where
  "tcp_AddSport sport c =
     (let c = (if \<not> tc_sport_enable c then c\<lparr>tc_sport_enable := True\<rparr> else c)
      in c\<lparr>tc_sports := insert sport (tc_sports c)\<rparr>)"

definition tcp_AddDport :: "u16 \<Rightarrow> tcpstate_config \<Rightarrow> tcpstate_config" where
  "tcp_AddDport dport c =
     (let c = (if \<not> tc_dport_enable c then c\<lparr>tc_dport_enable := True\<rparr> else c)
      in c\<lparr>tc_dports := insert dport (tc_dports c)\<rparr>)"

definition tcp_IsPidFilter :: "tcpstate_config \<Rightarrow> u32 \<Rightarrow> bool" where
  "tcp_IsPidFilter c pid =
     (if \<not> tc_pid_enable c then False else if pid \<in> tc_pids c then False else True)"

definition tcp_IsSaddrFilter :: "tcpstate_config \<Rightarrow> 128 word \<Rightarrow> bool" where
  "tcp_IsSaddrFilter c saddr =
     (if \<not> tc_saddr_enable c then False else if saddr \<in> tc_saddrs c then False else True)"

definition tcp_IsSportFilter :: "tcpstate_config \<Rightarrow> u16 \<Rightarrow> bool" where
  "tcp_IsSportFilter c sport =
     (if \<not> tc_sport_enable c then False else if sport \<in> tc_sports c then False else True)"

definition tcp_IsDportFilter :: "tcpstate_config \<Rightarrow> u16 \<Rightarrow> bool" where
  "tcp_IsDportFilter c dport =
     (if \<not> tc_dport_enable c then False else if dport \<in> tc_dports c then False else True)"

section \<open>The handlers\<close>

text \<open>The minimum duration that the process monitor puts into the program's read-only data.\<close>

definition rodata_min_duration_ns :: "process_config \<Rightarrow> u64" where
  "rodata_min_duration_ns c = GetMinDuration c * 1000000"

definition process_handle_event :: "string \<Rightarrow> process_config \<Rightarrow> process_event \<Rightarrow> log_line option cres" where
  "process_handle_event ts c pe =
     (if process_IsPidFilter c (pe_pid pe) then Inr None
      else
        res_bind (c_string (pe_comm pe)) (\<lambda>comm.
          if process_IsCommFilter c comm then Inr None
          else if pe_exit_event pe
          then Inr (Some
            \<lparr>log_format = ''[%s, %s] %-8s %-5s %-16s %-7d %-7d [%u] (%ums)'',
             log_args = [LStr (config_name c), LStr (config_id c), LStr ts, LStr ''EXIT'', LStr comm,
               LU32 (pe_pid pe), LU32 (pe_ppid pe), LU32 (pe_exit_code pe),
               LU64 (pe_duration_ns pe div 1000000)]\<rparr>)
          else res_bind (c_string (pe_filename pe)) (\<lambda>filename.
            Inr (Some
              \<lparr>log_format = ''[%s, %s] %-8s %-5s %-16s %-7d %-7d %s'',
               log_args = [LStr (config_name c), LStr (config_id c), LStr ts, LStr ''EXEC'', LStr comm,
                 LU32 (pe_pid pe), LU32 (pe_ppid pe), LStr filename]\<rparr>))))"

subsection \<open>Mounts\<close>

definition flag_names :: "string list" where
  "flag_names =
     [''MS_RDONLY'', ''MS_NOSUID'', ''MS_NODEV'', ''MS_NOEXEC'', ''MS_SYNCHRONOUS'',
      ''MS_REMOUNT'', ''MS_MANDLOCK'', ''MS_DIRSYNC'', ''MS_NOSYMFOLLOW'', ''MS_NOATIME'',
      ''MS_NODIRATIME'', ''MS_BIND'', ''MS_MOVE'', ''MS_REC'', ''MS_VERBOSE'',
      ''MS_SILENT'', ''MS_POSIXACL'', ''MS_UNBINDABLE'', ''MS_PRIVATE'', ''MS_SLAVE'',
      ''MS_SHARED'', ''MS_RELATIME'', ''MS_KERNMOUNT'', ''MS_I_VERSION'', ''MS_STRICTATIME'',
      ''MS_LAZYTIME'', ''MS_SUBMOUNT'', ''MS_NOREMOTELOCK'', ''MS_NOSEC'', ''MS_BORN'',
      ''MS_ACTIVE'', ''MS_NOUSER'']"

definition flag_count :: nat where
  "flag_count = length flag_names"

text \<open>
  The test \<^verbatim>\<open>(1 << i) & flags\<close>: the shift is one of an \<^verbatim>\<open>int\<close>, which is then extended to 64 bits
  with its sign.
\<close>

definition flag_bit :: "nat \<Rightarrow> u64 \<Rightarrow> bool" where
  "flag_bit i flags \<longleftrightarrow> (scast (push_bit i 1 :: u32) :: u64) AND flags \<noteq> 0"

text \<open>\<open>strcat\<close> onto the array of 512 characters.\<close>

definition strcat512 :: "string \<Rightarrow> string \<Rightarrow> string cres" where
  "strcat512 str s = (if length str + length s < 512 then Inr (str @ s) else Inl Fault)"

primrec strflags_loop :: "nat list \<Rightarrow> u64 \<Rightarrow> string \<Rightarrow> string cres" where
  "strflags_loop [] flags str = Inr str"
| "strflags_loop (i # is) flags str =
     (if \<not> flag_bit i flags then strflags_loop is flags str
      else
        res_bind (if str \<noteq> [] then strcat512 str '' | '' else Inr str) (\<lambda>str.
        res_bind (strcat512 str (flag_names ! i)) (\<lambda>str.
          strflags_loop is flags str)))"

definition strflags :: "u64 \<Rightarrow> string cres" where
  "strflags flags = (if flags = 0 then Inr ''0x0'' else strflags_loop [0..<flag_count] flags [])"

text \<open>The conversion \<^verbatim>\<open>%d\<close>.\<close>

fun decimal :: "nat \<Rightarrow> string" where
  "decimal n = (if n < 10 then [char_of (48 + n)] else decimal (n div 10) @ [char_of (48 + n mod 10)])"

declare decimal.simps [simp del]

definition decimal_int :: "int \<Rightarrow> string" where
  "decimal_int i = (if i < 0 then CHR ''-'' # decimal (nat (- i)) else decimal (nat i))"

text \<open>
  \<open>name_of\<close> is \<^verbatim>\<open>strerrorname_np\<close> of the C library, or the replacement of the file that knows no
  name. The results are cut to the 31 characters that fit in the array.
\<close>

definition strerrno :: "(u32 \<Rightarrow> string option) \<Rightarrow> u32 \<Rightarrow> string" where
  "strerrno name_of errnum =
     (if errnum = 0 then ''0''
      else case name_of (- errnum) of
        None \<Rightarrow> take 31 (decimal_int (sint errnum))
      | Some errstr \<Rightarrow> take 31 (''-'' @ errstr))"

definition quoted :: "string \<Rightarrow> string" where
  "quoted s = CHR 0x22 # s @ [CHR 0x22]"

definition gen_call :: "(u32 \<Rightarrow> string option) \<Rightarrow> mount_event \<Rightarrow> string cres" where
  "gen_call name_of me =
     (if me_op me = UMOUNT
      then
        res_bind (c_string (me_dest me)) (\<lambda>dest.
        res_bind (strflags (me_flags me)) (\<lambda>flags.
          Inr (take 10239 (''umount('' @ quoted dest @ '', '' @ flags @ '') = '' @ strerrno name_of (me_ret me)))))
      else
        res_bind (c_string (me_src me)) (\<lambda>src.
        res_bind (c_string (me_dest me)) (\<lambda>dest.
        res_bind (c_string (me_fs me)) (\<lambda>fs.
        res_bind (strflags (me_flags me)) (\<lambda>flags.
        res_bind (c_string (me_data me)) (\<lambda>data.
          Inr (take 10239
            (''mount('' @ quoted src @ '', '' @ quoted dest @ '', '' @ quoted fs @ '', '' @ flags @ '', '' @
             quoted data @ '') = '' @ strerrno name_of (me_ret me)))))))))"

definition mount_handle_event :: "(u32 \<Rightarrow> string option) \<Rightarrow> string \<Rightarrow> mount_event \<Rightarrow> log_line cres" where
  "mount_handle_event name_of ts me =
     res_bind (c_string (me_comm me)) (\<lambda>comm.
     res_bind (gen_call name_of me) (\<lambda>call.
       Inr \<lparr>log_format = ''%s COMM[%s] PID[%d] TID[%d] MNT_NS[%u] OP[%s] %s'' @ [CHR 0x0A],
            log_args = [LStr ts, LStr comm, LU32 (me_pid me), LU32 (me_tid me), LU32 (me_mnt_ns me),
              LStr (case me_op me of MOUNT \<Rightarrow> ''MOUNT'' | UMOUNT \<Rightarrow> ''UMOUNT''), LStr call]\<rparr>))"

subsection \<open>TCP states\<close>

type_synonym state_names = "int \<Rightarrow> string option"

definition tcpstatesMap :: state_names where
  "tcpstatesMap =
     [1 \<mapsto> ''ESTABLISHED'', 2 \<mapsto> ''SYN_SENT'', 3 \<mapsto> ''SYN_RECV'', 4 \<mapsto> ''FIN_WAIT1'', 5 \<mapsto> ''FIN_WAIT2'',
      6 \<mapsto> ''TIME_WAIT'', 7 \<mapsto> ''CLOSE'', 8 \<mapsto> ''CLOSE_WAIT'', 9 \<mapsto> ''LAST_ACK'', 10 \<mapsto> ''LISTEN'',
      11 \<mapsto> ''CLOSING'', 12 \<mapsto> ''NEW_SYN_RECV'', 13 \<mapsto> ''UNKNOWN'']"

text \<open>The index operator of a map: a key that is not there is inserted with an empty string.\<close>

definition name_at :: "int \<Rightarrow> state_names \<Rightarrow> string \<times> state_names" where
  "name_at k m = (case m k of Some s \<Rightarrow> (s, m) | None \<Rightarrow> ([], m(k \<mapsto> [])))"

text \<open>
  The textual form of an address, in an array of 26 characters. \<open>ntop\<close> gives the whole text
  of an address of a family it knows. When that does not fit, \<^verbatim>\<open>inet_ntop\<close> fails and leaves the
  array as it is, which is uninitialised and then logged.
\<close>

definition address_text :: "(u16 \<Rightarrow> bytes \<Rightarrow> string option) \<Rightarrow> u16 \<Rightarrow> bytes \<Rightarrow> string cres" where
  "address_text ntop family addr =
     (case ntop family addr of
        Some s \<Rightarrow> if length s < 26 then Inr s else Inl Fault
      | None \<Rightarrow> Inl Fault)"

definition tcpstate_handle_event ::
  "(u16 \<Rightarrow> bytes \<Rightarrow> string option) \<Rightarrow> tcpstate_config \<Rightarrow> tcpstate_event \<Rightarrow> state_names \<Rightarrow>
   (log_line option \<times> state_names) cres" where
  "tcpstate_handle_event ntop c event m =
     (if tcp_IsPidFilter c (te_pid event) \<or> tcp_IsSaddrFilter c (word_of_nat (le_val (te_saddr event))) \<or>
         tcp_IsSportFilter c (te_sport event) \<or> tcp_IsDportFilter c (te_dport event)
      then Inr (None, m)
      else
        res_bind (address_text ntop (te_family event) (te_saddr event)) (\<lambda>saddr.
        res_bind (address_text ntop (te_family event) (te_daddr event)) (\<lambda>daddr.
        res_bind (c_string (te_task event)) (\<lambda>task.
          let (old, m) = name_at (sint (te_oldstate event)) m;
              (new, m) = name_at (sint (te_newstate event)) m
          in if tc_wide_output c
             then
               let family = (if te_family event = AF_INET then 4 else 6)
               in Inr (Some
                    \<lparr>log_format = ''[%s, %u] %-16llx %-7d %-16s %-2d %-26s %-5d %-26s %-5d %-11s -> %-11s %.3f'',
                     log_args = [LStr (config_name c), LPtr, LU64 (te_skaddr event), LU32 (te_pid event),
                       LStr task, LU32 family, LStr saddr, LU32 (ucast (te_sport event)), LStr daddr,
                       LU32 (ucast (te_dport event)), LStr old, LStr new,
                       LThousandths (te_delta_us event)]\<rparr>, m)
             else
               Inr (Some
                 \<lparr>log_format = ''[%s, %u] %-16llx %-7d %-10.10s %-15s %-5d %-15s %-5d %-11s -> %-11s %.3f'',
                  log_args = [LStr (config_name c), LPtr, LU64 (te_skaddr event), LU32 (te_pid event),
                    LStr task, LStr saddr, LU32 (ucast (te_sport event)), LStr daddr,
                    LU32 (ucast (te_dport event)), LStr old, LStr new,
                    LThousandths (te_delta_us event)]\<rparr>, m)))))"

subsection \<open>IPC permissions\<close>

definition ipc_handle_event :: "string \<Rightarrow> ipc_event \<Rightarrow> log_line" where
  "ipc_handle_event ts e =
     \<lparr>log_format = ''%-8s %u %u %u [%u] %u'' @ [CHR 0x0A],
      log_args = [LStr ts, LU32 (ie_pid e), LU32 (ie_uid e), LU32 (ie_gid e), LU32 (ie_cuid e),
        LU32 (ie_cgid e)]\<rparr>"

section \<open>White lists\<close>

text \<open>
  All filters are white lists of the same kind: a list that has never been added to lets
  everything pass, any other exactly its elements. \<open>key\<close> is the form an element is kept in.
\<close>

locale white_list =
  fixes enabled :: "'c \<Rightarrow> bool" and accepted :: "'c \<Rightarrow> 'k set"
    and add :: "'x \<Rightarrow> 'c \<Rightarrow> 'c" and filtered :: "'c \<Rightarrow> 'x \<Rightarrow> bool" and key :: "'x \<Rightarrow> 'k"
  assumes add_enables: "enabled (add x c)"
    and add_accepts: "accepted (add x c) = insert (key x) (accepted c)"
    and filtered_iff: "filtered c x \<longleftrightarrow> enabled c \<and> key x \<notin> accepted c"
begin

lemma adds_enable: "enabled (fold add xs c) \<longleftrightarrow> xs \<noteq> [] \<or> enabled c"
  by (induction xs arbitrary: c) (auto simp: add_enables)

lemma adds_accept: "accepted (fold add xs c) = key ` set xs \<union> accepted c"
  by (induction xs arbitrary: c) (auto simp: add_accepts)

lemma filtered_after:
  "filtered (fold add xs c) x \<longleftrightarrow> (xs \<noteq> [] \<or> enabled c) \<and> key x \<notin> key ` set xs \<union> accepted c"
  by (simp add: filtered_iff adds_enable adds_accept)

lemma added_passes: "x \<in> set xs \<Longrightarrow> \<not> filtered (fold add xs c) x"
  by (auto simp: filtered_after)

lemma fresh_passes: "\<not> enabled c \<Longrightarrow> \<not> filtered c x"
  by (simp add: filtered_iff)

end

interpretation process_pid: white_list pc_pid_enable pc_pids process_AddPid process_IsPidFilter id
  by unfold_locales (auto simp: process_AddPid_def process_IsPidFilter_def)

interpretation process_comm: white_list pc_comm_enable pc_comms process_AddComm process_IsCommFilter id
  by unfold_locales (auto simp: process_AddComm_def process_IsCommFilter_def)

interpretation mount_pid: white_list mc_pid_enable mc_pids mount_AddPid mount_IsPidFilter ucast
  by unfold_locales (auto simp: mount_AddPid_def mount_IsPidFilter_def)

interpretation mount_comm: white_list mc_comm_enable mc_comms mount_AddComm mount_IsCommFilter id
  by unfold_locales (auto simp: mount_AddComm_def mount_IsCommFilter_def)

interpretation mount_dest: white_list mc_dest_enable mc_dests mount_AddDest mount_IsDestFilter id
  by unfold_locales (auto simp: mount_AddDest_def mount_IsDestFilter_def)

interpretation mount_src: white_list mc_src_enable mc_srcs mount_AddSrc mount_IsSrcFilter id
  by unfold_locales (auto simp: mount_AddSrc_def mount_IsSrcFilter_def)

interpretation tcp_saddr: white_list tc_saddr_enable tc_saddrs tcp_AddSaddr tcp_IsSaddrFilter id
  by unfold_locales (auto simp: tcp_AddSaddr_def tcp_IsSaddrFilter_def)

interpretation tcp_pid: white_list tc_pid_enable tc_pids tcp_AddPid tcp_IsPidFilter id
  by unfold_locales (auto simp: tcp_AddPid_def tcp_IsPidFilter_def)

interpretation tcp_sport: white_list tc_sport_enable tc_sports tcp_AddSport tcp_IsSportFilter id
  by unfold_locales (auto simp: tcp_AddSport_def tcp_IsSportFilter_def)

interpretation tcp_dport: white_list tc_dport_enable tc_dports tcp_AddDport tcp_IsDportFilter id
  by unfold_locales (auto simp: tcp_AddDport_def tcp_IsDportFilter_def)

text \<open>Adding to one list of a configuration leaves the rest of it alone.\<close>

lemma process_adds_frame [simp]:
  "pc_comm_enable (fold process_AddPid ps c) = pc_comm_enable c"
  "pc_comms (fold process_AddPid ps c) = pc_comms c"
  "pc_min_duration (fold process_AddPid ps c) = pc_min_duration c"
  "config_name (fold process_AddPid ps c) = config_name c"
  "config_id (fold process_AddPid ps c) = config_id c"
  "pc_pid_enable (fold process_AddComm cs c) = pc_pid_enable c"
  "pc_pids (fold process_AddComm cs c) = pc_pids c"
  "pc_min_duration (fold process_AddComm cs c) = pc_min_duration c"
  "config_name (fold process_AddComm cs c) = config_name c"
  "config_id (fold process_AddComm cs c) = config_id c"
  by (induction ps arbitrary: c; simp add: process_AddPid_def Let_def)+
    (induction cs arbitrary: c; simp add: process_AddComm_def Let_def)+

text \<open>The 16-bit set of the mount configuration takes process IDs for the same that are not.\<close>

lemma mount_pids_alias: "mount_IsPidFilter (mount_AddPid 1 c) 65537 = False"
  using mount_pid.filtered_after [of "[1]" c 65537] by simp

section \<open>The log of the process monitor\<close>

text \<open>
  C16. What the process monitor logs, from the program in the kernel to the log. With a minimum
  duration in milliseconds that does not overflow as nanoseconds, and white lists of process
  IDs and commands, every event the program has submitted is handled without fault: if its
  process and its command pass the lists it becomes an exit line with the process's data and
  its lifetime in whole milliseconds, otherwise nothing is logged; and that lifetime is at least the
  minimum, in the same unit.
\<close>

theorem process_monitor_logs:
  assumes conf: "c0 = SetMinDuration ms (ProcessConfig mid mname False False 0)"
    and ms: "ms \<noteq> 0" "unat ms * 10 ^ 6 < 2 ^ 64"
    and run: "process_reach (ops, rodata_min_duration_ns c0) m0 s" "ev \<in> set (process_rb s)"
    and comm: "c_string (pe_comm ev) = Inr comm"
  shows "ms \<le> pe_duration_ns ev div 1000000 \<and>
    process_handle_event ts (fold process_AddComm cs (fold process_AddPid ps c0)) ev =
    Inr (if (ps = [] \<or> pe_pid ev \<in> set ps) \<and> (cs = [] \<or> comm \<in> set cs)
      then Some \<lparr>log_format = ''[%s, %s] %-8s %-5s %-16s %-7d %-7d [%u] (%ums)'',
        log_args = [LStr mname, LStr mid, LStr ts, LStr ''EXIT'', LStr comm, LU32 (pe_pid ev),
          LU32 (pe_ppid ev), LU32 (pe_exit_code ev), LU64 (pe_duration_ns ev div 1000000)]\<rparr>
      else None)"
proof -
  let ?c = "fold process_AddComm cs (fold process_AddPid ps c0)"
  have ns: "rodata_min_duration_ns c0 = ms * 1000000"
    by (simp add: conf rodata_min_duration_ns_def GetMinDuration_def SetMinDuration_def)
  have un: "unat (ms * 1000000) = unat ms * 1000000"
    using ms(2) by (simp add: unat_word_ariths)
  have "unat ms \<noteq> 0" using ms(1) by (simp add: unat_eq_zero)
  then have "ms * 1000000 \<noteq> 0" using un by (metis mult_is_0 unat_0 zero_neq_numeral)
  then have ev: "pe_exit_event ev" "ms * 1000000 \<le> pe_duration_ns ev"
    using process_submits_long [OF run(1)] run(2) ns by auto
  have "unat ms * 1000000 \<le> unat (pe_duration_ns ev)" using ev(2) un by (simp add: word_le_nat_alt)
  then have "ms \<le> pe_duration_ns ev div 1000000" by (simp add: word_le_nat_alt unat_div)
  moreover have "process_IsPidFilter ?c (pe_pid ev) \<longleftrightarrow> ps \<noteq> [] \<and> pe_pid ev \<notin> set ps"
    using process_pid.filtered_after [of ps c0 "pe_pid ev"]
    by (simp add: process_pid.filtered_iff conf SetMinDuration_def ProcessConfig_def)
  moreover have "process_IsCommFilter ?c comm \<longleftrightarrow> cs \<noteq> [] \<and> comm \<notin> set cs"
    using process_comm.filtered_after [of cs "fold process_AddPid ps c0" comm]
    by (simp add: conf SetMinDuration_def ProcessConfig_def)
  ultimately show ?thesis
    using comm ev(1)
    by (auto simp: process_handle_event_def conf SetMinDuration_def ProcessConfig_def)
qed

section \<open>The flags of a mount\<close>

text \<open>The elements of a list with a separator between them.\<close>

fun joined :: "'a list \<Rightarrow> 'a list list \<Rightarrow> 'a list" where
  "joined sep [] = []"
| "joined sep [s] = s"
| "joined sep (s # ss) = s @ sep @ joined sep ss"

lemma joined_Cons: "ss \<noteq> [] \<Longrightarrow> joined sep (s # ss) = s @ sep @ joined sep ss"
  by (cases ss) auto

text \<open>The loop adds the names of the flags that are set, as long as they fit.\<close>

lemma strflags_loop_result:
  assumes "length str + (\<Sum>i \<leftarrow> js. 3 + length (flag_names ! i)) < 512"
    and "\<forall>i \<in> set js. flag_names ! i \<noteq> []"
  shows "strflags_loop js flags str =
    Inr (joined '' | '' ((if str = [] then [] else [str]) @ map ((!) flag_names) (filter (\<lambda>i. flag_bit i flags) js)))"
  using assms
proof (induction js arbitrary: str)
  case Nil
  then show ?case by simp
next
  case (Cons i js)
  let ?str = "(if str = [] then [] else str @ '' | '') @ flag_names ! i"
  have "strflags_loop js flags ?str = Inr (joined '' | '' ([?str] @ map ((!) flag_names) (filter (\<lambda>i. flag_bit i flags) js)))"
    using Cons.IH [of ?str] Cons.prems by (auto split: if_splits)
  moreover have "joined '' | '' ([?str] @ ss) =
      joined '' | '' ((if str = [] then [] else [str]) @ flag_names ! i # ss)" for ss
    by (cases ss) auto
  ultimately show ?case
    using Cons.IH [of str] Cons.prems by (auto simp: strcat512_def split: if_splits)
qed

lemma flag_lengths: "(\<Sum>i \<leftarrow> [0..<flag_count]. 3 + length (flag_names ! i)) = 422"
  by code_simp

lemma flag_names_nonempty: "\<forall>i \<in> set [0..<flag_count]. flag_names ! i \<noteq> []"
  by code_simp

text \<open>The last flag stands for all bits from the 31st on, as its mask is sign-extended.\<close>

lemma flag_bit_iff:
  assumes "i < 32"
  shows "flag_bit i flags \<longleftrightarrow> (if i < 31 then bit flags i else 2 ^ 31 \<le> flags)"
proof (cases "i < 31")
  case True
  have "scast (push_bit i 1 :: u32) = (push_bit i 1 :: u64)"
    by (rule bit_word_eqI) (use True in \<open>auto simp: bit_simps\<close>)
  then show ?thesis
    using True by (simp add: flag_bit_def push_bit_eq_mult and.commute and_exp_eq_0_iff_not_bit)
next
  case False
  then have i: "i = 31" using assms by simp
  have "(scast (push_bit 31 1 :: u32) :: u64) = NOT (mask 31)" by code_simp
  moreover have "flags AND NOT (mask 31) = 0 \<longleftrightarrow> take_bit 31 flags = flags"
    by (auto simp: bit_eq_iff bit_simps)
  moreover have "take_bit 31 flags = flags \<longleftrightarrow> flags < 2 ^ 31"
  proof -
    have "take_bit 31 flags = flags \<longleftrightarrow> take_bit 31 (uint flags) = uint flags"
      by (metis unsigned_take_bit_eq unsigned_word_eqI)
    also have "\<dots> \<longleftrightarrow> uint flags < 2 ^ 31" by (simp add: take_bit_int_eq_self_iff)
    finally show ?thesis by (simp add: word_less_def)
  qed
  ultimately show ?thesis using i by (auto simp: flag_bit_def and.commute not_less)
qed

lemma strflags_ok: "\<exists>s. strflags flags = Inr s"
  using strflags_loop_result [of "[]" "[0..<flag_count]" flags] flag_lengths flag_names_nonempty
  by (simp add: strflags_def)

text \<open>
  C18. The flags of a mount as text: the names of the flags that are set, in order, with
  separators, always within the array; the last name stands for any bit from the 31st on.
\<close>

theorem strflags_names:
  "strflags flags = Inr (if flags = 0 then ''0x0''
     else joined '' | '' (map ((!) flag_names)
       (filter (\<lambda>i. if i < 31 then bit flags i else 2 ^ 31 \<le> flags) [0..<32])))"
proof -
  have n: "flag_count = 32" by (simp add: flag_count_def flag_names_def)
  have "filter (\<lambda>i. flag_bit i flags) [0..<32] =
      filter (\<lambda>i. if i < 31 then bit flags i else 2 ^ 31 \<le> flags) [0..<32]"
    by (rule filter_cong) (auto simp: flag_bit_iff)
  then show ?thesis
    using strflags_loop_result [of "[]" "[0..<flag_count]" flags] flag_lengths flag_names_nonempty n
    by (simp add: strflags_def del: upt_Suc)
qed

text \<open>A mount event with terminated strings is logged without fault.\<close>

lemma c_string_ok: "0 \<in> set b \<Longrightarrow> \<exists>s. c_string b = Inr s"
  by (simp add: c_string_def)

lemma mount_event_logged:
  assumes "0 \<in> set (me_comm me)" "0 \<in> set (me_src me)" "0 \<in> set (me_dest me)"
    "0 \<in> set (me_fs me)" "0 \<in> set (me_data me)"
  shows "\<exists>l. mount_handle_event name_of ts me = Inr l"
  using assms [THEN c_string_ok] strflags_ok [of "me_flags me"]
  by (auto simp: mount_handle_event_def gen_call_def)

section \<open>Witnesses\<close>

theorem process_monitor_logs_witness:
  "let c0 = SetMinDuration 25 (ProcessConfig ''id'' ''name'' False False 0);
       env = (bounded_map 2, rodata_min_duration_ns c0);
       s = process_do env (Exit (sample_env 0x500000005 30000000) (Some sample_event))
             (process_do env (Exec (sample_env 0x500000005 0) 0 (\<lambda>_ _. []) None)
               \<lparr>exec_start = [], process_rb = []\<rparr>)
   in \<forall>ev \<in> set (process_rb s). 25 \<le> pe_duration_ns ev div 1000000 \<and>
        process_handle_event ''T'' (process_AddPid 5 c0) ev =
          Inr (Some \<lparr>log_format = ''[%s, %s] %-8s %-5s %-16s %-7d %-7d [%u] (%ums)'',
            log_args = [LStr ''name'', LStr ''id'', LStr ''T'', LStr ''EXIT'', LStr [], LU32 5,
              LU32 1, LU32 0, LU64 30]\<rparr>)"
proof -
  let ?c0 = "SetMinDuration 25 (ProcessConfig ''id'' ''name'' False False 0)"
  let ?ops = "bounded_map 2 :: ((u32 \<times> u64) list, u32, u64) map_ops"
  let ?env = "(?ops, rodata_min_duration_ns ?c0)"
  let ?s = "process_do ?env (Exit (sample_env 0x500000005 30000000) (Some sample_event))
      (process_do ?env (Exec (sample_env 0x500000005 0) 0 (\<lambda>_ _. []) None)
        \<lparr>exec_start = [], process_rb = []\<rparr>)"
  let ?ev = "sample_event\<lparr>pe_exit_event := True, pe_duration_ns := 30000000, pe_pid := 5,
      pe_ppid := 1, pe_exit_code := 0, pe_comm := replicate 16 0\<rparr>"
  have run: "process_reach (?ops, rodata_min_duration_ns ?c0) [] ?s" by (intro process_reach.intros)
  have rb: "process_rb ?s = [?ev]"
    by (simp add: handle_exec_def handle_exit_def bounded_map_def sample_env_def drop_bit_eq_div Let_def
        rodata_min_duration_ns_def GetMinDuration_def SetMinDuration_def)
  have "c_string (pe_comm ?ev) = Inr []" by (simp add: c_string_def)
  from process_monitor_logs [OF refl _ _ run _ this, of "''T''" "[]" "[5]"] rb
  have "25 \<le> pe_duration_ns ?ev div 1000000 \<and> process_handle_event ''T'' (process_AddPid 5 ?c0) ?ev =
      Inr (Some \<lparr>log_format = ''[%s, %s] %-8s %-5s %-16s %-7d %-7d [%u] (%ums)'',
        log_args = [LStr ''name'', LStr ''id'', LStr ''T'', LStr ''EXIT'', LStr [], LU32 5,
          LU32 1, LU32 0, LU64 30]\<rparr>)"
    by simp
  then show ?thesis using rb by (simp add: Let_def)
qed

end
