(* ===== verification/Catalog.thy ===== *)
theory Catalog
  imports Monitor_Config
begin

text \<open>
  The monitors of the backend and their catalog: \<^verbatim>\<open>src/backend/Monitor.cc\<close>,
  \<^verbatim>\<open>src/backend/Catalog.cc\<close> and \<^verbatim>\<open>src/backend/utils.h\<close> with their headers, and the polling loops
  that the monitors run in threads of their own, from \<^verbatim>\<open>src/bpftools/*_monitor.cc\<close>.

  A configuration is shared by its monitor and the threads started for it, so it lives in a
  store and a \<^verbatim>\<open>shared_ptr\<close> to it is its position there. A thread only looks at the exit flag of its
  configuration; a step of a thread is loading its program or one round of its loop, from the
  test of the flag to the end of the poll, and steps of threads and operations of the
  catalog interleave freely. Loading and polling belong to the kernel and the library, so their
  results are an argument of the step.
\<close>

section \<open>State\<close>

datatype monitor_type = MPROCESS | MSYSCALL | MMOUNT | MTCPSTATE

datatype monitor_state = START | RUNNING | STOP

datatype any_config = ProcessC process_config | MountC mount_config | TcpC tcpstate_config

datatype main_loop = ProcessLoop | MountLoop | TcpLoop

record monitor =
  m_id :: string
  m_type :: monitor_type
  m_state :: monitor_state
  m_loop :: main_loop
  m_running :: bool
  m_config :: nat
  m_name :: string

datatype phase = Loading | Polling | Ended int

record worker =
  w_loop :: main_loop
  w_config :: nat
  w_phase :: phase

record catalog =
  cat_running :: bool
  cat_output :: string
  monitorMap :: "string \<Rightarrow> monitor option"
  config_store :: "any_config list"
  workers :: "worker list"

text \<open>What ends the whole program: an exception that nobody catches, an invalid access, or a call of \<open>exit\<close>.\<close>

datatype abort = Uncaught | Invalid | Exited

type_synonym 'a run = "abort + 'a"

section \<open>Configurations behind their base class\<close>

fun config_exit :: "any_config \<Rightarrow> bool" where
  "config_exit (ProcessC c) = IsExit c"
| "config_exit (MountC c) = IsExit c"
| "config_exit (TcpC c) = IsExit c"

fun config_SetExit :: "bool \<Rightarrow> any_config \<Rightarrow> any_config" where
  "config_SetExit b (ProcessC c) = ProcessC (SetExit b c)"
| "config_SetExit b (MountC c) = MountC (SetExit b c)"
| "config_SetExit b (TcpC c) = TcpC (SetExit b c)"

text \<open>The virtual method \<^verbatim>\<open>SetConfig\<close>, with the answers of the user.\<close>

fun config_SetConfig :: "char \<Rightarrow> u32 \<Rightarrow> char \<Rightarrow> string \<Rightarrow> any_config \<Rightarrow> any_config" where
  "config_SetConfig flag1 pid flag2 command (ProcessC c) = ProcessC (process_SetConfig flag1 pid flag2 command c)"
| "config_SetConfig flag1 pid flag2 command (MountC c) = MountC c"
| "config_SetConfig flag1 pid flag2 command (TcpC c) = TcpC c"

section \<open>Monitors\<close>

fun monitorFuncMap :: "monitor_type \<Rightarrow> main_loop option" where
  "monitorFuncMap MPROCESS = Some ProcessLoop"
| "monitorFuncMap MMOUNT = Some MountLoop"
| "monitorFuncMap MTCPSTATE = Some TcpLoop"
| "monitorFuncMap MSYSCALL = None"

text \<open>The configuration that \<open>InitConfig\<close> makes; none for system calls.\<close>

fun InitConfig :: "monitor_type \<Rightarrow> string \<Rightarrow> string \<Rightarrow> any_config option" where
  "InitConfig MPROCESS mid name = Some (ProcessC (ProcessConfig mid name False False 0))"
| "InitConfig MSYSCALL mid name = None"
| "InitConfig MMOUNT mid name = Some (MountC (MountConfig mid name False False False False))"
| "InitConfig MTCPSTATE mid name =
     Some (TcpC (TcpStateConfig mid name False False False False False False))"

text \<open>The constructor: \<^verbatim>\<open>at\<close> throws when there is no loop for the type.\<close>

definition new_monitor ::
  "monitor_type \<Rightarrow> string \<Rightarrow> string \<Rightarrow> any_config list \<Rightarrow> (monitor \<times> any_config list) run" where
  "new_monitor ty mid name store =
     (case monitorFuncMap ty of
        None \<Rightarrow> Inl Uncaught
      | Some loop \<Rightarrow>
          (case InitConfig ty mid name of
             None \<Rightarrow> Inl Invalid
           | Some c \<Rightarrow>
               Inr (\<lparr>m_id = mid, m_type = ty, m_state = STOP, m_loop = loop, m_running = False,
                     m_config = length store, m_name = name\<rparr>, store @ [c])))"

definition getStateStr :: "monitor \<Rightarrow> string" where
  "getStateStr m =
     (case m_state m of START \<Rightarrow> ''stop'' | RUNNING \<Rightarrow> ''run'' | STOP \<Rightarrow> ''stop'')"

text \<open>Writing to a configuration through a pointer to it.\<close>

definition update_config :: "nat \<Rightarrow> (any_config \<Rightarrow> any_config) \<Rightarrow> any_config list \<Rightarrow> any_config list run" where
  "update_config p f store = (if p < length store then Inr (store[p := f (store ! p)]) else Inl Invalid)"

definition monitor_start :: "monitor \<Rightarrow> any_config list \<Rightarrow> worker list \<Rightarrow> (monitor \<times> any_config list \<times> worker list) run" where
  "monitor_start m store ws =
     (if \<not> m_running m
      then
        res_bind (update_config (m_config m) (config_SetExit False) store) (\<lambda>store.
          Inr (m\<lparr>m_running := True, m_state := RUNNING\<rparr>, store,
               ws @ [\<lparr>w_loop = m_loop m, w_config = m_config m, w_phase = Loading\<rparr>]))
      else Inr (m, store, ws))"

definition monitor_stop :: "monitor \<Rightarrow> any_config list \<Rightarrow> (monitor \<times> any_config list) run" where
  "monitor_stop m store =
     (if m_running m
      then
        res_bind (update_config (m_config m) (config_SetExit True) store) (\<lambda>store.
          Inr (m\<lparr>m_running := False, m_state := STOP\<rparr>, store))
      else Inr (m, store))"

section \<open>The catalog\<close>

definition empty_catalog :: catalog where
  "empty_catalog =
     \<lparr>cat_running = False, cat_output = [], monitorMap = Map.empty, config_store = [], workers = []\<rparr>"

definition Catalog_Init :: "string \<Rightarrow> catalog \<Rightarrow> catalog" where
  "Catalog_Init output c = c\<lparr>cat_running := True, cat_output := output\<rparr>"

definition Catalog_Stop :: "catalog \<Rightarrow> catalog" where
  "Catalog_Stop c = c\<lparr>cat_running := False\<rparr>"

definition monitorTypeMap :: "string \<Rightarrow> monitor_type option" where
  "monitorTypeMap =
     [''process'' \<mapsto> MPROCESS, ''syscall'' \<mapsto> MSYSCALL, ''mount'' \<mapsto> MMOUNT, ''tcpstate'' \<mapsto> MTCPSTATE]"

text \<open>A random identifier: each character takes two random numbers.\<close>

definition random_char :: "u32 \<Rightarrow> u32 \<Rightarrow> char" where
  "random_char r1 r2 =
     (if r1 mod 3 = 1 then char_of (65 + unat (r2 mod 26))
      else if r1 mod 3 = 2 then char_of (97 + unat (r2 mod 26))
      else char_of (48 + unat (r2 mod 10)))"

definition getRandomId :: "(nat \<Rightarrow> u32) \<Rightarrow> nat \<Rightarrow> string" where
  "getRandomId rnd len = map (\<lambda>i. random_char (rnd (2 * i)) (rnd (2 * i + 1))) [0..<len]"

definition AddMonitor :: "(nat \<Rightarrow> u32) \<Rightarrow> string \<Rightarrow> string \<Rightarrow> catalog \<Rightarrow> (bool \<times> catalog) run" where
  "AddMonitor rnd typestr name c =
     (case monitorTypeMap typestr of
        None \<Rightarrow> Inr (False, c)
      | Some ty \<Rightarrow>
          let monitorid = getRandomId rnd 16
          in res_bind (new_monitor ty monitorid name (config_store c)) (\<lambda>(m, store).
               Inr (True, c\<lparr>monitorMap := (monitorMap c)(monitorid \<mapsto> m), config_store := store\<rparr>)))"

definition StartMonitor :: "string \<Rightarrow> catalog \<Rightarrow> (bool \<times> catalog) run" where
  "StartMonitor mid c =
     (case monitorMap c mid of
        None \<Rightarrow> Inr (False, c)
      | Some m \<Rightarrow>
          res_bind (monitor_start m (config_store c) (workers c)) (\<lambda>(m, store, ws).
            Inr (True, c\<lparr>monitorMap := (monitorMap c)(mid \<mapsto> m), config_store := store, workers := ws\<rparr>)))"

definition StopAndRemoveMonitor :: "string \<Rightarrow> catalog \<Rightarrow> (bool \<times> catalog) run" where
  "StopAndRemoveMonitor mid c =
     (case monitorMap c mid of
        None \<Rightarrow> Inr (False, c)
      | Some m \<Rightarrow>
          res_bind (monitor_stop m (config_store c)) (\<lambda>(m, store).
            Inr (True, c\<lparr>monitorMap := (monitorMap c)(mid \<mapsto> m), config_store := store\<rparr>)))"

definition GetMonitor :: "string \<Rightarrow> catalog \<Rightarrow> monitor option" where
  "GetMonitor mid c = monitorMap c mid"

text \<open>The first monitor of that name in the order in which the map is traversed.\<close>

definition GetMonitorByName :: "string list \<Rightarrow> string \<Rightarrow> catalog \<Rightarrow> monitor option" where
  "GetMonitorByName order name c =
     find (\<lambda>m. m_name m = name) (map (\<lambda>mid. the (monitorMap c mid)) order)"

definition monitor_SetConfig ::
  "char \<Rightarrow> u32 \<Rightarrow> char \<Rightarrow> string \<Rightarrow> string \<Rightarrow> catalog \<Rightarrow> catalog run" where
  "monitor_SetConfig flag1 pid flag2 command mid c =
     (case monitorMap c mid of
        None \<Rightarrow> Inr c
      | Some m \<Rightarrow>
          res_bind (update_config (m_config m) (config_SetConfig flag1 pid flag2 command) (config_store c))
            (\<lambda>store. Inr (c\<lparr>config_store := store\<rparr>)))"

section \<open>The polling loops\<close>

text \<open>
  What the kernel and the library do when a thread sets up its program: whether the limit of locked memory
  can be raised, and then the program cannot be opened, a later part of the set-up fails with an error
  number, or the set-up succeeds.
\<close>

datatype setup_result = OpenFails | SetupFails int | SetupOk

record setup_env =
  setrlimit_ok :: bool
  set_up :: setup_result

abbreviation all_ok :: setup_env where
  "all_ok \<equiv> \<lparr>setrlimit_ok = True, set_up = SetupOk\<rparr>"

text \<open>From whatever thread it is called, a failure ends the process.\<close>

definition bump_memlock_rlimit :: "setup_env \<Rightarrow> unit run" where
  "bump_memlock_rlimit env = (if setrlimit_ok env then Inr () else Inl Exited)"

text \<open>The kind of configuration each loop casts its argument to; a wrong kind gives a null pointer.\<close>

fun loop_fits :: "main_loop \<Rightarrow> any_config \<Rightarrow> bool" where
  "loop_fits ProcessLoop (ProcessC c) = True"
| "loop_fits MountLoop (MountC c) = True"
| "loop_fits TcpLoop (TcpC c) = True"
| "loop_fits _ _ = False"

abbreviation "NEG_EINTR \<equiv> (- 4 :: int)"

text \<open>The set-up of each loop, with its value when it fails.\<close>

fun loop_setup :: "main_loop \<Rightarrow> setup_result \<Rightarrow> phase" where
  "loop_setup ProcessLoop OpenFails = Ended 1"
| "loop_setup ProcessLoop (SetupFails err) = Ended (if err < 0 then - err else 0)"
| "loop_setup MountLoop OpenFails = Ended 1"
| "loop_setup MountLoop (SetupFails err) = Ended (if err \<noteq> 0 then 1 else 0)"
| "loop_setup TcpLoop OpenFails = Ended 0"
| "loop_setup TcpLoop (SetupFails err) = Ended 0"
| "loop_setup _ SetupOk = Polling"

text \<open>The start of each loop: all but that of the mount monitor raise the limit first.\<close>

fun raises_limit :: "main_loop \<Rightarrow> bool" where
  "raises_limit ProcessLoop = True"
| "raises_limit MountLoop = False"
| "raises_limit TcpLoop = True"

definition loop_start :: "main_loop \<Rightarrow> setup_env \<Rightarrow> phase run" where
  "loop_start l env =
     res_bind (if raises_limit l then bump_memlock_rlimit env else Inr ()) (\<lambda>_. Inr (loop_setup l (set_up env)))"

text \<open>One round: the flag is tested, then the poll returns; what the loop makes of its result.\<close>

fun loop_poll :: "main_loop \<Rightarrow> int \<Rightarrow> phase" where
  "loop_poll ProcessLoop err =
     (if err = NEG_EINTR then Ended 0 else if err < 0 then Ended (- err) else Polling)"
| "loop_poll MountLoop err = (if err < 0 \<and> err \<noteq> NEG_EINTR then Ended 1 else Polling)"
| "loop_poll TcpLoop err = (if err < 0 \<and> err \<noteq> NEG_EINTR then Ended 0 else Polling)"

text \<open>
  A step of a thread: \<open>env\<close> is what happens if it sets up its program, \<open>err\<close> what a poll returns
  if it polls.
\<close>

definition worker_step :: "any_config list \<Rightarrow> setup_env \<Rightarrow> int \<Rightarrow> worker \<Rightarrow> worker run" where
  "worker_step store env err w =
     (if w_config w \<ge> length store \<or> \<not> loop_fits (w_loop w) (store ! w_config w) then Inl Invalid
      else
        case w_phase w of
          Loading \<Rightarrow> res_bind (loop_start (w_loop w) env) (\<lambda>ph. Inr (w\<lparr>w_phase := ph\<rparr>))
        | Polling \<Rightarrow>
            if config_exit (store ! w_config w) then Inr (w\<lparr>w_phase := Ended 0\<rparr>)
            else Inr (w\<lparr>w_phase := loop_poll (w_loop w) err\<rparr>)
        | Ended r \<Rightarrow> Inr w)"

section \<open>Interleavings\<close>

text \<open>
  The operations of the server's or the console's thread, and the steps of the others, in any
  order.
\<close>

datatype action =
    Add "nat \<Rightarrow> u32" string string
  | Start string
  | Stop string
  | SetConf char u32 char string string
  | Work nat setup_env int

fun do_action :: "action \<Rightarrow> catalog \<Rightarrow> catalog run" where
  "do_action (Add rnd typestr name) c = map_sum id snd (AddMonitor rnd typestr name c)"
| "do_action (Start mid) c = map_sum id snd (StartMonitor mid c)"
| "do_action (Stop mid) c = map_sum id snd (StopAndRemoveMonitor mid c)"
| "do_action (SetConf f1 pid f2 command mid) c = monitor_SetConfig f1 pid f2 command mid c"
| "do_action (Work n env err) c =
     (if n < length (workers c)
      then res_bind (worker_step (config_store c) env err (workers c ! n)) (\<lambda>w.
             Inr (c\<lparr>workers := (workers c)[n := w]\<rparr>))
      else Inr c)"

fun do_actions :: "action list \<Rightarrow> catalog \<Rightarrow> catalog run" where
  "do_actions [] c = Inr c"
| "do_actions (a # as) c = res_bind (do_action a c) (do_actions as)"

inductive catalog_reach :: "catalog \<Rightarrow> bool" where
  start: "catalog_reach (Catalog_Init output empty_catalog)"
| act: "catalog_reach c \<Longrightarrow> do_action a c = Inr c' \<Longrightarrow> catalog_reach c'"

section \<open>The invariant\<close>

text \<open>
  Of a monitor: its identifier is its key, its configuration is there, is its own and is of the kind
  that its loop expects; its state says whether it is running, and its exit flag is clear then.
\<close>

definition monitor_ok :: "any_config list \<Rightarrow> string \<Rightarrow> monitor \<Rightarrow> bool" where
  "monitor_ok store mid m \<longleftrightarrow>
     m_id m = mid \<and> m_config m < length store \<and>
     loop_fits (m_loop m) (store ! m_config m) \<and>
     monitorFuncMap (m_type m) = Some (m_loop m) \<and>
     m_state m = (if m_running m then RUNNING else STOP) \<and>
     (m_running m \<longrightarrow> \<not> config_exit (store ! m_config m))"

definition worker_ok :: "any_config list \<Rightarrow> worker \<Rightarrow> bool" where
  "worker_ok store w \<longleftrightarrow> w_config w < length store \<and> loop_fits (w_loop w) (store ! w_config w)"

definition ended :: "worker \<Rightarrow> bool" where
  "ended w \<longleftrightarrow> (case w_phase w of Ended r \<Rightarrow> True | _ \<Rightarrow> False)"

definition catalog_inv :: "catalog \<Rightarrow> bool" where
  "catalog_inv c \<longleftrightarrow>
     (\<forall>mid m. monitorMap c mid = Some m \<longrightarrow> monitor_ok (config_store c) mid m) \<and>
     (\<forall>mid m mid' m'. monitorMap c mid = Some m \<longrightarrow> monitorMap c mid' = Some m' \<longrightarrow>
        m_config m = m_config m' \<longrightarrow> mid = mid') \<and>
     (\<forall>w \<in> set (workers c). worker_ok (config_store c) w) \<and>
     (\<forall>mid m. monitorMap c mid = Some m \<longrightarrow> \<not> m_running m \<longrightarrow>
        (\<forall>w \<in> set (workers c). w_config w = m_config m \<longrightarrow> ended w \<or> config_exit (config_store c ! m_config m)))"

lemma catalog_invD:
  assumes "catalog_inv c"
  shows "monitorMap c mid = Some m \<Longrightarrow> monitor_ok (config_store c) mid m"
    and "monitorMap c mid = Some m \<Longrightarrow> monitorMap c mid' = Some m' \<Longrightarrow> m_config m = m_config m' \<Longrightarrow> mid = mid'"
    and "w \<in> set (workers c) \<Longrightarrow> worker_ok (config_store c) w"
    and "monitorMap c mid = Some m \<Longrightarrow> \<not> m_running m \<Longrightarrow> w \<in> set (workers c) \<Longrightarrow>
      w_config w = m_config m \<Longrightarrow> ended w \<or> config_exit (config_store c ! m_config m)"
  using assms unfolding catalog_inv_def by blast+

lemma config_SetExit_simps [simp]:
  "config_exit (config_SetExit b c) = b"
  "loop_fits l (config_SetExit b c) = loop_fits l c"
  by (cases c; cases l; simp add: IsExit_def SetExit_def)+

lemma config_SetConfig_simps [simp]:
  "config_exit (config_SetConfig f1 pid f2 command c) = config_exit c"
  "loop_fits l (config_SetConfig f1 pid f2 command c) = loop_fits l c"
  by (cases c; cases l;
      simp add: IsExit_def process_SetConfig_def process_AddPid_def process_AddComm_def Let_def)+

lemma monitor_ok_append: "monitor_ok store mid m \<Longrightarrow> monitor_ok (store @ xs) mid m"
  by (auto simp: monitor_ok_def nth_append)

lemma worker_ok_append: "worker_ok store w \<Longrightarrow> worker_ok (store @ xs) w"
  by (auto simp: worker_ok_def nth_append)

text \<open>One lemma per operation: it succeeds and keeps the invariant.\<close>

lemma new_monitor_result:
  "new_monitor ty mid name store =
     (if ty = MSYSCALL then Inl Uncaught
      else Inr (\<lparr>m_id = mid, m_type = ty, m_state = STOP, m_loop = the (monitorFuncMap ty), m_running = False,
                 m_config = length store, m_name = name\<rparr>, store @ [the (InitConfig ty mid name)]))"
  by (cases ty) (simp_all add: new_monitor_def)

lemma new_monitor_fits:
  "ty \<noteq> MSYSCALL \<Longrightarrow> loop_fits (the (monitorFuncMap ty)) (the (InitConfig ty mid name))"
  "ty \<noteq> MSYSCALL \<Longrightarrow> monitorFuncMap ty = Some (the (monitorFuncMap ty))"
  by (cases ty; simp)+

lemma AddMonitor_keeps:
  assumes inv: "catalog_inv c" and ty: "monitorTypeMap typestr \<noteq> Some MSYSCALL"
  shows "\<exists>b c'. AddMonitor rnd typestr name c = Inr (b, c') \<and> catalog_inv c'"
proof (cases "monitorTypeMap typestr")
  case None
  then show ?thesis using inv by (auto simp: AddMonitor_def)
next
  case (Some ty')
  then have t: "ty' \<noteq> MSYSCALL" using ty by auto
  let ?st = "config_store c @ [the (InitConfig ty' (getRandomId rnd 16) name)]"
  let ?m = "\<lparr>m_id = getRandomId rnd 16, m_type = ty', m_state = STOP, m_loop = the (monitorFuncMap ty'),
    m_running = False, m_config = length (config_store c), m_name = name\<rparr>"
  let ?c = "c\<lparr>monitorMap := (monitorMap c)(getRandomId rnd 16 \<mapsto> ?m), config_store := ?st\<rparr>"
  have new: "monitor_ok ?st (getRandomId rnd 16) ?m"
    using new_monitor_fits [OF t] by (simp add: monitor_ok_def)
  have bound: "m_config m < length (config_store c)" if "monitorMap c mid = Some m" for mid m
    using catalog_invD(1) [OF inv that] by (simp add: monitor_ok_def)
  have wbound: "w_config w < length (config_store c)" if "w \<in> set (workers c)" for w
    using catalog_invD(3) [OF inv that] by (simp add: worker_ok_def)
  have "catalog_inv ?c"
    unfolding catalog_inv_def
  proof (intro conjI allI impI ballI)
    show "monitor_ok (config_store ?c) mid m" if "monitorMap ?c mid = Some m" for mid m
      using that new catalog_invD(1) [OF inv, THEN monitor_ok_append] by (auto split: if_splits)
    show "mid = mid'" if "monitorMap ?c mid = Some m" "monitorMap ?c mid' = Some m'" "m_config m = m_config m'"
      for mid m mid' m'
      using that bound catalog_invD(2) [OF inv] by (fastforce split: if_splits)
    show "worker_ok (config_store ?c) w" if "w \<in> set (workers ?c)" for w
      using that catalog_invD(3) [OF inv, THEN worker_ok_append] by simp
    show "ended w \<or> config_exit (config_store ?c ! m_config m)"
      if "monitorMap ?c mid = Some m" "\<not> m_running m" "w \<in> set (workers ?c)" "w_config w = m_config m" for mid m w
      using that wbound [of w] bound [of mid m] catalog_invD(4) [OF inv, of mid m w]
      by (auto simp: nth_append split: if_splits)
  qed
  then show ?thesis using Some t by (auto simp: AddMonitor_def new_monitor_result Let_def)
qed


text \<open>
  Starting and stopping change one monitor, the flag of its configuration and, when starting, the
  threads on it.
\<close>

lemma touch_keeps:
  assumes inv: "catalog_inv c" and m: "monitorMap c mid = Some m"
    and m': "m_config m' = m_config m" "m_id m' = m_id m" "m_loop m' = m_loop m" "m_type m' = m_type m"
      "m_state m' = (if m_running m' then RUNNING else STOP)"
    and b: "b = (\<not> m_running m')"
    and ws: "\<And>w. w \<in> set ws \<Longrightarrow> w \<in> set (workers c) \<or> w_config w = m_config m \<and> w_loop w = m_loop m"
  shows "update_config (m_config m) (config_SetExit b) (config_store c) =
      Inr ((config_store c)[m_config m := config_SetExit b (config_store c ! m_config m)])"
    and "catalog_inv (c\<lparr>monitorMap := (monitorMap c)(mid \<mapsto> m'),
      config_store := (config_store c)[m_config m := config_SetExit b (config_store c ! m_config m)],
      workers := ws\<rparr>)" (is "catalog_inv ?c")
proof -
  let ?p = "m_config m" and ?st = "(config_store c)[m_config m := config_SetExit b (config_store c ! m_config m)]"
  note ok = catalog_invD(1) [OF inv]
  have p: "?p < length (config_store c)" using ok [OF m] by (simp add: monitor_ok_def)
  then show "update_config ?p (config_SetExit b) (config_store c) = Inr ?st" by (simp add: update_config_def)
  have fits: "loop_fits l (?st ! q) = loop_fits l (config_store c ! q)" if "q < length (config_store c)" for l q
    using that by (cases "q = ?p") simp_all
  have other: "m_config m1 \<noteq> ?p" if "monitorMap c mid1 = Some m1" "mid1 \<noteq> mid" for mid1 m1
    using catalog_invD(2) [OF inv that(1) m] that(2) by auto
  show "catalog_inv ?c"
    unfolding catalog_inv_def
  proof (intro conjI allI impI ballI)
    show "monitor_ok (config_store ?c) mid1 m1" if "monitorMap ?c mid1 = Some m1" for mid1 m1
    proof (cases "mid1 = mid")
      case True
      then have "m1 = m'" using that by simp
      then show ?thesis using ok [OF m] m' b p True by (simp add: monitor_ok_def)
    next
      case False
      then have "monitorMap c mid1 = Some m1" using that by simp
      then show ?thesis using ok [of mid1 m1] other [of mid1 m1] False fits by (simp add: monitor_ok_def)
    qed
    show "mid1 = mid2"
      if "monitorMap ?c mid1 = Some m1" "monitorMap ?c mid2 = Some m2" "m_config m1 = m_config m2" for mid1 m1 mid2 m2
      using that other m'(1) catalog_invD(2) [OF inv, of mid1 m1 mid2 m2] by (auto split: if_splits)
    show "worker_ok (config_store ?c) w" if "w \<in> set (workers ?c)" for w
      using that ws [of w] catalog_invD(3) [OF inv, of w] ok [OF m] fits p
      by (auto simp: worker_ok_def monitor_ok_def)
    show "ended w \<or> config_exit (config_store ?c ! m_config m1)"
      if "monitorMap ?c mid1 = Some m1" "\<not> m_running m1" "w \<in> set (workers ?c)" "w_config w = m_config m1" for mid1 m1 w
    proof (cases "mid1 = mid")
      case True
      then have "m1 = m'" using that(1) by simp
      then show ?thesis using that(2) b p m'(1) by simp
    next
      case False
      then have m1: "monitorMap c mid1 = Some m1" using that(1) by simp
      have "w \<in> set (workers c)" using ws [of w] that(3,4) other [OF m1 False] by auto
      then show ?thesis
        using catalog_invD(4) [OF inv m1 that(2) _ that(4)] other [OF m1 False] by simp
    qed
  qed
qed

lemma StartMonitor_keeps:
  assumes inv: "catalog_inv c"
  shows "\<exists>b c'. StartMonitor mid c = Inr (b, c') \<and> catalog_inv c'"
proof (cases "monitorMap c mid")
  case None
  then show ?thesis using inv by (auto simp: StartMonitor_def)
next
  case (Some m)
  note ok = catalog_invD(1) [OF inv Some]
  show ?thesis
  proof (cases "m_running m")
    case True
    then show ?thesis using Some inv by (auto simp: StartMonitor_def monitor_start_def map_upd_triv)
  next
    case False
    let ?w = "\<lparr>w_loop = m_loop m, w_config = m_config m, w_phase = Loading\<rparr>"
    have "w \<in> set (workers c) \<or> w_config w = m_config m \<and> w_loop w = m_loop m"
      if "w \<in> set (workers c @ [?w])" for w
      using that by auto
    then show ?thesis
      using touch_keeps [OF inv Some, of "m\<lparr>m_running := True, m_state := RUNNING\<rparr>" False "workers c @ [?w]"] Some False
      by (auto simp: StartMonitor_def monitor_start_def)
  qed
qed

lemma StopMonitor_keeps:
  assumes inv: "catalog_inv c"
  shows "\<exists>b c'. StopAndRemoveMonitor mid c = Inr (b, c') \<and> catalog_inv c'"
proof (cases "monitorMap c mid")
  case None
  then show ?thesis using inv by (auto simp: StopAndRemoveMonitor_def)
next
  case (Some m)
  show ?thesis
  proof (cases "m_running m")
    case True
    show ?thesis
      using touch_keeps [OF inv Some, of "m\<lparr>m_running := False, m_state := STOP\<rparr>" True "workers c"] Some True
      by (auto simp: StopAndRemoveMonitor_def monitor_stop_def)
  next
    case False
    then show ?thesis using Some inv by (auto simp: StopAndRemoveMonitor_def monitor_stop_def map_upd_triv)
  qed
qed

text \<open>Steps that only replace a configuration by one of its kind with the same flag, or a thread.\<close>

lemma frame_keeps:
  assumes inv: "catalog_inv c" and l: "length store = length (config_store c)"
    and same: "\<And>q l. q < length store \<Longrightarrow> config_exit (store ! q) = config_exit (config_store c ! q) \<and>
      loop_fits l (store ! q) = loop_fits l (config_store c ! q)"
    and ws: "\<And>w. w \<in> set ws \<Longrightarrow> \<exists>w0 \<in> set (workers c). w_config w = w_config w0 \<and> w_loop w = w_loop w0 \<and>
      (ended w0 \<longrightarrow> ended w)"
  shows "catalog_inv (c\<lparr>config_store := store, workers := ws\<rparr>)" (is "catalog_inv ?c")
  unfolding catalog_inv_def
proof (intro conjI allI impI ballI)
  show "monitor_ok (config_store ?c) mid m" if "monitorMap ?c mid = Some m" for mid m
    using catalog_invD(1) [OF inv, of mid m] that l same by (simp add: monitor_ok_def)
  show "mid = mid'" if "monitorMap ?c mid = Some m" "monitorMap ?c mid' = Some m'" "m_config m = m_config m'" for mid m mid' m'
    using catalog_invD(2) [OF inv, of mid m mid' m'] that by simp
  show "worker_ok (config_store ?c) w" if "w \<in> set (workers ?c)" for w
    using ws [of w] that catalog_invD(3) [OF inv] l same by (fastforce simp: worker_ok_def)
  show "ended w \<or> config_exit (config_store ?c ! m_config m)"
    if m: "monitorMap ?c mid = Some m" and "\<not> m_running m" "w \<in> set (workers ?c)" "w_config w = m_config m" for mid m w
  proof -
    have "m_config m < length store" using catalog_invD(1) [OF inv, of mid m] m l by (simp add: monitor_ok_def)
    then show ?thesis
      using ws [of w] that catalog_invD(4) [OF inv, of mid m] same by fastforce
  qed
qed

lemma conf_keeps:
  assumes inv: "catalog_inv c"
  shows "\<exists>c'. monitor_SetConfig f1 pid f2 command mid c = Inr c' \<and> catalog_inv c'"
proof (cases "monitorMap c mid")
  case None
  then show ?thesis using inv by (simp add: monitor_SetConfig_def)
next
  case (Some m)
  let ?p = "m_config m"
  let ?st = "(config_store c)[?p := config_SetConfig f1 pid f2 command (config_store c ! ?p)]"
  have p: "?p < length (config_store c)" using catalog_invD(1) [OF inv Some] by (simp add: monitor_ok_def)
  have "config_exit (?st ! q) = config_exit (config_store c ! q) \<and>
      loop_fits l (?st ! q) = loop_fits l (config_store c ! q)" if "q < length ?st" for q l
    using that by (cases "q = ?p") simp_all
  then have "catalog_inv (c\<lparr>config_store := ?st, workers := workers c\<rparr>)"
    by (intro frame_keeps [OF inv]) auto
  then show ?thesis using Some p by (simp add: monitor_SetConfig_def update_config_def)
qed

text \<open>A thread that loads its program and cannot raise the limit.\<close>

definition worker_exits :: "setup_env \<Rightarrow> worker \<Rightarrow> bool" where
  "worker_exits env w \<longleftrightarrow> w_phase w = Loading \<and> w_loop w \<noteq> MountLoop \<and> \<not> setrlimit_ok env"

lemma raises_limit_iff: "raises_limit l \<longleftrightarrow> l \<noteq> MountLoop"
  by (cases l) simp_all

lemma worker_step_result:
  assumes "worker_ok store w"
  shows "if worker_exits env w then worker_step store env err w = Inl Exited
    else \<exists>w'. worker_step store env err w = Inr w' \<and> w_config w' = w_config w \<and> w_loop w' = w_loop w \<and>
      (ended w \<longrightarrow> ended w')"
  using assms
  by (auto simp: worker_ok_def worker_step_def ended_def worker_exits_def loop_start_def bump_memlock_rlimit_def
      raises_limit_iff split: phase.splits)

lemma work_exits:
  assumes "catalog_inv c" "n < length (workers c)" "worker_exits env (workers c ! n)"
  shows "do_action (Work n env err) c = Inl Exited"
  using worker_step_result [OF catalog_invD(3) [OF assms(1)], of "workers c ! n" env err] assms(2,3) by auto

lemma work_keeps:
  assumes inv: "catalog_inv c" and runs: "\<not> (n < length (workers c) \<and> worker_exits env (workers c ! n))"
  shows "\<exists>c'. do_action (Work n env err) c = Inr c' \<and> catalog_inv c'"
proof (cases "n < length (workers c)")
  case False
  then show ?thesis using inv by simp
next
  case True
  then obtain w where w: "worker_step (config_store c) env err (workers c ! n) = Inr w"
      "w_config w = w_config (workers c ! n)" "w_loop w = w_loop (workers c ! n)" "ended (workers c ! n) \<longrightarrow> ended w"
    using worker_step_result [OF catalog_invD(3) [OF inv], of "workers c ! n" env err] runs by (auto split: if_splits)
  have ws: "\<exists>w0 \<in> set (workers c). w_config w1 = w_config w0 \<and> w_loop w1 = w_loop w0 \<and> (ended w0 \<longrightarrow> ended w1)"
    if "w1 \<in> set ((workers c)[n := w])" for w1
    using set_update_subset_insert [of "workers c" n w] that True w(2-4) nth_mem [OF True]
    by (cases "w1 = w") blast+
  have "catalog_inv (c\<lparr>config_store := config_store c, workers := (workers c)[n := w]\<rparr>)"
    by (rule frame_keeps [OF inv]) (simp_all add: ws)
  then show ?thesis using True w(1) by simp
qed

text \<open>The two kinds of steps that end the program.\<close>

definition throws :: "action \<Rightarrow> bool" where
  "throws a \<longleftrightarrow> (\<exists>rnd name. a = Add rnd ''syscall'' name)"

definition exits :: "catalog \<Rightarrow> action \<Rightarrow> bool" where
  "exits c a \<longleftrightarrow> (\<exists>n env err. a = Work n env err \<and> n < length (workers c) \<and> worker_exits env (workers c ! n))"

lemma throws_result: "throws a \<Longrightarrow> do_action a c = Inl Uncaught"
  by (auto simp: throws_def AddMonitor_def monitorTypeMap_def new_monitor_result Let_def)

lemma action_keeps:
  assumes "catalog_inv c" and "\<not> throws a" and "\<not> exits c a"
  shows "\<exists>c'. do_action a c = Inr c' \<and> catalog_inv c'"
proof (cases a)
  case (Add rnd typestr name)
  have "monitorTypeMap typestr \<noteq> Some MSYSCALL"
    using assms(2) Add by (auto simp: throws_def monitorTypeMap_def split: if_splits)
  then show ?thesis using AddMonitor_keeps [OF assms(1), of typestr rnd name] Add by auto
next
  case (Start mid)
  then show ?thesis using StartMonitor_keeps [OF assms(1), of mid] by auto
next
  case (Stop mid)
  then show ?thesis using StopMonitor_keeps [OF assms(1), of mid] by auto
next
  case (SetConf f1 pid f2 command mid)
  then show ?thesis using conf_keeps [OF assms(1)] by simp
next
  case (Work n env err)
  then show ?thesis using work_keeps [OF assms(1), of n env err] assms(3) by (simp add: exits_def del: do_action.simps)
qed


lemma empty_catalog_inv: "catalog_inv (Catalog_Init output empty_catalog)"
  by (simp add: catalog_inv_def Catalog_Init_def empty_catalog_def)

lemma do_action_keeps:
  assumes "catalog_inv c" "do_action a c = Inr c'"
  shows "catalog_inv c'"
proof (cases "throws a \<or> exits c a")
  case True
  then show ?thesis using assms(2) throws_result [of a c] work_exits [OF assms(1)] by (auto simp: exits_def)
next
  case False
  then show ?thesis using action_keeps [OF assms(1), of a] assms(2) by auto
qed

lemma catalog_reach_inv: "catalog_reach c \<Longrightarrow> catalog_inv c"
  by (induction rule: catalog_reach.induct) (auto intro: empty_catalog_inv do_action_keeps)

text \<open>
  C25. However the operations of the catalog and the steps of the threads interleave, the
  catalog stays consistent: every monitor is stored under its identifier, with a configuration
  of its own that has the kind its loop expects, reports \<open>run\<close> exactly if it has been started
  and not stopped since, with its exit flag clear then, and every thread left over from a
  stopped monitor sees the flag set. Two kinds of steps end the program, and nothing else does: adding a
  monitor for system calls, the type that the catalog knows and the monitors do not; and the first
  step of a thread of a process or TCP state monitor, when it cannot raise the limit of locked memory.
\<close>

theorem catalog_stays_consistent:
  assumes "catalog_reach c"
  shows "catalog_inv c \<and>
    (do_action a c = Inl Uncaught \<longleftrightarrow> (\<exists>rnd name. a = Add rnd ''syscall'' name)) \<and>
    (do_action a c = Inl Exited \<longleftrightarrow>
      (\<exists>n env err. a = Work n env err \<and> n < length (workers c) \<and> w_phase (workers c ! n) = Loading \<and>
         w_loop (workers c ! n) \<noteq> MountLoop \<and> \<not> setrlimit_ok env)) \<and>
    do_action a c \<noteq> Inl Invalid"
proof -
  note inv = catalog_reach_inv [OF assms]
  consider "throws a" "\<not> exits c a" | "exits c a" "\<not> throws a" | "\<not> throws a" "\<not> exits c a"
    by (cases a) (auto simp: throws_def exits_def)
  then have "catalog_inv c \<and> (do_action a c = Inl Uncaught \<longleftrightarrow> throws a) \<and> (do_action a c = Inl Exited \<longleftrightarrow> exits c a) \<and>
    do_action a c \<noteq> Inl Invalid"
  proof cases
    case 1
    then show ?thesis using throws_result [of a c] inv by simp
  next
    case 2
    then have "do_action a c = Inl Exited" using work_exits [OF inv] by (auto simp: exits_def)
    then show ?thesis using 2 inv by simp
  next
    case 3
    then show ?thesis using action_keeps [OF inv 3] inv by auto
  qed
  then show ?thesis unfolding throws_def exits_def worker_exits_def .
qed

section \<open>Stopping\<close>

text \<open>How many steps a thread takes at most to its end once its exit flag is set.\<close>

definition steps_left :: "worker \<Rightarrow> nat" where
  "steps_left w = (case w_phase w of Loading \<Rightarrow> 2 | Polling \<Rightarrow> 1 | Ended r \<Rightarrow> 0)"

lemma steps_left_0: "steps_left w = 0 \<longleftrightarrow> ended w"
  by (simp add: steps_left_def ended_def split: phase.split)

definition turns :: "nat \<Rightarrow> action list \<Rightarrow> nat" where
  "turns n as = length (filter (\<lambda>a. case a of Work n' env err \<Rightarrow> n' = n | _ \<Rightarrow> False) as)"

lemma worker_step_left:
  assumes "worker_step store env err w = Inr w'" "config_exit (store ! w_config w) \<or> ended w"
  shows "steps_left w' \<le> steps_left w - 1 \<and> w_config w' = w_config w"
  using assms
  by (cases "set_up env"; cases "w_loop w")
    (auto simp: worker_step_def steps_left_def ended_def loop_start_def res_bind_eq_Inr split: phase.splits if_splits)

text \<open>
  The configuration of a stopped monitor: as long as the monitor is not started, its flag stays
  set or all its threads have ended, no thread is added to it and each of its threads gets on
  with every step.
\<close>

definition draining :: "string \<Rightarrow> nat \<Rightarrow> catalog \<Rightarrow> bool" where
  "draining mid p c \<longleftrightarrow> p < length (config_store c) \<and>
     (config_exit (config_store c ! p) \<or> (\<forall>w \<in> set (workers c). w_config w = p \<longrightarrow> ended w)) \<and>
     (\<forall>mid' m. monitorMap c mid' = Some m \<longrightarrow> m_config m = p \<longrightarrow> mid' = mid)"

definition gets_on :: "nat \<Rightarrow> catalog \<Rightarrow> catalog \<Rightarrow> (nat \<Rightarrow> nat) \<Rightarrow> bool" where
  "gets_on p c c' k \<longleftrightarrow> (\<forall>n < length (workers c'). w_config (workers c' ! n) = p \<longrightarrow>
     n < length (workers c) \<and> w_config (workers c ! n) = p \<and>
     steps_left (workers c' ! n) \<le> steps_left (workers c ! n) - k n)"

lemma gets_on_refl: "workers c' = workers c \<Longrightarrow> gets_on p c c' (\<lambda>_. 0)"
  by (simp add: gets_on_def)

lemma gets_on_trans:
  assumes "gets_on p c c' k" "gets_on p c' c'' k'"
  shows "gets_on p c c'' (\<lambda>n. k n + k' n)"
  using assms unfolding gets_on_def by fastforce

lemma update_config_other:
  assumes "update_config q f store = Inr store'" "p < length store" "q \<noteq> p \<or> (\<forall>c. config_exit c \<longrightarrow> config_exit (f c))"
  shows "p < length store' \<and> (config_exit (store ! p) \<longrightarrow> config_exit (store' ! p))"
  using assms by (cases "q = p") (auto simp: update_config_def split: if_splits)

lemma drain_start:
  assumes d: "draining mid p c" and act: "StartMonitor mid' c = Inr (b, c')" and ne: "mid' \<noteq> mid"
  shows "draining mid p c' \<and> gets_on p c c' (\<lambda>_. 0)"
proof (cases "monitorMap c mid'")
  case None
  then show ?thesis using d act gets_on_refl by (simp add: StartMonitor_def)
next
  case (Some m)
  show ?thesis
  proof (cases "m_running m")
    case True
    then have "c' = c" using Some act by (simp add: StartMonitor_def monitor_start_def map_upd_triv)
    then show ?thesis using d gets_on_refl by simp
  next
    case False
    have np: "m_config m \<noteq> p" using d Some ne by (auto simp: draining_def)
    obtain st where st: "update_config (m_config m) (config_SetExit False) (config_store c) = Inr st"
      and c': "c' = c\<lparr>monitorMap := (monitorMap c)(mid' \<mapsto> m\<lparr>m_running := True, m_state := RUNNING\<rparr>),
        config_store := st, workers := workers c @ [\<lparr>w_loop = m_loop m, w_config = m_config m, w_phase = Loading\<rparr>]\<rparr>"
      using act Some False by (auto simp: StartMonitor_def monitor_start_def res_bind_eq_Inr)
    show ?thesis
      using d update_config_other [OF st, of p] np c'
      by (auto simp: draining_def gets_on_def nth_append split: if_splits)
  qed
qed

lemma drain_stop:
  assumes d: "draining mid p c" and act: "StopAndRemoveMonitor mid' c = Inr (b, c')"
  shows "draining mid p c' \<and> gets_on p c c' (\<lambda>_. 0)"
proof (cases "monitorMap c mid'")
  case None
  then show ?thesis using d act gets_on_refl by (simp add: StopAndRemoveMonitor_def)
next
  case (Some m)
  show ?thesis
  proof (cases "m_running m")
    case False
    then have "c' = c" using Some act by (simp add: StopAndRemoveMonitor_def monitor_stop_def map_upd_triv)
    then show ?thesis using d gets_on_refl by simp
  next
    case True
    obtain st where st: "update_config (m_config m) (config_SetExit True) (config_store c) = Inr st"
      and c': "c' = c\<lparr>monitorMap := (monitorMap c)(mid' \<mapsto> m\<lparr>m_running := False, m_state := STOP\<rparr>), config_store := st\<rparr>"
      using act Some True by (auto simp: StopAndRemoveMonitor_def monitor_stop_def res_bind_eq_Inr)
    show ?thesis
      using d Some update_config_other [OF st, of p] c'
      by (auto simp: draining_def gets_on_def split: if_splits)
  qed
qed

lemma drain_add:
  assumes d: "draining mid p c" and act: "AddMonitor rnd typestr name c = Inr (b, c')"
  shows "draining mid p c' \<and> gets_on p c c' (\<lambda>_. 0)"
  using assms gets_on_refl [of c' c p]
  by (auto simp: AddMonitor_def new_monitor_result draining_def nth_append Let_def
      split: option.splits if_splits)

lemma drain_conf:
  assumes d: "draining mid p c" and act: "monitor_SetConfig f1 pid f2 command mid' c = Inr c'"
  shows "draining mid p c' \<and> gets_on p c c' (\<lambda>_. 0)"
proof (cases "monitorMap c mid'")
  case None
  then show ?thesis using d act gets_on_refl by (simp add: monitor_SetConfig_def)
next
  case (Some m)
  then obtain st where st: "update_config (m_config m) (config_SetConfig f1 pid f2 command) (config_store c) = Inr st"
    and c': "c' = c\<lparr>config_store := st\<rparr>"
    using act by (auto simp: monitor_SetConfig_def res_bind_eq_Inr)
  then show ?thesis
    using d update_config_other [OF st, of p] by (auto simp: draining_def gets_on_def)
qed

lemma drain_work:
  assumes d: "draining mid p c" and act: "do_action (Work n env err) c = Inr c'"
  shows "draining mid p c' \<and> gets_on p c c' (\<lambda>n'. if n' = n then 1 else 0)"
proof (cases "n < length (workers c)")
  case False
  then show ?thesis using d act by (simp add: gets_on_def)
next
  case True
  then obtain w where w: "worker_step (config_store c) env err (workers c ! n) = Inr w"
    and c': "c' = c\<lparr>workers := (workers c)[n := w]\<rparr>"
    using act by (auto simp: res_bind_eq_Inr)
  have w1: "w_config w = w_config (workers c ! n)" "ended (workers c ! n) \<Longrightarrow> ended w"
    using w by (auto simp: worker_step_def ended_def res_bind_eq_Inr split: if_splits phase.splits)
  have le: "steps_left w \<le> steps_left (workers c ! n) - 1" if "w_config w = p"
    using worker_step_left [OF w] d that w1(1) True by (auto simp: draining_def)
  have "\<forall>w2 \<in> set (workers c'). w_config w2 = p \<longrightarrow> ended w2"
    if e: "\<forall>w2 \<in> set (workers c). w_config w2 = p \<longrightarrow> ended w2"
  proof
    fix w2
    assume "w2 \<in> set (workers c')"
    then have "w2 = w \<or> w2 \<in> set (workers c)" using c' set_update_subset_insert by fastforce
    then show "w_config w2 = p \<longrightarrow> ended w2" using e w1 nth_mem [OF True] by auto
  qed
  then have "draining mid p c'" using d c' by (auto simp: draining_def)
  moreover have "gets_on p c c' (\<lambda>n'. if n' = n then 1 else 0)"
    using c' w1(1) le by (auto simp: gets_on_def nth_list_update)
  ultimately show ?thesis ..
qed

lemma map_sum_snd_Inr: "map_sum id snd r = Inr c \<longleftrightarrow> (\<exists>b. r = Inr (b, c))"
  by (cases r) auto

lemma drain_action:
  assumes "draining mid p c" "do_action a c = Inr c'" "a \<noteq> Start mid"
  shows "draining mid p c' \<and> gets_on p c c' (\<lambda>n. turns n [a])"
proof (cases a)
  case (Add rnd typestr name)
  then obtain b where "AddMonitor rnd typestr name c = Inr (b, c')"
    using assms(2) by (auto simp: map_sum_snd_Inr)
  from drain_add [OF assms(1) this] show ?thesis by (simp add: Add turns_def)
next
  case (Start mid')
  then obtain b where "StartMonitor mid' c = Inr (b, c')"
    using assms(2) by (auto simp: map_sum_snd_Inr)
  from drain_start [OF assms(1) this] show ?thesis using assms(3) by (simp add: Start turns_def)
next
  case (Stop mid')
  then obtain b where "StopAndRemoveMonitor mid' c = Inr (b, c')"
    using assms(2) by (auto simp: map_sum_snd_Inr)
  from drain_stop [OF assms(1) this] show ?thesis by (simp add: Stop turns_def)
next
  case (SetConf f1 pid f2 command mid')
  then have "monitor_SetConfig f1 pid f2 command mid' c = Inr c'" using assms(2) by simp
  from drain_conf [OF assms(1) this] show ?thesis by (simp add: SetConf turns_def)
next
  case (Work n env err)
  have "(\<lambda>n'. turns n' [a]) = (\<lambda>n'. if n' = n then 1 else 0)" by (auto simp: turns_def Work)
  then show ?thesis using drain_work [OF assms(1)] assms(2) Work by simp
qed

lemma turns_Cons: "turns n (a # as) = turns n [a] + turns n as"
  by (simp add: turns_def)

lemma drain_actions:
  assumes "draining mid p c" "do_actions as c = Inr c'" "Start mid \<notin> set as"
  shows "gets_on p c c' (\<lambda>n. turns n as)"
  using assms
proof (induction as arbitrary: c)
  case Nil
  then show ?case by (simp add: gets_on_def turns_def)
next
  case (Cons a as)
  then obtain c1 where c1: "do_action a c = Inr c1" "do_actions as c1 = Inr c'" by (auto simp: res_bind_eq_Inr)
  have "draining mid p c1" "gets_on p c c1 (\<lambda>n. turns n [a])"
    using drain_action [OF Cons.prems(1) c1(1)] Cons.prems(3) by auto
  then show ?case
    using gets_on_trans [of p c c1 "\<lambda>n. turns n [a]" c' "\<lambda>n. turns n as"] Cons.IH [OF _ c1(2)] Cons.prems(3)
    by (simp add: turns_Cons [of _ a as])
qed

lemma stop_drains:
  assumes inv: "catalog_inv c" and m: "monitorMap c mid = Some m" and act: "do_action (Stop mid) c = Inr c1"
  shows "draining mid (m_config m) c1 \<and> gets_on (m_config m) c c1 (\<lambda>_. 0)"
proof -
  have p: "m_config m < length (config_store c)" using catalog_invD(1) [OF inv m] by (simp add: monitor_ok_def)
  have own: "mid' = mid" if "monitorMap c mid' = Some m'" "m_config m' = m_config m" for mid' m'
    using catalog_invD(2) [OF inv that(1) m that(2)] .
  show ?thesis
  proof (cases "m_running m")
    case True
    then have "c1 = c\<lparr>monitorMap := (monitorMap c)(mid \<mapsto> m\<lparr>m_running := False, m_state := STOP\<rparr>),
        config_store := (config_store c)[m_config m := config_SetExit True (config_store c ! m_config m)]\<rparr>"
      using m act p by (simp add: StopAndRemoveMonitor_def monitor_stop_def update_config_def)
    then show ?thesis using p own by (auto simp: draining_def gets_on_def)
  next
    case False
    then have "c1 = c" using m act by (simp add: StopAndRemoveMonitor_def monitor_stop_def map_upd_triv)
    then show ?thesis
      using p own catalog_invD(4) [OF inv m False] by (auto simp: draining_def gets_on_def)
  qed
qed

text \<open>
  C32. Stopping a monitor ends its threads: after a stop, whatever else happens in whatever
  order, as long as the monitor is not started again no thread is added for it, and each of its
  threads has ended once it has had two turns.
\<close>

theorem stop_ends_threads:
  assumes "catalog_reach c" "monitorMap c mid = Some m"
    and "do_actions (Stop mid # as) c = Inr c'" "Start mid \<notin> set as"
    and "n < length (workers c')" "w_config (workers c' ! n) = m_config m" "2 \<le> turns n as"
  shows "n < length (workers c) \<and> ended (workers c' ! n)"
proof -
  note inv = catalog_reach_inv [OF assms(1)]
  obtain c1 where c1: "do_action (Stop mid) c = Inr c1" "do_actions as c1 = Inr c'"
    using assms(3) by (auto simp: res_bind_eq_Inr)
  have "draining mid (m_config m) c1 \<and> gets_on (m_config m) c c1 (\<lambda>_. 0)"
    by (rule stop_drains [OF inv assms(2) c1(1)])
  then have "gets_on (m_config m) c c' (\<lambda>n. 0 + turns n as)"
    using drain_actions [OF _ c1(2) assms(4)] gets_on_trans by blast
  then have "n < length (workers c)" "steps_left (workers c' ! n) \<le> steps_left (workers c ! n) - turns n as"
    using assms(5,6) by (simp_all add: gets_on_def)
  moreover have "steps_left (workers c ! n) \<le> 2" by (simp add: steps_left_def split: phase.split)
  ultimately have "steps_left (workers c' ! n) = 0" using assms(7) by simp
  then show ?thesis using \<open>n < length (workers c)\<close> by (simp add: steps_left_0)
qed


text \<open>
  Without that condition the claim fails: a monitor that is started again before its thread
  has seen the flag clears it, and both threads go on. The catalog still reports one monitor.
\<close>

lemma restart_runs_two_loops:
  "(case do_actions [Add (\<lambda>_. 0) ''mount'' ''m'', Start (replicate 16 CHR ''0''), Work 0 all_ok 0,
        Stop (replicate 16 CHR ''0''), Start (replicate 16 CHR ''0''), Work 1 all_ok 0, Work 0 all_ok 0,
        Work 1 all_ok 0] empty_catalog of
      Inl e \<Rightarrow> False
    | Inr c \<Rightarrow> map w_phase (workers c) = [Polling, Polling] \<and> map w_config (workers c) = [0, 0])"
  by code_simp

section \<open>Witnesses\<close>

definition sample_id :: string where
  "sample_id = replicate 16 CHR ''0''"

definition sample_actions :: "action list" where
  "sample_actions = [Add (\<lambda>_. 0) ''mount'' ''m'', Start sample_id, Work 0 all_ok 0]"

lemma do_actions_reach:
  "catalog_reach c \<Longrightarrow> do_actions as c = Inr c' \<Longrightarrow> catalog_reach c'"
  by (induction as arbitrary: c) (auto simp: res_bind_eq_Inr intro: catalog_reach.act)

theorem catalog_stays_consistent_witness:
  "\<exists>c. do_actions (sample_actions @ [Add (\<lambda>_. 1) ''process'' ''p'', Start (replicate 16 CHR ''B'')])
       (Catalog_Init [] empty_catalog) = Inr c \<and> catalog_inv c \<and>
     do_action (Add (\<lambda>_. 0) ''syscall'' []) c = Inl Uncaught \<and>
     do_action (Work 1 \<lparr>setrlimit_ok = False, set_up = SetupOk\<rparr> 0) c = Inl Exited"
proof -
  let ?as = "sample_actions @ [Add (\<lambda>_. 1) ''process'' ''p'', Start (replicate 16 CHR ''B'')]"
  have "case do_actions ?as (Catalog_Init [] empty_catalog) of
      Inl e \<Rightarrow> False
    | Inr c \<Rightarrow> map w_loop (workers c) = [MountLoop, ProcessLoop] \<and> map w_phase (workers c) = [Polling, Loading]"
    by code_simp
  then obtain c where c: "do_actions ?as (Catalog_Init [] empty_catalog) = Inr c"
      "map w_loop (workers c) = [MountLoop, ProcessLoop]" "map w_phase (workers c) = [Polling, Loading]"
    by (auto split: sum.splits)
  then have w: "1 < length (workers c)" "w_loop (workers c ! 1) = ProcessLoop" "w_phase (workers c ! 1) = Loading"
    by (auto simp: map_eq_Cons_conv)
  note inv = catalog_stays_consistent [OF do_actions_reach [OF catalog_reach.start c(1)]]
  have "do_action (Add (\<lambda>_. 0) ''syscall'' []) c = Inl Uncaught"
    using inv [of "Add (\<lambda>_. 0) ''syscall'' []"] by blast
  moreover have "\<exists>n env err. Work 1 \<lparr>setrlimit_ok = False, set_up = SetupOk\<rparr> 0 = Work n env err \<and>
      n < length (workers c) \<and> w_phase (workers c ! n) = Loading \<and> w_loop (workers c ! n) \<noteq> MountLoop \<and> \<not> setrlimit_ok env"
    by (rule exI [of _ 1], rule exI [of _ "\<lparr>setrlimit_ok = False, set_up = SetupOk\<rparr>"], rule exI [of _ 0]) (use w in simp)
  then have "do_action (Work 1 \<lparr>setrlimit_ok = False, set_up = SetupOk\<rparr> 0) c = Inl Exited"
    using inv [of "Work 1 \<lparr>setrlimit_ok = False, set_up = SetupOk\<rparr> 0"] by blast
  ultimately show ?thesis using conjunct1 [OF inv] c(1) by blast
qed

theorem stop_ends_threads_witness:
  "\<exists>c c'. do_actions sample_actions (Catalog_Init [] empty_catalog) = Inr c \<and>
     do_actions [Stop sample_id, Work 0 all_ok 0, Work 0 all_ok 0] c = Inr c' \<and> ended (workers c' ! 0)"
proof -
  have "case do_actions sample_actions (Catalog_Init [] empty_catalog) of
      Inl e \<Rightarrow> False
    | Inr c \<Rightarrow> (case do_actions [Stop sample_id, Work 0 all_ok 0, Work 0 all_ok 0] c of
          Inl e \<Rightarrow> False
        | Inr c' \<Rightarrow> (case monitorMap c sample_id of None \<Rightarrow> False
            | Some m \<Rightarrow> length (workers c') = 1 \<and> w_config (workers c' ! 0) = m_config m))"
    by code_simp
  then obtain c c' m where c: "do_actions sample_actions (Catalog_Init [] empty_catalog) = Inr c"
      "do_actions [Stop sample_id, Work 0 all_ok 0, Work 0 all_ok 0] c = Inr c'"
      "monitorMap c sample_id = Some m" "length (workers c') = 1" "w_config (workers c' ! 0) = m_config m"
    by (auto split: sum.splits option.splits)
  have "ended (workers c' ! 0)"
    using stop_ends_threads [OF do_actions_reach [OF catalog_reach.start c(1)] c(3,2), of 0] c(4,5)
    by (simp add: turns_def)
  then show ?thesis using c by blast
qed

end
