(* ===== verification/Server.thy ===== *)
theory Server
  imports Catalog
begin

text \<open>
  The server of the daemon, \<^verbatim>\<open>src/backend/Server.cc\<close>: it reads a message, finds out what is
  asked, asks the catalog and writes a reply; and the other end of the protocol, the messages of the
  client in \<^verbatim>\<open>src/frontend/message.go\<close>.

  The messages are split with \<^verbatim>\<open>boost::split\<close>, which is not part of the repository: it is the argument
  \<open>split\<close>, a text and the separators to the list of tokens. \<open>splits_fields\<close> is what the
  server relies on. The order in which the map of monitors is traversed is the argument \<open>order\<close>,
  the numbers of the random generator \<open>rnd\<close>.
\<close>

section \<open>Messages\<close>

datatype message_type = IdType | CmdType | LookUpType | ErrType

record id_response =
  ir_valid :: bool
  ir_err :: string
  ir_state :: string

record monitor_identifier =
  mi_valid :: bool
  mi_name :: string
  mi_id :: string

abbreviation "NL \<equiv> CHR 0x0A"

type_synonym splitter = "string \<Rightarrow> string \<Rightarrow> string list"

definition getMessageType :: "splitter \<Rightarrow> string list \<Rightarrow> message_type \<times> string" where
  "getMessageType split msg_lines =
     (if length msg_lines < 1 then (ErrType, [])
      else
        let kv_pair = split (msg_lines ! 0) '':''
        in if length kv_pair \<noteq> 2 then (ErrType, [])
           else
             let v = kv_pair ! 1
             in if v = ''id'' then (IdType, v)
                else if v = ''init'' \<or> v = ''set'' \<or> v = ''stop'' \<or> v = ''run'' then (CmdType, v)
                else if v = ''look'' then (LookUpType, v)
                else (ErrType, v))"

text \<open>The loop over the lines, with the keys that are still expected.\<close>

fun idmsg_loop :: "splitter \<Rightarrow> string list \<Rightarrow> string list \<Rightarrow> nat \<Rightarrow> monitor_identifier \<Rightarrow> monitor_identifier" where
  "idmsg_loop split (line # ls) (k # keys) i r =
     (let kvpair = split line '':''
      in if length kvpair \<noteq> 2 then r\<lparr>mi_valid := False\<rparr>
         else if kvpair ! 0 \<noteq> k then r\<lparr>mi_valid := False\<rparr>
         else
           let r = (if i = 1 then r\<lparr>mi_name := kvpair ! 1\<rparr> else r);
               r = (if i = 2 then r\<lparr>mi_id := kvpair ! 1\<rparr> else r)
           in idmsg_loop split ls keys (i + 1) r)"
| "idmsg_loop split _ _ i r = r"

definition idmsg2MonitorIdentifier :: "splitter \<Rightarrow> string list \<Rightarrow> monitor_identifier" where
  "idmsg2MonitorIdentifier split msglines =
     (let r = \<lparr>mi_valid = True, mi_name = [], mi_id = []\<rparr>
      in if length msglines \<noteq> 3 then r\<lparr>mi_valid := False\<rparr>
         else idmsg_loop split msglines [''msgtype'', ''m_name'', ''m_id''] 0 r)"

definition Identifier2idmsg :: "id_response \<Rightarrow> string" where
  "Identifier2idmsg r =
     ''valid:'' @ (if ir_valid r then ''1'' else ''0'') @ [NL] @
     ''error:'' @ ir_err r @ [NL] @ ''state:'' @ ir_state r"

section \<open>Requests\<close>

text \<open>The last branch reads the name of the monitor without asking whether there is one.\<close>

definition checkExsitMonitor :: "string list \<Rightarrow> monitor_identifier \<Rightarrow> catalog \<Rightarrow> monitor option run" where
  "checkExsitMonitor order identifier c =
     (if mi_id identifier \<noteq> [] \<and> mi_name identifier = [] then Inr (GetMonitor (mi_id identifier) c)
      else if mi_id identifier = [] \<and> mi_name identifier \<noteq> []
      then Inr (GetMonitorByName order (mi_name identifier) c)
      else
        case GetMonitor (mi_id identifier) c of
          None \<Rightarrow> Inl Invalid
        | Some m \<Rightarrow> if m_name m \<noteq> mi_name identifier then Inr None else Inr (Some m))"

definition handle_id :: "splitter \<Rightarrow> string list \<Rightarrow> string list \<Rightarrow> catalog \<Rightarrow> string run" where
  "handle_id split order ls c =
     (let midentifier = idmsg2MonitorIdentifier split ls
      in if \<not> mi_valid midentifier
         then Inr (Identifier2idmsg
           \<lparr>ir_valid = False, ir_err = ''The Id Massenge is not valid format'', ir_state = ''null''\<rparr>)
         else
           res_bind (checkExsitMonitor order midentifier c) (\<lambda>found.
             Inr (Identifier2idmsg
               \<lparr>ir_valid = True, ir_err = ''null'',
                ir_state = (case found of None \<Rightarrow> ''not exist'' | Some m \<Rightarrow> getStateStr m)\<rparr>)))"

text \<open>
  A command. That the message may have been invalid is not looked at, and \<open>run\<close> and \<open>stop\<close> use the
  monitor that has been found without asking whether there is one.
\<close>

definition handle_cmd ::
  "splitter \<Rightarrow> string list \<Rightarrow> (nat \<Rightarrow> u32) \<Rightarrow> string \<Rightarrow> string list \<Rightarrow> catalog \<Rightarrow> (string \<times> catalog) run" where
  "handle_cmd split order rnd header ls c =
     (let midentifier = idmsg2MonitorIdentifier split ls
      in res_bind (checkExsitMonitor order midentifier c) (\<lambda>found.
           if header = ''run'' then
             (case found of
                None \<Rightarrow> Inl Invalid
              | Some m \<Rightarrow>
                  res_bind (StartMonitor (m_id m) c) (\<lambda>(ok, c).
                    Inr (Identifier2idmsg
                      \<lparr>ir_valid = ok,
                       ir_err = (if ok then ''null'' else ''Start Monitor '' @ mi_id midentifier @ '' error'' @ [NL]),
                       ir_state = ''run''\<rparr>, c)))
           else if header = ''set'' then
             Inr (Identifier2idmsg \<lparr>ir_valid = True, ir_err = ''null'', ir_state = ''run''\<rparr>, c)
           else if header = ''stop'' then
             (case found of
                None \<Rightarrow> Inl Invalid
              | Some m \<Rightarrow>
                  res_bind (StopAndRemoveMonitor (m_id m) c) (\<lambda>(ok, c).
                    Inr (Identifier2idmsg
                      \<lparr>ir_valid = ok,
                       ir_err = (if ok then ''null'' else ''Stop Monitor '' @ mi_id midentifier @ '' error'' @ [NL]),
                       ir_state = ''stop''\<rparr>, c)))
           else
             res_bind (AddMonitor rnd ''process'' (mi_name midentifier) c) (\<lambda>(ok, c).
               Inr (Identifier2idmsg
                 \<lparr>ir_valid = ok,
                  ir_err = (if ok then ''null'' else ''Init Monitor '' @ mi_id midentifier @ '' error'' @ [NL]),
                  ir_state = ''stop''\<rparr>, c))))"

definition handle_message ::
  "splitter \<Rightarrow> string list \<Rightarrow> (nat \<Rightarrow> u32) \<Rightarrow> string \<Rightarrow> catalog \<Rightarrow> (string \<times> catalog) run" where
  "handle_message split order rnd msg c =
     (let ls = split msg [NL]; (messageType, header_value) = getMessageType split ls
      in case messageType of
           IdType \<Rightarrow> res_bind (handle_id split order ls c) (\<lambda>reply. Inr (reply, c))
         | CmdType \<Rightarrow> handle_cmd split order rnd header_value ls c
         | LookUpType \<Rightarrow> Inr ([], c)
         | ErrType \<Rightarrow> Inr ([], c))"

section \<open>Connections\<close>

text \<open>
  What a read returns is put into a buffer of 1024 zeros, which is then read as a C string; a
  buffer that is filled and has no zero is read beyond its end.
\<close>

definition received :: "string \<Rightarrow> string run" where
  "received data =
     (if length data < 1024 \<or> CHR 0x00 \<in> set data then Inr (takeWhile (\<lambda>ch. ch \<noteq> CHR 0x00) data)
      else Inl Invalid)"

text \<open>
  A round of the loop of a connection: what the read returns (at most the size of the buffer),
  the order and the random numbers of the moment, and what the write returns. The connection is
  closed when a read returns nothing or fails, and when a write fails; \<open>len\<close> is an unsigned number, so
  an error is a number above the size of the buffer.
\<close>

datatype round = ReadFails | Round string "string list" "nat \<Rightarrow> u32" u64

fun serve_client :: "splitter \<Rightarrow> round list \<Rightarrow> catalog \<Rightarrow> (string list \<times> catalog) run" where
  "serve_client split [] c = Inr ([], c)"
| "serve_client split (ReadFails # rs) c = Inr ([], c)"
| "serve_client split (Round data order rnd written # rs) c =
     (if data = [] then Inr ([], c)
      else
        res_bind (received data) (\<lambda>msg.
        res_bind (handle_message split order rnd msg c) (\<lambda>(reply, c).
          if written > 1024 then Inr ([reply], c)
          else res_bind (serve_client split rs c) (\<lambda>(replies, c). Inr (reply # replies, c)))))"

text \<open>The clients, one after the other, until \<^verbatim>\<open>accept\<close> fails.\<close>

fun Server_Run :: "splitter \<Rightarrow> round list list \<Rightarrow> catalog \<Rightarrow> (string list list \<times> catalog) run" where
  "Server_Run split [] c = Inr ([], c)"
| "Server_Run split (client # clients) c =
     res_bind (serve_client split client c) (\<lambda>(replies, c).
     res_bind (Server_Run split clients c) (\<lambda>(rest, c). Inr (replies # rest, c)))"

section \<open>The client's messages\<close>

datatype client_state = notexist_state | run_state | stop_state | null_state

record common_response =
  IsValid :: bool
  ErrorMsg :: string

record identifier_response =
  Common :: common_response
  MonitorState :: client_state

text \<open>\<^verbatim>\<open>strings.Split\<close> of Go with a separator of one character.\<close>

fun go_split :: "char \<Rightarrow> string \<Rightarrow> string list" where
  "go_split sep [] = [[]]"
| "go_split sep (ch # s) =
     (if ch = sep then [] # go_split sep s
      else (case go_split sep s of [] \<Rightarrow> [[ch]] | t # ts \<Rightarrow> (ch # t) # ts))"

definition splitKv :: "string \<Rightarrow> (string \<times> string) option" where
  "splitKv msg =
     (let kv = go_split CHR '':'' msg in if length kv \<noteq> 2 then None else Some (kv ! 0, kv ! 1))"

definition getCmdMsg :: "string \<Rightarrow> string \<Rightarrow> string \<Rightarrow> string" where
  "getCmdMsg mname mid cmdtype =
     ''msgtype:'' @ cmdtype @ [NL] @ ''m_name:'' @ mname @ [NL] @ ''m_id:'' @ mid"

definition getIdentifierMsg :: "string \<Rightarrow> string \<Rightarrow> string" where
  "getIdentifierMsg mname mid =
     ''msgtype:id'' @ [NL] @ ''m_name:'' @ mname @ [NL] @ ''m_id:'' @ mid"

definition getLookupMsg :: string where
  "getLookupMsg = ''msgtype:look''"

text \<open>There are as many keys as lines wherever it is called.\<close>

fun checkAndgetKv :: "string list \<Rightarrow> string list \<Rightarrow> string list option" where
  "checkAndgetKv [] keys = Some []"
| "checkAndgetKv (msg # msgs) (k # keys) =
     (case splitKv msg of
        None \<Rightarrow> None
      | Some (key, v) \<Rightarrow>
          if key \<noteq> k then None
          else (case checkAndgetKv msgs keys of None \<Rightarrow> None | Some vs \<Rightarrow> Some (v # vs)))"
| "checkAndgetKv (msg # msgs) [] = None"

definition parseValidAndErrmsg :: "string list \<Rightarrow> common_response option" where
  "parseValidAndErrmsg v =
     (if v ! 0 = ''1'' then Some \<lparr>IsValid = True, ErrorMsg = v ! 1\<rparr>
      else if v ! 0 = ''0'' then Some \<lparr>IsValid = False, ErrorMsg = v ! 1\<rparr>
      else None)"

definition parseIdReponse :: "string \<Rightarrow> identifier_response option" where
  "parseIdReponse resmsg =
     (let msgs = go_split NL resmsg
      in if length msgs \<noteq> 3 then None
         else
           case checkAndgetKv msgs [''valid'', ''error'', ''state''] of
             None \<Rightarrow> None
           | Some v \<Rightarrow>
               (case parseValidAndErrmsg v of
                  None \<Rightarrow> None
                | Some common \<Rightarrow>
                    if v ! 2 = ''not exist'' then Some \<lparr>Common = common, MonitorState = notexist_state\<rparr>
                    else if v ! 2 = ''run'' then Some \<lparr>Common = common, MonitorState = run_state\<rparr>
                    else if v ! 2 = ''stop'' then Some \<lparr>Common = common, MonitorState = stop_state\<rparr>
                    else None))"

definition parseCommonResponse :: "string \<Rightarrow> common_response option" where
  "parseCommonResponse resmsg =
     (let msgs = go_split NL resmsg
      in if length msgs \<noteq> 2 then None
         else
           case checkAndgetKv msgs [''valid'', ''error''] of
             None \<Rightarrow> None
           | Some v \<Rightarrow> parseValidAndErrmsg v)"

section \<open>Splitting\<close>

text \<open>
  What the server relies on: fields that hold no separator, joined with it, are told apart
  again. Adjacent separators count as one, so only the first and the last field may be empty.
\<close>

definition splits_fields :: "splitter \<Rightarrow> bool" where
  "splits_fields split \<longleftrightarrow>
     (\<forall>sep parts. parts \<noteq> [] \<longrightarrow> (\<forall>p \<in> set parts. sep \<notin> set p) \<longrightarrow>
        (\<forall>p \<in> set (butlast (tl parts)). p \<noteq> []) \<longrightarrow> split (joined [sep] parts) [sep] = parts)"

lemma splits_two:
  assumes "splits_fields split" "sep \<notin> set k" "sep \<notin> set v"
  shows "split (k @ sep # v) [sep] = [k, v]"
  using assms(1) [unfolded splits_fields_def, rule_format, of "[k, v]" sep] assms(2,3) by auto

lemma splits_three:
  assumes "splits_fields split" "sep \<notin> set x" "sep \<notin> set y" "sep \<notin> set z" "y \<noteq> []"
  shows "split (x @ sep # y @ sep # z) [sep] = [x, y, z]"
  using assms(1) [unfolded splits_fields_def, rule_format, of "[x, y, z]" sep] assms(2-5) by auto

lemma go_split_one: "sep \<notin> set s \<Longrightarrow> go_split sep s = [s]"
  by (induction s) auto

lemma go_split_Cons: "sep \<notin> set s \<Longrightarrow> go_split sep (s @ sep # t) = s # go_split sep t"
  by (induction s) auto

lemma go_split_joined:
  assumes "parts \<noteq> []" "\<forall>p \<in> set parts. sep \<notin> set p"
  shows "go_split sep (joined [sep] parts) = parts"
  using assms
proof (induction parts rule: induct_list012)
  case 1
  then show ?case by simp
next
  case (2 p)
  then show ?case by (simp add: go_split_one)
next
  case (3 p q ps)
  then show ?case by (simp add: go_split_Cons)
qed

text \<open>The hypothesis can be met.\<close>

lemma go_split_splits_fields: "splits_fields (\<lambda>s seps. go_split (hd seps) s)"
  by (auto simp: splits_fields_def go_split_joined)

section \<open>Requests and replies\<close>

text \<open>Names and identifiers that the protocol can carry.\<close>

definition plain :: "string \<Rightarrow> bool" where
  "plain s \<longleftrightarrow> NL \<notin> set s \<and> CHR '':'' \<notin> set s \<and> CHR 0x00 \<notin> set s"

text \<open>The server finds in a message of the client what the client has put there.\<close>

lemma request_parsed:
  assumes sp: "splits_fields split" and t: "plain t" and n: "plain name" and i: "plain mid"
  shows "split (getCmdMsg name mid t) [NL] = [''msgtype:'' @ t, ''m_name:'' @ name, ''m_id:'' @ mid]"
    and "getMessageType split [''msgtype:'' @ t, ''m_name:'' @ name, ''m_id:'' @ mid] =
      (if t = ''id'' then IdType
       else if t = ''init'' \<or> t = ''set'' \<or> t = ''stop'' \<or> t = ''run'' then CmdType
       else if t = ''look'' then LookUpType else ErrType, t)"
    and "idmsg2MonitorIdentifier split [''msgtype:'' @ t, ''m_name:'' @ name, ''m_id:'' @ mid] =
      \<lparr>mi_valid = True, mi_name = name, mi_id = mid\<rparr>"
proof -
  have kv: "split (''msgtype:'' @ t) '':'' = [''msgtype'', t]" "split (''m_name:'' @ name) '':'' = [''m_name'', name]"
    "split (''m_id:'' @ mid) '':'' = [''m_id'', mid]"
    using splits_two [OF sp, of "CHR '':''" "''msgtype''" t] splits_two [OF sp, of "CHR '':''" "''m_name''" name]
      splits_two [OF sp, of "CHR '':''" "''m_id''" mid] t n i by (simp_all add: plain_def)
  show "split (getCmdMsg name mid t) [NL] = [''msgtype:'' @ t, ''m_name:'' @ name, ''m_id:'' @ mid]"
    using splits_three [OF sp, of NL "''msgtype:'' @ t" "''m_name:'' @ name" "''m_id:'' @ mid"] t n i
    by (simp add: plain_def getCmdMsg_def)
  show "getMessageType split [''msgtype:'' @ t, ''m_name:'' @ name, ''m_id:'' @ mid] =
      (if t = ''id'' then IdType
       else if t = ''init'' \<or> t = ''set'' \<or> t = ''stop'' \<or> t = ''run'' then CmdType
       else if t = ''look'' then LookUpType else ErrType, t)"
    using kv(1) by (simp add: getMessageType_def Let_def)
  show "idmsg2MonitorIdentifier split [''msgtype:'' @ t, ''m_name:'' @ name, ''m_id:'' @ mid] =
      \<lparr>mi_valid = True, mi_name = name, mi_id = mid\<rparr>"
    using kv by (simp add: idmsg2MonitorIdentifier_def Let_def numeral_2_eq_2)
qed

text \<open>The client finds in a reply what the server has put there.\<close>

definition state_of :: "string \<Rightarrow> client_state option" where
  "state_of s = map_of [(''not exist'', notexist_state), (''run'', run_state), (''stop'', stop_state)] s"

lemma reply_parsed:
  assumes "plain (ir_err r)" "state_of (ir_state r) = Some st"
  shows "parseIdReponse (Identifier2idmsg r) =
    Some \<lparr>Common = \<lparr>IsValid = ir_valid r, ErrorMsg = ir_err r\<rparr>, MonitorState = st\<rparr>"
proof -
  let ?v = "if ir_valid r then ''1'' else ''0''"
  have st: "ir_state r \<in> {''not exist'', ''run'', ''stop''}"
    using assms(2) by (auto simp: state_of_def split: if_splits)
  then have pst: "NL \<notin> set (ir_state r)" "CHR '':'' \<notin> set (ir_state r)" by auto
  have "Identifier2idmsg r = joined [NL] [''valid:'' @ ?v, ''error:'' @ ir_err r, ''state:'' @ ir_state r]"
    by (simp add: Identifier2idmsg_def)
  then have "go_split NL (Identifier2idmsg r) = [''valid:'' @ ?v, ''error:'' @ ir_err r, ''state:'' @ ir_state r]"
    using go_split_joined [of "[''valid:'' @ ?v, ''error:'' @ ir_err r, ''state:'' @ ir_state r]" NL] assms(1) pst
    by (simp add: plain_def)
  moreover have "splitKv (''valid:'' @ ?v) = Some (''valid'', ?v)"
    "splitKv (''error:'' @ ir_err r) = Some (''error'', ir_err r)"
    "splitKv (''state:'' @ ir_state r) = Some (''state'', ir_state r)"
    using go_split_joined [of "[''valid'', ?v]" "CHR '':''"] go_split_joined [of "[''error'', ir_err r]" "CHR '':''"]
      go_split_joined [of "[''state'', ir_state r]" "CHR '':''"] assms(1) pst
    by (simp_all add: splitKv_def plain_def)
  ultimately show ?thesis
    using st assms(2) by (auto simp: parseIdReponse_def parseValidAndErrmsg_def state_of_def numeral_2_eq_2)
qed

section \<open>Looking up a monitor\<close>

text \<open>What a name and an identifier refer to, and when the server fails to find out.\<close>

definition referred :: "string list \<Rightarrow> string \<Rightarrow> string \<Rightarrow> catalog \<Rightarrow> monitor option" where
  "referred order name mid c =
     (if mid = [] \<and> name \<noteq> [] then GetMonitorByName order name c
      else case monitorMap c mid of
        None \<Rightarrow> None
      | Some m \<Rightarrow> if m_name m = name \<or> mid \<noteq> [] \<and> name = [] then Some m else None)"

definition lookup_faults :: "string \<Rightarrow> string \<Rightarrow> catalog \<Rightarrow> bool" where
  "lookup_faults name mid c \<longleftrightarrow> (name = [] \<longleftrightarrow> mid = []) \<and> monitorMap c mid = None"

lemma checkExsitMonitor_result:
  "checkExsitMonitor order r c =
    (if lookup_faults (mi_name r) (mi_id r) c then Inl Invalid
     else Inr (referred order (mi_name r) (mi_id r) c))"
  by (auto simp: checkExsitMonitor_def lookup_faults_def referred_def GetMonitor_def split: option.splits)

definition reported :: "monitor option \<Rightarrow> client_state" where
  "reported found = (case found of None \<Rightarrow> notexist_state | Some m \<Rightarrow> if m_running m then run_state else stop_state)"

lemma referred_in_catalog:
  assumes "catalog_inv c" "set order = dom (monitorMap c)" "referred order name mid c = Some m"
  shows "monitorMap c (m_id m) = Some m"
proof -
  have "\<exists>k. monitorMap c k = Some m"
  proof (cases "mid = [] \<and> name \<noteq> []")
    case True
    then have "find (\<lambda>m. m_name m = name) (map (\<lambda>mid. the (monitorMap c mid)) order) = Some m"
      using assms(3) by (simp add: referred_def GetMonitorByName_def)
    then have "m \<in> set (map (\<lambda>mid. the (monitorMap c mid)) order)"
      by (metis find_Some_iff nth_mem)
    then show ?thesis using assms(2) by auto
  next
    case False
    then have "(case monitorMap c mid of None \<Rightarrow> None
        | Some m \<Rightarrow> if m_name m = name \<or> mid \<noteq> [] \<and> name = [] then Some m else None) = Some m"
      using assms(3) by (simp only: referred_def False if_False)
    then show ?thesis by (auto split: option.splits if_splits)
  qed
  then show ?thesis using catalog_invD(1) [OF assms(1)] by (fastforce simp: monitor_ok_def)
qed

lemma state_reported:
  assumes "catalog_inv c" "set order = dom (monitorMap c)"
  shows "state_of (case referred order name mid c of None \<Rightarrow> ''not exist'' | Some m \<Rightarrow> getStateStr m) =
    Some (reported (referred order name mid c))"
proof (cases "referred order name mid c")
  case None
  then show ?thesis by (simp add: state_of_def reported_def)
next
  case (Some m)
  have "m_state m = (if m_running m then RUNNING else STOP)"
    using catalog_invD(1) [OF assms(1) referred_in_catalog [OF assms Some]] by (simp add: monitor_ok_def)
  then show ?thesis using Some by (simp add: state_of_def reported_def getStateStr_def)
qed

text \<open>
  C22. A client that asks for a monitor by its identifier, by its name or by both, is told its
  state: the message it sends is read by the server as it was meant, the catalog is left
  alone, and the reply is read by the client as valid, with \<open>run\<close> or \<open>stop\<close> for the monitor that
  the identifier (or else the name) refers to, or that there is none. With a name and an
  identifier, the server needs the identifier to be there.
\<close>

theorem identifier_request_answered:
  assumes "splits_fields split" "catalog_reach c" "set order = dom (monitorMap c)"
    and "plain name" "plain mid" "length name + length mid < 1000"
    and "\<not> lookup_faults name mid c"
  shows "\<exists>reply. serve_client split [Round (getIdentifierMsg name mid) order rnd written] c = Inr ([reply], c) \<and>
    parseIdReponse reply =
      Some \<lparr>Common = \<lparr>IsValid = True, ErrorMsg = ''null''\<rparr>, MonitorState = reported (referred order name mid c)\<rparr>"
proof -
  have m: "getIdentifierMsg name mid = getCmdMsg name mid ''id''" by (simp add: getIdentifierMsg_def getCmdMsg_def)
  have "CHR 0x00 \<notin> set (getIdentifierMsg name mid)" using assms(4,5) by (simp add: plain_def getIdentifierMsg_def)
  then have rcv: "received (getIdentifierMsg name mid) = Inr (getIdentifierMsg name mid)"
    using assms(6) by (auto simp: received_def getIdentifierMsg_def takeWhile_eq_all_conv)
  have "plain ''id''" by (simp add: plain_def)
  note req = request_parsed [OF assms(1) this assms(4,5)]
  let ?r = "\<lparr>ir_valid = True, ir_err = ''null'',
    ir_state = (case referred order name mid c of None \<Rightarrow> ''not exist'' | Some m \<Rightarrow> getStateStr m)\<rparr>"
  have "handle_message split order rnd (getIdentifierMsg name mid) c = Inr (Identifier2idmsg ?r, c)"
    unfolding m using req checkExsitMonitor_result assms(7)
    by (simp add: handle_message_def handle_id_def Let_def)
  moreover have "parseIdReponse (Identifier2idmsg ?r) =
      Some \<lparr>Common = \<lparr>IsValid = True, ErrorMsg = ''null''\<rparr>, MonitorState = reported (referred order name mid c)\<rparr>"
    using reply_parsed [of ?r] state_reported [OF catalog_reach_inv [OF assms(2)] assms(3)]
    by (simp add: plain_def)
  ultimately show ?thesis using rcv by (simp add: getIdentifierMsg_def)
qed


text \<open>
  What a message makes the server do to the catalog, and the messages that end it: with a name and
  an identifier that is not there or with neither of them, and commands for no monitor.
\<close>

definition request_of :: "splitter \<Rightarrow> string \<Rightarrow> message_type \<times> string \<times> monitor_identifier" where
  "request_of split msg =
     (let ls = split msg [NL]; (ty, header) = getMessageType split ls
      in (ty, header, idmsg2MonitorIdentifier split ls))"

definition request_faults :: "splitter \<Rightarrow> string list \<Rightarrow> string \<Rightarrow> catalog \<Rightarrow> bool" where
  "request_faults split order msg c \<longleftrightarrow>
     (case request_of split msg of (ty, header, r) \<Rightarrow>
        (ty = IdType \<and> mi_valid r \<or> ty = CmdType) \<and> lookup_faults (mi_name r) (mi_id r) c \<or>
        ty = CmdType \<and> (header = ''run'' \<or> header = ''stop'') \<and> referred order (mi_name r) (mi_id r) c = None)"

definition request_action :: "splitter \<Rightarrow> string list \<Rightarrow> (nat \<Rightarrow> u32) \<Rightarrow> string \<Rightarrow> catalog \<Rightarrow> action option" where
  "request_action split order rnd msg c =
     (case request_of split msg of (ty, header, r) \<Rightarrow>
        if ty \<noteq> CmdType \<or> header = ''set'' then None
        else if header = ''run'' then map_option (\<lambda>m. Start (m_id m)) (referred order (mi_name r) (mi_id r) c)
        else if header = ''stop'' then map_option (\<lambda>m. Stop (m_id m)) (referred order (mi_name r) (mi_id r) c)
        else Some (Add rnd ''process'' (mi_name r)))"

lemma start_total: "catalog_inv c \<Longrightarrow> \<exists>b c'. StartMonitor mid c = Inr (b, c')"
  using StartMonitor_keeps by blast

lemma stop_total: "catalog_inv c \<Longrightarrow> \<exists>b c'. StopAndRemoveMonitor mid c = Inr (b, c')"
  using StopMonitor_keeps by blast

lemma add_process_total: "catalog_inv c \<Longrightarrow> \<exists>b c'. AddMonitor rnd ''process'' name c = Inr (b, c')"
  using AddMonitor_keeps [of c "''process''" rnd name] by (auto simp: monitorTypeMap_def)

lemma handle_id_outcome:
  "handle_id split order ls c = Inl e \<longleftrightarrow>
     e = Invalid \<and> mi_valid (idmsg2MonitorIdentifier split ls) \<and>
     lookup_faults (mi_name (idmsg2MonitorIdentifier split ls)) (mi_id (idmsg2MonitorIdentifier split ls)) c"
  by (auto simp: handle_id_def checkExsitMonitor_result Let_def)

lemma handle_cmd_outcome:
  assumes inv: "catalog_inv c" and header: "header \<in> {''run'', ''set'', ''stop'', ''init''}"
    and r: "idmsg2MonitorIdentifier split ls = r"
  shows "case handle_cmd split order rnd header ls c of
      Inl e \<Rightarrow> e = Invalid \<and> (lookup_faults (mi_name r) (mi_id r) c \<or>
        (header = ''run'' \<or> header = ''stop'') \<and> referred order (mi_name r) (mi_id r) c = None)
    | Inr (reply, c') \<Rightarrow> \<not> lookup_faults (mi_name r) (mi_id r) c \<and>
        (if header = ''run'' then \<exists>m. referred order (mi_name r) (mi_id r) c = Some m \<and> do_action (Start (m_id m)) c = Inr c'
         else if header = ''set'' then c' = c
         else if header = ''stop'' then \<exists>m. referred order (mi_name r) (mi_id r) c = Some m \<and> do_action (Stop (m_id m)) c = Inr c'
         else do_action (Add rnd ''process'' (mi_name r)) c = Inr c')"
proof (cases "lookup_faults (mi_name r) (mi_id r) c")
  case True
  then show ?thesis using r by (simp add: handle_cmd_def checkExsitMonitor_result)
next
  case False
  let ?found = "referred order (mi_name r) (mi_id r) c"
  consider "header = ''run''" | "header = ''set''" | "header = ''stop''" | "header = ''init''" using header by auto
  then show ?thesis
  proof cases
    case 1
    show ?thesis
    proof (cases ?found)
      case None
      then show ?thesis using 1 False r by (simp add: handle_cmd_def checkExsitMonitor_result)
    next
      case (Some m)
      obtain b c' where "StartMonitor (m_id m) c = Inr (b, c')" using start_total [OF inv] by blast
      then show ?thesis using 1 Some False r by (simp add: handle_cmd_def checkExsitMonitor_result)
    qed
  next
    case 2
    then show ?thesis using False r by (simp add: handle_cmd_def checkExsitMonitor_result)
  next
    case 3
    show ?thesis
    proof (cases ?found)
      case None
      then show ?thesis using 3 False r by (simp add: handle_cmd_def checkExsitMonitor_result)
    next
      case (Some m)
      obtain b c' where "StopAndRemoveMonitor (m_id m) c = Inr (b, c')" using stop_total [OF inv] by blast
      then show ?thesis using 3 Some False r by (simp add: handle_cmd_def checkExsitMonitor_result)
    qed
  next
    case 4
    obtain b c' where "AddMonitor rnd ''process'' (mi_name r) c = Inr (b, c')" using add_process_total [OF inv] by blast
    then show ?thesis using 4 False r by (simp add: handle_cmd_def checkExsitMonitor_result)
  qed
qed

lemma header_of_cmd:
  "getMessageType split ls = (CmdType, h) \<Longrightarrow> h \<in> {''run'', ''set'', ''stop'', ''init''}"
  by (auto simp: getMessageType_def Let_def split: if_splits)

text \<open>
  C10. What a message does, whatever it holds: the server ends exactly for the messages that look
  up a monitor which is not there in the ways described above; for every other message the
  catalog makes exactly the one step that the message asks for, or none.
\<close>

theorem request_outcome:
  assumes "catalog_reach c"
  shows "case handle_message split order rnd msg c of
      Inl e \<Rightarrow> e = Invalid \<and> request_faults split order msg c
    | Inr (reply, c') \<Rightarrow> \<not> request_faults split order msg c \<and> catalog_reach c' \<and>
        (case request_action split order rnd msg c of None \<Rightarrow> c' = c | Some a \<Rightarrow> do_action a c = Inr c')"
proof -
  note inv = catalog_reach_inv [OF assms]
  let ?ls = "split msg [NL]"
  let ?r = "idmsg2MonitorIdentifier split ?ls"
  obtain ty h where ty: "getMessageType split ?ls = (ty, h)" by fastforce
  then have req: "request_of split msg = (ty, h, ?r)" by (simp add: request_of_def Let_def)
  show ?thesis
  proof (cases ty)
    case IdType
    show ?thesis
    proof (cases "handle_id split order ?ls c")
      case (Inl e)
      then show ?thesis using IdType ty req handle_id_outcome [of split order ?ls c e]
        by (simp add: handle_message_def request_faults_def)
    next
      case (Inr reply)
      then have "\<not> (mi_valid ?r \<and> lookup_faults (mi_name ?r) (mi_id ?r) c)"
        using handle_id_outcome [of split order ?ls c Invalid] by auto
      then show ?thesis using Inr IdType ty req assms
        by (auto simp: handle_message_def request_faults_def request_action_def)
    qed
  next
    case CmdType
    have h: "h \<in> {''run'', ''set'', ''stop'', ''init''}" using header_of_cmd ty CmdType by blast
    have m: "handle_message split order rnd msg c = handle_cmd split order rnd h ?ls c"
      using ty CmdType by (simp add: handle_message_def Let_def)
    note out = handle_cmd_outcome [OF inv h refl, of split ?ls order rnd]
    show ?thesis
    proof (cases "handle_cmd split order rnd h ?ls c")
      case (Inl e)
      then show ?thesis using out m req CmdType by (auto simp: request_faults_def)
    next
      case (Inr res)
      obtain reply c' where res: "res = (reply, c')" by fastforce
      have act: "case request_action split order rnd msg c of None \<Rightarrow> c' = c | Some a \<Rightarrow> do_action a c = Inr c'"
        using out Inr res req CmdType h by (auto simp: request_action_def simp del: do_action.simps)
      then have "catalog_reach c'"
        using assms catalog_reach.act by (auto split: option.splits)
      then show ?thesis using act out m Inr res req CmdType h by (auto simp: request_faults_def)
    qed
  qed (use ty req assms in \<open>simp_all add: handle_message_def request_faults_def request_action_def\<close>)
qed

text \<open>For instance, running a monitor that is there starts it, and the client is told so.\<close>

lemma run_command:
  assumes "splits_fields split" "catalog_reach c" "set order = dom (monitorMap c)" "plain name" "plain mid"
    and "referred order name mid c = Some m" "\<not> lookup_faults name mid c"
  shows "\<exists>reply c'. handle_message split order rnd (getCmdMsg name mid ''run'') c = Inr (reply, c') \<and>
    do_action (Start (m_id m)) c = Inr c' \<and>
    parseIdReponse reply = Some \<lparr>Common = \<lparr>IsValid = True, ErrorMsg = ''null''\<rparr>, MonitorState = run_state\<rparr>"
proof -
  note inv = catalog_reach_inv [OF assms(2)]
  have "plain ''run''" by (simp add: plain_def)
  note req = request_parsed [OF assms(1) this assms(4,5)]
  have m: "monitorMap c (m_id m) = Some m" by (rule referred_in_catalog [OF inv assms(3,6)])
  obtain b c' where c': "StartMonitor (m_id m) c = Inr (b, c')" using start_total [OF inv] by blast
  then have "b" using m by (auto simp: StartMonitor_def res_bind_eq_Inr)
  then have "handle_message split order rnd (getCmdMsg name mid ''run'') c =
      Inr (Identifier2idmsg \<lparr>ir_valid = True, ir_err = ''null'', ir_state = ''run''\<rparr>, c')"
    using req checkExsitMonitor_result assms(6,7) c' by (simp add: handle_message_def handle_cmd_def Let_def)
  then show ?thesis
    using c' reply_parsed [of "\<lparr>ir_valid = True, ir_err = ''null'', ir_state = ''run''\<rparr>" run_state]
    by (simp add: plain_def state_of_def)
qed

section \<open>Witnesses\<close>

text \<open>A catalog with one monitor, called \<open>m\<close>, that has been started.\<close>

lemma sample_catalog:
  obtains c m where "catalog_reach c" "dom (monitorMap c) = {sample_id}" "monitorMap c sample_id = Some m"
    "m_running m" "m_name m = ''m''"
proof -
  have "case do_actions [Add (\<lambda>_. 0) ''mount'' ''m'', Start sample_id] (Catalog_Init [] empty_catalog) of
      Inl e \<Rightarrow> False
    | Inr c \<Rightarrow> (case monitorMap c sample_id of None \<Rightarrow> False | Some m \<Rightarrow> m_running m \<and> m_name m = ''m'')"
    by code_simp
  then obtain c m where c: "do_actions [Add (\<lambda>_. 0) ''mount'' ''m'', Start sample_id] (Catalog_Init [] empty_catalog) = Inr c"
      "monitorMap c sample_id = Some m" "m_running m" "m_name m = ''m''"
    by (auto split: sum.splits option.splits)
  have i: "getRandomId (\<lambda>_. 0) 16 = sample_id" by code_simp
  have "dom (monitorMap c) \<subseteq> {sample_id}"
    using c(1) i
    by (auto simp: AddMonitor_def StartMonitor_def res_bind_eq_Inr Catalog_Init_def empty_catalog_def
        map_sum_snd_Inr split: option.splits if_splits)
  then have "dom (monitorMap c) = {sample_id}" using c(2) by auto
  then show ?thesis using that do_actions_reach [OF catalog_reach.start c(1)] c(2-4) by blast
qed

theorem identifier_request_answered_witness:
  "\<exists>c reply. serve_client (\<lambda>s seps. go_split (hd seps) s)
     [Round (getIdentifierMsg ''m'' sample_id) [sample_id] (\<lambda>_. 0) 30] c = Inr ([reply], c) \<and>
   parseIdReponse reply = Some \<lparr>Common = \<lparr>IsValid = True, ErrorMsg = ''null''\<rparr>, MonitorState = run_state\<rparr>"
proof (rule sample_catalog)
  fix c m
  assume c: "catalog_reach c" "dom (monitorMap c) = {sample_id}" "monitorMap c sample_id = Some m"
    "m_running m" "m_name m = ''m''"
  have "plain sample_id" "length sample_id = 16" "sample_id \<noteq> []" by (simp_all add: plain_def sample_id_def)
  moreover have "reported (referred [sample_id] ''m'' sample_id c) = run_state"
    using c calculation by (simp add: reported_def referred_def)
  ultimately show ?thesis
    using identifier_request_answered [OF go_split_splits_fields c(1), where order = "[sample_id]" and name = "''m''"
        and mid = sample_id and rnd = "\<lambda>_. 0" and written = 30] c
    by (auto simp: plain_def lookup_faults_def)
qed

theorem request_outcome_witness:
  "\<exists>c c'. catalog_reach c' \<and> do_action (Stop sample_id) c = Inr c' \<and>
     (\<exists>reply. handle_message (\<lambda>s seps. go_split (hd seps) s) [sample_id] (\<lambda>_. 0)
       (getCmdMsg ''m'' sample_id ''stop'') c = Inr (reply, c'))"
proof (rule sample_catalog)
  fix c m
  assume c: "catalog_reach c" "dom (monitorMap c) = {sample_id}" "monitorMap c sample_id = Some m"
    "m_running m" "m_name m = ''m''"
  let ?split = "\<lambda>s seps. go_split (hd seps) s" and ?msg = "getCmdMsg ''m'' sample_id ''stop''"
  have p: "plain ''stop''" "plain ''m''" "plain sample_id" "sample_id \<noteq> []" by (simp_all add: plain_def sample_id_def)
  note req = request_parsed [OF go_split_splits_fields p(1-3)]
  have r: "request_of ?split ?msg = (CmdType, ''stop'', \<lparr>mi_valid = True, mi_name = ''m'', mi_id = sample_id\<rparr>)"
    using req by (simp add: request_of_def Let_def)
  have f: "referred [sample_id] ''m'' sample_id c = Some m" using c p by (simp add: referred_def)
  have id: "m_id m = sample_id" using catalog_invD(1) [OF catalog_reach_inv [OF c(1)] c(3)] by (simp add: monitor_ok_def)
  have "\<not> request_faults ?split [sample_id] ?msg c" "request_action ?split [sample_id] (\<lambda>_. 0) ?msg c = Some (Stop sample_id)"
    using r f id c(3) by (simp_all add: request_faults_def request_action_def lookup_faults_def)
  then show ?thesis
    using request_outcome [OF c(1), where split = ?split and order = "[sample_id]" and rnd = "\<lambda>_. 0" and msg = ?msg]
    by (auto simp del: do_action.simps split: sum.splits)
qed

end
