(* ===== verification/Ringbuf.thy ===== *)
theory Ringbuf
  imports Prelude
begin

text \<open>
  The ring buffer consumer: \<^verbatim>\<open>src/bpftools/libbpf/src/ringbuf.c\<close>.

  The kernel writes the ring while the consumer reads it. What the consumer loads is a
  parameter, the \<open>kernel\<close>: the producer position at the \<open>i\<close>-th load of the position and the
  record header at a data offset at the \<open>i\<close>-th load of a header, counted over the whole run.
  The sample callback is a function of its context, the data offset of the sample and its
  length; it returns the new context and its result. System calls are outcomes. A run of the
  consumer loop that a fast producer keeps busy for ever does not end, so the loop takes fuel, one
  unit per load, and returns \<open>None\<close> when it is used up. For a log of finitely many records the
  number of records and a few units more are shown to be enough.
\<close>

section \<open>State\<close>

type_synonym 'c sample_fn = "'c \<Rightarrow> u64 \<Rightarrow> u32 \<Rightarrow> 'c \<times> int"

text \<open>A mapped region is present (\<open>Some\<close>) or not; the consumer position lives in one.\<close>

record 'c ring =
  sample_cb :: "'c sample_fn"
  ring_ctx :: 'c
  consumer_pos :: "u64 option"
  producer_mapped :: bool
  ring_mask :: u64
  map_fd :: int

record 'c ring_buffer =
  rb_events :: "nat list"
  rb_rings :: "'c ring list"
  page_size :: u64
  epoll_fd :: int
  ring_cnt :: nat

definition ringbuf_unmap_ring :: "'c ring \<Rightarrow> 'c ring" where
  "ringbuf_unmap_ring r = r\<lparr>consumer_pos := None, producer_mapped := False\<rparr>"

text \<open>
  The outcomes of the calls \<open>ring_buffer__add\<close> makes: the map's type and size or an error,
  the two reallocations, the two mappings (the first with the consumer position found there)
  and the registration.
\<close>

record add_env =
  map_info :: "errno + (u32 \<times> u32)"
  realloc_rings_ok :: bool
  realloc_events_ok :: bool
  mmap_consumer :: "errno + u64"
  mmap_producer :: "errno option"
  epoll_add :: "errno option"

abbreviation "BPF_MAP_TYPE_RINGBUF \<equiv> (27 :: u32)"

definition ring_buffer__add ::
  "add_env \<Rightarrow> 'c ring_buffer \<Rightarrow> int \<Rightarrow> 'c sample_fn \<Rightarrow> 'c \<Rightarrow> 'c ring_buffer \<times> errno option" where
  "ring_buffer__add env rb fd cb ctx =
     (case map_info env of
        Inl e \<Rightarrow> (rb, Some e)
      | Inr (ty, max_entries) \<Rightarrow>
          if ty \<noteq> BPF_MAP_TYPE_RINGBUF then (rb, Some EINVAL)
          else if \<not> realloc_rings_ok env then (rb, Some ENOMEM)
          else if \<not> realloc_events_ok env then (rb, Some ENOMEM)
          else
            let r = \<lparr>sample_cb = cb, ring_ctx = ctx, consumer_pos = None, producer_mapped = False,
                     ring_mask = ucast (max_entries - 1), map_fd = fd\<rparr>
            in case mmap_consumer env of
                 Inl e \<Rightarrow> (rb, Some e)
               | Inr pos \<Rightarrow>
                   let r = r\<lparr>consumer_pos := Some pos\<rparr>
                   in case mmap_producer env of
                        Some e \<Rightarrow> (rb, Some e)
                      | None \<Rightarrow>
                          let r = r\<lparr>producer_mapped := True\<rparr>
                          in case epoll_add env of
                               Some e \<Rightarrow> (rb, Some e)
                             | None \<Rightarrow>
                                 (rb\<lparr>rb_rings := take (ring_cnt rb) (rb_rings rb) @ [r],
                                     rb_events := take (ring_cnt rb) (rb_events rb) @ [ring_cnt rb],
                                     ring_cnt := ring_cnt rb + 1\<rparr>, None))"

definition ring_buffer__new ::
  "bool \<Rightarrow> bool \<Rightarrow> u64 \<Rightarrow> errno + int \<Rightarrow> add_env \<Rightarrow> int \<Rightarrow> 'c sample_fn \<Rightarrow> 'c \<Rightarrow> errno + 'c ring_buffer" where
  "ring_buffer__new opts_valid calloc_ok pagesize epoll env fd cb ctx =
     (if \<not> opts_valid then Inl EINVAL
      else if \<not> calloc_ok then Inl ENOMEM
      else case epoll of
          Inl e \<Rightarrow> Inl e
        | Inr efd \<Rightarrow>
            (case ring_buffer__add env
                    \<lparr>rb_events = [], rb_rings = [], page_size = pagesize, epoll_fd = efd, ring_cnt = 0\<rparr>
                    fd cb ctx of
               (rb, Some e) \<Rightarrow> Inl e
             | (rb, None) \<Rightarrow> Inr rb))"

section \<open>Consuming\<close>

abbreviation "BPF_RINGBUF_BUSY_BIT \<equiv> (0x80000000 :: u32)"
abbreviation "BPF_RINGBUF_DISCARD_BIT \<equiv> (0x40000000 :: u32)"
abbreviation "BPF_RINGBUF_HDR_SZ \<equiv> 8"

definition roundup_len :: "u32 \<Rightarrow> u32" where
  "roundup_len len =
     (let len = push_bit 2 len; len = drop_bit 2 len; len = len + BPF_RINGBUF_HDR_SZ
      in (len + 7) div 8 * 8)"

record kernel =
  producer_load :: "nat \<Rightarrow> u64"
  header_load :: "nat \<Rightarrow> u64 \<Rightarrow> u32"

text \<open>
  The state of a run: the local position, the stored position, the callback's context, the
  count, and the number of loads of each kind so far.
\<close>

record 'c consuming =
  cons_pos :: u64
  stored_pos :: u64
  cb_ctx :: 'c
  cnt :: int
  prod_loads :: nat
  hdr_loads :: nat

text \<open>
  The inner loop ends because the position reached the producer's (\<open>More\<close>, with whether
  there was new data), at an uncommitted record, or with a callback's error.
\<close>

datatype outcome = More bool | Busy | Failed int

fun consume_records ::
  "nat \<Rightarrow> kernel \<Rightarrow> 'c ring \<Rightarrow> u64 \<Rightarrow> bool \<Rightarrow> 'c consuming \<Rightarrow> ('c consuming \<times> outcome) option" where
  "consume_records 0 k r prod_pos got s = None"
| "consume_records (Suc fuel) k r prod_pos got s =
     (if cons_pos s < prod_pos
      then
        let off = cons_pos s AND ring_mask r;
            len = header_load k (hdr_loads s) off;
            s = s\<lparr>hdr_loads := hdr_loads s + 1\<rparr>
        in if len AND BPF_RINGBUF_BUSY_BIT \<noteq> 0 then Some (s, Busy)
           else
             let s = s\<lparr>cons_pos := cons_pos s + scast (roundup_len len)\<rparr>
             in if len AND BPF_RINGBUF_DISCARD_BIT = 0
                then
                  let (c, err) = sample_cb r (cb_ctx s) (off + BPF_RINGBUF_HDR_SZ) len;
                      s = s\<lparr>cb_ctx := c\<rparr>
                  in if err < 0 then Some (s\<lparr>stored_pos := cons_pos s\<rparr>, Failed err)
                     else consume_records fuel k r prod_pos True
                            (s\<lparr>cnt := cnt s + 1, stored_pos := cons_pos s\<rparr>)
                else consume_records fuel k r prod_pos True (s\<lparr>stored_pos := cons_pos s\<rparr>)
      else Some (s, More got))"

fun process_rounds ::
  "nat \<Rightarrow> kernel \<Rightarrow> 'c ring \<Rightarrow> 'c consuming \<Rightarrow> ('c consuming \<times> int) option" where
  "process_rounds 0 k r s = None"
| "process_rounds (Suc fuel) k r s =
     (case consume_records fuel k r (producer_load k (prod_loads s)) False
             (s\<lparr>prod_loads := prod_loads s + 1\<rparr>) of
        None \<Rightarrow> None
      | Some (s', More got) \<Rightarrow> if got then process_rounds fuel k r s' else Some (s', cnt s')
      | Some (s', Busy) \<Rightarrow> Some (s', cnt s')
      | Some (s', Failed e) \<Rightarrow> Some (s', e))"

definition ringbuf_process_ring ::
  "nat \<Rightarrow> kernel \<Rightarrow> 'c ring \<Rightarrow> ('c ring \<times> int) cres option" where
  "ringbuf_process_ring fuel k r =
     (case consumer_pos r of
        None \<Rightarrow> Some (Inl Fault)
      | Some pos \<Rightarrow>
          map_option (\<lambda>(s, res). Inr (r\<lparr>consumer_pos := Some (stored_pos s), ring_ctx := cb_ctx s\<rparr>, res))
            (process_rounds fuel k r
               \<lparr>cons_pos = pos, stored_pos = pos, cb_ctx = ring_ctx r, cnt = 0,
                prod_loads = 0, hdr_loads = 0\<rparr>))"

abbreviation "INT_MAX \<equiv> (2 ^ 31 - 1 :: int)"

text \<open>Both consumers visit rings by index, each ring with its own kernel.\<close>

fun consume_rings ::
  "nat \<Rightarrow> (nat \<Rightarrow> kernel) \<Rightarrow> nat list \<Rightarrow> 'c ring list \<Rightarrow> int \<Rightarrow> ('c ring list \<times> int) cres option" where
  "consume_rings fuel ks [] rings res = Some (Inr (rings, if res > INT_MAX then INT_MAX else res))"
| "consume_rings fuel ks (i # is) rings res =
     (if \<not> i < length rings then Some (Inl Fault)
      else case ringbuf_process_ring fuel (ks i) (rings ! i) of
          None \<Rightarrow> None
        | Some (Inl e) \<Rightarrow> Some (Inl e)
        | Some (Inr (r, err)) \<Rightarrow>
            if err < 0 then Some (Inr (rings[i := r], err))
            else consume_rings fuel ks is (rings[i := r]) (res + err))"

definition ring_buffer__consume ::
  "nat \<Rightarrow> (nat \<Rightarrow> kernel) \<Rightarrow> 'c ring_buffer \<Rightarrow> ('c ring list \<times> int) cres option" where
  "ring_buffer__consume fuel ks rb = consume_rings fuel ks [0..<ring_cnt rb] (rb_rings rb) 0"

text \<open>\<open>ready\<close> is the outcome of \<open>epoll_wait\<close>: an error or the ids of the ready rings.\<close>

definition ring_buffer__poll ::
  "nat \<Rightarrow> (nat \<Rightarrow> kernel) \<Rightarrow> errno + nat list \<Rightarrow> 'c ring_buffer \<Rightarrow> ('c ring list \<times> int) cres option" where
  "ring_buffer__poll fuel ks ready rb =
     (case ready of
        Inl e \<Rightarrow> Some (Inl (Err e))
      | Inr ids \<Rightarrow> consume_rings fuel ks ids (rb_rings rb) 0)"

section \<open>What the consumer makes of the records the kernel wrote\<close>

text \<open>
  The kernel's log: the records written from a position on, each with its length and whether
  it was discarded. \<open>rec_pos\<close> is where the \<open>n\<close>-th starts.
\<close>

type_synonym ring_log = "(u32 \<times> bool) list"

primrec rec_pos :: "nat \<Rightarrow> ring_log \<Rightarrow> nat \<Rightarrow> nat" where
  "rec_pos p log 0 = p"
| "rec_pos p log (Suc n) = rec_pos p log n + unat (roundup_len (fst (log ! n)))"

definition log_ok :: "nat \<Rightarrow> ring_log \<Rightarrow> bool" where
  "log_ok p log \<longleftrightarrow>
     (\<forall>(len, d) \<in> set log. unat len < 2 ^ 30) \<and> rec_pos p log (length log) < 2 ^ 64"

text \<open>
  The documented behaviour of the kernel: the producer position is always the end of some
  record, and the header of the next record to consume is either busy or, once committed, the
  record's length with the discard bit when it was discarded.
\<close>

definition kernel_ok :: "kernel \<Rightarrow> u64 \<Rightarrow> nat \<Rightarrow> ring_log \<Rightarrow> bool" where
  "kernel_ok k msk p log \<longleftrightarrow>
     (\<forall>t. \<exists>n \<le> length log. producer_load k t = of_nat (rec_pos p log n)) \<and>
     (\<forall>n < length log.
        let h = header_load k n (of_nat (rec_pos p log n) AND msk)
        in h AND BPF_RINGBUF_BUSY_BIT \<noteq> 0 \<or>
           h = fst (log ! n) OR (if snd (log ! n) then BPF_RINGBUF_DISCARD_BIT else 0))"

text \<open>The callback's context after the first \<open>n\<close> records, and the number of samples in them.\<close>

primrec ctx_after :: "'c ring \<Rightarrow> nat \<Rightarrow> ring_log \<Rightarrow> nat \<Rightarrow> 'c" where
  "ctx_after r p log 0 = ring_ctx r"
| "ctx_after r p log (Suc n) =
     (if snd (log ! n) then ctx_after r p log n
      else fst (sample_cb r (ctx_after r p log n)
             ((of_nat (rec_pos p log n) AND ring_mask r) + BPF_RINGBUF_HDR_SZ) (fst (log ! n))))"

abbreviation samples :: "ring_log \<Rightarrow> nat \<Rightarrow> nat" where
  "samples log n \<equiv> length (filter (\<lambda>e. \<not> snd e) (take n log))"

lemma roundup_len_val:
  assumes "unat len < 2 ^ 30"
  shows "unat (roundup_len len) = (unat len + 15) div 8 * 8"
proof -
  have "drop_bit 2 (push_bit 2 len) = len"
    using assms
    by (simp add: word_unat_eq_iff push_bit_eq_mult drop_bit_eq_div unat_div unat_word_ariths)
  moreover have "unat (len + 8 + 7) = unat len + 15"
    using assms by (simp add: unat_word_ariths)
  ultimately have "unat (roundup_len len) = (unat len + 15) div 8 * 8 mod 2 ^ 32"
    by (simp add: roundup_len_def Let_def unat_div unat_word_ariths)
  moreover have "(unat len + 15) div 8 * 8 \<le> unat len + 15" by simp
  ultimately show ?thesis using assms by simp
qed


lemma scast_small:
  assumes "unat (w :: u32) < 2 ^ 31"
  shows "(scast w :: u64) = of_nat (unat w)"
proof -
  have "uint w < 2 ^ 31" using assms by (metis nat_uint_eq nat_less_numeral_power_cancel_iff)
  moreover have "- (2 ^ 31) \<le> uint w" by (rule order_trans [of _ 0]) simp_all
  ultimately have "sint w = uint w"
    unfolding sint_uint using signed_take_bit_int_eq_self [of 31 "uint w"] by simp
  then show ?thesis by (metis of_nat_unat scast_eq of_int_of_nat_eq)
qed

lemma log_roundup:
  assumes "log_ok p log" "n < length log"
  shows "unat (roundup_len (fst (log ! n))) < 2 ^ 31" "8 \<le> unat (roundup_len (fst (log ! n)))"
proof -
  have "unat (fst (log ! n)) < 2 ^ 30"
    using assms nth_mem [OF assms(2)] by (cases "log ! n") (auto simp: log_ok_def)
  then show "unat (roundup_len (fst (log ! n))) < 2 ^ 31" "8 \<le> unat (roundup_len (fst (log ! n)))"
    by (auto simp: roundup_len_val)
qed

lemma rec_pos_strict:
  assumes "log_ok p log" "n < n'" "n' \<le> length log"
  shows "rec_pos p log n < rec_pos p log n'"
  using assms(2,3)
proof (induction n')
  case (Suc n')
  have "rec_pos p log n' < rec_pos p log (Suc n')" using log_roundup(2) [OF assms(1), of n'] Suc.prems by simp
  then show ?case using Suc by (cases "n = n'") auto
qed simp

lemma rec_pos_word_less:
  assumes "log_ok p log" "n \<le> length log" "n' \<le> length log"
  shows "(of_nat (rec_pos p log n) :: u64) < of_nat (rec_pos p log n') \<longleftrightarrow> n < n'"
proof -
  have b: "rec_pos p log j < 2 ^ 64" if "j \<le> length log" for j
    using rec_pos_strict [OF assms(1), of j "length log"] that assms(1)
    by (cases "j = length log") (auto simp: log_ok_def)
  have "(of_nat (rec_pos p log n) :: u64) < of_nat (rec_pos p log n') \<longleftrightarrow>
      rec_pos p log n < rec_pos p log n'"
    using b [OF assms(2)] b [OF assms(3)]
    by (simp add: word_less_nat_alt unat_of_nat take_bit_nat_eq_self)
  also have "\<dots> \<longleftrightarrow> n < n'"
    using rec_pos_strict [OF assms(1), of n n'] rec_pos_strict [OF assms(1), of n' n] assms(2,3)
    by (metis less_irrefl linorder_neqE_nat order_less_trans)
  finally show ?thesis .
qed

text \<open>A run that has consumed the first \<open>n\<close> records, and one that has stored its result.\<close>

definition consumed :: "'c ring \<Rightarrow> nat \<Rightarrow> ring_log \<Rightarrow> nat \<Rightarrow> 'c consuming \<Rightarrow> bool" where
  "consumed r p log n s \<longleftrightarrow>
     n \<le> length log \<and> cons_pos s = of_nat (rec_pos p log n) \<and> stored_pos s = cons_pos s \<and>
     cb_ctx s = ctx_after r p log n \<and> cnt s = int (samples log n) \<and> hdr_loads s = n"

definition delivered :: "'c ring \<Rightarrow> nat \<Rightarrow> ring_log \<Rightarrow> nat \<Rightarrow> 'c consuming \<Rightarrow> bool" where
  "delivered r p log n s \<longleftrightarrow>
     n \<le> length log \<and> stored_pos s = of_nat (rec_pos p log n) \<and> cb_ctx s = ctx_after r p log n"

fun outcome_ok :: "kernel \<Rightarrow> 'c ring \<Rightarrow> nat \<Rightarrow> ring_log \<Rightarrow> nat \<Rightarrow> nat \<Rightarrow> bool \<Rightarrow> 'c consuming \<times> outcome \<Rightarrow> bool" where
  "outcome_ok k r p log n N got (s', More g) \<longleftrightarrow>
     (\<exists>n'. consumed r p log n' s' \<and> N \<le> n' \<and> n \<le> n' \<and> (g \<longleftrightarrow> got \<or> n < n'))"
| "outcome_ok k r p log n N got (s', Busy) \<longleftrightarrow>
     (\<exists>n'. delivered r p log n' s' \<and> n \<le> n' \<and> n' < length log \<and> cnt s' = int (samples log n') \<and>
        header_load k n' (of_nat (rec_pos p log n') AND ring_mask r) AND BPF_RINGBUF_BUSY_BIT \<noteq> 0)"
| "outcome_ok k r p log n N got (s', Failed e) \<longleftrightarrow>
     e < 0 \<and> (\<exists>n'. delivered r p log (Suc n') s' \<and> n \<le> n' \<and> \<not> snd (log ! n') \<and>
        snd (sample_cb r (ctx_after r p log n')
          ((of_nat (rec_pos p log n') AND ring_mask r) + BPF_RINGBUF_HDR_SZ) (fst (log ! n'))) = e)"

lemma outcome_ok_Suc: "outcome_ok k r p log (Suc n) N True res \<Longrightarrow> outcome_ok k r p log n N got res"
  by (cases res; cases "snd res") (auto dest: Suc_leD)

lemma committed_bits:
  assumes "unat (len :: u32) < 2 ^ 30"
  shows "len AND BPF_RINGBUF_BUSY_BIT = 0" "len AND BPF_RINGBUF_DISCARD_BIT = 0"
    "(len OR BPF_RINGBUF_DISCARD_BIT) AND BPF_RINGBUF_BUSY_BIT = 0"
    "(len OR BPF_RINGBUF_DISCARD_BIT) AND BPF_RINGBUF_DISCARD_BIT \<noteq> 0"
    "roundup_len (len OR BPF_RINGBUF_DISCARD_BIT) = roundup_len len"
proof -
  have "take_bit 30 len = len"
    using assms by (simp add: word_unat_eq_iff unsigned_take_bit_eq take_bit_nat_eq_self)
  then have b: "\<not> bit len i" if "30 \<le> i" for i
    using that by (metis bit_take_bit_iff not_less)
  have e: "(0x80000000 :: u32) = push_bit 31 1" "(0x40000000 :: u32) = push_bit 30 1"
    by (simp_all add: push_bit_eq_mult)
  have f: "bit (0x80000000 :: u32) i \<longleftrightarrow> i = 31" "bit (0x40000000 :: u32) i \<longleftrightarrow> i = 30" for i
    unfolding e bit_push_bit_iff by (auto simp: bit_1_iff)
  show "len AND BPF_RINGBUF_BUSY_BIT = 0" "len AND BPF_RINGBUF_DISCARD_BIT = 0"
    "(len OR BPF_RINGBUF_DISCARD_BIT) AND BPF_RINGBUF_BUSY_BIT = 0"
    by (rule bit_eqI; use b in \<open>simp only: bit_and_iff bit_or_iff f bit_0_eq bot_apply; auto\<close>)+
  have "bit ((len OR BPF_RINGBUF_DISCARD_BIT) AND BPF_RINGBUF_DISCARD_BIT) 30"
    by (simp only: bit_and_iff bit_or_iff f) simp
  then show "(len OR BPF_RINGBUF_DISCARD_BIT) AND BPF_RINGBUF_DISCARD_BIT \<noteq> 0" by auto
  have "push_bit 2 (len OR BPF_RINGBUF_DISCARD_BIT) = push_bit 2 len"
    by (rule bit_eqI; simp only: bit_push_bit_iff bit_or_iff f; auto)
  then show "roundup_len (len OR BPF_RINGBUF_DISCARD_BIT) = roundup_len len"
    by (simp add: roundup_len_def)
qed

lemma samples_Suc:
  "n < length log \<Longrightarrow> samples log (Suc n) = samples log n + (if snd (log ! n) then 0 else 1)"
  by (simp add: take_Suc_conv_app_nth)

lemma consume_records_log:
  fixes r :: "'c ring"
  assumes k: "kernel_ok k (ring_mask r) p log" and l: "log_ok p log" and N: "N \<le> length log"
  shows "consumed r p log n s \<Longrightarrow> N - n < fuel \<Longrightarrow>
    \<exists>res. consume_records fuel k r (of_nat (rec_pos p log N)) got s = Some res \<and> outcome_ok k r p log n N got res"
proof (induction fuel arbitrary: n s got)
  case 0
  then show ?case by simp
next
  case (Suc fuel)
  note s = Suc.prems(1) [unfolded consumed_def]
  have lt: "cons_pos s < of_nat (rec_pos p log N) \<longleftrightarrow> n < N"
    using s rec_pos_word_less [OF l _ N, of n] by simp
  show ?case
  proof (cases "n < N")
    case False
    then show ?thesis using Suc.prems lt by (auto intro!: exI [of _ s] exI [of _ n])
  next
    case True
    then have n: "n < length log" using N by simp
    let ?off = "of_nat (rec_pos p log n) AND ring_mask r"
    let ?len = "fst (log ! n)"
    let ?h = "header_load k n ?off"
    have bits: "unat ?len < 2 ^ 30"
      using l nth_mem [OF n] by (cases "log ! n") (auto simp: log_ok_def)
    have h: "?h AND BPF_RINGBUF_BUSY_BIT \<noteq> 0 \<or>
        ?h = ?len OR (if snd (log ! n) then BPF_RINGBUF_DISCARD_BIT else 0)"
      using k n by (simp add: kernel_ok_def Let_def)
    show ?thesis
    proof (cases "?h AND BPF_RINGBUF_BUSY_BIT = 0")
      case False
      then have "consume_records (Suc fuel) k r (of_nat (rec_pos p log N)) got s =
          Some (s\<lparr>hdr_loads := hdr_loads s + 1\<rparr>, Busy)"
        using True lt s by (simp add: Let_def)
      moreover have "outcome_ok k r p log n N got (s\<lparr>hdr_loads := hdr_loads s + 1\<rparr>, Busy)"
        using s n False by (auto simp: delivered_def intro!: exI [of _ n])
      ultimately show ?thesis by blast
    next
      case nb: True
      let ?pos = "of_nat (rec_pos p log (Suc n)) :: u64"
      have ru: "roundup_len ?h = roundup_len ?len"
        using h nb committed_bits(5) [OF bits] by (auto split: if_splits)
      have dis: "?h AND BPF_RINGBUF_DISCARD_BIT = 0 \<longleftrightarrow> \<not> snd (log ! n)"
        using h nb committed_bits(2,4) [OF bits] by (auto split: if_splits)
      have hl: "\<not> snd (log ! n) \<Longrightarrow> ?h = ?len" using h nb by simp
      have fuel: "N - Suc n < fuel" using Suc.prems(2) True by linarith
      have step: ?thesis if "consumed r p log (Suc n) s1"
        "consume_records (Suc fuel) k r (of_nat (rec_pos p log N)) got s =
         consume_records fuel k r (of_nat (rec_pos p log N)) True s1" for s1
        using Suc.IH [OF that(1) fuel, of True] that(2) outcome_ok_Suc by metis
      have pos: "cons_pos s + scast (roundup_len ?h) = ?pos"
        using s log_roundup(1) [OF l n] by (simp add: ru scast_small)
      show ?thesis
      proof (cases "snd (log ! n)")
        case d: True
        let ?s = "s\<lparr>hdr_loads := hdr_loads s + 1, cons_pos := ?pos, stored_pos := ?pos\<rparr>"
        have "consumed r p log (Suc n) ?s"
          using s n d samples_Suc [OF n] by (simp add: consumed_def)
        moreover have "consume_records (Suc fuel) k r (of_nat (rec_pos p log N)) got s =
            consume_records fuel k r (of_nat (rec_pos p log N)) True ?s"
          using True lt s nb dis d pos by (simp add: Let_def)
        ultimately show ?thesis by (rule step)
      next
        case nd: False
        obtain c e where cb: "sample_cb r (ctx_after r p log n) (?off + BPF_RINGBUF_HDR_SZ) ?len = (c, e)"
          by (cases "sample_cb r (ctx_after r p log n) (?off + BPF_RINGBUF_HDR_SZ) ?len")
        let ?s = "s\<lparr>hdr_loads := hdr_loads s + 1, cons_pos := ?pos, cb_ctx := c, stored_pos := ?pos\<rparr>"
        show ?thesis
        proof (cases "e < 0")
          case neg: True
          then have "consume_records (Suc fuel) k r (of_nat (rec_pos p log N)) got s = Some (?s, Failed e)"
            using True lt s nb dis nd pos hl [OF nd] cb by (simp add: Let_def)
          moreover have "outcome_ok k r p log n N got (?s, Failed e)"
            using neg cb nd n by (auto simp: delivered_def intro!: exI [of _ n])
          ultimately show ?thesis by blast
        next
          case pos_e: False
          let ?s1 = "s\<lparr>hdr_loads := hdr_loads s + 1, cons_pos := ?pos, cb_ctx := c,
            cnt := cnt s + 1, stored_pos := ?pos\<rparr>"
          have "consumed r p log (Suc n) ?s1"
            using s n nd cb samples_Suc [OF n] by (simp add: consumed_def)
          moreover have "consume_records (Suc fuel) k r (of_nat (rec_pos p log N)) got s =
              consume_records fuel k r (of_nat (rec_pos p log N)) True ?s1"
            using True lt s nb dis nd pos hl [OF nd] cb pos_e by (simp add: Let_def)
          ultimately show ?thesis by (rule step)
        qed
      qed
    qed
  qed
qed

text \<open>
  Why a run ends: the callback failed for the last record it took; or the next record was busy when its
  header was loaded; or a load of the producer's position found nothing behind the records that were taken,
  and it was not the first load unless no record was taken.
\<close>

definition run_ends :: "kernel \<Rightarrow> 'c ring \<Rightarrow> nat \<Rightarrow> ring_log \<Rightarrow> nat \<Rightarrow> int \<Rightarrow> bool" where
  "run_ends k r p log n res \<longleftrightarrow>
     (if res < 0
      then \<exists>j. n = Suc j \<and> \<not> snd (log ! j) \<and>
        snd (sample_cb r (ctx_after r p log j)
          ((of_nat (rec_pos p log j) AND ring_mask r) + BPF_RINGBUF_HDR_SZ) (fst (log ! j))) = res
      else res = int (samples log n) \<and>
        (n < length log \<and> header_load k n (of_nat (rec_pos p log n) AND ring_mask r) AND BPF_RINGBUF_BUSY_BIT \<noteq> 0 \<or>
         (\<exists>t m. m \<le> n \<and> producer_load k t = of_nat (rec_pos p log m) \<and> (0 < n \<longrightarrow> 0 < t))))"

lemma consume_records_loads:
  "consume_records fuel k r prod_pos got s = Some (s', out) \<Longrightarrow> prod_loads s' = prod_loads s"
  by (induction fuel arbitrary: got s) (auto simp: Let_def split: if_splits prod.splits)

lemma process_rounds_log:
  fixes r :: "'c ring"
  assumes k: "kernel_ok k (ring_mask r) p log" and l: "log_ok p log"
  shows "consumed r p log n s \<Longrightarrow> (0 < n \<longrightarrow> 0 < prod_loads s) \<Longrightarrow> length log - n + 2 \<le> fuel \<Longrightarrow>
    \<exists>s' res n'. process_rounds fuel k r s = Some (s', res) \<and> delivered r p log n' s' \<and> n \<le> n' \<and>
      run_ends k r p log n' res"
proof (induction fuel arbitrary: n s)
  case 0
  then show ?case by simp
next
  case (Suc fuel)
  obtain N where N: "N \<le> length log" "producer_load k (prod_loads s) = of_nat (rec_pos p log N)"
    using k unfolding kernel_ok_def by blast
  let ?s = "s\<lparr>prod_loads := prod_loads s + 1\<rparr>"
  have c: "consumed r p log n ?s" using Suc.prems(1) by (simp add: consumed_def)
  have "N - n < fuel" using Suc.prems(3) N(1) by linarith
  from consume_records_log [OF k l N(1) c this, of False] obtain s1 out where
    o: "consume_records fuel k r (of_nat (rec_pos p log N)) False ?s = Some (s1, out)"
    and ok: "outcome_ok k r p log n N False (s1, out)" by auto
  show ?case
  proof (cases out)
    case (More g)
    then obtain n1 where n1: "consumed r p log n1 s1" "n \<le> n1" "N \<le> n1" "g \<longleftrightarrow> n < n1" using ok by auto
    show ?thesis
    proof (cases g)
      case True
      have "length log - n1 + 2 \<le> fuel" using n1(1,4) True Suc.prems(3) by (auto simp: consumed_def)
      moreover have "0 < prod_loads s1" using consume_records_loads [OF o] by simp
      ultimately obtain s' res n' where
        "process_rounds fuel k r s1 = Some (s', res)" "delivered r p log n' s'" "n1 \<le> n'" "run_ends k r p log n' res"
        using Suc.IH [OF n1(1)] by blast
      then show ?thesis using N(2) o More True n1(2) by (auto intro!: exI [of _ n'])
    next
      case False
      then have "process_rounds (Suc fuel) k r s = Some (s1, cnt s1)" using N(2) o More by simp
      moreover have "\<exists>t m. m \<le> n1 \<and> producer_load k t = of_nat (rec_pos p log m) \<and> (0 < n1 \<longrightarrow> 0 < t)"
        using n1 False N(2) Suc.prems(2) by (intro exI [of _ "prod_loads s"] exI [of _ N]) auto
      then have "run_ends k r p log n1 (cnt s1)" using n1(1) by (simp add: run_ends_def consumed_def)
      ultimately show ?thesis using n1 by (auto simp: consumed_def delivered_def)
    qed
  next
    case Busy
    then obtain n' where "delivered r p log n' s1" "n \<le> n'" "run_ends k r p log n' (cnt s1)"
      using ok by (auto simp: run_ends_def)
    then show ?thesis using N(2) o Busy by auto
  next
    case (Failed e)
    then obtain n' where "delivered r p log (Suc n') s1" "n \<le> n'" "run_ends k r p log (Suc n') e"
      using ok by (auto simp: run_ends_def)
    then show ?thesis using N(2) o Failed by (auto intro!: exI [of _ "Suc n'"])
  qed
qed

text \<open>
  C19. Whatever the kernel does while the consumer runs, the consumer returns, and delivers records exactly
  once and in order: it consumes some prefix of the kernel's log, calls the callback once for each
  record of the prefix that was not discarded, with its place and length and the context the
  previous call returned, and stores the position behind the prefix. The result is the number
  of samples, or the negative result of the callback for the last record of the prefix. It stops only
  at a failure of the callback, at a record that was busy when its header was loaded, or when a load of the
  producer's position, made after the last delivery, found nothing more. Fuel for one load per record and two more is enough for every kernel.
\<close>

theorem ringbuf_delivers_in_order:
  assumes "kernel_ok k (ring_mask r) p log" "log_ok p log" "consumer_pos r = Some (of_nat p)" "length log + 2 \<le> fuel"
  shows "\<exists>r' res n. ringbuf_process_ring fuel k r = Some (Inr (r', res)) \<and> n \<le> length log \<and>
    consumer_pos r' = Some (of_nat (rec_pos p log n)) \<and> ring_ctx r' = ctx_after r p log n \<and>
    run_ends k r p log n res"
proof -
  let ?s = "\<lparr>cons_pos = of_nat p, stored_pos = of_nat p, cb_ctx = ring_ctx r, cnt = 0,
                prod_loads = 0, hdr_loads = 0\<rparr>"
  have "consumed r p log 0 ?s" by (simp add: consumed_def)
  from process_rounds_log [OF assms(1,2) this _, of fuel] assms(4) obtain s' res n where
    "process_rounds fuel k r ?s = Some (s', res)" "delivered r p log n s'" "run_ends k r p log n res" by auto
  then show ?thesis using assms(3) by (auto simp: ringbuf_process_ring_def delivered_def)
qed

text \<open>
  C20. Every committed record is delivered, and the consumer returns: when the kernel has
  written and committed the whole log and the callback never fails, a run with fuel for one
  load per record and three more returns the number of samples, with the whole log consumed.
\<close>

definition quiet_kernel :: "kernel \<Rightarrow> u64 \<Rightarrow> nat \<Rightarrow> ring_log \<Rightarrow> bool" where
  "quiet_kernel k msk p log \<longleftrightarrow>
     (\<forall>t. producer_load k t = of_nat (rec_pos p log (length log))) \<and>
     (\<forall>n < length log. header_load k n (of_nat (rec_pos p log n) AND msk) =
        fst (log ! n) OR (if snd (log ! n) then BPF_RINGBUF_DISCARD_BIT else 0))"

lemma log_len:
  assumes "log_ok p log" "n < length log"
  shows "unat (fst (log ! n)) < 2 ^ 30"
  using assms nth_mem [OF assms(2)] by (cases "log ! n") (auto simp: log_ok_def)

lemma quiet_kernel_ok: "quiet_kernel k msk p log \<Longrightarrow> kernel_ok k msk p log"
  by (auto simp: quiet_kernel_def kernel_ok_def)

lemma consume_records_returns:
  assumes "length log - n < fuel" and k: "quiet_kernel k (ring_mask r) p log" and l: "log_ok p log"
    and cb: "\<And>c off len. 0 \<le> snd (sample_cb r c off len)" and "consumed r p log n s"
  shows "\<exists>s' g. consume_records fuel k r (of_nat (rec_pos p log (length log))) got s = Some (s', More g) \<and>
    consumed r p log (length log) s' \<and> (g \<longleftrightarrow> got \<or> n < length log) \<and> prod_loads s' = prod_loads s"
  using assms(1,5)
proof (induction fuel arbitrary: n s got)
  case 0
  then show ?case by simp
next
  case (Suc fuel)
  note s = Suc.prems(2) [unfolded consumed_def]
  have lt: "cons_pos s < of_nat (rec_pos p log (length log)) \<longleftrightarrow> n < length log"
    using s rec_pos_word_less [OF l, of n "length log"] by simp
  show ?case
  proof (cases "n < length log")
    case False
    then show ?thesis using Suc.prems lt s by auto
  next
    case n: True
    let ?off = "of_nat (rec_pos p log n) AND ring_mask r"
    let ?h = "header_load k n ?off"
    let ?pos = "of_nat (rec_pos p log (Suc n)) :: u64"
    have h: "?h = fst (log ! n) OR (if snd (log ! n) then BPF_RINGBUF_DISCARD_BIT else 0)"
      using k n by (simp add: quiet_kernel_def)
    note b = committed_bits [OF log_len [OF l n]]
    have bits: "?h AND BPF_RINGBUF_BUSY_BIT = 0" "?h AND BPF_RINGBUF_DISCARD_BIT = 0 \<longleftrightarrow> \<not> snd (log ! n)"
      "roundup_len ?h = roundup_len (fst (log ! n))" "\<not> snd (log ! n) \<Longrightarrow> ?h = fst (log ! n)"
      using b by (auto simp: h)
    have pos: "cons_pos s + scast (roundup_len ?h) = ?pos"
      using s log_roundup(1) [OF l n] by (simp add: bits(3) scast_small)
    let ?s = "s\<lparr>hdr_loads := hdr_loads s + 1, cons_pos := ?pos, stored_pos := ?pos\<rparr>"
    let ?r = "sample_cb r (ctx_after r p log n) (?off + BPF_RINGBUF_HDR_SZ) (fst (log ! n))"
    let ?s1 = "s\<lparr>hdr_loads := hdr_loads s + 1, cons_pos := ?pos, cb_ctx := fst ?r,
        cnt := cnt s + 1, stored_pos := ?pos\<rparr>"
    define next_s where "next_s = (if snd (log ! n) then ?s else ?s1)"
    have "consumed r p log (Suc n) next_s"
      using s n samples_Suc [OF n] by (simp add: consumed_def next_s_def)
    moreover have "length log - Suc n < fuel" using Suc.prems(1) n by linarith
    ultimately obtain s' g where "consume_records fuel k r (of_nat (rec_pos p log (length log))) True next_s =
        Some (s', More g)" "consumed r p log (length log) s'" "g" "prod_loads s' = prod_loads next_s"
      using Suc.IH by blast
    moreover have "consume_records (Suc fuel) k r (of_nat (rec_pos p log (length log))) got s =
        consume_records fuel k r (of_nat (rec_pos p log (length log))) True next_s"
      using lt n s bits(1,2) bits(4) pos cb [of "ctx_after r p log n" "?off + BPF_RINGBUF_HDR_SZ" "fst (log ! n)"]
      by (simp add: Let_def next_s_def case_prod_unfold not_less)
    ultimately show ?thesis using n by (auto simp: next_s_def)
  qed
qed

theorem ringbuf_consumes_all:
  assumes "quiet_kernel k (ring_mask r) p log" "log_ok p log" "consumer_pos r = Some (of_nat p)"
    and "\<forall>c off len. 0 \<le> snd (sample_cb r c off len)" "length log + 3 \<le> fuel"
  shows "ringbuf_process_ring fuel k r =
    Some (Inr (r\<lparr>consumer_pos := Some (of_nat (rec_pos p log (length log))),
                 ring_ctx := ctx_after r p log (length log)\<rparr>, int (samples log (length log))))"
proof -
  let ?s = "\<lparr>cons_pos = of_nat p, stored_pos = of_nat p, cb_ctx = ring_ctx r, cnt = 0,
                prod_loads = 0, hdr_loads = 0\<rparr>"
  let ?N = "of_nat (rec_pos p log (length log))"
  have cb: "\<And>c off len. 0 \<le> snd (sample_cb r c off len)" using assms(4) by blast
  obtain f where f: "fuel = Suc (Suc f)" "length log < f"
    using assms(5) by (cases fuel; cases "fuel - 1") auto
  have pl: "producer_load k t = ?N" for t using assms(1) by (simp add: quiet_kernel_def)
  have c0: "consumed r p log 0 (?s\<lparr>prod_loads := 1\<rparr>)" by (simp add: consumed_def)
  obtain s1 where s1: "consume_records (Suc f) k r ?N False (?s\<lparr>prod_loads := 1\<rparr>) =
      Some (s1, More (log \<noteq> []))" "consumed r p log (length log) s1"
    using consume_records_returns [OF _ assms(1,2) cb c0, of "Suc f" False] f(2) by auto
  have c1: "consumed r p log (length log) (s1\<lparr>prod_loads := prod_loads s1 + 1\<rparr>)"
    using s1(2) by (simp add: consumed_def)
  obtain s2 where s2: "consume_records f k r ?N False (s1\<lparr>prod_loads := prod_loads s1 + 1\<rparr>) =
      Some (s2, More False)" "consumed r p log (length log) s2"
    using consume_records_returns [OF _ assms(1,2) cb c1, of f False] f(2) by auto
  have "process_rounds fuel k r ?s = Some (if log = [] then s1 else s2, int (samples log (length log)))"
    using s1 s2 pl f(1) by (simp add: consumed_def del: consume_records.simps)
  then show ?thesis
    using assms(3) s1(2) s2(2) by (simp add: ringbuf_process_ring_def consumed_def)
qed

subsection \<open>A log of two samples and a discarded record\<close>

definition sample_log :: ring_log where
  "sample_log = [(5, False), (3, True), (1, False)]"

definition sample_kernel :: kernel where
  "sample_kernel = \<lparr>producer_load = (\<lambda>_. 48), header_load = (\<lambda>n _. [5, 0x40000003, 1] ! n)\<rparr>"

definition sample_ring :: "u32 list ring" where
  "sample_ring = \<lparr>sample_cb = (\<lambda>c off len. (c @ [len], 0)), ring_ctx = [], consumer_pos = Some 0,
     producer_mapped = True, ring_mask = 63, map_fd = 3\<rparr>"

lemma sample_positions:
  "rec_pos 0 sample_log 0 = 0" "rec_pos 0 sample_log 1 = 16"
  "rec_pos 0 sample_log 2 = 32" "rec_pos 0 sample_log 3 = 48"
  by code_simp+

lemma sample_log_len: "length sample_log = 3"
  by (simp add: sample_log_def)

lemma sample_log_ok: "log_ok 0 sample_log"
  unfolding log_ok_def sample_log_len sample_positions by (simp add: sample_log_def)

lemma sample_kernel_quiet: "quiet_kernel sample_kernel (ring_mask sample_ring) 0 sample_log"
proof -
  have "header_load sample_kernel n off = fst (sample_log ! n) OR
      (if snd (sample_log ! n) then BPF_RINGBUF_DISCARD_BIT else 0)" if "n < 3" for n off
    using that by (auto simp: sample_kernel_def sample_log_def less_Suc_eq numeral_3_eq_3)
  then show ?thesis
    unfolding quiet_kernel_def sample_log_len sample_positions by (simp add: sample_kernel_def)
qed

text \<open>A kernel that has reserved the last record and not committed it.\<close>

definition busy_kernel :: kernel where
  "busy_kernel = \<lparr>producer_load = (\<lambda>_. 48), header_load = (\<lambda>n _. [5, 0x40000003, 0x80000001] ! n)\<rparr>"

lemma busy_kernel_ok: "kernel_ok busy_kernel (ring_mask sample_ring) 0 sample_log"
proof -
  have "header_load busy_kernel n off AND BPF_RINGBUF_BUSY_BIT \<noteq> 0 \<or> header_load busy_kernel n off =
      fst (sample_log ! n) OR (if snd (sample_log ! n) then BPF_RINGBUF_DISCARD_BIT else 0)" if "n < 3" for n off
    using that by (auto simp: busy_kernel_def sample_log_def less_Suc_eq numeral_3_eq_3)
  then show ?thesis
    unfolding kernel_ok_def sample_log_len Let_def
    by (auto simp: busy_kernel_def sample_positions intro!: exI [of _ 3])
qed

theorem ringbuf_delivers_in_order_witness:
  "\<exists>r' res n. ringbuf_process_ring 5 busy_kernel sample_ring = Some (Inr (r', res)) \<and> n \<le> 3 \<and>
    consumer_pos r' = Some (of_nat (rec_pos 0 sample_log n)) \<and>
    ring_ctx r' = ctx_after sample_ring 0 sample_log n \<and> run_ends busy_kernel sample_ring 0 sample_log n res"
proof -
  have c: "consumer_pos sample_ring = Some (of_nat 0)" by (simp add: sample_ring_def)
  show ?thesis
    using ringbuf_delivers_in_order [OF busy_kernel_ok sample_log_ok c, of 5] unfolding sample_log_len by simp
qed

theorem ringbuf_consumes_all_witness:
  "\<exists>r'. ringbuf_process_ring 6 sample_kernel sample_ring = Some (Inr (r', 2)) \<and>
    consumer_pos r' = Some 48 \<and> ring_ctx r' = [5, 1]"
proof -
  have c: "consumer_pos sample_ring = Some (of_nat 0)" by (simp add: sample_ring_def)
  have cb: "\<forall>c off len. 0 \<le> snd (sample_cb sample_ring c off len)" by (simp add: sample_ring_def)
  have len: "length sample_log = 3" "length (filter (\<lambda>e. \<not> snd e) sample_log) = 2"
    by (simp_all add: sample_log_def)
  have "ctx_after sample_ring 0 sample_log 3 = [5, 1]"
    by (simp add: sample_ring_def sample_log_def numeral_3_eq_3)
  then show ?thesis
    using ringbuf_consumes_all [OF sample_kernel_quiet sample_log_ok c cb, of 6] sample_positions(4)
    by (simp add: len)
qed

end
