(* ===== verification/Nlattr.thy ===== *)
theory Nlattr
  imports Prelude
begin

text \<open>
  Netlink attributes: \<^verbatim>\<open>src/bpftools/libbpf/src/nlattr.c\<close> and \<^verbatim>\<open>nlattr.h\<close>.

  A message is a byte region and a pointer into it an offset; every read and write is checked
  against the region. An attribute is its 16-bit length and type followed by its payload. The
  C arithmetic is kept where its width or sign shows: lengths that the code holds in an
  \<open>int\<close> are integers, the comparison of such an integer with a \<open>sizeof\<close> is unsigned, and the
  length fields of the headers are words. Warnings that the code prints are not modelled.
\<close>

section \<open>Headers\<close>

abbreviation "NLA_HDRLEN \<equiv> 4"

text \<open>\<open>NLA_ALIGN\<close> and \<open>NLMSG_ALIGN\<close> round up to a multiple of four.\<close>

definition nla_align :: "nat \<Rightarrow> nat" where
  "nla_align n = (n + 3) div 4 * 4"

definition nlmsg_align :: "u32 \<Rightarrow> u32" where
  "nlmsg_align n = (n + 3) AND NOT 3"

definition nla_next :: "bytes \<Rightarrow> nat \<Rightarrow> int \<Rightarrow> (nat \<times> int) cres" where
  "nla_next m nla remaining =
     res_bind (mem_u16 m nla) (\<lambda>nla_len.
       let totlen = nla_align (unat nla_len)
       in Inr (nla + totlen, remaining - int totlen))"

text \<open>
  \<open>remaining >= sizeof(*nla)\<close> converts \<open>remaining\<close> to \<open>size_t\<close>; the last comparison is one
  of integers.
\<close>

definition nla_ok :: "bytes \<Rightarrow> nat \<Rightarrow> int \<Rightarrow> bool cres" where
  "nla_ok m nla remaining =
     (if remaining mod 2 ^ 64 \<ge> 4
      then res_bind (mem_u16 m nla) (\<lambda>nla_len.
             Inr (unat nla_len \<ge> 4 \<and> int (unat nla_len) \<le> remaining))
      else Inr False)"

definition nla_type :: "bytes \<Rightarrow> nat \<Rightarrow> nat cres" where
  "nla_type m nla = res_bind (mem_u16 m (nla + 2)) (\<lambda>t. Inr (unat (t AND 0x3fff)))"

definition libbpf_nla_len :: "bytes \<Rightarrow> nat \<Rightarrow> int cres" where
  "libbpf_nla_len m nla = res_bind (mem_u16 m nla) (\<lambda>n. Inr (int (unat n) - NLA_HDRLEN))"

definition libbpf_nla_data :: "nat \<Rightarrow> nat" where
  "libbpf_nla_data nla = nla + NLA_HDRLEN"

definition libbpf_nla_getattr_u8 :: "bytes \<Rightarrow> nat \<Rightarrow> u8 cres" where
  "libbpf_nla_getattr_u8 m nla = res_bind (mem_read m (libbpf_nla_data nla) 1) (\<lambda>bs. Inr (hd bs))"

definition libbpf_nla_getattr_u32 :: "bytes \<Rightarrow> nat \<Rightarrow> u32 cres" where
  "libbpf_nla_getattr_u32 m nla = mem_u32 m (libbpf_nla_data nla)"

section \<open>Validation policies\<close>

text \<open>The types of the standard attributes are the positions in this list.\<close>

datatype nla_kind =
    LIBBPF_NLA_UNSPEC | LIBBPF_NLA_U8 | LIBBPF_NLA_U16 | LIBBPF_NLA_U32 | LIBBPF_NLA_U64
  | LIBBPF_NLA_STRING | LIBBPF_NLA_FLAG | LIBBPF_NLA_MSECS | LIBBPF_NLA_NESTED
  | NLA_OTHER

text \<open>\<open>NLA_OTHER\<close> stands for a type number above \<open>LIBBPF_NLA_TYPE_MAX\<close>.\<close>

fun nla_attr_minlen :: "nla_kind \<Rightarrow> nat" where
  "nla_attr_minlen LIBBPF_NLA_U8 = 1"
| "nla_attr_minlen LIBBPF_NLA_U16 = 2"
| "nla_attr_minlen LIBBPF_NLA_U32 = 4"
| "nla_attr_minlen LIBBPF_NLA_U64 = 8"
| "nla_attr_minlen LIBBPF_NLA_STRING = 1"
| "nla_attr_minlen _ = 0"

record libbpf_nla_policy =
  pt_type :: nla_kind
  pt_minlen :: u16
  pt_maxlen :: u16

text \<open>The result is 0 or -1.\<close>

definition validate_nla :: "bytes \<Rightarrow> nat \<Rightarrow> nat \<Rightarrow> libbpf_nla_policy list \<Rightarrow> int cres" where
  "validate_nla m nla maxtype policy =
     res_bind (nla_type m nla) (\<lambda>type.
       if type > maxtype then Inr 0
       else if \<not> type < length policy then Inl Fault
       else
         let pt = policy ! type
         in if pt_type pt = NLA_OTHER then Inr 0
            else
              let minlen = (if pt_minlen pt \<noteq> 0 then unat (pt_minlen pt)
                            else if pt_type pt \<noteq> LIBBPF_NLA_UNSPEC then nla_attr_minlen (pt_type pt)
                            else 0)
              in res_bind (libbpf_nla_len m nla) (\<lambda>len.
                   if len mod 2 ^ 32 < int minlen then Inr (- 1)
                   else if pt_maxlen pt \<noteq> 0 \<and> len > int (unat (pt_maxlen pt)) then Inr (- 1)
                   else if pt_type pt = LIBBPF_NLA_STRING
                   then (if int (libbpf_nla_data nla) + len - 1 < 0 then Inl Fault
                         else res_bind (mem_read m (nat (int (libbpf_nla_data nla) + len - 1)) 1)
                                (\<lambda>bs. if hd bs \<noteq> 0 then Inr (- 1) else Inr 0))
                   else Inr 0))"

section \<open>Parsing a stream of attributes\<close>

lemma nla_ok_TrueD:
  assumes "nla_ok m nla rem = Inr True"
  shows "\<exists>n. mem_u16 m nla = Inr n \<and> 4 \<le> unat n \<and> int (unat n) \<le> rem"
  using assms by (auto simp: nla_ok_def res_bind_eq_Inr split: if_splits)

lemma nla_align_ge: "n \<le> nla_align n"
  by (simp add: nla_align_def)

lemma nla_next_less:
  assumes "nla_ok m nla rem = Inr True" "nla_next m nla rem = Inr (nla', rem')"
  shows "nat rem' < nat rem"
proof -
  obtain n where "mem_u16 m nla = Inr n" "4 \<le> unat n" "int (unat n) \<le> rem"
    using nla_ok_TrueD [OF assms(1)] by blast
  moreover from this have "0 < rem" by linarith
  ultimately show ?thesis
    using assms(2) nla_align_ge [of "unat n"] by (auto simp: nla_next_def Let_def)
qed

text \<open>
  The table holds the offset of an attribute (\<open>None\<close> for the null pointer) for each type up
  to \<open>maxtype\<close>; the loop returns it with the error.
\<close>

function nla_parse_loop ::
  "bytes \<Rightarrow> nat \<Rightarrow> libbpf_nla_policy list option \<Rightarrow> nat option list \<Rightarrow> nat \<Rightarrow> int \<Rightarrow>
   (nat option list \<times> int) cres" where
  "nla_parse_loop m maxtype policy tb nla rem =
     res_bind (nla_ok m nla rem) (\<lambda>ok.
       if \<not> ok then Inr (tb, 0)
       else
         res_bind (nla_type m nla) (\<lambda>type.
         res_bind (nla_next m nla rem) (\<lambda>(nla', rem').
           if type > maxtype then nla_parse_loop m maxtype policy tb nla' rem'
           else
             res_bind (case policy of None \<Rightarrow> Inr 0 | Some pol \<Rightarrow> validate_nla m nla maxtype pol) (\<lambda>err.
               if err < 0 then Inr (tb, err)
               else if \<not> type < length tb then Inl Fault
               else nla_parse_loop m maxtype policy (tb[type := Some nla]) nla' rem'))))"
  by pat_completeness auto

termination
  by (relation "measure (\<lambda>(m, maxtype, policy, tb, nla, rem). nat rem)")
    (auto dest: nla_next_less)

declare nla_parse_loop.simps [simp del]

definition libbpf_nla_parse ::
  "bytes \<Rightarrow> nat \<Rightarrow> nat \<Rightarrow> int \<Rightarrow> libbpf_nla_policy list option \<Rightarrow> (nat option list \<times> int) cres" where
  "libbpf_nla_parse m maxtype head len policy =
     nla_parse_loop m maxtype policy (replicate (maxtype + 1) None) head len"

definition libbpf_nla_parse_nested ::
  "bytes \<Rightarrow> nat \<Rightarrow> nat \<Rightarrow> libbpf_nla_policy list option \<Rightarrow> (nat option list \<times> int) cres" where
  "libbpf_nla_parse_nested m maxtype nla policy =
     res_bind (libbpf_nla_len m nla) (\<lambda>len.
       libbpf_nla_parse m maxtype (libbpf_nla_data nla) len policy)"

section \<open>Extended acknowledgement messages\<close>

text \<open>
  A message at offset 0: \<open>nlmsg_len\<close> (32 bits), type and flags (16 bits each), sequence number
  and port, 16 bytes in all; the payload of an error message is its error number and the
  header of the message it answers. The result is the message text's offset that is printed.
\<close>

abbreviation "NLMSG_HDRLEN \<equiv> 16"

definition nlmsg_len :: "bytes \<Rightarrow> nat \<Rightarrow> int cres" where
  "nlmsg_len m nlh = res_bind (mem_u32 m nlh) (\<lambda>n. Inr (sint (n - NLMSG_HDRLEN)))"

definition extack_policy :: "libbpf_nla_policy list" where
  "extack_policy =
     [\<lparr>pt_type = LIBBPF_NLA_UNSPEC, pt_minlen = 0, pt_maxlen = 0\<rparr>,
      \<lparr>pt_type = LIBBPF_NLA_STRING, pt_minlen = 0, pt_maxlen = 0\<rparr>,
      \<lparr>pt_type = LIBBPF_NLA_U32, pt_minlen = 0, pt_maxlen = 0\<rparr>,
      \<lparr>pt_type = LIBBPF_NLA_UNSPEC, pt_minlen = 0, pt_maxlen = 0\<rparr>]"

definition libbpf_nla_dump_errormsg :: "bytes \<Rightarrow> nat option cres" where
  "libbpf_nla_dump_errormsg m =
     res_bind (mem_u16 m 6) (\<lambda>flags.
       if flags AND 0x200 = 0 then Inr None
       else
         let err = NLMSG_HDRLEN
         in res_bind
              (if flags AND 0x100 = 0
               then res_bind (nlmsg_len m (err + 4)) (\<lambda>n. Inr (20 + n)) else Inr 20)
              (\<lambda>hlen. res_bind (mem_u32 m 0) (\<lambda>len.
                 if int err + hlen < 0 then Inl Fault
                 else
                   let attr = nat (int err + hlen);
                       alen = sint (len - word_of_int hlen)
                   in res_bind (libbpf_nla_parse m 3 attr alen (Some extack_policy)) (\<lambda>(tb, e).
                        if e \<noteq> 0 then Inr None
                        else Inr (map_option libbpf_nla_data (tb ! 1))))))"

section \<open>Building messages\<close>

definition nh_tail :: "bytes \<Rightarrow> nat cres" where
  "nh_tail m = res_bind (mem_u32 m 0) (\<lambda>len. Inr (unat (nlmsg_align len)))"

text \<open>
  \<open>data\<close> is the payload, \<open>None\<close> for the null pointer, and \<open>len\<close> the length passed with it;
  copying more bytes than the payload has is a fault. \<open>EMSGSIZE\<close> is 90.
\<close>

definition nlattr_add ::
  "bytes \<Rightarrow> nat \<Rightarrow> u16 \<Rightarrow> bytes option \<Rightarrow> nat \<Rightarrow> bytes cres" where
  "nlattr_add m maxsz type data len =
     res_bind (mem_u32 m 0) (\<lambda>nlmsg_len.
       if unat (nlmsg_align nlmsg_len + of_nat (nla_align (NLA_HDRLEN + len))) > maxsz
       then Inl (Err (EOTHER 90))
       else if (data \<noteq> None) \<noteq> (len \<noteq> 0) then Inl (Err EINVAL)
       else
         res_bind (nh_tail m) (\<lambda>nla.
         res_bind (mem_set_u16 m (nla + 2) type) (\<lambda>m.
         res_bind (mem_set_u16 m nla (of_nat (NLA_HDRLEN + len))) (\<lambda>m.
         res_bind (case data of
                     None \<Rightarrow> Inr m
                   | Some d \<Rightarrow> if length d < len then Inl Fault
                              else mem_write m (libbpf_nla_data nla) (take len d)) (\<lambda>m.
           mem_set_u32 m 0 (nlmsg_align nlmsg_len +
             of_nat (nla_align (unat (of_nat (NLA_HDRLEN + len) :: u16)))))))))"

definition nlattr_begin_nested :: "bytes \<Rightarrow> nat \<Rightarrow> u16 \<Rightarrow> (bytes \<times> nat option) cres" where
  "nlattr_begin_nested m maxsz type =
     res_bind (nh_tail m) (\<lambda>tail.
       case nlattr_add m maxsz (type OR 0x8000) None 0 of
         Inr m' \<Rightarrow> Inr (m', Some tail)
       | Inl (Err _) \<Rightarrow> Inr (m, None)
       | Inl Fault \<Rightarrow> Inl Fault)"

definition nlattr_end_nested :: "bytes \<Rightarrow> nat \<Rightarrow> bytes cres" where
  "nlattr_end_nested m tail =
     res_bind (nh_tail m) (\<lambda>e. mem_set_u16 m tail (word_of_int (int e - int tail)))"

section \<open>Parsing stays inside an aligned stream\<close>

lemma nla_align_dvd: "4 dvd nla_align n"
  by (simp add: nla_align_def)

lemma nla_align_le: "4 dvd r \<Longrightarrow> n \<le> r \<Longrightarrow> nla_align n \<le> r"
  unfolding nla_align_def by (elim dvdE) (simp add: div_le_mono less_mult_imp_div_less)

text \<open>An attribute that lies within a stretch of the message.\<close>

definition nla_within :: "bytes \<Rightarrow> nat \<Rightarrow> nat \<Rightarrow> nat \<Rightarrow> nat \<Rightarrow> bool" where
  "nla_within m lo hi type nla \<longleftrightarrow>
     lo \<le> nla \<and> nla_type m nla = Inr type \<and>
     (\<exists>n. mem_u16 m nla = Inr n \<and> 4 \<le> unat n \<and> nla + unat n \<le> hi)"

definition table_ok :: "bytes \<Rightarrow> nat \<Rightarrow> nat \<Rightarrow> nat option list \<Rightarrow> bool" where
  "table_ok m lo hi tb \<longleftrightarrow> (\<forall>t < length tb. \<forall>nla. tb ! t = Some nla \<longrightarrow> nla_within m lo hi t nla)"

lemma validate_nla_safe:
  assumes "nla_within m lo hi type nla" "hi \<le> length m" "maxtype < length policy"
  shows "\<exists>e. validate_nla m nla maxtype policy = Inr e \<and> (e = 0 \<or> e = - 1)"
proof -
  obtain n where n: "mem_u16 m nla = Inr n" "4 \<le> unat n" "nla + unat n \<le> hi"
    and t: "nla_type m nla = Inr type"
    using assms(1) by (auto simp: nla_within_def)
  define k where "k = nla + unat n - 1"
  have "int (nla + 4) + (int (unat n) - 4) - 1 = int k"
    using n(2) by (simp add: k_def)
  then have "nat (int (nla + 4) + (int (unat n) - 4) - 1) = k"
    "\<not> int (nla + 4) + (int (unat n) - 4) - 1 < 0" by simp_all
  moreover have "k + 1 \<le> length m" using n assms(2) by (simp add: k_def)
  then have "mem_read m k 1 = Inr (take 1 (drop k m))" by (simp add: mem_read_def)
  ultimately show ?thesis
    using assms(3) t n(1)
    by (simp only: validate_nla_def libbpf_nla_len_def libbpf_nla_data_def Let_def res_bind_simps)
      (auto split: if_splits)
qed

lemma nla_ok_eq:
  assumes "mem_u16 m nla = Inr n" "r < 2 ^ 31"
  shows "nla_ok m nla (int r) = Inr (4 \<le> unat n \<and> unat n \<le> r)"
proof -
  have "int (unat n) \<le> int r \<longleftrightarrow> unat n \<le> r" by (rule of_nat_le_iff)
  moreover have "int r mod 2 ^ 64 \<ge> 4 \<longleftrightarrow> 4 \<le> r" using assms(2) by simp
  ultimately show ?thesis by (simp only: nla_ok_def assms(1) res_bind_simps) auto
qed

lemma nla_ok_end: "r < 4 \<Longrightarrow> nla_ok m nla (int r) = Inr False"
  by (simp add: nla_ok_def)

lemma nla_next_eq:
  assumes "mem_u16 m nla = Inr n" "nla_align (unat n) \<le> r"
  shows "nla_next m nla (int r) = Inr (nla + nla_align (unat n), int (r - nla_align (unat n)))"
  using assms by (simp add: nla_next_def Let_def of_nat_diff)

lemma table_ok_update:
  assumes "table_ok m lo hi tb" "nla_within m lo hi t nla"
  shows "table_ok m lo hi (tb[t := Some nla])"
  unfolding table_ok_def
proof (intro allI impI)
  fix j x
  assume "j < length (tb[t := Some nla])" "tb[t := Some nla] ! j = Some x"
  then show "nla_within m lo hi j x" using assms by (cases "t = j") (auto simp: table_ok_def)
qed

lemma nla_parse_loop_safe:
  assumes "nla + r \<le> hi" "hi \<le> length m" "4 dvd r" "lo \<le> nla" "length tb = maxtype + 1"
    "table_ok m lo hi tb" "case policy of None \<Rightarrow> True | Some pol \<Rightarrow> maxtype < length pol"
    "r < 2 ^ 31"
  shows "\<exists>tb' e. nla_parse_loop m maxtype policy tb nla (int r) = Inr (tb', e) \<and>
    length tb' = maxtype + 1 \<and> table_ok m lo hi tb' \<and> (e = 0 \<or> e = - 1)"
  using assms
proof (induction r arbitrary: nla tb rule: less_induct)
  case (less r)
  show ?case
  proof (cases "r < 4")
    case True
    then show ?thesis using less.prems nla_ok_end by (subst nla_parse_loop.simps) simp
  next
    case False
    obtain n where n: "mem_u16 m nla = Inr n"
      using mem_u16_ok [of nla m] less.prems False by auto
    obtain ty where "mem_u16 m (nla + 2) = Inr ty"
      using mem_u16_ok [of "nla + 2" m] less.prems False by auto
    then have ty: "nla_type m nla = Inr (unat (ty AND 0x3fff))" by (simp add: nla_type_def)
    let ?t = "unat (ty AND 0x3fff)"
    note ok = nla_ok_eq [OF n less.prems(8)]
    show ?thesis
    proof (cases "4 \<le> unat n \<and> unat n \<le> r")
      case no: False
      then have "nla_ok m nla (int r) = Inr False" using ok by simp
      then show ?thesis using less.prems by (subst nla_parse_loop.simps) simp
    next
      case yes: True
      let ?a = "nla_align (unat n)"
      have a: "?a \<le> r" "unat n \<le> ?a" "4 dvd r - ?a"
        using nla_align_le [OF less.prems(3)] yes nla_align_ge nla_align_dvd less.prems(3)
        by (auto intro: dvd_diff_nat)
      have within: "nla_within m lo hi ?t nla"
        using n ty yes less.prems(1,4) by (auto simp: nla_within_def)
      have nxt: "nla_next m nla (int r) = Inr (nla + ?a, int (r - ?a))"
        using nla_next_eq [OF n a(1)] .
      obtain e where e: "(case policy of None \<Rightarrow> Inr 0 | Some pol \<Rightarrow> validate_nla m nla maxtype pol) = Inr e"
        "e = 0 \<or> e = - 1"
        using validate_nla_safe [OF within less.prems(2)] less.prems(7) by (cases policy) auto
      have rec: "\<exists>tb' e. nla_parse_loop m maxtype policy tb1 (nla + ?a) (int (r - ?a)) = Inr (tb', e) \<and>
          length tb' = maxtype + 1 \<and> table_ok m lo hi tb' \<and> (e = 0 \<or> e = - 1)"
        if "length tb1 = maxtype + 1" "table_ok m lo hi tb1" for tb1
        using less.prems a yes that by (intro less.IH) auto
      have ok': "nla_ok m nla (int r) = Inr True" using ok yes by simp
      show ?thesis
      proof (cases "?t > maxtype")
        case True
        then show ?thesis using rec [OF less.prems(5,6)]
          by (subst nla_parse_loop.simps) (simp add: ok' ty nxt)
      next
        case le: False
        have "\<exists>tb' e. nla_parse_loop m maxtype policy (tb[?t := Some nla]) (nla + ?a) (int (r - ?a)) =
            Inr (tb', e) \<and> length tb' = maxtype + 1 \<and> table_ok m lo hi tb' \<and> (e = 0 \<or> e = - 1)"
          using less.prems(5) table_ok_update [OF less.prems(6) within] by (intro rec) simp_all
        then show ?thesis using le e less.prems(5,6)
          by (subst nla_parse_loop.simps) (auto simp: ok' ty nxt)
      qed
    qed
  qed
qed

text \<open>
  Parsing an attribute stream whose length is a multiple of four and that lies inside
  the message never reads outside the message, for every contents of the stream; each entry
  of the table it returns is an attribute of the entry's type that lies within the stream.
\<close>

lemma nla_parse_safe:
  assumes "head + len \<le> length m" "4 dvd len" "len < 2 ^ 31"
    and "case policy of None \<Rightarrow> True | Some pol \<Rightarrow> maxtype < length pol"
  shows "\<exists>tb e. libbpf_nla_parse m maxtype head (int len) policy = Inr (tb, e) \<and>
    (e = 0 \<or> e = - 1) \<and> length tb = maxtype + 1 \<and>
    (\<forall>type \<le> maxtype. \<forall>nla. tb ! type = Some nla \<longrightarrow>
       head \<le> nla \<and> nla_type m nla = Inr type \<and>
       (\<exists>n. mem_u16 m nla = Inr n \<and> 4 \<le> unat n \<and> nla + unat n \<le> head + len))"
proof -
  have "table_ok m head (head + len) (replicate (maxtype + 1) None)"
    by (simp add: table_ok_def del: replicate.simps)
  from nla_parse_loop_safe [OF order_refl assms(1,2) order_refl _ this assms(4,3)]
  show ?thesis
    unfolding libbpf_nla_parse_def table_ok_def nla_within_def by (auto simp: less_Suc_eq_le)
qed

text \<open>
  Without the alignment the parser reads behind the stream: in a message of five bytes
  that holds one attribute of five bytes, the remaining length becomes negative, passes the
  unsigned comparison of \<open>nla_ok\<close>, and a length is read three bytes behind the message.
\<close>

lemma nla_parse_unaligned_overread:
  "libbpf_nla_parse [5, 0, 1, 0, 7] 1 0 5 None = Inl Fault"
  by code_simp

lemma nla_parse_safe_witness:
  "\<exists>tb e. libbpf_nla_parse [5, 0, 1, 0, 7, 0, 0, 0] 1 0 8 None = Inr (tb, e) \<and>
    (e = 0 \<or> e = - 1) \<and> length tb = 2"
  using nla_parse_safe [where head = 0 and len = 8 and m = "[5, 0, 1, 0, 7, 0, 0, 0]"
      and policy = None and maxtype = 1] by auto

section \<open>Messages that were built are parsed back\<close>

definition attr_at :: "bytes \<Rightarrow> nat \<Rightarrow> u16 \<Rightarrow> bytes \<Rightarrow> bool" where
  "attr_at m p t d \<longleftrightarrow>
     mem_u16 m p = Inr (of_nat (4 + length d)) \<and> mem_u16 m (p + 2) = Inr t \<and>
     mem_read m (p + 4) (length d) = Inr d"

abbreviation attr_size :: "bytes \<Rightarrow> nat" where
  "attr_size d \<equiv> nla_align (4 + length d)"

lemma nlmsg_align_aligned:
  assumes "4 dvd L" "L < 2 ^ 32"
  shows "nlmsg_align (of_nat L) = of_nat L"
proof -
  obtain k where k: "L = 4 * k" using assms(1) by blast
  have "(of_nat L :: u32) = push_bit 2 (of_nat k)"
    by (simp add: k push_bit_eq_mult)
  moreover have "(push_bit 2 w + 3 :: u32) AND NOT 3 = push_bit 2 w" for w
  proof -
    have m: "(3 :: u32) = mask 2" by (simp add: mask_eq_exp_minus_1)
    have "push_bit 2 w AND 3 = 0"
      unfolding m by (rule bit_word_eqI) (auto simp: bit_simps)
    then have "push_bit 2 w + 3 = push_bit 2 w OR 3" by (rule disjunctive_add_eq_or)
    then show ?thesis unfolding m by (intro bit_word_eqI) (auto simp: bit_simps)
  qed
  ultimately show ?thesis by (simp add: nlmsg_align_def)
qed


lemma nlattr_add_appends:
  assumes hd: "mem_u32 m 0 = Inr (of_nat L)" "4 dvd L" "4 \<le> L"
    and room: "L + attr_size d \<le> maxsz" "maxsz \<le> length m" "length m < 2 ^ 31"
    and d: "d \<noteq> []" "4 + length d < 2 ^ 16"
  shows "\<exists>m'. nlattr_add m maxsz t (Some d) (length d) = Inr m' \<and> length m' = length m \<and>
    mem_u32 m' 0 = Inr (of_nat (L + attr_size d)) \<and> attr_at m' L t d \<and>
    (\<forall>off n. 4 \<le> off \<longrightarrow> off + n \<le> L \<longrightarrow> mem_read m' off n = mem_read m off n)"
proof -
  have al: "nlmsg_align (of_nat L) = of_nat L"
    using assms(2,4-6) by (intro nlmsg_align_aligned) simp_all
  have sz: "4 + length d \<le> attr_size d" using nla_align_ge .
  have L: "unat (of_nat L :: u32) = L" using room by (simp add: unat_of_nat take_bit_nat_eq_self)
  have n: "unat (of_nat (4 + length d) :: u16) = 4 + length d"
    by (rule unat_of_nat_u16 [OF d(2)])
  have tot: "unat (of_nat L + of_nat (attr_size d) :: u32) = L + attr_size d"
    using room by (simp add: unat_of_nat take_bit_nat_eq_self flip: of_nat_add)
  have tail: "nh_tail m = Inr L" using hd(1) al L by (simp add: nh_tail_def)
  obtain m1 where m1: "mem_set_u16 m (L + 2) t = Inr m1"
    using mem_set_u16_ok [of "L + 2" m] room sz by auto
  note r1 = mem_set_u16_read [OF m1]
  obtain m2 where m2: "mem_set_u16 m1 L (of_nat (4 + length d)) = Inr m2"
    using mem_set_u16_ok [of L m1] room sz r1(2) by auto
  note r2 = mem_set_u16_read [OF m2]
  obtain m3 where m3: "mem_write m2 (L + 4) d = Inr m3"
    using mem_write_ok [of "L + 4" d m2] room sz r1(2) r2(2) by auto
  have l3: "length m3 = length m" using mem_write_length [OF m3] r1(2) r2(2) by simp
  obtain m4 where m4: "mem_set_u32 m3 0 (of_nat L + of_nat (attr_size d)) = Inr m4"
    using mem_set_u32_ok [of 0 m3] room sz l3 by auto
  note r4 = mem_set_u32_read [OF m4]
  have "nlattr_add m maxsz t (Some d) (length d) = Inr m4"
    using hd(1) al tot room(1) d(1) tail m1 m2 m3 m4 n
    by (simp add: nlattr_add_def libbpf_nla_data_def)
  moreover have "attr_at m4 L t d"
  proof -
    have "mem_u16 m4 L = mem_u16 m2 L" "mem_u16 m4 (L + 2) = mem_u16 m1 (L + 2)"
      using hd(3) r4(3) r2(3) mem_read_other [OF m3]
      by (auto intro!: mem_u16_cong)
    moreover have "mem_read m4 (L + 4) (length d) = mem_read m3 (L + 4) (length d)"
      using r4(3) by simp
    ultimately show ?thesis
      using r1(1) r2(1) mem_read_written [OF m3] by (simp add: attr_at_def)
  qed
  moreover have "mem_read m4 off k = mem_read m off k" if "4 \<le> off" "off + k \<le> L" for off k
    using that r4(3) [of off k] mem_read_other [OF m3, of off k] r2(3) [of off k] r1(3) [of off k]
    by simp
  ultimately show ?thesis using r4(1,2) l3 by (intro exI [of _ m4]) simp
qed

fun add_all :: "bytes \<Rightarrow> nat \<Rightarrow> (u16 \<times> bytes) list \<Rightarrow> bytes cres" where
  "add_all m maxsz [] = Inr m"
| "add_all m maxsz ((t, d) # as) =
     res_bind (nlattr_add m maxsz t (Some d) (length d)) (\<lambda>m'. add_all m' maxsz as)"

fun attrs_at :: "bytes \<Rightarrow> nat \<Rightarrow> (u16 \<times> bytes) list \<Rightarrow> bool" where
  "attrs_at m p [] \<longleftrightarrow> True"
| "attrs_at m p ((t, d) # as) \<longleftrightarrow> attr_at m p t d \<and> attrs_at m (p + attr_size d) as"

abbreviation attrs_size :: "(u16 \<times> bytes) list \<Rightarrow> nat" where
  "attrs_size as \<equiv> sum_list (map (\<lambda>(t, d). attr_size d) as)"

lemma attr_at_cong:
  assumes "\<And>off n. p \<le> off \<Longrightarrow> off + n \<le> p + attr_size d \<Longrightarrow> mem_read m' off n = mem_read m off n"
  shows "attr_at m' p t d = attr_at m p t d"
proof -
  have sz: "4 + length d \<le> attr_size d" using nla_align_ge .
  have "mem_u16 m' p = mem_u16 m p" "mem_u16 m' (p + 2) = mem_u16 m (p + 2)"
    using sz by (auto intro!: mem_u16_cong assms)
  moreover have "mem_read m' (p + 4) (length d) = mem_read m (p + 4) (length d)"
    using sz by (intro assms) auto
  ultimately show ?thesis by (simp add: attr_at_def)
qed

lemma add_all_appends:
  assumes "mem_u32 m 0 = Inr (of_nat L)" "4 dvd L" "4 \<le> L"
    and "L + attrs_size as \<le> maxsz" "maxsz \<le> length m" "length m < 2 ^ 31"
    and "\<forall>(t, d) \<in> set as. d \<noteq> [] \<and> 4 + length d < 2 ^ 16"
  shows "\<exists>m'. add_all m maxsz as = Inr m' \<and> length m' = length m \<and>
    mem_u32 m' 0 = Inr (of_nat (L + attrs_size as)) \<and> attrs_at m' L as \<and>
    (\<forall>off n. 4 \<le> off \<longrightarrow> off + n \<le> L \<longrightarrow> mem_read m' off n = mem_read m off n)"
  using assms
proof (induction as arbitrary: m L)
  case Nil
  then show ?case by simp
next
  case (Cons a as)
  obtain t d where a: "a = (t, d)" by (cases a)
  obtain m1 where m1: "nlattr_add m maxsz t (Some d) (length d) = Inr m1" "length m1 = length m"
    "mem_u32 m1 0 = Inr (of_nat (L + attr_size d))" "attr_at m1 L t d"
    "\<And>off n. 4 \<le> off \<Longrightarrow> off + n \<le> L \<Longrightarrow> mem_read m1 off n = mem_read m off n"
    using nlattr_add_appends [of m L d maxsz t] Cons.prems a by auto
  have "4 dvd L + attr_size d" using Cons.prems(2) nla_align_dvd by (rule dvd_add)
  then obtain m2 where m2: "add_all m1 maxsz as = Inr m2" "length m2 = length m"
    "mem_u32 m2 0 = Inr (of_nat (L + attr_size d + attrs_size as))" "attrs_at m2 (L + attr_size d) as"
    "\<And>off n. 4 \<le> off \<Longrightarrow> off + n \<le> L + attr_size d \<Longrightarrow> mem_read m2 off n = mem_read m1 off n"
    using Cons.IH [OF m1(3)] Cons.prems a m1(2) by auto
  have "attr_at m2 L t d"
    using m1(4) m2(5) Cons.prems(3) attr_at_cong [of L d m2 m1 t] by auto
  then show ?case using m1 m2 a by (auto simp: add.assoc)
qed

fun fill_table :: "nat \<Rightarrow> nat option list \<Rightarrow> nat \<Rightarrow> (u16 \<times> bytes) list \<Rightarrow> nat option list" where
  "fill_table maxtype tb p [] = tb"
| "fill_table maxtype tb p ((t, d) # as) =
     fill_table maxtype (if unat t \<le> maxtype then tb[unat t := Some p] else tb)
       (p + attr_size d) as"

definition attr_ok :: "u16 \<times> bytes \<Rightarrow> bool" where
  "attr_ok a \<longleftrightarrow> (case a of (t, d) \<Rightarrow> d \<noteq> [] \<and> 4 + length d < 2 ^ 16 \<and> t AND 0x3fff = t)"

lemma parse_attrs:
  assumes "attrs_at m p as" "\<forall>a \<in> set as. attr_ok a" "attrs_size as < 2 ^ 31" "length tb = maxtype + 1"
  shows "nla_parse_loop m maxtype None tb p (int (attrs_size as)) = Inr (fill_table maxtype tb p as, 0)"
  using assms
proof (induction as arbitrary: p tb)
  case Nil
  then show ?case using nla_ok_end [of 0 m p] by (subst nla_parse_loop.simps) simp
next
  case (Cons a as)
  obtain t d where a: "a = (t, d)" by (cases a)
  have at: "mem_u16 m p = Inr (of_nat (4 + length d))" "mem_u16 m (p + 2) = Inr t"
    using Cons.prems(1) a by (simp_all add: attr_at_def)
  have ok: "4 + length d < 2 ^ 16" "t AND 0x3fff = t" using Cons.prems(2) a by (simp_all add: attr_ok_def)
  have n: "unat (of_nat (4 + length d) :: u16) = 4 + length d" using unat_of_nat_u16 [OF ok(1)] .
  let ?r = "attrs_size (a # as)"
  have sz: "4 + length d \<le> attr_size d" "attr_size d \<le> ?r" "?r - attr_size d = attrs_size as"
    using nla_align_ge a by simp_all
  have "nla_ok m p (int ?r) = Inr True"
    unfolding nla_ok_eq [OF at(1) Cons.prems(3)] n using sz(1,2) by simp
  moreover have "nla_type m p = Inr (unat t)" using at(2) ok(2) by (simp add: nla_type_def)
  moreover have "nla_next m p (int ?r) = Inr (p + attr_size d, int (attrs_size as))"
    using nla_next_eq [OF at(1), of ?r] sz(2,3) unfolding n by simp
  moreover have "nla_parse_loop m maxtype None tb1 (p + attr_size d) (int (attrs_size as)) =
      Inr (fill_table maxtype tb1 (p + attr_size d) as, 0)" if "length tb1 = maxtype + 1" for tb1
    using Cons.prems a that by (intro Cons.IH) simp_all
  ultimately show ?case using Cons.prems(4) a
    by (subst nla_parse_loop.simps) (simp add: not_less)
qed

lemma fill_table_other:
  "\<forall>(t, d) \<in> set as. unat t \<noteq> j \<Longrightarrow> fill_table maxtype tb p as ! j = tb ! j"
  by (induction maxtype tb p as rule: fill_table.induct) auto

lemma length_fill_table [simp]: "length (fill_table maxtype tb p as) = length tb"
  by (induction maxtype tb p as rule: fill_table.induct) auto

lemma fill_table_at:
  "attrs_at m p as \<Longrightarrow> distinct (map fst as) \<Longrightarrow> (t, d) \<in> set as \<Longrightarrow> unat t \<le> maxtype \<Longrightarrow>
   maxtype < length tb \<Longrightarrow>
   \<exists>nla. fill_table maxtype tb p as ! unat t = Some nla \<and> attr_at m nla t d"
proof (induction as arbitrary: p tb)
  case (Cons a as)
  obtain t' d' where a: "a = (t', d')" by (cases a)
  show ?case
  proof (cases "(t, d) \<in> set as")
    case True
    then show ?thesis using Cons.prems a by (auto intro: Cons.IH)
  next
    case False
    then have "a = (t, d)" using Cons.prems(3) by auto
    moreover from this have "\<forall>(t', d') \<in> set as. unat t' \<noteq> unat t"
      using Cons.prems(2) by (auto simp: word_unat_eq_iff [symmetric] rev_image_eqI)
    ultimately show ?thesis using Cons.prems by (simp add: fill_table_other)
  qed
qed simp

text \<open>
  C17. A message built by \<open>nlattr_add\<close> is parsed back: adding attributes of distinct types
  to a message in a large enough buffer succeeds, and parsing what was added returns success
  and, for each type up to the maximum, the place of its attribute, with exactly its payload,
  or the null pointer when no attribute of the type was added.
\<close>

theorem nlattr_roundtrip:
  assumes "mem_u32 m 0 = Inr (of_nat L)" "4 dvd L" "4 \<le> L"
    and "L + attrs_size as \<le> maxsz" "maxsz \<le> length m" "length m < 2 ^ 31"
    and "\<forall>a \<in> set as. attr_ok a" "distinct (map fst as)"
  shows "\<exists>m' tb. add_all m maxsz as = Inr m' \<and>
    mem_u32 m' 0 = Inr (of_nat (L + attrs_size as)) \<and>
    libbpf_nla_parse m' maxtype L (int (attrs_size as)) None = Inr (tb, 0) \<and>
    (\<forall>t \<le> maxtype.
       case tb ! t of
         None \<Rightarrow> \<forall>(t', d) \<in> set as. unat t' \<noteq> t
       | Some nla \<Rightarrow> \<exists>(t', d) \<in> set as. unat t' = t \<and>
           libbpf_nla_len m' nla = Inr (int (length d)) \<and>
           mem_read m' (libbpf_nla_data nla) (length d) = Inr d)"
proof -
  have "\<forall>(t, d) \<in> set as. d \<noteq> [] \<and> 4 + length d < 2 ^ 16"
    using assms(7) by (auto simp: attr_ok_def)
  from add_all_appends [OF assms(1-6) this] obtain m' where m': "add_all m maxsz as = Inr m'"
    "mem_u32 m' 0 = Inr (of_nat (L + attrs_size as))" "attrs_at m' L as"
    by blast
  let ?tb = "fill_table maxtype (replicate (maxtype + 1) None) L as"
  have p: "libbpf_nla_parse m' maxtype L (int (attrs_size as)) None = Inr (?tb, 0)"
    unfolding libbpf_nla_parse_def using m'(3) assms(4-7) by (intro parse_attrs) simp_all
  have "case ?tb ! t of
         None \<Rightarrow> \<forall>(t', d) \<in> set as. unat t' \<noteq> t
       | Some nla \<Rightarrow> \<exists>(t', d) \<in> set as. unat t' = t \<and>
           libbpf_nla_len m' nla = Inr (int (length d)) \<and>
           mem_read m' (libbpf_nla_data nla) (length d) = Inr d" if t: "t \<le> maxtype" for t
  proof (cases "\<exists>(t', d) \<in> set as. unat t' = t")
    case True
    then obtain t' d where td: "(t', d) \<in> set as" "unat t' = t" by blast
    then obtain nla where nla: "?tb ! t = Some nla" "attr_at m' nla t' d"
      using fill_table_at [OF m'(3) assms(8) td(1), of maxtype "replicate (maxtype + 1) None"] t
      by (auto simp del: replicate.simps)
    have "unat (of_nat (4 + length d) :: u16) = 4 + length d"
      using td(1) assms(7) by (intro unat_of_nat_u16) (auto simp: attr_ok_def)
    from arg_cong [OF this, of int] have "libbpf_nla_len m' nla = Inr (int (length d))"
      using nla(2) by (simp add: attr_at_def libbpf_nla_len_def del: of_nat_add)
    then show ?thesis using nla td by (auto simp: attr_at_def libbpf_nla_data_def)
  next
    case False
    then have "?tb ! t = replicate (maxtype + 1) None ! t" by (intro fill_table_other) auto
    also have "\<dots> = None" using t by (simp del: replicate.simps)
    finally show ?thesis using False by auto
  qed
  with m' p show ?thesis by blast
qed

theorem nlattr_roundtrip_witness:
  "\<exists>m' tb. add_all (le_bytes 4 16 @ replicate 28 0) 32 [(2, [1, 2, 3]), (1, [9])] = Inr m' \<and>
    libbpf_nla_parse m' 3 16 16 None = Inr (tb, 0) \<and>
    (case tb ! 2 of None \<Rightarrow> False
     | Some nla \<Rightarrow> mem_read m' (libbpf_nla_data nla) 3 = Inr [1, 2, 3])"
proof -
  let ?m = "le_bytes 4 16 @ replicate 28 0 :: bytes" and ?as = "[(2, [1, 2, 3]), (1, [9])] :: (u16 \<times> bytes) list"
  have "mem_u32 ?m 0 = Inr (of_nat 16)" by code_simp
  moreover have "attrs_size ?as = 16" by (simp add: nla_align_def)
  moreover have "\<forall>a \<in> set ?as. attr_ok a" by (simp add: attr_ok_def)
  ultimately obtain m' tb where r: "add_all ?m 32 ?as = Inr m'"
    "libbpf_nla_parse m' 3 16 16 None = Inr (tb, 0)"
    "\<forall>t \<le> 3. case tb ! t of
         None \<Rightarrow> \<forall>(t', d) \<in> set ?as. unat t' \<noteq> t
       | Some nla \<Rightarrow> \<exists>(t', d) \<in> set ?as. unat t' = t \<and>
           libbpf_nla_len m' nla = Inr (int (length d)) \<and>
           mem_read m' (libbpf_nla_data nla) (length d) = Inr d"
    using nlattr_roundtrip [of ?m 16 ?as 32 3] by (auto simp del: le_bytes.simps)
  from r(3) [rule_format, of 2] have "case tb ! 2 of None \<Rightarrow> False
     | Some nla \<Rightarrow> mem_read m' (libbpf_nla_data nla) 3 = Inr [1, 2, 3]"
    by (auto simp: numeral_3_eq_3 split: option.splits)
  with r(1,2) show ?thesis by blast
qed

text \<open>
  The length of the attributes of an extended acknowledgement forgets the message's own
  header, so 16 bytes behind the message are parsed too: on a well-formed message of 44 bytes,
  capped, with one aligned text attribute, the parser reads behind the message.
\<close>

definition capped_ack :: bytes where
  "capped_ack = le_bytes 4 44 @ le_bytes 2 2 @ le_bytes 2 0x300 @ replicate 8 0 @
     replicate 20 0 @ le_bytes 2 8 @ le_bytes 2 1 @ [111, 111, 112, 0]"

lemma nla_dump_errormsg_overread:
  "length capped_ack = 44 \<and> mem_u32 capped_ack 0 = Inr 44 \<and>
   libbpf_nla_parse capped_ack 3 36 8 (Some extack_policy) = Inr ([None, Some 36, None, None], 0) \<and>
   libbpf_nla_dump_errormsg capped_ack = Inl Fault"
  by code_simp

end
