(* ===== verification/Prog_Linfo.thy ===== *)
theory Prog_Linfo
  imports Prelude
begin

text \<open>
  Source line information of a loaded program: \<^verbatim>\<open>src/bpftools/libbpf/src/bpf_prog_linfo.c\<close>.

  The two arrays of records are byte regions with a record size each, read at byte offsets
  that the code computes in 32 bits; a read outside a region is a fault. A line info record
  starts with its 32-bit instruction offset, a jited one with its 64-bit address.
  The per-function tables that \<open>malloc\<close> leaves uninitialised start with arbitrary contents,
  an argument.
\<close>

record bpf_prog_linfo =
  raw_linfo :: bytes
  raw_jited_linfo :: bytes
  nr_jited_linfo_per_func :: "u32 list"
  jited_linfo_func_idx :: "u32 list"
  nr_linfo :: u32
  nr_jited_func :: u32
  rec_size :: u32
  jited_rec_size :: u32

section \<open>Splitting the jited records by function\<close>

lemma unat_suc_less:
  assumes "(i :: u32) < n"
  shows "unat (i + 1) = unat i + 1"
proof -
  have "unat n < 2 ^ 32" using unsigned_less [of n] by simp
  then show ?thesis using assms by (simp add: word_less_nat_alt unat_word_ariths)
qed

lemma next_record_less: "(i :: u32) < n \<Longrightarrow> unat n - unat (i + 1) < unat n - unat i"
  using unat_suc_less [of i n] by (simp add: word_less_nat_alt)

text \<open>
  The loop of \<open>dissect_jited_func\<close>: \<open>i\<close> runs over the records, \<open>prev\<close> is the address of record
  \<open>i - 1\<close>, \<open>f\<close> is the function looked for and \<open>prev_i\<close> the record the last one started at.
\<close>

function dissect_loop ::
  "u64 list \<Rightarrow> u32 list \<Rightarrow> bpf_prog_linfo \<Rightarrow> u32 \<Rightarrow> u32 \<Rightarrow> u32 \<Rightarrow> u64 \<Rightarrow>
   (bpf_prog_linfo \<times> u32 \<times> u32) cres" where
  "dissect_loop ksym_func ksym_len p prev_i i f prev =
     (if i < nr_linfo p \<and> f < nr_jited_func p
      then
        res_bind (mem_u64 (raw_jited_linfo p) (unat i * unat (jited_rec_size p))) (\<lambda>cur.
        res_bind (arr_get ksym_func (unat f)) (\<lambda>ksym.
          if ksym = cur
          then
            res_bind (arr_set (jited_linfo_func_idx p) (unat f) i) (\<lambda>idx.
            res_bind (arr_get ksym_func (unat (f - 1))) (\<lambda>start.
            res_bind (arr_get ksym_len (unat (f - 1))) (\<lambda>len.
              if prev - start + 1 > ucast len then Inl (Err EINVAL)
              else
                res_bind (arr_set (nr_jited_linfo_per_func p) (unat (f - 1)) (i - prev_i)) (\<lambda>nr.
                  dissect_loop ksym_func ksym_len
                    (p\<lparr>jited_linfo_func_idx := idx, nr_jited_linfo_per_func := nr\<rparr>)
                    i (i + 1) (f + 1) cur))))
          else if cur \<le> prev then Inl (Err EINVAL)
          else dissect_loop ksym_func ksym_len p prev_i (i + 1) f cur))
      else Inr (p, prev_i, f))"
  by pat_completeness auto

termination
  by (relation "measure (\<lambda>(ks, kl, p, prev_i, i, f, prev). unat (nr_linfo p) - unat i)")
    (simp_all add: next_record_less)

declare dissect_loop.simps [simp del]

definition dissect_jited_func ::
  "bpf_prog_linfo \<Rightarrow> u64 list \<Rightarrow> u32 list \<Rightarrow> bpf_prog_linfo cres" where
  "dissect_jited_func p ksym_func ksym_len =
     res_bind (mem_u64 (raw_jited_linfo p) 0) (\<lambda>first.
     res_bind (arr_get ksym_func 0) (\<lambda>k0.
       if k0 \<noteq> first then Inl (Err EINVAL)
       else
         res_bind (arr_set (jited_linfo_func_idx p) 0 0) (\<lambda>idx.
         res_bind (dissect_loop ksym_func ksym_len (p\<lparr>jited_linfo_func_idx := idx\<rparr>) 0 1 1 first)
           (\<lambda>(p, prev_i, f).
              if f \<noteq> nr_jited_func p then Inl (Err EINVAL)
              else
                res_bind (arr_set (nr_jited_linfo_per_func p) (unat (nr_jited_func p - 1))
                            (nr_linfo p - prev_i))
                  (\<lambda>nr. Inr (p\<lparr>nr_jited_linfo_per_func := nr\<rparr>))))))"

section \<open>Construction\<close>

text \<open>
  What \<open>bpf_prog_info\<close> says; its arrays are \<open>None\<close> for the null pointer.
\<close>

record bpf_prog_info =
  nr_line_info :: u32
  line_info_rec_size :: u32
  line_info :: bytes
  nr_jited_ksyms :: u32
  jited_line_info :: "bytes option"
  nr_jited_line_info :: u32
  jited_line_info_rec_size :: u32
  nr_jited_func_lens :: u32
  jited_ksyms :: "u64 list option"
  jited_func_lens :: "u32 list option"

text \<open>
  Outcomes of the allocations: the structure, the two copies, and the two tables with the
  contents they are given by \<open>malloc\<close>.
\<close>

record linfo_alloc =
  calloc_ok :: bool
  raw_ok :: bool
  raw_jited_ok :: bool
  nr_table :: "u32 list option"
  idx_table :: "u32 list option"

definition bpf_prog_linfo__new :: "linfo_alloc \<Rightarrow> bpf_prog_info \<Rightarrow> bpf_prog_linfo cres" where
  "bpf_prog_linfo__new al info =
     (let nr_linfo = nr_line_info info
      in if nr_linfo = 0 then Inl (Err EINVAL)
         else if line_info_rec_size info < 4 then Inl (Err EINVAL)
         else if \<not> calloc_ok al then Inl (Err ENOMEM)
         else if \<not> raw_ok al then Inl (Err EINVAL)
         else
           let data_sz = unat nr_linfo * unat (line_info_rec_size info)
           in res_bind (mem_read (line_info info) 0 data_sz) (\<lambda>raw.
                let p = \<lparr>raw_linfo = raw, raw_jited_linfo = [], nr_jited_linfo_per_func = [],
                         jited_linfo_func_idx = [], nr_linfo = nr_linfo, nr_jited_func = 0,
                         rec_size = line_info_rec_size info, jited_rec_size = 0\<rparr>;
                    nr_jited_func = nr_jited_ksyms info
                in case (jited_line_info info, jited_ksyms info, jited_func_lens info) of
                     (Some jited, Some ksyms, Some lens) \<Rightarrow>
                       if nr_jited_func = 0 \<or> nr_jited_line_info info \<noteq> nr_linfo \<or>
                          jited_line_info_rec_size info < 8 \<or>
                          nr_jited_func_lens info \<noteq> nr_jited_func
                       then Inr p
                       else if \<not> raw_jited_ok al then Inl (Err EINVAL)
                       else
                         let jsz = unat nr_linfo * unat (jited_line_info_rec_size info)
                         in res_bind (mem_read jited 0 jsz) (\<lambda>jraw.
                              case (nr_table al, idx_table al) of
                                (Some nr, Some idx) \<Rightarrow>
                                  dissect_jited_func
                                    (p\<lparr>nr_jited_func := nr_jited_func,
                                       jited_rec_size := jited_line_info_rec_size info,
                                       raw_jited_linfo := jraw,
                                       nr_jited_linfo_per_func := nr,
                                       jited_linfo_func_idx := idx\<rparr>)
                                    ksyms lens
                              | _ \<Rightarrow> Inl (Err EINVAL))
                   | _ \<Rightarrow> Inr p))"

section \<open>Lookups\<close>

text \<open>
  Both lookups return the byte offset of the record found in \<open>raw_linfo\<close>. The start is a
  32-bit product; the offsets then advance by whole records.
\<close>

fun record_scan :: "(nat \<Rightarrow> 'a::linorder cres) \<Rightarrow> nat \<Rightarrow> 'a \<Rightarrow> nat \<Rightarrow> nat \<Rightarrow> nat cres" where
  "record_scan get step x off 0 = Inr 0"
| "record_scan get step x off (Suc n) =
     res_bind (get off) (\<lambda>a.
       if x < a then Inr 0
       else res_bind (record_scan get step x (off + step) n) (\<lambda>k. Inr (Suc k)))"

definition bpf_prog_linfo__lfind_addr_func ::
  "bpf_prog_linfo \<Rightarrow> u64 \<Rightarrow> u32 \<Rightarrow> u32 \<Rightarrow> int cres" where
  "bpf_prog_linfo__lfind_addr_func p addr func_idx nr_skip =
     (if func_idx \<ge> nr_jited_func p then Inl (Err ENOENT)
      else
        res_bind (arr_get (nr_jited_linfo_per_func p) (unat func_idx)) (\<lambda>nr.
          if nr_skip \<ge> nr then Inl (Err ENOENT)
          else
            res_bind (arr_get (jited_linfo_func_idx p) (unat func_idx)) (\<lambda>idx.
              let start = idx + nr_skip;
                  jited_off = unat (start * jited_rec_size p)
              in res_bind (mem_u64 (raw_jited_linfo p) jited_off) (\<lambda>a0.
                   if addr < a0 then Inl (Err ENOENT)
                   else
                     res_bind (record_scan (mem_u64 (raw_jited_linfo p)) (unat (jited_rec_size p)) addr jited_off
                                 (unat (nr - nr_skip)))
                       (\<lambda>k. Inr (int (unat (start * rec_size p)) + int k * int (unat (rec_size p))
                                  - int (unat (rec_size p))))))))"

definition bpf_prog_linfo__lfind :: "bpf_prog_linfo \<Rightarrow> u32 \<Rightarrow> u32 \<Rightarrow> int cres" where
  "bpf_prog_linfo__lfind p insn_off nr_skip =
     (if nr_skip \<ge> nr_linfo p then Inl (Err ENOENT)
      else
        let off = unat (nr_skip * rec_size p)
        in res_bind (mem_u32 (raw_linfo p) off) (\<lambda>a0.
             if insn_off < a0 then Inl (Err ENOENT)
             else
               res_bind (record_scan (mem_u32 (raw_linfo p)) (unat (rec_size p)) insn_off off
                           (unat (nr_linfo p - nr_skip)))
                 (\<lambda>k. Inr (int off + int k * int (unat (rec_size p)) - int (unat (rec_size p))))))"

section \<open>Lookups find the last record at or before the target\<close>

lemma record_scan_result:
  assumes "\<And>i. i < n \<Longrightarrow> get (off + i * step) = Inr (val i)"
  shows "\<exists>k \<le> n. record_scan get step x off n = Inr k \<and> (\<forall>i < k. val i \<le> x) \<and> (k < n \<longrightarrow> x < val k)"
  using assms
proof (induction n arbitrary: off val)
  case 0
  then show ?case by simp
next
  case (Suc n)
  have g: "get off = Inr (val 0)" using Suc.prems [of 0] by simp
  show ?case
  proof (cases "x < val 0")
    case True
    then show ?thesis using g by auto
  next
    case False
    have "get (off + step + i * step) = Inr (val (Suc i))" if "i < n" for i
      using Suc.prems [of "Suc i"] that by (simp add: add.assoc)
    from Suc.IH [OF this] obtain k where k: "k \<le> n" "record_scan get step x (off + step) n = Inr k"
      "\<forall>i < k. val (Suc i) \<le> x" "k < n \<longrightarrow> x < val (Suc k)"
      by blast
    have "\<forall>i < Suc k. val i \<le> x" using k(3) False by (auto simp: less_Suc_eq_0_disj)
    then show ?thesis using k g False by (intro exI [of _ "Suc k"]) simp
  qed
qed

text \<open>The instruction offset and the address in record \<open>i\<close>.\<close>

definition linfo_insn :: "bpf_prog_linfo \<Rightarrow> nat \<Rightarrow> u32" where
  "linfo_insn p i = word_of_nat (le_val (take 4 (drop (i * unat (rec_size p)) (raw_linfo p))))"

definition linfo_addr :: "bpf_prog_linfo \<Rightarrow> nat \<Rightarrow> u64" where
  "linfo_addr p i = word_of_nat (le_val (take 8 (drop (i * unat (jited_rec_size p)) (raw_jited_linfo p))))"

definition linfo_wf :: "bpf_prog_linfo \<Rightarrow> bool" where
  "linfo_wf p \<longleftrightarrow> 4 \<le> unat (rec_size p) \<and> length (raw_linfo p) = unat (nr_linfo p) * unat (rec_size p)"

definition jited_wf :: "bpf_prog_linfo \<Rightarrow> bool" where
  "jited_wf p \<longleftrightarrow>
     8 \<le> unat (jited_rec_size p) \<and>
     length (raw_jited_linfo p) = unat (nr_linfo p) * unat (jited_rec_size p)"

lemma record_in_bounds:
  assumes "i < n" "k \<le> (r::nat)"
  shows "i * r + k \<le> n * r"
proof -
  have "i * r + k \<le> Suc i * r" using assms(2) by simp
  also have "\<dots> \<le> n * r" using assms(1) by (intro mult_le_mono1) simp
  finally show ?thesis .
qed

lemma linfo_insn_read:
  "linfo_wf p \<Longrightarrow> i < unat (nr_linfo p) \<Longrightarrow>
   mem_u32 (raw_linfo p) (i * unat (rec_size p)) = Inr (linfo_insn p i)"
  by (simp add: mem_u32_def mem_read_def linfo_wf_def record_in_bounds linfo_insn_def)

lemma linfo_addr_read:
  "jited_wf p \<Longrightarrow> i < unat (nr_linfo p) \<Longrightarrow>
   mem_u64 (raw_jited_linfo p) (i * unat (jited_rec_size p)) = Inr (linfo_addr p i)"
  by (simp add: mem_u64_def mem_read_def jited_wf_def record_in_bounds linfo_addr_def)

lemma unat_mult_small: "unat a * unat b < 2 ^ 32 \<Longrightarrow> unat (a * b :: u32) = unat a * unat b"
  by (simp add: unat_word_ariths)

lemma unat_offset:
  assumes "unat (w :: u32) \<le> n" "n * unat r < 2 ^ 32"
  shows "unat (w * r) = unat w * unat r"
proof -
  have "unat w * unat r \<le> n * unat r" using assms(1) by (rule mult_le_mono1)
  then show ?thesis using assms(2) by (intro unat_mult_small) linarith
qed

lemma unat_minus_less: "(a :: u32) < b \<Longrightarrow> unat (b - a) = unat b - unat a"
  by (simp add: unat_sub word_less_nat_alt word_le_nat_alt)

lemma record_scan_last:
  fixes val :: "nat \<Rightarrow> 'a::linorder"
  assumes reads: "\<And>i. i < n \<Longrightarrow> get (i * r) = Inr (val i)"
    and s: "s < n" and first: "val s \<le> x"
  shows "\<exists>j. record_scan get r x (s * r) (n - s) = Inr (Suc (j - s)) \<and> s \<le> j \<and> j < n \<and>
    (\<forall>i. s \<le> i \<longrightarrow> i \<le> j \<longrightarrow> val i \<le> x) \<and> (j + 1 < n \<longrightarrow> x < val (j + 1))"
proof -
  have "get (s * r + i * r) = Inr (val (s + i))" if "i < n - s" for i
    using reads [of "s + i"] that by (simp add: add_mult_distrib)
  then obtain k where k: "k \<le> n - s" "record_scan get r x (s * r) (n - s) = Inr k"
    "\<forall>i < k. val (s + i) \<le> x" "k < n - s \<longrightarrow> x < val (s + k)"
    using record_scan_result [where n = "n - s" and get = get and off = "s * r" and step = r
        and val = "\<lambda>i. val (s + i)" and x = x] by blast
  have "0 < k" using k(4) first s by (cases k) auto
  then obtain j where j: "k = Suc j" by (cases k) auto
  have "\<forall>i. s \<le> i \<longrightarrow> i \<le> s + j \<longrightarrow> val i \<le> x"
    using k(3) j by (metis add_diff_inverse_nat add_le_cancel_left le_imp_less_Suc not_less)
  then show ?thesis using k j by (intro exI [of _ "s + j"]) auto
qed

text \<open>
  When the record array is smaller than 4 GiB, a lookup by instruction offset skips the
  given number of records, reports that there is no record when the first one is behind the
  target, and otherwise returns the start of a record such that all records up to it are at
  or before the target and the next one, if any, is behind it.
\<close>

lemma lfind_correct:
  assumes wf: "linfo_wf p" and small: "unat (nr_linfo p) * unat (rec_size p) < 2 ^ 32"
    and skip: "nr_skip < nr_linfo p"
  shows "if insn_off < linfo_insn p (unat nr_skip)
    then bpf_prog_linfo__lfind p insn_off nr_skip = Inl (Err ENOENT)
    else \<exists>j. bpf_prog_linfo__lfind p insn_off nr_skip = Inr (int (j * unat (rec_size p))) \<and>
      unat nr_skip \<le> j \<and> j < unat (nr_linfo p) \<and>
      (\<forall>i. unat nr_skip \<le> i \<longrightarrow> i \<le> j \<longrightarrow> linfo_insn p i \<le> insn_off) \<and>
      (j + 1 < unat (nr_linfo p) \<longrightarrow> insn_off < linfo_insn p (j + 1))"
proof -
  let ?s = "unat nr_skip" and ?r = "unat (rec_size p)" and ?n = "unat (nr_linfo p)"
  have s: "?s < ?n" using skip by (simp add: word_less_nat_alt)
  have off: "unat (nr_skip * rec_size p) = ?s * ?r"
    using small s by (intro unat_offset [of _ ?n]) simp_all
  note first = linfo_insn_read [OF wf s]
  note cnt = unat_minus_less [OF skip]
  have skip': "\<not> nr_skip \<ge> nr_linfo p" using skip by simp
  show ?thesis
  proof (cases "insn_off < linfo_insn p ?s")
    case True
    then show ?thesis using skip' off first by (simp add: bpf_prog_linfo__lfind_def Let_def)
  next
    case False
    then have "linfo_insn p ?s \<le> insn_off" by simp
    then obtain j where j: "record_scan (mem_u32 (raw_linfo p)) ?r insn_off (?s * ?r) (?n - ?s) = Inr (Suc (j - ?s))"
      "?s \<le> j" "j < ?n" "\<forall>i. ?s \<le> i \<longrightarrow> i \<le> j \<longrightarrow> linfo_insn p i \<le> insn_off"
      "j + 1 < ?n \<longrightarrow> insn_off < linfo_insn p (j + 1)"
      using record_scan_last [where get = "mem_u32 (raw_linfo p)" and val = "linfo_insn p" and n = ?n
          and r = ?r and s = ?s and x = insn_off] linfo_insn_read [OF wf] s
      by blast
    have "bpf_prog_linfo__lfind p insn_off nr_skip = Inr (int (?s * ?r) + int (Suc (j - ?s)) * int ?r - int ?r)"
      using skip' off first False j(1) cnt
      by (simp only: bpf_prog_linfo__lfind_def Let_def if_False res_bind_simps)
    also have "int (?s * ?r) + int (Suc (j - ?s)) * int ?r - int ?r = int (j * ?r)"
      using j(2) by (simp add: algebra_simps of_nat_diff)
    finally show ?thesis using False j(2-5) by auto
  qed
qed

text \<open>
  Likewise for a lookup by address in the records of one function.
\<close>

lemma lfind_addr_func_correct:
  assumes wf: "linfo_wf p" "jited_wf p"
    and small: "unat (nr_linfo p) * unat (rec_size p) < 2 ^ 32"
      "unat (nr_linfo p) * unat (jited_rec_size p) < 2 ^ 32"
    and f: "func_idx < nr_jited_func p"
      "arr_get (nr_jited_linfo_per_func p) (unat func_idx) = Inr nr"
      "arr_get (jited_linfo_func_idx p) (unat func_idx) = Inr idx"
      "unat idx + unat nr \<le> unat (nr_linfo p)"
    and skip: "nr_skip < nr"
  shows "if addr < linfo_addr p (unat idx + unat nr_skip)
    then bpf_prog_linfo__lfind_addr_func p addr func_idx nr_skip = Inl (Err ENOENT)
    else \<exists>j. bpf_prog_linfo__lfind_addr_func p addr func_idx nr_skip = Inr (int (j * unat (rec_size p))) \<and>
      unat idx + unat nr_skip \<le> j \<and> j < unat idx + unat nr \<and>
      (\<forall>i. unat idx + unat nr_skip \<le> i \<longrightarrow> i \<le> j \<longrightarrow> linfo_addr p i \<le> addr) \<and>
      (j + 1 < unat idx + unat nr \<longrightarrow> addr < linfo_addr p (j + 1))"
proof -
  let ?s = "unat idx + unat nr_skip" and ?n = "unat idx + unat nr"
  let ?r = "unat (rec_size p)" and ?jr = "unat (jited_rec_size p)"
  have s: "?s < ?n" using skip by (simp add: word_less_nat_alt)
  have "unat (nr_linfo p) < 2 ^ 32" using unsigned_less [of "nr_linfo p"] by simp
  then have start: "unat (idx + nr_skip) = ?s" using s f(4) by (simp add: unat_word_ariths)
  have "?s \<le> unat (nr_linfo p)" using s f(4) by simp
  then have off: "unat ((idx + nr_skip) * rec_size p) = ?s * ?r"
    "unat ((idx + nr_skip) * jited_rec_size p) = ?s * ?jr"
    using unat_offset [of "idx + nr_skip", OF _ small(1)] unat_offset [of "idx + nr_skip", OF _ small(2)]
    by (simp_all add: start)
  have reads: "mem_u64 (raw_jited_linfo p) (i * ?jr) = Inr (linfo_addr p i)" if "i < ?n" for i
    using linfo_addr_read [OF wf(2)] that f(4) by simp
  have cnt: "unat (nr - nr_skip) = ?n - ?s" using unat_minus_less [OF skip] by simp
  have guards: "\<not> func_idx \<ge> nr_jited_func p" "\<not> nr_skip \<ge> nr" using f(1) skip by simp_all
  show ?thesis
  proof (cases "addr < linfo_addr p ?s")
    case True
    then show ?thesis using guards off f(2,3) reads [OF s]
      by (simp add: bpf_prog_linfo__lfind_addr_func_def Let_def)
  next
    case False
    then have "linfo_addr p ?s \<le> addr" by simp
    then obtain j where j: "record_scan (mem_u64 (raw_jited_linfo p)) ?jr addr (?s * ?jr) (?n - ?s) = Inr (Suc (j - ?s))"
      "?s \<le> j" "j < ?n" "\<forall>i. ?s \<le> i \<longrightarrow> i \<le> j \<longrightarrow> linfo_addr p i \<le> addr"
      "j + 1 < ?n \<longrightarrow> addr < linfo_addr p (j + 1)"
      using record_scan_last [where get = "mem_u64 (raw_jited_linfo p)" and val = "linfo_addr p" and n = ?n
          and r = ?jr and s = ?s and x = addr] reads s
      by blast
    have "bpf_prog_linfo__lfind_addr_func p addr func_idx nr_skip =
        Inr (int (?s * ?r) + int (Suc (j - ?s)) * int ?r - int ?r)"
      using guards off f(2,3) reads [OF s] False j(1) cnt
      by (simp only: bpf_prog_linfo__lfind_addr_func_def Let_def if_False res_bind_simps)
    also have "int (?s * ?r) + int (Suc (j - ?s)) * int ?r - int ?r = int (j * ?r)"
      using j(2) by (simp add: algebra_simps of_nat_diff)
    finally show ?thesis using False j(2-5) by auto
  qed
qed

section \<open>The jited records are split by function\<close>

abbreviation func_idx :: "bpf_prog_linfo \<Rightarrow> nat \<Rightarrow> nat" where
  "func_idx p g \<equiv> unat (jited_linfo_func_idx p ! g)"

abbreviation func_cnt :: "bpf_prog_linfo \<Rightarrow> nat \<Rightarrow> nat" where
  "func_cnt p g \<equiv> unat (nr_jited_linfo_per_func p ! g)"

text \<open>The shape of the arguments: the tables and arrays have an entry per function.\<close>

definition split_args :: "bpf_prog_linfo \<Rightarrow> u64 list \<Rightarrow> u32 list \<Rightarrow> bool" where
  "split_args p ksyms lens \<longleftrightarrow>
     jited_wf p \<and> 0 < unat (nr_linfo p) \<and> 0 < unat (nr_jited_func p) \<and>
     length (jited_linfo_func_idx p) = unat (nr_jited_func p) \<and>
     length (nr_jited_linfo_per_func p) = unat (nr_jited_func p) \<and>
     length ksyms = unat (nr_jited_func p) \<and> length lens = unat (nr_jited_func p)"

text \<open>The first \<open>f\<close> functions have been found, the last of them at record \<open>prev_i\<close>.\<close>

definition split_upto :: "u64 list \<Rightarrow> bpf_prog_linfo \<Rightarrow> nat \<Rightarrow> nat \<Rightarrow> nat \<Rightarrow> bool" where
  "split_upto ksyms p f prev_i i \<longleftrightarrow>
     0 < f \<and> f \<le> unat (nr_jited_func p) \<and> prev_i < i \<and> i \<le> unat (nr_linfo p) \<and>
     func_idx p 0 = 0 \<and> func_idx p (f - 1) = prev_i \<and>
     (\<forall>g < f. linfo_addr p (func_idx p g) = ksyms ! g) \<and>
     (\<forall>g. g + 1 < f \<longrightarrow> func_idx p (g + 1) = func_idx p g + func_cnt p g \<and> 0 < func_cnt p g \<and>
        (\<forall>j. func_idx p g \<le> j \<longrightarrow> j + 1 < func_idx p (g + 1) \<longrightarrow> linfo_addr p j < linfo_addr p (j + 1))) \<and>
     (\<forall>j. prev_i \<le> j \<longrightarrow> j + 1 < i \<longrightarrow> linfo_addr p j < linfo_addr p (j + 1))"

lemma split_upto_skip:
  assumes "split_upto ksyms p f prev_i i" "i < unat (nr_linfo p)" "linfo_addr p (i - 1) < linfo_addr p i"
  shows "split_upto ksyms p f prev_i (i + 1)"
proof -
  have "linfo_addr p j < linfo_addr p (j + 1)" if "prev_i \<le> j" "j + 1 < i + 1" for j
    using assms that by (cases "j + 1 = i") (auto simp: split_upto_def)
  then show ?thesis using assms(1,2) unfolding split_upto_def by auto
qed

lemma split_upto_found:
  assumes s: "split_upto ksyms p f prev_i i" and i: "i < unat (nr_linfo p)" and f: "f < unat (nr_jited_func p)"
    and args: "split_args p ksyms lens" and here: "ksyms ! f = linfo_addr p i"
    and p': "p' = p\<lparr>jited_linfo_func_idx := (jited_linfo_func_idx p)[f := wi],
                  nr_jited_linfo_per_func := (nr_jited_linfo_per_func p)[f - 1 := wn]\<rparr>"
    and w: "unat wi = i" "unat wn = i - prev_i"
  shows "split_upto ksyms p' (f + 1) i (i + 1)"
proof -
  have len: "f < length (jited_linfo_func_idx p)" "f - 1 < length (nr_jited_linfo_per_func p)"
    using args f by (auto simp: split_args_def)
  have idx: "func_idx p' g = (if g = f then i else func_idx p g)" for g
    using len w by (simp add: p')
  have cnt: "func_cnt p' g = (if g = f - 1 then i - prev_i else func_cnt p g)" for g
    using len w by (simp add: p')
  have addr: "linfo_addr p' j = linfo_addr p j" for j by (simp add: p' linfo_addr_def)
  have f0: "0 < f" "prev_i < i" "func_idx p (f - 1) = prev_i" using s by (simp_all add: split_upto_def)
  have "func_idx p' (g + 1) = func_idx p' g + func_cnt p' g \<and> 0 < func_cnt p' g \<and>
      (\<forall>j. func_idx p' g \<le> j \<longrightarrow> j + 1 < func_idx p' (g + 1) \<longrightarrow> linfo_addr p' j < linfo_addr p' (j + 1))"
    if g: "g + 1 < f + 1" for g
  proof (cases "g = f - 1")
    case True
    then show ?thesis using s f0 by (auto simp: idx cnt addr split_upto_def)
  next
    case False
    then have "g + 1 < f" using g f0 by linarith
    then show ?thesis using s False by (auto simp: idx cnt addr split_upto_def)
  qed
  moreover have "\<forall>g < f + 1. linfo_addr p' (func_idx p' g) = ksyms ! g"
    using s here by (auto simp: idx addr split_upto_def less_Suc_eq)
  moreover have "func_idx p' 0 = 0" using s f0 by (auto simp: idx split_upto_def)
  ultimately show ?thesis
    using i f by (simp add: split_upto_def p' len w)
qed

text \<open>The loop only writes its two tables.\<close>

definition same_records :: "bpf_prog_linfo \<Rightarrow> bpf_prog_linfo \<Rightarrow> bool" where
  "same_records p p' \<longleftrightarrow>
     p' = p\<lparr>jited_linfo_func_idx := jited_linfo_func_idx p',
            nr_jited_linfo_per_func := nr_jited_linfo_per_func p'\<rparr>"

lemma same_records_trans: "same_records p q \<Longrightarrow> same_records q r \<Longrightarrow> same_records p r"
  by (cases p; cases q; cases r) (simp add: same_records_def)

lemma dissect_loop_splits:
  assumes "split_args p ksyms lens" "split_upto ksyms p (unat f) (unat prev_i) (unat i)"
    "prev = linfo_addr p (unat i - 1)"
  shows "case dissect_loop ksyms lens p prev_i i f prev of
      Inl e \<Rightarrow> e = Err EINVAL
    | Inr (p', prev_i', f') \<Rightarrow> same_records p p' \<and> split_args p' ksyms lens \<and>
        (\<exists>i'. split_upto ksyms p' (unat f') (unat prev_i') i')"
  using assms
proof (induction ksyms lens p prev_i i f prev rule: dissect_loop.induct)
  case (1 ksyms lens p prev_i i f prev)
  show ?case
  proof (cases "i < nr_linfo p \<and> f < nr_jited_func p")
    case False
    have "dissect_loop ksyms lens p prev_i i f prev = Inr (p, prev_i, f)"
      using False by (subst dissect_loop.simps) auto
    then show ?thesis using 1(3,4) by (auto simp: same_records_def)
  next
    case True
    then have i: "i < nr_linfo p" and f: "f < nr_jited_func p" by simp_all
    have iu: "unat i < unat (nr_linfo p)" and fu: "unat f < unat (nr_jited_func p)"
      using i f by (simp_all add: word_less_nat_alt)
    have i1: "unat (i + 1) = unat i + 1" and f1: "unat (f + 1) = unat f + 1"
      using unat_suc_less [OF i] unat_suc_less [OF f] .
    have f0: "0 < unat f" "unat prev_i < unat i" using 1(4) by (simp_all add: split_upto_def)
    have fm: "unat (f - 1) = unat f - 1" using f0 by (simp add: unat_minus_one unat_gt_0)
    have wf: "jited_wf p" using 1(3) by (simp add: split_args_def)
    note read = linfo_addr_read [OF wf iu]
    have lens: "length ksyms = unat (nr_jited_func p)" "length lens = unat (nr_jited_func p)"
      "length (jited_linfo_func_idx p) = unat (nr_jited_func p)"
      "length (nr_jited_linfo_per_func p) = unat (nr_jited_func p)"
      using 1(3) by (simp_all add: split_args_def)
    have gets: "arr_get ksyms (unat f) = Inr (ksyms ! unat f)"
      "arr_get ksyms (unat (f - 1)) = Inr (ksyms ! (unat f - 1))"
      "arr_get lens (unat (f - 1)) = Inr (lens ! (unat f - 1))"
      "arr_set (jited_linfo_func_idx p) (unat f) i = Inr ((jited_linfo_func_idx p)[unat f := i])"
      "arr_set (nr_jited_linfo_per_func p) (unat (f - 1)) (i - prev_i) =
         Inr ((nr_jited_linfo_per_func p)[unat f - 1 := i - prev_i])"
      using fu lens by (simp_all add: arr_get_def arr_set_def fm)
    let ?cur = "linfo_addr p (unat i)"
    let ?p = "p\<lparr>jited_linfo_func_idx := (jited_linfo_func_idx p)[unat f := i],
                nr_jited_linfo_per_func := (nr_jited_linfo_per_func p)[unat f - 1 := i - prev_i]\<rparr>"
    show ?thesis
    proof (cases "ksyms ! unat f = ?cur")
      case here: True
      let ?bad = "prev - ksyms ! (unat f - 1) + 1 > ucast (lens ! (unat f - 1))"
      have step: "dissect_loop ksyms lens p prev_i i f prev =
          (if ?bad then Inl (Err EINVAL) else dissect_loop ksyms lens ?p i (i + 1) (f + 1) ?cur)"
        by (subst dissect_loop.simps) (simp add: i f read gets here)
      have d: "unat (i - prev_i) = unat i - unat prev_i"
        using f0 by (intro unat_minus_less) (simp add: word_less_nat_alt)
      have args: "split_args ?p ksyms lens"
        using 1(3) by (simp add: split_args_def jited_wf_def)
      have upto: "split_upto ksyms ?p (unat (f + 1)) (unat i) (unat (i + 1))"
        unfolding i1 f1 by (rule split_upto_found [OF 1(4) iu fu 1(3) here refl refl d])
      have cur: "?cur = linfo_addr ?p (unat (i + 1) - 1)"
        by (simp add: linfo_addr_def i1)
      have same: "same_records p ?p" by (simp add: same_records_def)
      show ?thesis
      proof (cases ?bad)
        case True
        then show ?thesis by (simp add: step)
      next
        case False
        have "case dissect_loop ksyms lens ?p i (i + 1) (f + 1) ?cur of
            Inl e \<Rightarrow> e = Err EINVAL
          | Inr (p', prev_i', f') \<Rightarrow> same_records ?p p' \<and> split_args p' ksyms lens \<and>
              (\<exists>i'. split_upto ksyms p' (unat f') (unat prev_i') i')"
          by (rule 1(1) [OF True read gets(1) here gets(4) gets(2,3) False gets(5) args upto cur])
        then show ?thesis using same_records_trans [OF same] False by (auto simp: step split: sum.splits)
      qed
    next
      case other: False
      have step: "dissect_loop ksyms lens p prev_i i f prev =
          (if ?cur \<le> prev then Inl (Err EINVAL) else dissect_loop ksyms lens p prev_i (i + 1) f ?cur)"
        by (subst dissect_loop.simps) (simp add: i f read gets other)
      show ?thesis
      proof (cases "?cur \<le> prev")
        case True
        then show ?thesis by (simp add: step)
      next
        case False
        then have less: "linfo_addr p (unat i - 1) < ?cur" using 1(5) by simp
        have upto: "split_upto ksyms p (unat f) (unat prev_i) (unat (i + 1))"
          unfolding i1 by (rule split_upto_skip [OF 1(4) iu less])
        have cur: "?cur = linfo_addr p (unat (i + 1) - 1)" by (simp add: i1)
        show ?thesis
          using 1(2) [OF True read gets(1) other False 1(3) upto cur] False by (simp add: step)
      qed
    qed
  qed
qed

text \<open>The run of the last function ends at the end of the records.\<close>

lemma split_upto_end:
  assumes s: "split_upto ksyms p n prev_i i" and n: "n = unat (nr_jited_func p)"
    and len: "length (nr_jited_linfo_per_func p) = n"
    and w: "unat wn = unat (nr_linfo p) - prev_i"
    and p': "p' = p\<lparr>nr_jited_linfo_per_func := (nr_jited_linfo_per_func p)[n - 1 := wn]\<rparr>"
  shows "func_idx p' 0 = 0 \<and>
    (\<forall>g < n. linfo_addr p (func_idx p' g) = ksyms ! g \<and> 0 < func_cnt p' g \<and>
       (if g + 1 = n then func_idx p' g + func_cnt p' g = unat (nr_linfo p)
        else func_idx p' g + func_cnt p' g = func_idx p' (g + 1) \<and>
          (\<forall>j. func_idx p' g \<le> j \<longrightarrow> j + 1 < func_idx p' (g + 1) \<longrightarrow>
               linfo_addr p j < linfo_addr p (j + 1))))"
proof -
  have b: "0 < n" "prev_i < unat (nr_linfo p)" "func_idx p (n - 1) = prev_i"
    using s by (simp_all add: split_upto_def)
  have idx: "func_idx p' g = func_idx p g" for g by (simp add: p')
  have cnt: "func_cnt p' g = (if g = n - 1 then unat (nr_linfo p) - prev_i else func_cnt p g)" for g
    using b len w by (simp add: p')
  have "0 < func_cnt p' g \<and>
      (if g + 1 = n then func_idx p' g + func_cnt p' g = unat (nr_linfo p)
       else func_idx p' g + func_cnt p' g = func_idx p' (g + 1) \<and>
         (\<forall>j. func_idx p' g \<le> j \<longrightarrow> j + 1 < func_idx p' (g + 1) \<longrightarrow>
              linfo_addr p j < linfo_addr p (j + 1)))" if g: "g < n" for g
  proof (cases "g + 1 = n")
    case True
    then have "g = n - 1" by simp
    then show ?thesis using b True by (simp add: idx cnt)
  next
    case False
    then have "g + 1 < n" "g \<noteq> n - 1" using g by auto
    then show ?thesis using s False by (simp add: idx cnt split_upto_def)
  qed
  moreover have "func_idx p' 0 = 0" "\<forall>g < n. linfo_addr p (func_idx p' g) = ksyms ! g"
    using s by (simp_all add: idx split_upto_def)
  ultimately show ?thesis by blast
qed

text \<open>
  C23. Splitting the records by function is memory safe, and the only error is \<open>EINVAL\<close>. When
  it succeeds, the two tables cut the records into consecutive runs, one per function, the
  first starting at record 0 and the last ending at the end; each run starts at its function's
  address, and within every run but the last the addresses increase.
\<close>

theorem dissect_jited_func_splits:
  assumes args: "split_args p ksyms lens"
  shows "case dissect_jited_func p ksyms lens of
      Inl e \<Rightarrow> e = Err EINVAL
    | Inr p' \<Rightarrow> same_records p p' \<and> func_idx p' 0 = 0 \<and>
        (\<forall>g < unat (nr_jited_func p). linfo_addr p (func_idx p' g) = ksyms ! g \<and> 0 < func_cnt p' g \<and>
           (if g + 1 = unat (nr_jited_func p) then func_idx p' g + func_cnt p' g = unat (nr_linfo p)
            else func_idx p' g + func_cnt p' g = func_idx p' (g + 1) \<and>
              (\<forall>j. func_idx p' g \<le> j \<longrightarrow> j + 1 < func_idx p' (g + 1) \<longrightarrow>
                   linfo_addr p j < linfo_addr p (j + 1))))"
proof -
  let ?n = "nr_jited_func p"
  have n: "0 < unat (nr_linfo p)" "0 < unat ?n" and wf: "jited_wf p"
    using args by (simp_all add: split_args_def)
  have read: "mem_u64 (raw_jited_linfo p) 0 = Inr (linfo_addr p 0)"
    using linfo_addr_read [OF wf n(1)] by simp
  let ?p = "p\<lparr>jited_linfo_func_idx := (jited_linfo_func_idx p)[0 := 0]\<rparr>"
  let ?r = "dissect_loop ksyms lens ?p 0 1 1 (linfo_addr p 0)"
  have start: "arr_get ksyms 0 = Inr (ksyms ! 0)"
    "arr_set (jited_linfo_func_idx p) 0 0 = Inr ((jited_linfo_func_idx p)[0 := 0])"
    using args by (simp_all add: split_args_def arr_get_def arr_set_def)
  show ?thesis
  proof (cases "ksyms ! 0 = linfo_addr p 0")
    case False
    then show ?thesis by (simp add: dissect_jited_func_def read start)
  next
    case True
    have addr: "linfo_addr ?p j = linfo_addr p j" for j by (simp add: linfo_addr_def)
    have args': "split_args ?p ksyms lens" using args by (simp add: split_args_def jited_wf_def)
    have "split_upto ksyms ?p (unat (1 :: u32)) (unat (0 :: u32)) (unat (1 :: u32))"
      using n True args addr by (simp add: split_upto_def split_args_def)
    from dissect_loop_splits [OF args' this, of "linfo_addr p 0"]
    have loop: "case ?r of Inl e \<Rightarrow> e = Err EINVAL
      | Inr (p', prev_i', f') \<Rightarrow> same_records ?p p' \<and> split_args p' ksyms lens \<and>
          (\<exists>i'. split_upto ksyms p' (unat f') (unat prev_i') i')"
      by (simp add: addr)
    show ?thesis
    proof (cases ?r)
      case (Inl e)
      then show ?thesis using loop True by (simp add: dissect_jited_func_def read start)
    next
      case (Inr q)
      obtain p' prev_i f where q: "q = (p', prev_i, f)" by (cases q)
      obtain i where s: "same_records ?p p'" "split_args p' ksyms lens"
        "split_upto ksyms p' (unat f) (unat prev_i) i"
        using loop Inr q by auto
      have fields: "nr_linfo p' = nr_linfo p" "nr_jited_func p' = ?n" "linfo_addr p' = linfo_addr p"
        using s(1) by (cases p, cases p', simp add: same_records_def linfo_addr_def fun_eq_iff)+
      show ?thesis
      proof (cases "f = ?n")
        case False
        then show ?thesis using Inr q True fields by (simp add: dissect_jited_func_def read start)
      next
        case fn: True
        let ?nr = "(nr_jited_linfo_per_func p')[unat ?n - 1 := nr_linfo p - prev_i]"
        have len: "length (nr_jited_linfo_per_func p') = unat ?n"
          using s(2) fields by (simp add: split_args_def)
        have m1: "unat (?n - 1) = unat ?n - 1" using n by (simp add: unat_minus_one unat_gt_0)
        have "unat prev_i < unat (nr_linfo p)" using s(3) fields by (simp add: split_upto_def)
        then have w: "unat (nr_linfo p - prev_i) = unat (nr_linfo p') - unat prev_i"
          by (simp add: unat_minus_less word_less_nat_alt fields)
        have setn: "arr_set (nr_jited_linfo_per_func p') (unat (?n - 1)) (nr_linfo p - prev_i) = Inr ?nr"
          using n len by (simp add: arr_set_def m1)
        have res: "dissect_jited_func p ksyms lens = Inr (p'\<lparr>nr_jited_linfo_per_func := ?nr\<rparr>)"
          using Inr q True fields setn
          by (simp add: dissect_jited_func_def read start fn)
        have same: "same_records p (p'\<lparr>nr_jited_linfo_per_func := ?nr\<rparr>)"
          using s(1) by (cases p; cases p') (simp add: same_records_def)
        note ends = split_upto_end [OF s(3) _ _ w refl, unfolded fields fn, OF refl len]
        show ?thesis
          unfolding res sum.case by (rule conjI [OF same ends])
      qed
    qed
  qed
qed


text \<open>
  Witnesses: two functions at 100 and 200 with three records between them.
\<close>

definition example_linfo :: bpf_prog_linfo where
  "example_linfo =
     \<lparr>raw_linfo = le_bytes 4 1 @ le_bytes 4 5 @ le_bytes 4 9,
      raw_jited_linfo = le_bytes 8 100 @ le_bytes 8 104 @ le_bytes 8 200,
      nr_jited_linfo_per_func = [2, 1], jited_linfo_func_idx = [0, 2],
      nr_linfo = 3, nr_jited_func = 2, rec_size = 4, jited_rec_size = 8\<rparr>"

lemma example_linfo_wf: "linfo_wf example_linfo" "jited_wf example_linfo"
  "split_args example_linfo [100, 200] [8, 8]"
  by code_simp+

lemma example_linfo_small:
  "unat (nr_linfo example_linfo) * unat (rec_size example_linfo) < 2 ^ 32"
  "unat (nr_linfo example_linfo) * unat (jited_rec_size example_linfo) < 2 ^ 32"
  by (simp_all add: example_linfo_def)

lemma lfind_correct_witness:
  "\<exists>j. bpf_prog_linfo__lfind example_linfo 6 0 = Inr (int (j * unat (rec_size example_linfo))) \<and>
     j < 3 \<and> linfo_insn example_linfo j \<le> 6"
proof -
  have "0 < nr_linfo example_linfo" "\<not> 6 < linfo_insn example_linfo (unat (0 :: u32))"
    "unat (nr_linfo example_linfo) = 3"
    by code_simp+
  then show ?thesis
    using lfind_correct [OF example_linfo_wf(1) example_linfo_small(1), of 0 6] by auto
qed

lemma lfind_addr_func_correct_witness:
  "\<exists>j. bpf_prog_linfo__lfind_addr_func example_linfo 150 0 1 =
       Inr (int (j * unat (rec_size example_linfo))) \<and>
     j < 2 \<and> linfo_addr example_linfo j \<le> 150"
proof -
  have "(0 :: u32) < nr_jited_func example_linfo"
    "arr_get (nr_jited_linfo_per_func example_linfo) (unat (0 :: u32)) = Inr 2"
    "arr_get (jited_linfo_func_idx example_linfo) (unat (0 :: u32)) = Inr 0"
    "unat (0 :: u32) + unat (2 :: u32) \<le> unat (nr_linfo example_linfo)" "(1 :: u32) < 2"
    "\<not> 150 < linfo_addr example_linfo (unat (0 :: u32) + unat (1 :: u32))"
    "unat (0 :: u32) + unat (2 :: u32) = 2"
    by code_simp+
  then show ?thesis
    using lfind_addr_func_correct [OF example_linfo_wf(1,2) example_linfo_small, of 0 2 0 1 150] by auto
qed

theorem dissect_jited_func_splits_witness:
  "\<exists>p'. dissect_jited_func example_linfo [100, 200] [8, 8] = Inr p' \<and> func_idx p' 0 = 0"
proof -
  have "\<exists>p'. dissect_jited_func example_linfo [100, 200] [8, 8] = Inr p'"
    by (rule exI [of _ example_linfo]) code_simp
  then show ?thesis
    using dissect_jited_func_splits [OF example_linfo_wf(3)] by auto
qed

end
