(* ===== verification/Hashmap.thy ===== *)
theory Hashmap
  imports Prelude "HOL-Library.Multiset"
begin

text \<open>
  \<^verbatim>\<open>src/bpftools/libbpf/src/hashmap.c\<close> and \<^verbatim>\<open>hashmap.h\<close>: the chained hash table.

  A map keeps its two callbacks, the array of bucket chains (\<open>None\<close> for the null pointer)
  and the counters of the C structure. The context pointer the callbacks receive denotes
  memory that belongs to the caller, so its contents \<open>ctx\<close> are an argument of every operation
  that calls back. Whether an allocation succeeds is an argument too. A bucket index outside
  the array is \<open>Fault\<close>. The counters are natural numbers: an entry occupies memory, so they
  stay far below the range of \<open>size_t\<close>; hash values are 64 bits wide and wrap.
\<close>

section \<open>The code\<close>

record ('c, 'k, 'v) hashmap =
  hash_fn :: "'k \<Rightarrow> 'c \<Rightarrow> u64"
  equal_fn :: "'k \<Rightarrow> 'k \<Rightarrow> 'c \<Rightarrow> bool"
  buckets :: "('k \<times> 'v) list list option"
  cap :: nat
  cap_bits :: nat
  sz :: nat

datatype insert_strategy = HASHMAP_ADD | HASHMAP_SET | HASHMAP_UPDATE | HASHMAP_APPEND

definition hash_bits :: "u64 \<Rightarrow> nat \<Rightarrow> nat" where
  "hash_bits h bits =
     (if bits = 0 then 0 else unat (drop_bit (64 - bits) (h * 11400714819323198485)))"

text \<open>\<open>char\<close> is signed on the hosts the library is built for.\<close>

fun str_hash_from :: "u64 \<Rightarrow> bytes \<Rightarrow> u64" where
  "str_hash_from h [] = h"
| "str_hash_from h (c # s) = str_hash_from (h * 31 + scast c) s"

definition str_hash :: "bytes \<Rightarrow> u64" where
  "str_hash s = str_hash_from 0 s"

definition hashmap__init ::
  "('k \<Rightarrow> 'c \<Rightarrow> u64) \<Rightarrow> ('k \<Rightarrow> 'k \<Rightarrow> 'c \<Rightarrow> bool) \<Rightarrow> ('c, 'k, 'v) hashmap" where
  "hashmap__init hash eq =
     \<lparr>hash_fn = hash, equal_fn = eq, buckets = None, cap = 0, cap_bits = 0, sz = 0\<rparr>"

definition hashmap__new ::
  "bool \<Rightarrow> ('k \<Rightarrow> 'c \<Rightarrow> u64) \<Rightarrow> ('k \<Rightarrow> 'k \<Rightarrow> 'c \<Rightarrow> bool) \<Rightarrow> ('c, 'k, 'v) hashmap cres" where
  "hashmap__new map_ok hash eq =
     (if map_ok then Inr (hashmap__init hash eq) else Inl (Err ENOMEM))"

definition hashmap__clear :: "('c, 'k, 'v) hashmap \<Rightarrow> ('c, 'k, 'v) hashmap" where
  "hashmap__clear m = m\<lparr>buckets := None, cap := 0, cap_bits := 0, sz := 0\<rparr>"

definition hashmap__size :: "('c, 'k, 'v) hashmap \<Rightarrow> nat" where
  "hashmap__size m = sz m"

definition hashmap__capacity :: "('c, 'k, 'v) hashmap \<Rightarrow> nat" where
  "hashmap__capacity m = cap m"

definition hashmap_needs_to_grow :: "('c, 'k, 'v) hashmap \<Rightarrow> bool" where
  "hashmap_needs_to_grow m \<longleftrightarrow> cap m = 0 \<or> (sz m + 1) * 4 div 3 > cap m"

text \<open>The order of \<open>hashmap__for_each_entry\<close>: bucket by bucket, each along its chain.\<close>

definition hashmap_entries :: "('c, 'k, 'v) hashmap \<Rightarrow> ('k \<times> 'v) list" where
  "hashmap_entries m = (case buckets m of None \<Rightarrow> [] | Some bs \<Rightarrow> concat bs)"

definition hashmap_add_entry ::
  "('k \<times> 'v) list list \<Rightarrow> nat \<Rightarrow> 'k \<times> 'v \<Rightarrow> ('k \<times> 'v) list list cres" where
  "hashmap_add_entry bs h e =
     (if h < length bs then Inr (bs[h := e # bs ! h]) else Inl Fault)"

fun rehash ::
  "('k \<Rightarrow> nat) \<Rightarrow> ('k \<times> 'v) list \<Rightarrow> ('k \<times> 'v) list list \<Rightarrow> ('k \<times> 'v) list list cres" where
  "rehash hb [] bs = Inr bs"
| "rehash hb (e # es) bs =
     res_bind (hashmap_add_entry bs (hb (fst e)) e) (\<lambda>bs'. rehash hb es bs')"

definition hashmap_grow ::
  "bool \<Rightarrow> 'c \<Rightarrow> ('c, 'k, 'v) hashmap \<Rightarrow> (('c, 'k, 'v) hashmap \<times> errno option) cres" where
  "hashmap_grow calloc_ok ctx m =
     (let new_cap_bits = (if cap_bits m + 1 < 2 then 2 else cap_bits m + 1);
          new_cap = 2 ^ new_cap_bits
      in if \<not> calloc_ok then Inr (m, Some ENOMEM)
         else res_bind
                (rehash (\<lambda>k. hash_bits (hash_fn m k ctx) new_cap_bits) (hashmap_entries m)
                   (replicate new_cap []))
                (\<lambda>new_buckets.
                   Inr (m\<lparr>cap := new_cap, cap_bits := new_cap_bits,
                          buckets := Some new_buckets\<rparr>, None)))"

text \<open>The walk along a chain gives the position of the first entry with an equal key.\<close>

fun chain_pos :: "('k \<Rightarrow> bool) \<Rightarrow> ('k \<times> 'v) list \<Rightarrow> nat option" where
  "chain_pos eqk [] = None"
| "chain_pos eqk (cur # rest) =
     (if eqk (fst cur) then Some 0 else map_option Suc (chain_pos eqk rest))"

definition hashmap_find_entry ::
  "'c \<Rightarrow> ('c, 'k, 'v) hashmap \<Rightarrow> 'k \<Rightarrow> nat \<Rightarrow> nat option cres" where
  "hashmap_find_entry ctx m key hash =
     (case buckets m of
        None \<Rightarrow> Inr None
      | Some bs \<Rightarrow>
          if hash < length bs then Inr (chain_pos (\<lambda>k. equal_fn m k key ctx) (bs ! hash))
          else Inl Fault)"

definition key_bucket :: "'c \<Rightarrow> ('c, 'k, 'v) hashmap \<Rightarrow> 'k \<Rightarrow> nat" where
  "key_bucket ctx m key = hash_bits (hash_fn m key ctx) (cap_bits m)"

definition the_buckets :: "('c, 'k, 'v) hashmap \<Rightarrow> ('k \<times> 'v) list list" where
  "the_buckets m = (case buckets m of None \<Rightarrow> [] | Some bs \<Rightarrow> bs)"

text \<open>
  An insertion returns the map, the error (\<open>None\<close> for 0) and what it stored through
  \<open>old_key\<close> and \<open>old_value\<close> (\<open>None\<close> for the null pointer).
\<close>

type_synonym ('c, 'k, 'v) insert_result =
  "('c, 'k, 'v) hashmap \<times> errno option \<times> ('k \<times> 'v) option"

definition insert_new ::
  "bool \<Rightarrow> bool \<Rightarrow> 'c \<Rightarrow> ('c, 'k, 'v) hashmap \<Rightarrow> 'k \<Rightarrow> 'v \<Rightarrow> ('c, 'k, 'v) insert_result cres" where
  "insert_new calloc_ok malloc_ok ctx m key val =
     res_bind
       (if hashmap_needs_to_grow m then hashmap_grow calloc_ok ctx m else Inr (m, None))
       (\<lambda>(m, err). case err of
            Some e \<Rightarrow> Inr (m, Some e, None)
          | None \<Rightarrow>
              if \<not> malloc_ok then Inr (m, Some ENOMEM, None)
              else res_bind (hashmap_add_entry (the_buckets m) (key_bucket ctx m key) (key, val))
                     (\<lambda>bs. Inr (m\<lparr>buckets := Some bs, sz := sz m + 1\<rparr>, None, None)))"

definition hashmap__insert ::
  "bool \<Rightarrow> bool \<Rightarrow> 'c \<Rightarrow> ('c, 'k, 'v) hashmap \<Rightarrow> 'k \<Rightarrow> 'v \<Rightarrow> insert_strategy \<Rightarrow>
   ('c, 'k, 'v) insert_result cres" where
  "hashmap__insert calloc_ok malloc_ok ctx m key val strategy =
     (let h = key_bucket ctx m key
      in res_bind
           (if strategy = HASHMAP_APPEND then Inr None else hashmap_find_entry ctx m key h)
           (\<lambda>found. case found of
                Some i \<Rightarrow>
                  let chain = the_buckets m ! h; old = chain ! i
                  in if strategy = HASHMAP_ADD then Inr (m, Some EEXIST, Some old)
                     else Inr (m\<lparr>buckets := Some ((the_buckets m)[h := chain[i := (key, val)]])\<rparr>,
                               None, Some old)
              | None \<Rightarrow>
                  if strategy = HASHMAP_UPDATE then Inr (m, Some ENOENT, None)
                  else insert_new calloc_ok malloc_ok ctx m key val))"

definition hashmap__find ::
  "'c \<Rightarrow> ('c, 'k, 'v) hashmap \<Rightarrow> 'k \<Rightarrow> 'v option cres" where
  "hashmap__find ctx m key =
     (let h = key_bucket ctx m key
      in res_bind (hashmap_find_entry ctx m key h)
           (\<lambda>found. Inr (map_option (\<lambda>i. snd (the_buckets m ! h ! i)) found)))"

text \<open>Deletion returns whether an entry was found, with the entry it unlinked.\<close>

definition hashmap_del_entry :: "('k \<times> 'v) list \<Rightarrow> nat \<Rightarrow> ('k \<times> 'v) list" where
  "hashmap_del_entry chain i = take i chain @ drop (Suc i) chain"

definition hashmap__delete ::
  "'c \<Rightarrow> ('c, 'k, 'v) hashmap \<Rightarrow> 'k \<Rightarrow> (('c, 'k, 'v) hashmap \<times> ('k \<times> 'v) option) cres" where
  "hashmap__delete ctx m key =
     (let h = key_bucket ctx m key
      in res_bind (hashmap_find_entry ctx m key h)
           (\<lambda>found. case found of
                None \<Rightarrow> Inr (m, None)
              | Some i \<Rightarrow>
                  let chain = the_buckets m ! h
                  in Inr (m\<lparr>buckets := Some ((the_buckets m)[h := hashmap_del_entry chain i]),
                            sz := sz m - 1\<rparr>, Some (chain ! i))))"

text \<open>\<open>hashmap__for_each_key_entry\<close>.\<close>

definition hashmap_key_entries ::
  "'c \<Rightarrow> ('c, 'k, 'v) hashmap \<Rightarrow> 'k \<Rightarrow> ('k \<times> 'v) list cres" where
  "hashmap_key_entries ctx m key =
     (case buckets m of
        None \<Rightarrow> Inr []
      | Some bs \<Rightarrow>
          if key_bucket ctx m key < length bs
          then Inr (filter (\<lambda>e. equal_fn m (fst e) key ctx) (bs ! key_bucket ctx m key))
          else Inl Fault)"

definition hashmap__add ::
  "bool \<Rightarrow> bool \<Rightarrow> 'c \<Rightarrow> ('c, 'k, 'v) hashmap \<Rightarrow> 'k \<Rightarrow> 'v \<Rightarrow>
   ('c, 'k, 'v) insert_result cres" where
  "hashmap__add calloc_ok malloc_ok ctx m key val =
     hashmap__insert calloc_ok malloc_ok ctx m key val HASHMAP_ADD"

definition hashmap__set ::
  "bool \<Rightarrow> bool \<Rightarrow> 'c \<Rightarrow> ('c, 'k, 'v) hashmap \<Rightarrow> 'k \<Rightarrow> 'v \<Rightarrow>
   ('c, 'k, 'v) insert_result cres" where
  "hashmap__set calloc_ok malloc_ok ctx m key val =
     hashmap__insert calloc_ok malloc_ok ctx m key val HASHMAP_SET"

definition hashmap__update ::
  "bool \<Rightarrow> bool \<Rightarrow> 'c \<Rightarrow> ('c, 'k, 'v) hashmap \<Rightarrow> 'k \<Rightarrow> 'v \<Rightarrow>
   ('c, 'k, 'v) insert_result cres" where
  "hashmap__update calloc_ok malloc_ok ctx m key val =
     hashmap__insert calloc_ok malloc_ok ctx m key val HASHMAP_UPDATE"

definition hashmap__append ::
  "bool \<Rightarrow> bool \<Rightarrow> 'c \<Rightarrow> ('c, 'k, 'v) hashmap \<Rightarrow> 'k \<Rightarrow> 'v \<Rightarrow>
   ('c, 'k, 'v) insert_result cres" where
  "hashmap__append calloc_ok malloc_ok ctx m key val =
     hashmap__insert calloc_ok malloc_ok ctx m key val HASHMAP_APPEND"


section \<open>The contract of the callbacks\<close>

text \<open>
  The table relies on its callbacks for one thing: equality is an equivalence and equal keys
  hash alike, at every state of the memory the callbacks read.
\<close>

locale hash_fns =
  fixes hash :: "'k \<Rightarrow> 'c \<Rightarrow> u64"
    and eq :: "'k \<Rightarrow> 'k \<Rightarrow> 'c \<Rightarrow> bool"
  assumes eq_refl [simp]: "eq k k c"
    and eq_sym: "eq k k' c \<Longrightarrow> eq k' k c"
    and eq_trans: "eq k k' c \<Longrightarrow> eq k' k'' c \<Longrightarrow> eq k k'' c"
    and eq_hash: "eq k k' c \<Longrightarrow> hash k c = hash k' c"

section \<open>Well-formed tables and what they hold\<close>

definition in_buckets :: "('k \<Rightarrow> nat) \<Rightarrow> ('k \<times> 'v) list list \<Rightarrow> bool" where
  "in_buckets hb bs \<longleftrightarrow> (\<forall>i < length bs. \<forall>e \<in> set (bs ! i). hb (fst e) = i)"

definition hashmap_inv :: "'c \<Rightarrow> ('c, 'k, 'v) hashmap \<Rightarrow> bool" where
  "hashmap_inv ctx m \<longleftrightarrow>
     (case buckets m of
        None \<Rightarrow> cap m = 0 \<and> cap_bits m = 0 \<and> sz m = 0
      | Some bs \<Rightarrow> 2 \<le> cap_bits m \<and> cap m = 2 ^ cap_bits m \<and> length bs = cap m \<and>
          sz m = length (concat bs) \<and> sz m * 4 div 3 \<le> cap m \<and>
          in_buckets (key_bucket ctx m) bs)"

text \<open>
  The specification: an association list, read without hashing. The entries of a key, in the
  order a lookup meets them.
\<close>

definition key_matches :: "'c \<Rightarrow> ('c, 'k, 'v) hashmap \<Rightarrow> 'k \<Rightarrow> ('k \<times> 'v) list" where
  "key_matches ctx m key = filter (\<lambda>e. equal_fn m (fst e) key ctx) (hashmap_entries m)"

definition hashmap_look :: "'c \<Rightarrow> ('c, 'k, 'v) hashmap \<Rightarrow> 'k \<Rightarrow> 'v option" where
  "hashmap_look ctx m key = (case key_matches ctx m key of [] \<Rightarrow> None | e # _ \<Rightarrow> Some (snd e))"

lemma hash_bits_less: "hash_bits h bits < 2 ^ bits"
proof -
  have "unat (drop_bit (64 - bits) w) < 2 ^ bits" for w :: u64
  proof (cases "bits \<le> 64")
    case True
    have "unat w < 2 ^ 64" using unsigned_less [of w] by simp
    also have "(2::nat) ^ 64 = 2 ^ bits * 2 ^ (64 - bits)"
      using True by (metis le_add_diff_inverse power_add)
    finally have "take_bit 64 (unat w) < 2 ^ bits * 2 ^ (64 - bits)"
      using le_less_trans take_bit_nat_less_eq_self by blast
    then show ?thesis
      by (simp add: unsigned_drop_bit_eq less_mult_imp_div_less flip: drop_bit_eq_div)
        (simp add: drop_bit_eq_div less_mult_imp_div_less)
  next
    case False
    then have "(2::nat) ^ 64 \<le> 2 ^ bits" by (intro power_increasing) simp_all
    moreover have "unat w < 2 ^ 64" using unsigned_less [of w] by simp
    ultimately have "unat w < 2 ^ bits" by (rule less_le_trans [rotated])
    then show ?thesis using False by simp
  qed
  then show ?thesis by (simp add: hash_bits_def)
qed

lemma mset_concat_update:
  "h < length bs \<Longrightarrow> mset (concat (bs[h := c])) + mset (bs ! h) = mset c + mset (concat bs)"
proof (induction bs arbitrary: h)
  case Nil
  then show ?case by simp
next
  case (Cons b bs)
  then show ?case by (cases h) (simp_all add: union_assoc union_lcomm)
qed

lemma filter_concat_one:
  assumes "h < length bs" "\<And>i e. i < length bs \<Longrightarrow> i \<noteq> h \<Longrightarrow> e \<in> set (bs ! i) \<Longrightarrow> \<not> P e"
  shows "filter P (concat bs) = filter P (bs ! h)"
proof -
  have "\<not> P e" if "b \<in> set (take h bs)" "e \<in> set b" for b e
    using that assms by (auto simp: in_set_conv_nth) (metis less_irrefl less_trans nth_mem)
  moreover have "\<not> P e" if b: "b \<in> set (drop (Suc h) bs)" "e \<in> set b" for b e
  proof -
    obtain i where "i < length bs - Suc h" "b = bs ! (Suc h + i)"
      using b(1) assms(1) by (auto simp: in_set_conv_nth)
    then show ?thesis using assms(2) [of "Suc h + i" e] b(2) by simp
  qed
  ultimately have e: "filter P (concat (take h bs)) = []" "filter P (concat (drop (Suc h) bs)) = []"
    by (auto simp: filter_empty_conv)
  have "concat bs = concat (take h bs) @ bs ! h @ concat (drop (Suc h) bs)"
    using assms(1) by (metis concat.simps(2) concat_append id_take_nth_drop)
  then show ?thesis using e by simp
qed

lemma in_buckets_update:
  assumes "in_buckets hb bs" "\<forall>e \<in> set c. hb (fst e) = h"
  shows "in_buckets hb (bs[h := c])"
  unfolding in_buckets_def
proof (intro allI impI ballI)
  fix i e
  assume i: "i < length (bs[h := c])" and e: "e \<in> set (bs[h := c] ! i)"
  show "hb (fst e) = i"
    using assms i e by (cases "i = h") (auto simp: in_buckets_def simp del: split_paired_All)
qed

lemma rehash_spec:
  assumes "\<forall>e \<in> set es. hb (fst e) < length bs"
  shows "\<exists>bs'. rehash hb es bs = Inr bs' \<and> length bs' = length bs \<and>
     mset (concat bs') = mset es + mset (concat bs) \<and>
     (\<forall>i < length bs. bs' ! i = rev (filter (\<lambda>e. hb (fst e) = i) es) @ bs ! i)"
  using assms
proof (induction es arbitrary: bs)
  case Nil
  show ?case by simp
next
  case (Cons e es)
  let ?bs = "bs[hb (fst e) := e # bs ! hb (fst e)]"
  have h: "hb (fst e) < length bs" using Cons.prems by simp
  obtain bs' where r: "rehash hb es ?bs = Inr bs'" "length bs' = length bs"
    "mset (concat bs') = mset es + mset (concat ?bs)"
    "\<forall>i < length bs. bs' ! i = rev (filter (\<lambda>e. hb (fst e) = i) es) @ ?bs ! i"
    using Cons.IH [of ?bs] Cons.prems by auto
  have "mset (concat ?bs) = add_mset e (mset (concat bs))"
    using mset_concat_update [OF h, of "e # bs ! hb (fst e)"] by simp
  then show ?case
    using r h by (auto simp: hashmap_add_entry_def nth_list_update)
qed

lemma chain_pos_None: "chain_pos p es = None \<longleftrightarrow> filter (\<lambda>e. p (fst e)) es = []"
  by (induction es) auto

lemma chain_pos_Some:
  assumes "chain_pos p es = Some i"
  shows "i < length es" "p (fst (es ! i))"
    and "filter (\<lambda>e. p (fst e)) es = es ! i # tl (filter (\<lambda>e. p (fst e)) es)"
    and "p (fst e) \<Longrightarrow>
      filter (\<lambda>e. p (fst e)) (es[i := e]) = e # tl (filter (\<lambda>e. p (fst e)) es)"
    and "filter (\<lambda>e. p (fst e)) (hashmap_del_entry es i) = tl (filter (\<lambda>e. p (fst e)) es)"
  using assms by (induction es arbitrary: i) (auto simp: hashmap_del_entry_def split: if_splits)

lemma chain_other:
  assumes "i < length es" "\<not> Q (es ! i)"
  shows "\<not> Q e \<Longrightarrow> filter Q (es[i := e]) = filter Q es"
    and "filter Q (hashmap_del_entry es i) = filter Q es"
proof -
  have es: "es = take i es @ es ! i # drop (Suc i) es"
    using assms(1) by (rule id_take_nth_drop)
  then have "filter Q es = filter Q (take i es) @ filter Q (drop (Suc i) es)"
    using assms(2) by (metis filter.simps(2) filter_append)
  then show "\<not> Q e \<Longrightarrow> filter Q (es[i := e]) = filter Q es"
    and "filter Q (hashmap_del_entry es i) = filter Q es"
    using assms(1) by (simp_all add: hashmap_del_entry_def upd_conv_take_nth_drop)
qed


lemma entries_simps [simp]:
  "buckets m = None \<Longrightarrow> hashmap_entries m = []"
  "buckets m = Some bs \<Longrightarrow> hashmap_entries m = concat bs"
  "hashmap_entries (m\<lparr>buckets := Some bs\<rparr>) = concat bs"
  "hashmap_entries (m\<lparr>sz := n\<rparr>) = hashmap_entries m"
  by (simp_all add: hashmap_entries_def)

lemma the_buckets_simps [simp]:
  "buckets m = None \<Longrightarrow> the_buckets m = []" "buckets m = Some bs \<Longrightarrow> the_buckets m = bs"
  by (simp_all add: the_buckets_def)

lemma key_bucket_less: "hashmap_inv ctx m \<Longrightarrow> buckets m = Some bs \<Longrightarrow> key_bucket ctx m k < length bs"
  by (simp add: hashmap_inv_def key_bucket_def hash_bits_less)

lemma key_bucket_cong:
  "hash_fn m' = hash_fn m \<Longrightarrow> cap_bits m' = cap_bits m \<Longrightarrow> key_bucket ctx m' = key_bucket ctx m"
  by (simp add: key_bucket_def fun_eq_iff)

context hash_fns begin

lemma same_bucket:
  assumes "hash_fn m = hash" "eq k k' ctx"
  shows "key_bucket ctx m k = key_bucket ctx m k'"
  using assms eq_hash by (simp add: key_bucket_def)

lemma eq_cong: "eq k k' ctx \<Longrightarrow> eq x k ctx = eq x k' ctx"
  using eq_sym eq_trans by blast

text \<open>All entries of a key are in its bucket, so reading the bucket reads them all.\<close>

lemma matches_bucket:
  assumes "hash_fn m = hash" "equal_fn m = eq" "hashmap_inv ctx m" "buckets m = Some bs"
  shows "key_matches ctx m k = filter (\<lambda>e. eq (fst e) k ctx) (bs ! key_bucket ctx m k)"
proof -
  have "\<not> eq (fst e) k ctx" if "i < length bs" "i \<noteq> key_bucket ctx m k" "e \<in> set (bs ! i)" for i e
  proof
    assume "eq (fst e) k ctx"
    then have "key_bucket ctx m (fst e) = key_bucket ctx m k"
      by (rule same_bucket [OF assms(1)])
    then show False using that assms(3,4) by (auto simp: hashmap_inv_def in_buckets_def)
  qed
  from filter_concat_one [OF key_bucket_less [OF assms(3,4)] this] show ?thesis
    using assms by (simp add: key_matches_def)
qed

lemma matches_update:
  assumes m: "hash_fn m = hash" "equal_fn m = eq" "hashmap_inv ctx m" "buckets m = Some bs"
    and m': "hash_fn m' = hash" "equal_fn m' = eq" "hashmap_inv ctx m'"
      "buckets m' = Some (bs[key_bucket ctx m k := c])" "cap_bits m' = cap_bits m"
    and other: "\<not> eq k k' ctx \<Longrightarrow> filter (\<lambda>e. eq (fst e) k' ctx) c =
      filter (\<lambda>e. eq (fst e) k' ctx) (bs ! key_bucket ctx m k)"
  shows "key_matches ctx m' k' =
    (if eq k k' ctx then filter (\<lambda>e. eq (fst e) k ctx) c else key_matches ctx m k')"
proof -
  have kb: "key_bucket ctx m' = key_bucket ctx m"
    using m m' by (intro key_bucket_cong) simp_all
  have l: "key_bucket ctx m k < length bs" using m by (intro key_bucket_less)
  show ?thesis
  proof (cases "eq k k' ctx")
    case True
    then have "key_bucket ctx m k' = key_bucket ctx m k" using same_bucket [OF m(1)] by metis
    then show ?thesis
      using True l eq_cong [OF True] by (simp add: matches_bucket [OF m'(1-4)] kb)
  next
    case False
    show ?thesis
    proof (cases "key_bucket ctx m k' = key_bucket ctx m k")
      case True
      then show ?thesis using False l other
        by (simp add: matches_bucket [OF m'(1-4)] matches_bucket [OF m] kb)
    next
      case ne: False
      then show ?thesis using False
        by (simp add: matches_bucket [OF m'(1-4)] matches_bucket [OF m] kb)
    qed
  qed
qed

subsection \<open>Growing\<close>

lemma grow:
  assumes m: "hash_fn m = hash" "equal_fn m = eq" "hashmap_inv ctx m"
  shows "\<exists>m'. hashmap_grow True ctx m = Inr (m', None) \<and> hashmap_inv ctx m' \<and>
    hash_fn m' = hash \<and> equal_fn m' = eq \<and> sz m' = sz m \<and> buckets m' \<noteq> None \<and>
    mset (hashmap_entries m') = mset (hashmap_entries m) \<and>
    cap m' = (if cap m = 0 then 4 else 2 * cap m) \<and>
    (\<forall>k. key_matches ctx m' k = rev (key_matches ctx m k))"
proof -
  define nb where "nb = (if cap_bits m + 1 < 2 then 2 else cap_bits m + 1)"
  let ?hb = "\<lambda>k. hash_bits (hash_fn m k ctx) nb"
  let ?es = "hashmap_entries m"
  have "\<forall>e \<in> set ?es. ?hb (fst e) < length (replicate (2 ^ nb) ([] :: ('k \<times> 'b) list))"
    by (simp only: length_replicate hash_bits_less ball_simps) simp
  from rehash_spec [OF this] obtain bs' where r:
    "rehash ?hb ?es (replicate (2 ^ nb) []) = Inr bs'" "length bs' = 2 ^ nb"
    "mset (concat bs') = mset ?es"
    "\<And>i. i < 2 ^ nb \<Longrightarrow> bs' ! i = rev (filter (\<lambda>e. ?hb (fst e) = i) ?es)"
    by (auto simp: concat_replicate_trivial)
  let ?m = "m\<lparr>cap := 2 ^ nb, cap_bits := nb, buckets := Some bs'\<rparr>"
  have c: "cap m = 0 \<and> cap_bits m = 0 \<or> 2 \<le> cap_bits m \<and> cap m = 2 ^ cap_bits m"
    using m(3) by (auto simp: hashmap_inv_def split: option.splits)
  have cap: "2 ^ nb = (if cap m = 0 then 4 else 2 * cap m)" "2 \<le> nb"
    using c by (auto simp: nb_def)
  have s: "sz m = length ?es" "sz m * 4 div 3 \<le> cap m"
    using m(3) by (auto simp: hashmap_inv_def split: option.splits)
  have s': "length (concat bs') = sz m" using r(3) s(1) mset_eq_length by metis
  have ib: "in_buckets (key_bucket ctx ?m) bs'"
    by (auto simp: in_buckets_def key_bucket_def r(2,4))
  have "sz m * 4 div 3 \<le> 2 ^ nb" using s(2) cap(1) by (simp split: if_splits)
  then have inv: "hashmap_inv ctx ?m"
    using r(2) s' ib cap(2) by (simp add: hashmap_inv_def)
  have "key_matches ctx ?m k = rev (key_matches ctx m k)" for k
  proof -
    have "?hb (fst e) = ?hb k" if "eq (fst e) k ctx" for e
      using that eq_hash m(1) by simp
    then have "filter (\<lambda>e. eq (fst e) k ctx \<and> ?hb (fst e) = ?hb k) xs =
        filter (\<lambda>e. eq (fst e) k ctx) xs" for xs :: "('k \<times> 'b) list"
      by (intro filter_cong refl) blast
    moreover have "key_bucket ctx ?m k = ?hb k" by (simp add: key_bucket_def)
    ultimately show ?thesis
      using matches_bucket [OF _ _ inv, of bs' k] m(1,2) r(4) [OF hash_bits_less, of "hash_fn m k ctx"]
      by (simp add: key_matches_def rev_filter conj_commute)
  qed
  moreover have "hashmap_grow True ctx m = Inr (?m, None)"
    by (simp only: hashmap_grow_def Let_def not_True_eq_False if_False r(1) res_bind_simps
        flip: nb_def)
  moreover have "mset (hashmap_entries ?m) = mset ?es"
    using r(3) by (simp add: hashmap_entries_def)
  ultimately show ?thesis
    using inv m(1,2) cap(1) by (intro exI [of _ ?m] conjI allI) (simp_all del: power_Suc)
qed

end

section \<open>What the operations do to the entries of a key\<close>

text \<open>A table whose callbacks keep the contract and which is well-formed.\<close>

definition hashmap_wf ::
  "('k \<Rightarrow> 'c \<Rightarrow> u64) \<Rightarrow> ('k \<Rightarrow> 'k \<Rightarrow> 'c \<Rightarrow> bool) \<Rightarrow> 'c \<Rightarrow> ('c, 'k, 'v) hashmap \<Rightarrow> bool" where
  "hashmap_wf hash eq ctx m \<longleftrightarrow> hash_fn m = hash \<and> equal_fn m = eq \<and> hashmap_inv ctx m"

context hash_fns begin

lemma neq_step: "eq x k ctx \<Longrightarrow> \<not> eq k k' ctx \<Longrightarrow> \<not> eq x k' ctx"
  using eq_sym eq_trans by blast

lemma find_entry:
  assumes "hashmap_wf hash eq ctx m"
  shows "\<exists>f. hashmap_find_entry ctx m k (key_bucket ctx m k) = Inr f \<and>
     (case f of None \<Rightarrow> key_matches ctx m k = []
      | Some i \<Rightarrow> \<exists>bs. buckets m = Some bs \<and>
          chain_pos (\<lambda>k'. eq k' k ctx) (bs ! key_bucket ctx m k) = Some i \<and>
          key_matches ctx m k = bs ! key_bucket ctx m k ! i # tl (key_matches ctx m k))"
proof (cases "buckets m")
  case None
  then show ?thesis by (simp add: hashmap_find_entry_def key_matches_def)
next
  case (Some bs)
  let ?c = "chain_pos (\<lambda>k'. eq k' k ctx) (bs ! key_bucket ctx m k)"
  have "hashmap_find_entry ctx m k (key_bucket ctx m k) = Inr ?c"
    using assms key_bucket_less [OF _ Some] Some by (simp add: hashmap_find_entry_def hashmap_wf_def)
  moreover have "key_matches ctx m k = filter (\<lambda>e. eq (fst e) k ctx) (bs ! key_bucket ctx m k)"
    using assms Some by (intro matches_bucket) (simp_all add: hashmap_wf_def)
  ultimately show ?thesis
    using Some by (auto split: option.split simp: chain_pos_None intro: chain_pos_Some(3))
qed

lemma find:
  assumes "hashmap_wf hash eq ctx m"
  shows "hashmap__find ctx m k = Inr (hashmap_look ctx m k)"
proof -
  obtain f where f: "hashmap_find_entry ctx m k (key_bucket ctx m k) = Inr f"
    "case f of None \<Rightarrow> key_matches ctx m k = []
      | Some i \<Rightarrow> \<exists>bs. buckets m = Some bs \<and>
          chain_pos (\<lambda>k'. eq k' k ctx) (bs ! key_bucket ctx m k) = Some i \<and>
          key_matches ctx m k = bs ! key_bucket ctx m k ! i # tl (key_matches ctx m k)"
    using find_entry [OF assms] by blast
  then show ?thesis
    by (cases "key_matches ctx m k"; cases f) (auto simp: hashmap__find_def hashmap_look_def Let_def)
qed

lemma key_entries:
  assumes "hashmap_wf hash eq ctx m"
  shows "hashmap_key_entries ctx m k = Inr (key_matches ctx m k)"
proof (cases "buckets m")
  case None
  then show ?thesis by (simp add: hashmap_key_entries_def key_matches_def)
next
  case (Some bs)
  then show ?thesis using assms key_bucket_less [OF _ Some] matches_bucket [of m ctx bs k]
    by (simp add: hashmap_key_entries_def hashmap_wf_def)
qed

text \<open>Replacing the chain of a key keeps the table well-formed when the chain stays its own.\<close>

lemma replace_chain:
  assumes m: "hashmap_wf hash eq ctx m" "buckets m = Some bs"
    and c: "\<forall>e \<in> set c. key_bucket ctx m (fst e) = key_bucket ctx m k"
    and n: "n + length (bs ! key_bucket ctx m k) = sz m + length c" "n * 4 div 3 \<le> cap m"
  shows "hashmap_wf hash eq ctx
    (m\<lparr>buckets := Some (bs[key_bucket ctx m k := c]), sz := n\<rparr>)" (is "hashmap_wf _ _ _ ?m")
proof -
  let ?h = "key_bucket ctx m k"
  have inv: "hashmap_inv ctx m" using m by (simp add: hashmap_wf_def)
  have h: "?h < length bs" using key_bucket_less [OF inv m(2)] .
  have kb: "key_bucket ctx ?m = key_bucket ctx m" by (intro key_bucket_cong) simp_all
  have "in_buckets (key_bucket ctx m) (bs[?h := c])"
    using inv m(2) c by (intro in_buckets_update) (simp_all add: hashmap_inv_def)
  moreover have "length (concat (bs[?h := c])) = n"
  proof -
    have "length (concat (bs[?h := c])) + length (bs ! ?h) = length c + length (concat bs)"
      using arg_cong [OF mset_concat_update [OF h, of c], of size] by simp
    then show ?thesis using n(1) inv m(2) by (simp add: hashmap_inv_def)
  qed
  ultimately show ?thesis using m n(2) inv by (simp add: hashmap_wf_def hashmap_inv_def kb)
qed

lemma chain_bucket:
  assumes "hashmap_wf hash eq ctx m" "buckets m = Some bs" "e \<in> set (bs ! key_bucket ctx m k)"
  shows "key_bucket ctx m (fst e) = key_bucket ctx m k"
  using assms key_bucket_less [OF _ assms(2), of ctx k]
  by (auto simp: hashmap_wf_def hashmap_inv_def in_buckets_def)

text \<open>An insertion that finds an entry.\<close>

lemma insert_hit:
  assumes m: "hashmap_wf hash eq ctx m" and hit: "key_matches ctx m k = e # es"
    and st: "st = HASHMAP_SET \<or> st = HASHMAP_UPDATE"
  shows "\<exists>m'. hashmap__insert ca ma ctx m k v st = Inr (m', None, Some e) \<and>
     hashmap_wf hash eq ctx m' \<and> sz m' = sz m \<and> cap m' = cap m \<and>
     (\<forall>k'. key_matches ctx m' k' = (if eq k k' ctx then (k, v) # es else key_matches ctx m k'))"
proof -
  let ?h = "key_bucket ctx m k"
  obtain i bs where f: "hashmap_find_entry ctx m k ?h = Inr (Some i)" and bs: "buckets m = Some bs"
    and p: "chain_pos (\<lambda>k'. eq k' k ctx) (bs ! ?h) = Some i" and e: "bs ! ?h ! i = e"
    using find_entry [OF m, of k] hit by (auto split: option.splits)
  let ?c = "(bs ! ?h)[i := (k, v)]"
  let ?m = "m\<lparr>buckets := Some (bs[?h := ?c])\<rparr>"
  note mb = matches_bucket [of m ctx bs]
  have q: "i < length (bs ! ?h)" "eq (fst e) k ctx" using chain_pos_Some(1,2) [OF p] e by auto
  have "hashmap_wf hash eq ctx (m\<lparr>buckets := Some (bs[?h := ?c]), sz := sz m\<rparr>)"
    using m bs chain_bucket [OF m bs]
    by (intro replace_chain)
      (auto dest!: set_update_subset_insert [THEN subsetD] simp: hashmap_wf_def hashmap_inv_def)
  then have wf: "hashmap_wf hash eq ctx ?m" by simp
  have "key_matches ctx ?m k' = (if eq k k' ctx then (k, v) # es else key_matches ctx m k')" for k'
  proof -
    have "filter (\<lambda>e. eq (fst e) k ctx) (bs ! ?h) = e # es"
      using mb [of k] m bs hit by (simp add: hashmap_wf_def)
    then have "filter (\<lambda>e. eq (fst e) k ctx) ?c = (k, v) # es"
      using chain_pos_Some(4) [OF p, of "(k, v)"] by simp
    moreover have "filter (\<lambda>e. eq (fst e) k' ctx) ?c = filter (\<lambda>e. eq (fst e) k' ctx) (bs ! ?h)"
      if "\<not> eq k k' ctx"
      using that q(1) e neq_step [OF q(2) that] by (intro chain_other) simp_all
    moreover have "key_matches ctx ?m k' =
        (if eq k k' ctx then filter (\<lambda>e. eq (fst e) k ctx) ?c else key_matches ctx m k')"
      using calculation(2) m wf bs unfolding hashmap_wf_def
      by (intro matches_update) simp_all
    ultimately show ?thesis by simp
  qed
  then show ?thesis
    using f bs e st wf by (auto simp: hashmap__insert_def Let_def)
qed

lemma insert_add_hit:
  assumes m: "hashmap_wf hash eq ctx m" and hit: "key_matches ctx m k = e # es"
  shows "hashmap__insert ca ma ctx m k v HASHMAP_ADD = Inr (m, Some EEXIST, Some e)"
  using find_entry [OF m, of k] hit
  by (auto simp: hashmap__insert_def Let_def split: option.splits)

lemma insert_update_miss:
  assumes m: "hashmap_wf hash eq ctx m" and miss: "key_matches ctx m k = []"
  shows "hashmap__insert ca ma ctx m k v HASHMAP_UPDATE = Inr (m, Some ENOENT, None)"
  using find_entry [OF m, of k] miss
  by (auto simp: hashmap__insert_def Let_def split: option.splits)

lemma insert_fresh_eq:
  assumes m: "hashmap_wf hash eq ctx m"
    and miss: "st = HASHMAP_APPEND \<or> st \<noteq> HASHMAP_UPDATE \<and> key_matches ctx m k = []"
  shows "hashmap__insert ca ma ctx m k v st = insert_new ca ma ctx m k v"
  using find_entry [OF m, of k] miss
  by (auto simp: hashmap__insert_def Let_def split: option.splits)

end

lemma grow_fails: "hashmap_grow False ctx m = Inr (m, Some ENOMEM)"
  by (simp add: hashmap_grow_def Let_def)

lemma hashmap_inv_iff:
  "buckets m = Some bs \<Longrightarrow> hashmap_inv ctx m \<longleftrightarrow>
     2 \<le> cap_bits m \<and> cap m = 2 ^ cap_bits m \<and> length bs = cap m \<and>
     sz m = length (concat bs) \<and> sz m * 4 div 3 \<le> cap m \<and> in_buckets (key_bucket ctx m) bs"
  by (simp add: hashmap_inv_def)

lemma hashmap_inv_Some:
  assumes "hashmap_inv ctx m" "buckets m = Some bs"
  shows "sz m = length (concat bs)" "sz m * 4 div 3 \<le> cap m"
  using assms(1) unfolding hashmap_inv_iff [OF assms(2)] by blast+

context hash_fns begin

text \<open>Making room: either there is some, or the table doubles and reverses the entries of a key.\<close>

lemma room:
  assumes m: "hashmap_wf hash eq ctx m"
  shows "\<exists>m'. (if hashmap_needs_to_grow m then hashmap_grow True ctx m else Inr (m, None)) =
       Inr (m', None) \<and> hashmap_wf hash eq ctx m' \<and> sz m' = sz m \<and> buckets m' \<noteq> None \<and>
     (sz m + 1) * 4 div 3 \<le> cap m' \<and> mset (hashmap_entries m') = mset (hashmap_entries m) \<and>
     (\<forall>k. key_matches ctx m' k =
        (if hashmap_needs_to_grow m then rev (key_matches ctx m k) else key_matches ctx m k))"
proof (cases "hashmap_needs_to_grow m")
  case True
  have inv: "hashmap_inv ctx m" using m by (simp add: hashmap_wf_def)
  then have "cap m = 0 \<or> 4 \<le> cap m" "sz m * 4 div 3 \<le> cap m" "cap m = 0 \<longrightarrow> sz m = 0"
    using power_increasing [of 2 "cap_bits m" "2::nat"]
    by (auto simp: hashmap_inv_def split: option.splits)
  then have "(sz m + 1) * 4 div 3 \<le> (if cap m = 0 then 4 else 2 * cap m)" by auto
  with grow [of m ctx] m show ?thesis using True by (auto simp: hashmap_wf_def)
next
  case False
  then show ?thesis using m
    by (auto simp: hashmap_needs_to_grow_def hashmap_wf_def hashmap_inv_def split: option.splits)
qed

lemma push_entry:
  fixes k :: 'k and v :: 'v
  assumes m: "hashmap_wf hash eq ctx m" "buckets m = Some bs" "(sz m + 1) * 4 div 3 \<le> cap m"
  defines "m' \<equiv> m\<lparr>buckets := Some (bs[key_bucket ctx m k := (k, v) # bs ! key_bucket ctx m k]),
                  sz := sz m + 1\<rparr>"
  shows "hashmap_add_entry bs (key_bucket ctx m k) (k, v) = Inr (the_buckets m')"
    and "hashmap_wf hash eq ctx m'"
    and "mset (hashmap_entries m') = add_mset (k, v) (mset (hashmap_entries m))"
    and "key_matches ctx m' k' = (if eq k k' ctx then [(k, v)] else []) @ key_matches ctx m k'"
proof -
  let ?h = "key_bucket ctx m k"
  have h: "?h < length bs" using m key_bucket_less by (auto simp: hashmap_wf_def)
  then show "hashmap_add_entry bs ?h (k, v) = Inr (the_buckets m')"
    by (simp add: hashmap_add_entry_def m'_def)
  show wf: "hashmap_wf hash eq ctx m'"
    unfolding m'_def using m chain_bucket [OF m(1,2)]
    by (intro replace_chain) (auto simp del: split_paired_All)
  show "mset (hashmap_entries m') = add_mset (k, v) (mset (hashmap_entries m))"
    using mset_concat_update [OF h, of "(k, v) # bs ! ?h"] m(2)
    by (simp add: m'_def hashmap_entries_def)
  have f: "key_matches ctx m' k' =
      (if eq k k' ctx then filter (\<lambda>e. eq (fst e) k ctx) ((k, v) # bs ! ?h) else key_matches ctx m k')"
    using m wf unfolding hashmap_wf_def by (intro matches_update) (simp_all add: m'_def)
  have g: "key_matches ctx m k' = filter (\<lambda>e. eq (fst e) k ctx) (bs ! ?h)" if e: "eq k k' ctx"
  proof -
    have "key_bucket ctx m k' = ?h" using same_bucket [OF _ e] m(1) by (metis hashmap_wf_def)
    moreover have "key_matches ctx m k' = filter (\<lambda>e. eq (fst e) k' ctx) (bs ! key_bucket ctx m k')"
      using m by (intro matches_bucket) (simp_all add: hashmap_wf_def)
    ultimately show ?thesis using eq_cong [OF e] by simp
  qed
  show "key_matches ctx m' k' = (if eq k k' ctx then [(k, v)] else []) @ key_matches ctx m k'"
    using f g by simp
qed

lemma insert_new:
  assumes m: "hashmap_wf hash eq ctx m"
  shows "\<exists>m' err. insert_new ca ma ctx m k v = Inr (m', err, None) \<and> hashmap_wf hash eq ctx m' \<and>
    (if ma \<and> (ca \<or> \<not> hashmap_needs_to_grow m)
     then err = None \<and> sz m' = sz m + 1 \<and>
       mset (hashmap_entries m') = add_mset (k, v) (mset (hashmap_entries m)) \<and>
       (\<forall>k'. key_matches ctx m' k' = (if eq k k' ctx then [(k, v)] else []) @
          (if hashmap_needs_to_grow m then rev (key_matches ctx m k') else key_matches ctx m k'))
     else err = Some ENOMEM \<and> sz m' = sz m \<and>
       mset (hashmap_entries m') = mset (hashmap_entries m) \<and>
       (\<forall>k'. key_matches ctx m' k' = key_matches ctx m k' \<or>
             key_matches ctx m' k' = rev (key_matches ctx m k')))"
proof (cases "hashmap_needs_to_grow m \<and> \<not> ca")
  case True
  then show ?thesis using m grow_fails [of ctx m] by (simp add: insert_new_def)
next
  case False
  obtain m1 where r:
    "(if hashmap_needs_to_grow m then hashmap_grow True ctx m else Inr (m, None)) = Inr (m1, None)"
    "hashmap_wf hash eq ctx m1" "sz m1 = sz m" "buckets m1 \<noteq> None" "(sz m + 1) * 4 div 3 \<le> cap m1"
    "mset (hashmap_entries m1) = mset (hashmap_entries m)"
    "\<And>k. key_matches ctx m1 k =
        (if hashmap_needs_to_grow m then rev (key_matches ctx m k) else key_matches ctx m k)"
    using room [OF m] by auto
  then obtain bs where bs: "buckets m1 = Some bs" by blast
  have g: "(if hashmap_needs_to_grow m then hashmap_grow ca ctx m else Inr (m, None)) = Inr (m1, None)"
    using r(1) False by (cases ca) auto
  show ?thesis
  proof (cases ma)
    case True
    have room: "(sz m1 + 1) * 4 div 3 \<le> cap m1" using r(3,5) by simp
    note p = push_entry [OF r(2) bs room, of k v]
    show ?thesis
      using p(1-3) p(4) r(3,6,7) g bs True False
      by (auto simp: insert_new_def hashmap_entries_def)
  next
    case ma: False
    then show ?thesis using r g False by (auto simp: insert_new_def)
  qed
qed

lemma delete_hit:
  assumes m: "hashmap_wf hash eq ctx m" and hit: "key_matches ctx m k = e # es"
  shows "\<exists>m'. hashmap__delete ctx m k = Inr (m', Some e) \<and> hashmap_wf hash eq ctx m' \<and>
     sz m = sz m' + 1 \<and> cap m' = cap m \<and>
     (\<forall>k'. key_matches ctx m' k' = (if eq k k' ctx then es else key_matches ctx m k'))"
proof -
  let ?h = "key_bucket ctx m k"
  obtain i bs where f: "hashmap_find_entry ctx m k ?h = Inr (Some i)" and bs: "buckets m = Some bs"
    and p: "chain_pos (\<lambda>k'. eq k' k ctx) (bs ! ?h) = Some i" and e: "bs ! ?h ! i = e"
    using find_entry [OF m, of k] hit by (auto split: option.splits)
  let ?c = "hashmap_del_entry (bs ! ?h) i"
  let ?m = "m\<lparr>buckets := Some (bs[?h := ?c]), sz := sz m - 1\<rparr>"
  have q: "i < length (bs ! ?h)" "eq (fst e) k ctx" using chain_pos_Some(1,2) [OF p] e by auto
  have h: "?h < length bs" using m bs key_bucket_less by (auto simp: hashmap_wf_def)
  have inv: "hashmap_inv ctx m" using m by (simp add: hashmap_wf_def)
  have "length (bs ! ?h) \<le> length (concat bs)"
    using h elem_le_sum_list [of ?h "map length bs"] by (simp add: length_concat)
  moreover have "sz m = length (concat bs)" "sz m * 4 div 3 \<le> cap m"
    using hashmap_inv_Some [OF inv bs] by blast+
  moreover have "length (bs ! ?h) = Suc (length ?c)"
    using q(1) by (simp add: hashmap_del_entry_def)
  ultimately have len: "0 < sz m" "length (bs ! ?h) = Suc (length ?c)" "sz m * 4 div 3 \<le> cap m"
    by linarith+
  have "set ?c \<subseteq> set (bs ! ?h)"
    by (auto simp: hashmap_del_entry_def dest: in_set_takeD in_set_dropD)
  then have wf: "hashmap_wf hash eq ctx ?m"
    using m bs chain_bucket [OF m bs] len by (intro replace_chain) auto
  have "key_matches ctx ?m k' = (if eq k k' ctx then es else key_matches ctx m k')" for k'
  proof -
    have "filter (\<lambda>e. eq (fst e) k ctx) (bs ! ?h) = e # es"
      using matches_bucket [of m ctx bs k] m bs hit by (simp add: hashmap_wf_def)
    then have "filter (\<lambda>e. eq (fst e) k ctx) ?c = es"
      using chain_pos_Some(5) [OF p] by simp
    moreover have "filter (\<lambda>e. eq (fst e) k' ctx) ?c = filter (\<lambda>e. eq (fst e) k' ctx) (bs ! ?h)"
      if "\<not> eq k k' ctx"
      using q(1) e neq_step [OF q(2) that] by (intro chain_other) simp_all
    moreover have "key_matches ctx ?m k' =
        (if eq k k' ctx then filter (\<lambda>e. eq (fst e) k ctx) ?c else key_matches ctx m k')"
      using calculation(2) m wf bs unfolding hashmap_wf_def
      by (intro matches_update) simp_all
    ultimately show ?thesis by simp
  qed
  then show ?thesis
    using f bs e wf len by (auto simp: hashmap__delete_def Let_def)
qed

lemma delete_miss:
  assumes m: "hashmap_wf hash eq ctx m" and miss: "key_matches ctx m k = []"
  shows "hashmap__delete ctx m k = Inr (m, None)"
  using find_entry [OF m, of k] miss
  by (auto simp: hashmap__delete_def Let_def split: option.splits)

end

section \<open>The table as a finite map\<close>

text \<open>
  What the strategies promise for a map: the error and the value the key has afterwards,
  from the value it had, when memory suffices.
\<close>

fun strategy_spec :: "insert_strategy \<Rightarrow> 'v option \<Rightarrow> 'v \<Rightarrow> errno option \<times> 'v option" where
  "strategy_spec HASHMAP_ADD None v = (None, Some v)"
| "strategy_spec HASHMAP_ADD (Some w) v = (Some EEXIST, Some w)"
| "strategy_spec HASHMAP_SET _ v = (None, Some v)"
| "strategy_spec HASHMAP_UPDATE None v = (Some ENOENT, None)"
| "strategy_spec HASHMAP_UPDATE (Some w) v = (None, Some v)"
| "strategy_spec HASHMAP_APPEND _ v = (None, Some v)"

text \<open>At most one entry per key: a table that was never appended to.\<close>

definition hashmap_unique :: "'c \<Rightarrow> ('c, 'k, 'v) hashmap \<Rightarrow> bool" where
  "hashmap_unique ctx m \<longleftrightarrow> (\<forall>k. length (key_matches ctx m k) \<le> 1)"

lemma at_most_one: "length xs \<le> 1 \<longleftrightarrow> xs = [] \<or> (\<exists>x. xs = [x])"
  by (cases xs) auto

lemma unique_rev: "hashmap_unique ctx m \<Longrightarrow> rev (key_matches ctx m k) = key_matches ctx m k"
  unfolding hashmap_unique_def at_most_one by (metis rev.simps(1) rev_singleton_conv)

text \<open>
  C7. Whatever the strategy and whichever allocations fail, an insertion into a well-formed
  table never reads outside the bucket array, leaves the table well-formed, with one entry
  more exactly when it reports success without having replaced one.
\<close>

theorem hashmap_insert_safe:
  assumes "hash_fns hash eq" "hashmap_wf hash eq ctx m"
  shows "\<exists>m' err old. hashmap__insert ca ma ctx m k v st = Inr (m', err, old) \<and>
     hashmap_wf hash eq ctx m' \<and>
     hashmap__size m' = hashmap__size m + (if err = None \<and> old = None then 1 else 0)"
proof -
  consider e es where "key_matches ctx m k = e # es" "st = HASHMAP_SET \<or> st = HASHMAP_UPDATE"
    | e es where "key_matches ctx m k = e # es" "st = HASHMAP_ADD"
    | "key_matches ctx m k = []" "st = HASHMAP_UPDATE"
    | "st = HASHMAP_APPEND \<or> st \<noteq> HASHMAP_UPDATE \<and> key_matches ctx m k = []"
    by (cases st; cases "key_matches ctx m k") auto
  then show ?thesis
  proof cases
    case 1
    obtain m' where "hashmap__insert ca ma ctx m k v st = Inr (m', None, Some e)"
      "hashmap_wf hash eq ctx m'" "sz m' = sz m"
      using hash_fns.insert_hit [OF assms 1] by blast
    then show ?thesis by (simp add: hashmap__size_def)
  next
    case 2
    then show ?thesis
      using hash_fns.insert_add_hit [OF assms, of k] assms(2) by (simp add: hashmap__size_def)
  next
    case 3
    then show ?thesis
      using hash_fns.insert_update_miss [OF assms, of k] assms(2) by (simp add: hashmap__size_def)
  next
    case 4
    obtain m' err where "insert_new ca ma ctx m k v = Inr (m', err, None)" "hashmap_wf hash eq ctx m'"
      "if err = None then sz m' = sz m + 1 else sz m' = sz m"
      using hash_fns.insert_new [OF assms, of ca ma k v] by (auto split: if_splits)
    then show ?thesis
      using hash_fns.insert_fresh_eq [OF assms 4, of ca ma v]
      by (cases err) (auto simp: hashmap__size_def)
  qed
qed

text \<open>
  C8. A table with one entry per key refines a finite map: lookups find what the map holds,
  and an insertion either fails for want of memory and changes no lookup, or returns the
  error of its strategy, changes the value of its key alone, as the strategy says, and hands
  back the old value.
\<close>

theorem hashmap_refines_map:
  assumes "hash_fns hash eq" "hashmap_wf hash eq ctx m" "hashmap_unique ctx m" "st \<noteq> HASHMAP_APPEND"
  shows "\<exists>m' err old. hashmap__insert ca ma ctx m k v st = Inr (m', err, old) \<and>
     hashmap_unique ctx m' \<and> map_option snd old = hashmap_look ctx m k \<and>
     (\<forall>k'. hashmap__find ctx m' k' = Inr (hashmap_look ctx m' k')) \<and>
     (if err = Some ENOMEM
      then \<not> (ca \<and> ma) \<and> (\<forall>k'. hashmap_look ctx m' k' = hashmap_look ctx m k')
      else err = fst (strategy_spec st (hashmap_look ctx m k) v) \<and>
        (\<forall>k'. hashmap_look ctx m' k' =
           (if eq k k' ctx then snd (strategy_spec st (hashmap_look ctx m k) v)
            else hashmap_look ctx m k')))"
proof -
  have same: "hashmap_look ctx m k' = hashmap_look ctx m k" if "eq k k' ctx" for k'
    using hash_fns.eq_cong [OF assms(1) that] assms(2)
    by (simp add: hashmap_look_def key_matches_def hashmap_wf_def)
  have uniq: "key_matches ctx m k = [] \<or> (\<exists>a b. key_matches ctx m k = [(a, b)])"
    using assms(3) unfolding hashmap_unique_def at_most_one by fast
  note find = hash_fns.find [OF assms(1)]
  consider a b where "key_matches ctx m k = [(a, b)]" "st = HASHMAP_SET \<or> st = HASHMAP_UPDATE"
    | a b where "key_matches ctx m k = [(a, b)]" "st = HASHMAP_ADD"
    | "key_matches ctx m k = []" "st = HASHMAP_UPDATE"
    | "key_matches ctx m k = []" "st = HASHMAP_ADD \<or> st = HASHMAP_SET"
    using uniq assms(4) by (cases st) auto
  then show ?thesis
  proof cases
    case 1
    obtain m' where "hashmap__insert ca ma ctx m k v st = Inr (m', None, Some (a, b))"
      "hashmap_wf hash eq ctx m'"
      "\<forall>k'. key_matches ctx m' k' = (if eq k k' ctx then [(k, v)] else key_matches ctx m k')"
      using hash_fns.insert_hit [OF assms(1,2) 1] by blast
    then show ?thesis using 1 assms(3) find [of ctx m']
      by (auto simp: hashmap_unique_def hashmap_look_def)
  next
    case 2
    then show ?thesis
      using hash_fns.insert_add_hit [OF assms(1,2) 2(1)] assms(2,3) find [of ctx m] same
      by (auto simp: hashmap_look_def)
  next
    case 3
    then show ?thesis
      using hash_fns.insert_update_miss [OF assms(1,2) 3(1)] assms(2,3) find [of ctx m] same
      by (auto simp: hashmap_look_def)
  next
    case 4
    obtain m' err where n: "insert_new ca ma ctx m k v = Inr (m', err, None)"
      "hashmap_wf hash eq ctx m'"
      "if ma \<and> (ca \<or> \<not> hashmap_needs_to_grow m)
       then err = None \<and>
         (\<forall>k'. key_matches ctx m' k' = (if eq k k' ctx then [(k, v)] else []) @
           (if hashmap_needs_to_grow m then rev (key_matches ctx m k') else key_matches ctx m k'))
       else err = Some ENOMEM \<and>
         (\<forall>k'. key_matches ctx m' k' = key_matches ctx m k' \<or>
               key_matches ctx m' k' = rev (key_matches ctx m k'))"
      using hash_fns.insert_new [OF assms(1,2), of ca ma k v] by metis
    have i: "hashmap__insert ca ma ctx m k v st = Inr (m', err, None)"
      using hash_fns.insert_fresh_eq [OF assms(1,2), of st k ca ma v] 4 n(1) by auto
    have "if ma \<and> (ca \<or> \<not> hashmap_needs_to_grow m)
       then err = None \<and>
         (\<forall>k'. key_matches ctx m' k' = (if eq k k' ctx then [(k, v)] else []) @ key_matches ctx m k')
       else err = Some ENOMEM \<and> (\<forall>k'. key_matches ctx m' k' = key_matches ctx m k')"
      using n(3) by (simp only: unique_rev [OF assms(3)] if_cancel disj_absorb)
    note i = i n(2) this
    have "key_matches ctx m k' = []" if "eq k k' ctx" for k'
      using same [OF that] 4(1) by (simp add: hashmap_look_def split: list.splits)
    then show ?thesis using i 4 assms(3) find [OF i(2)]
      by (auto simp: hashmap_unique_def hashmap_look_def split: if_splits)
  qed
qed

text \<open>
  Deleting from a table with one entry per key removes exactly its key: the entry found
  is handed back, other lookups are unchanged, and the size drops by one when there was one.
\<close>

lemma hashmap_delete_map:
  assumes "hash_fns hash eq" "hashmap_wf hash eq ctx m" "hashmap_unique ctx m"
  shows "\<exists>m' old. hashmap__delete ctx m k = Inr (m', old) \<and>
     hashmap_wf hash eq ctx m' \<and> hashmap_unique ctx m' \<and>
     map_option snd old = hashmap_look ctx m k \<and>
     hashmap__size m = hashmap__size m' + (if old = None then 0 else 1) \<and>
     (\<forall>k'. hashmap__find ctx m' k' = Inr (if eq k k' ctx then None else hashmap_look ctx m k'))"
proof (cases "key_matches ctx m k")
  case Nil
  have "key_matches ctx m k' = []" if "eq k k' ctx" for k'
    using hash_fns.eq_cong [OF assms(1) that] assms(2) Nil
    by (simp add: key_matches_def hashmap_wf_def)
  then show ?thesis
    using hash_fns.delete_miss [OF assms(1,2) Nil] hash_fns.find [OF assms(1,2)] assms(2,3) Nil
    by (simp add: hashmap_look_def hashmap__size_def)
next
  case (Cons e es)
  obtain m' where "hashmap__delete ctx m k = Inr (m', Some e)" "hashmap_wf hash eq ctx m'"
    "sz m = sz m' + 1"
    "\<forall>k'. key_matches ctx m' k' = (if eq k k' ctx then es else key_matches ctx m k')"
    using hash_fns.delete_hit [OF assms(1,2) Cons] by blast
  moreover have "es = []" using assms(3) Cons
    unfolding hashmap_unique_def by (metis at_most_one list.inject list.simps(3))
  ultimately show ?thesis
    using hash_fns.find [OF assms(1), of ctx m'] Cons assms(3)
    by (cases e) (simp add: hashmap_look_def hashmap_unique_def hashmap__size_def)
qed

text \<open>
  As a multimap: appending adds the entry in front of the key's entries and keeps those
  of all keys, except that the append that makes the table grow first reverses them, for
  every key.
\<close>

lemma hashmap_append_order:
  assumes "hash_fns hash eq" "hashmap_wf hash eq ctx m"
  shows "\<exists>m'. hashmap__append True True ctx m k v = Inr (m', None, None) \<and>
     hashmap_wf hash eq ctx m' \<and>
     (\<forall>k'. hashmap_key_entries ctx m' k' =
        Inr ((if eq k k' ctx then [(k, v)] else []) @
             (if hashmap_needs_to_grow m then rev (key_matches ctx m k')
              else key_matches ctx m k')))"
proof -
  obtain m' where "insert_new True True ctx m k v = Inr (m', None, None)" "hashmap_wf hash eq ctx m'"
    "\<forall>k'. key_matches ctx m' k' = (if eq k k' ctx then [(k, v)] else []) @
          (if hashmap_needs_to_grow m then rev (key_matches ctx m k') else key_matches ctx m k')"
    using hash_fns.insert_new [OF assms, of True True k v] by auto
  then show ?thesis
    using hash_fns.insert_fresh_eq [OF assms, of HASHMAP_APPEND k True True v]
      hash_fns.key_entries [OF assms(1), of ctx m']
    by (simp add: hashmap__append_def)
qed

section \<open>The callbacks of the type deduplication\<close>

definition btf_dedup_identity_hash_fn :: "u64 \<Rightarrow> unit \<Rightarrow> u64" where
  "btf_dedup_identity_hash_fn key ctx = key"

definition btf_dedup_collision_hash_fn :: "u64 \<Rightarrow> unit \<Rightarrow> u64" where
  "btf_dedup_collision_hash_fn key ctx = 0"

definition btf_dedup_equal_fn :: "u64 \<Rightarrow> u64 \<Rightarrow> unit \<Rightarrow> bool" where
  "btf_dedup_equal_fn k1 k2 ctx \<longleftrightarrow> k1 = k2"

interpretation dedup_fns: hash_fns btf_dedup_identity_hash_fn btf_dedup_equal_fn
  by unfold_locales (auto simp: btf_dedup_equal_fn_def)

interpretation dedup_collisions: hash_fns btf_dedup_collision_hash_fn btf_dedup_equal_fn
  by unfold_locales (auto simp: btf_dedup_equal_fn_def btf_dedup_collision_hash_fn_def)

lemma init_wf: "hashmap_wf hash eq ctx (hashmap__init hash eq)"
  and init_unique: "hashmap_unique ctx (hashmap__init hash eq)"
  by (simp_all add: hashmap_wf_def hashmap_inv_def hashmap__init_def hashmap_unique_def
      key_matches_def hashmap_entries_def)

lemma clear_wf: "hashmap_wf hash eq ctx m \<Longrightarrow> hashmap_wf hash eq ctx (hashmap__clear m)"
  by (simp add: hashmap_wf_def hashmap_inv_def hashmap__clear_def)

text \<open>A table of one entry, as the first insertion leaves it.\<close>

definition one_entry :: "(unit, u64, nat) hashmap" where
  "one_entry = \<lparr>hash_fn = btf_dedup_identity_hash_fn, equal_fn = btf_dedup_equal_fn,
     buckets = Some [[(0, 7)], [], [], []], cap = 4, cap_bits = 2, sz = 1\<rparr>"

lemma hash_bits_0 [simp]: "hash_bits 0 b = 0"
  by (simp add: hash_bits_def)

lemma one_entry_wf: "hashmap_wf btf_dedup_identity_hash_fn btf_dedup_equal_fn () one_entry"
  and one_entry_unique: "hashmap_unique () one_entry"
  by (auto simp: hashmap_wf_def hashmap_inv_def one_entry_def in_buckets_def key_bucket_def
      btf_dedup_identity_hash_fn_def nth_Cons' hashmap_unique_def key_matches_def)

lemma one_entry_look: "hashmap_look () one_entry k = (if k = 0 then Some 7 else None)"
  by (simp add: hashmap_look_def key_matches_def one_entry_def btf_dedup_equal_fn_def)

theorem hashmap_insert_safe_witness:
  "\<exists>m' err old. hashmap__insert True False () one_entry 5 1 HASHMAP_SET = Inr (m', err, old) \<and>
     hashmap__size m' = hashmap__size one_entry + (if err = None \<and> old = None then 1 else 0)"
  using hashmap_insert_safe [OF dedup_fns.hash_fns_axioms one_entry_wf, of True False 5 1 HASHMAP_SET]
  by blast

theorem hashmap_refines_map_witness:
  "\<exists>m' err old. hashmap__insert True True () one_entry 0 1 HASHMAP_SET = Inr (m', err, old) \<and>
     map_option snd old = Some 7 \<and> err = None \<and> hashmap__find () m' 0 = Inr (Some 1)"
  using hashmap_refines_map [OF dedup_fns.hash_fns_axioms one_entry_wf one_entry_unique,
      of HASHMAP_SET True True 0 1]
  by (auto simp: one_entry_look split: if_splits)

lemma hashmap_delete_map_witness:
  "\<exists>m' old. hashmap__delete () one_entry 0 = Inr (m', old) \<and> map_option snd old = Some 7 \<and>
     hashmap__find () m' 0 = Inr None \<and> hashmap__size m' = 0"
proof -
  obtain m' old where d: "hashmap__delete () one_entry 0 = Inr (m', old)"
    "map_option snd old = hashmap_look () one_entry 0"
    "hashmap__size one_entry = hashmap__size m' + (if old = None then 0 else 1)"
    "\<forall>k'. hashmap__find () m' k' =
       Inr (if btf_dedup_equal_fn 0 k' () then None else hashmap_look () one_entry k')"
    using hashmap_delete_map [OF dedup_fns.hash_fns_axioms one_entry_wf one_entry_unique, of 0]
    by blast
  moreover have "hashmap__size one_entry = 1" by (simp add: hashmap__size_def one_entry_def)
  ultimately show ?thesis
    by (cases old) (auto simp: one_entry_look dedup_fns.eq_refl)
qed

lemma hashmap_append_order_witness:
  "\<exists>m'. hashmap__append True True () one_entry 0 1 = Inr (m', None, None) \<and>
     hashmap_key_entries () m' 0 = Inr [(0, 1), (0, 7)]"
proof -
  have "\<not> hashmap_needs_to_grow one_entry" "key_matches () one_entry 0 = [(0, 7)]"
    by (simp_all add: hashmap_needs_to_grow_def one_entry_def key_matches_def btf_dedup_equal_fn_def)
  then show ?thesis
    using hashmap_append_order [OF dedup_fns.hash_fns_axioms one_entry_wf, of 0 1] by auto
qed

text \<open>
  The comment on \<open>HASHMAP_APPEND\<close> in \<^verbatim>\<open>hashmap.h\<close> says that a lookup returns the entry
  inserted last. After the appends 0 to 1, 0 to 2, then 9 and 9, the growth in the fourth
  reverses the chain and the lookup returns the first.
\<close>

definition append_all ::
  "(unit, u64, nat) hashmap \<Rightarrow> (u64 \<times> nat) list \<Rightarrow> (unit, u64, nat) hashmap cres" where
  "append_all m kvs = foldl (\<lambda>r (k, v). res_bind r (\<lambda>m.
     map_sum id fst (hashmap__append True True () m k v))) (Inr m) kvs"

text \<open>
  A lookup does not always return the entry inserted last: four appends suffice.
\<close>

lemma hashmap_find_not_last:
  "res_bind (append_all (hashmap__init btf_dedup_identity_hash_fn btf_dedup_equal_fn)
       [(0, 1), (0, 2), (0, 3)]) (\<lambda>m. hashmap__find () m 0) = Inr (Some 3) \<and>
   res_bind (append_all (hashmap__init btf_dedup_identity_hash_fn btf_dedup_equal_fn)
       [(0, 1), (0, 2), (9, 0), (9, 0)]) (\<lambda>m. hashmap__find () m 0) = Inr (Some 1)"
  by code_simp

end
