(* ===== verification/Strset.thy ===== *)
theory Strset
  imports Hashmap
begin

text \<open>
  Growing memory regions (\<open>libbpf_add_mem\<close> and \<open>libbpf_ensure_mem\<close> of
  \<^verbatim>\<open>src/bpftools/libbpf/src/btf.c\<close>) and the set of unique strings of
  \<^verbatim>\<open>src/bpftools/libbpf/src/strset.c\<close>, an indexed region of zero-terminated strings.

  A region is the list of its bytes, as long as its capacity. The hash table of a string set
  holds offsets into the region, and its callbacks read the strings there, so the region is
  the table's context. Offsets and lengths are natural numbers: every caller limits the
  region to less than \<open>2 ^ 31\<close> bytes.
\<close>

section \<open>Growing regions\<close>

definition libbpf_reallocarray :: "bool \<Rightarrow> nat \<Rightarrow> nat \<Rightarrow> nat option" where
  "libbpf_reallocarray realloc_ok nmemb elem_sz =
     (if 2 ^ 64 \<le> nmemb * elem_sz then None
      else if realloc_ok then Some (nmemb * elem_sz) else None)"

text \<open>
  The result is the region, its capacity and the offset of the requested elements; \<open>None\<close>
  is the null pointer, which leaves the region alone.
\<close>

definition grow_cnt :: "nat \<Rightarrow> nat \<Rightarrow> nat \<Rightarrow> nat" where
  "grow_cnt cap_cnt max_cnt need_cnt =
     (let new_cnt = cap_cnt + cap_cnt div 4;
          new_cnt = (if new_cnt < 16 then 16 else new_cnt);
          new_cnt = (if new_cnt > max_cnt then max_cnt else new_cnt)
      in if new_cnt < need_cnt then need_cnt else new_cnt)"

definition libbpf_add_mem ::
  "bool \<Rightarrow> bytes \<Rightarrow> nat \<Rightarrow> nat \<Rightarrow> nat \<Rightarrow> nat \<Rightarrow> nat \<Rightarrow> (bytes \<times> nat \<times> nat) option" where
  "libbpf_add_mem realloc_ok data cap_cnt elem_sz cur_cnt max_cnt add_cnt =
     (if cur_cnt + add_cnt \<le> cap_cnt then Some (data, cap_cnt, cur_cnt * elem_sz)
      else if cur_cnt + add_cnt > max_cnt then None
      else
        let new_cnt = grow_cnt cap_cnt max_cnt (cur_cnt + add_cnt)
        in case libbpf_reallocarray realloc_ok new_cnt elem_sz of
             None \<Rightarrow> None
           | Some nbytes \<Rightarrow>
               Some (data @ replicate (nbytes - cap_cnt * elem_sz) 0, new_cnt, cur_cnt * elem_sz))"

definition libbpf_ensure_mem :: "bool \<Rightarrow> bytes \<Rightarrow> nat \<Rightarrow> nat \<Rightarrow> nat \<Rightarrow> (bytes \<times> nat) cres" where
  "libbpf_ensure_mem realloc_ok data cap_cnt elem_sz need_cnt =
     (if need_cnt \<le> cap_cnt then Inr (data, cap_cnt)
      else case libbpf_add_mem realloc_ok data cap_cnt elem_sz cap_cnt (2 ^ 64 - 1)
                  (need_cnt - cap_cnt) of
          None \<Rightarrow> Inl (Err ENOMEM)
        | Some (data', cap', _) \<Rightarrow> Inr (data', cap'))"

section \<open>Zero-terminated strings\<close>

definition cstr :: "bytes \<Rightarrow> nat \<Rightarrow> bytes" where
  "cstr m off = takeWhile (\<lambda>c. c \<noteq> 0) (drop off m)"

definition c_strlen :: "bytes \<Rightarrow> nat \<Rightarrow> nat cres" where
  "c_strlen m off = (if 0 \<in> set (drop off m) then Inr (length (cstr m off)) else Inl Fault)"

section \<open>The string set\<close>

record strset =
  strs_data :: bytes
  strs_data_len :: nat
  strs_data_cap :: nat
  strs_data_max_len :: nat
  strs_hash :: "(bytes, nat, nat) hashmap"

definition strset_hash_fn :: "nat \<Rightarrow> bytes \<Rightarrow> u64" where
  "strset_hash_fn key s = str_hash (cstr s key)"

definition strset_equal_fn :: "nat \<Rightarrow> nat \<Rightarrow> bytes \<Rightarrow> bool" where
  "strset_equal_fn key1 key2 s \<longleftrightarrow> cstr s key1 = cstr s key2"

text \<open>
  The loop over the initial strings. \<open>al\<close> gives the outcomes of the table's two allocations
  for the string at an offset. The callbacks read the string before \<open>strlen\<close> does, so an
  unterminated one is a fault either way.
\<close>

function strset_index ::
  "(nat \<Rightarrow> bool \<times> bool) \<Rightarrow> bytes \<Rightarrow> nat \<Rightarrow> nat \<Rightarrow> (bytes, nat, nat) hashmap \<Rightarrow>
   ((bytes, nat, nat) hashmap \<times> errno option) cres" where
  "strset_index al data len off hash =
     (if off < len
      then res_bind (c_strlen data off) (\<lambda>n.
             res_bind (hashmap__add (fst (al off)) (snd (al off)) data hash off off)
               (\<lambda>(hash', err, _).
                  if err = Some EEXIST \<or> err = None
                  then strset_index al data len (off + n + 1) hash'
                  else Inr (hash', err)))
      else Inr (hash, None))"
  by pat_completeness auto

termination
  by (relation "measure (\<lambda>(al, data, len, off, hash). len - off)") auto

declare strset_index.simps [simp del]

definition strset__new ::
  "bool \<Rightarrow> bool \<Rightarrow> bool \<Rightarrow> (nat \<Rightarrow> bool \<times> bool) \<Rightarrow> nat \<Rightarrow> bytes option \<Rightarrow> strset cres" where
  "strset__new set_ok map_ok data_ok al max_data_sz init_data =
     (if \<not> set_ok then Inl (Err ENOMEM)
      else res_bind (hashmap__new map_ok strset_hash_fn strset_equal_fn) (\<lambda>hash.
        case init_data of
          None \<Rightarrow> Inr \<lparr>strs_data = [], strs_data_len = 0, strs_data_cap = 0,
                       strs_data_max_len = max_data_sz, strs_hash = hash\<rparr>
        | Some init \<Rightarrow>
            if \<not> data_ok then Inl (Err ENOMEM)
            else res_bind (strset_index al init (length init) 0 hash) (\<lambda>(hash', err).
              case err of
                Some e \<Rightarrow> Inl (Err e)
              | None \<Rightarrow> Inr \<lparr>strs_data = init, strs_data_len = length init,
                            strs_data_cap = length init, strs_data_max_len = max_data_sz,
                            strs_hash = hash'\<rparr>)))"

definition strset__data_size :: "strset \<Rightarrow> nat" where
  "strset__data_size ss = strs_data_len ss"

definition strset__data :: "strset \<Rightarrow> bytes" where
  "strset__data ss = strs_data ss"

definition strset_add_str_mem :: "bool \<Rightarrow> strset \<Rightarrow> nat \<Rightarrow> (strset \<times> nat) option" where
  "strset_add_str_mem realloc_ok ss add_sz =
     map_option (\<lambda>(data, cap, p). (ss\<lparr>strs_data := data, strs_data_cap := cap\<rparr>, p))
       (libbpf_add_mem realloc_ok (strs_data ss) (strs_data_cap ss) 1 (strs_data_len ss)
          (strs_data_max_len ss) add_sz)"

text \<open>
  \<open>s\<close> is the argument without its terminator. Both operations copy it behind the strings
  of the set, so both return the set.
\<close>

definition strset__find_str :: "bool \<Rightarrow> strset \<Rightarrow> bytes \<Rightarrow> (strset \<times> (errno + nat)) cres" where
  "strset__find_str realloc_ok ss s =
     (let len = length s + 1
      in case strset_add_str_mem realloc_ok ss len of
           None \<Rightarrow> Inr (ss, Inl ENOMEM)
         | Some (ss, p) \<Rightarrow>
             let new_off = strs_data_len ss
             in res_bind (mem_write (strs_data ss) p (s @ [0])) (\<lambda>data.
                  let ss = ss\<lparr>strs_data := data\<rparr>
                  in res_bind (hashmap__find data (strs_hash ss) new_off) (\<lambda>found.
                       case found of
                         Some old_off \<Rightarrow> Inr (ss, Inr old_off)
                       | None \<Rightarrow> Inr (ss, Inl ENOENT))))"

definition strset__add_str ::
  "bool \<Rightarrow> bool \<Rightarrow> bool \<Rightarrow> strset \<Rightarrow> bytes \<Rightarrow> (strset \<times> (errno + nat)) cres" where
  "strset__add_str realloc_ok calloc_ok malloc_ok ss s =
     (let len = length s + 1
      in case strset_add_str_mem realloc_ok ss len of
           None \<Rightarrow> Inr (ss, Inl ENOMEM)
         | Some (ss, p) \<Rightarrow>
             let new_off = strs_data_len ss
             in res_bind (mem_write (strs_data ss) p (s @ [0])) (\<lambda>data.
                  let ss = ss\<lparr>strs_data := data\<rparr>
                  in res_bind (hashmap__insert calloc_ok malloc_ok data (strs_hash ss)
                        new_off new_off HASHMAP_ADD) (\<lambda>(hash, err, old).
                       let ss = ss\<lparr>strs_hash := hash\<rparr>
                       in case err of
                            Some EEXIST \<Rightarrow> Inr (ss, Inr (fst (the old)))
                          | Some e \<Rightarrow> Inr (ss, Inl e)
                          | None \<Rightarrow> Inr (ss\<lparr>strs_data_len := strs_data_len ss + len\<rparr>,
                                        Inr new_off))))"

interpretation strset_fns: hash_fns strset_hash_fn strset_equal_fn
  by unfold_locales (simp_all add: strset_hash_fn_def strset_equal_fn_def)

section \<open>Growing regions keep their contents\<close>

lemma grow_cnt_bounds:
  "need \<le> grow_cnt c mx need" "need \<le> mx \<Longrightarrow> grow_cnt c mx need \<le> mx"
  "c \<le> need \<Longrightarrow> c \<le> grow_cnt c mx need"
  by (auto simp: grow_cnt_def Let_def)

lemma libbpf_add_mem_spec:
  assumes "length data = c0 * es"
    and "libbpf_add_mem ok data c0 es cur mx add = Some (data', c1, p)"
  shows "length data' = c1 * es" "c0 \<le> c1" "cur + add \<le> c1" "p = cur * es"
    and "\<exists>n. data' = data @ replicate n 0" "c1 = c0 \<or> c1 \<le> mx"
  using assms grow_cnt_bounds [where need = "cur + add" and c = c0 and mx = mx]
  by (auto simp: libbpf_add_mem_def libbpf_reallocarray_def Let_def not_less split: if_splits)

lemma libbpf_add_mem_total:
  assumes "cur + add \<le> mx" "mx * es < 2 ^ 64"
  shows "\<exists>r. libbpf_add_mem True data c0 es cur mx add = Some r"
proof -
  have "grow_cnt c0 mx (cur + add) * es \<le> mx * es"
    using grow_cnt_bounds(2) [OF assms(1)] by simp
  then have "grow_cnt c0 mx (cur + add) * es < 2 ^ 64" using assms(2) by (rule le_less_trans)
  then show ?thesis
    using assms(1) by (simp add: libbpf_add_mem_def libbpf_reallocarray_def Let_def)
qed

section \<open>Strings that survive a change of the memory behind them\<close>

lemma c_strlen_terminated: "0 \<in> set (drop off m) \<Longrightarrow> c_strlen m off = Inr (length (cstr m off))"
  by (simp add: c_strlen_def)

lemma cstr_no_zero: "0 \<notin> set (cstr m off)"
  by (auto simp: cstr_def dest: set_takeWhileD)

text \<open>The string at an offset ends before position \<open>n\<close>.\<close>

definition cstr_in :: "bytes \<Rightarrow> nat \<Rightarrow> nat \<Rightarrow> bool" where
  "cstr_in m n off \<longleftrightarrow> 0 \<in> set (drop off (take n m))"

lemma cstr_take:
  assumes "cstr_in m n off"
  shows "cstr (take n m) off = cstr m off"
proof -
  have "drop off m = drop off (take n m) @ drop (off - length (take n m)) (drop n m)"
    by (metis append_take_drop_id drop_append)
  moreover have "\<exists>x \<in> set (drop off (take n m)). x = 0" using assms by (simp add: cstr_in_def)
  ultimately show ?thesis
    unfolding cstr_def by (metis (mono_tags, lifting) takeWhile_append1)
qed

lemma cstr_in_cong: "take n m' = take n m \<Longrightarrow> cstr_in m' n off = cstr_in m n off"
  by (simp add: cstr_in_def)

lemma cstr_cong: "cstr_in m n off \<Longrightarrow> take n m' = take n m \<Longrightarrow> cstr m' off = cstr m off"
  by (metis cstr_take cstr_in_cong)

lemma cstr_in_less: "cstr_in m n off \<Longrightarrow> off < n"
  unfolding cstr_in_def by (rule ccontr) simp

lemma cstr_in_mono: "cstr_in m n off \<Longrightarrow> n \<le> n' \<Longrightarrow> cstr_in m n' off"
proof -
  assume c: "cstr_in m n off" and n: "n \<le> n'"
  have "take n' m = take n m @ take (n' - n) (drop n m)"
    using n by (metis add_diff_inverse_nat le_antisym not_le take_add)
  then show "cstr_in m n' off" using c by (auto simp: cstr_in_def)
qed

lemma cstr_at:
  assumes "take (off + length s + 1) m = pre @ s @ [0]" "length pre = off" "0 \<notin> set s"
  shows "cstr m off = s" "cstr_in m (off + length s + 1) off"
proof -
  show i: "cstr_in m (off + length s + 1) off" using assms by (simp add: cstr_in_def)
  have "takeWhile (\<lambda>c. c \<noteq> 0) (s @ [0]) = s @ takeWhile (\<lambda>c. c \<noteq> 0) [0]"
    by (rule takeWhile_append2) (use assms(3) in auto)
  then have "cstr (take (off + length s + 1) m) off = s"
    using assms by (simp add: cstr_def)
  then show "cstr m off = s" using cstr_take [OF i] by simp
qed

section \<open>Tables whose context changes\<close>

lemma hashmap_inv_ctx:
  assumes "hashmap_inv ctx m" "\<forall>e \<in> set (hashmap_entries m). hash_fn m (fst e) ctx' = hash_fn m (fst e) ctx"
  shows "hashmap_inv ctx' m"
proof (cases "buckets m")
  case None
  then show ?thesis using assms by (simp add: hashmap_inv_def)
next
  case (Some bs)
  have "in_buckets (key_bucket ctx' m) bs"
    using assms(1) Some assms(2)
    unfolding hashmap_inv_iff [OF Some] in_buckets_def key_bucket_def
    by (simp add: Bex_def) (metis nth_mem)
  then show ?thesis using assms(1) unfolding hashmap_inv_iff [OF Some] by blast
qed

context hash_fns begin

lemma unique_entries:
  assumes "equal_fn m = eq"
  shows "hashmap_unique ctx m \<longleftrightarrow>
    sorted_wrt (\<lambda>a b. \<not> eq (fst a) (fst b) ctx) (hashmap_entries m)"
proof -
  have "(\<forall>k. length (filter (\<lambda>e. eq (fst e) k ctx) xs) \<le> 1) \<longleftrightarrow>
      sorted_wrt (\<lambda>a b. \<not> eq (fst a) (fst b) ctx) xs" for xs :: "('k \<times> 'v) list"
  proof (induction xs)
    case Nil
    show ?case by simp
  next
    case (Cons x xs)
    let ?f = "\<lambda>k. filter (\<lambda>e. eq (fst e) k ctx)"
    have "(\<forall>k. length (?f k (x # xs)) \<le> 1) \<longleftrightarrow>
        (\<forall>k. length (?f k xs) \<le> 1) \<and> (\<forall>y \<in> set xs. \<not> eq (fst x) (fst y) ctx)" (is "?l \<longleftrightarrow> ?r")
    proof
      assume l: ?l
      have "\<not> eq (fst x) (fst y) ctx" if y: "y \<in> set xs" for y
      proof
        assume "eq (fst x) (fst y) ctx"
        then have "length (?f (fst y) xs) = 0" using l [rule_format, of "fst y"] by simp
        then show False using y by (auto simp: filter_empty_conv)
      qed
      moreover have "length (?f k xs) \<le> 1" for k
        using l [rule_format, of k] by (simp split: if_splits)
      ultimately show ?r by blast
    next
      assume r: ?r
      have "length (?f k (x # xs)) \<le> 1" for k
      proof (cases "eq (fst x) k ctx")
        case True
        have "\<not> eq (fst y) k ctx" if "y \<in> set xs" for y
          using r that True eq_sym eq_trans by blast
        then have "?f k xs = []" by (auto simp: filter_empty_conv)
        then show ?thesis by simp
      next
        case False
        then show ?thesis using r by simp
      qed
      then show ?l by blast
    qed
    then show ?case using Cons by auto
  qed
  then show ?thesis using assms by (simp add: hashmap_unique_def key_matches_def)
qed

lemma change_ctx:
  assumes "hashmap_wf hash eq ctx m" "hashmap_unique ctx m"
    and "\<And>k. k \<in> fst ` set (hashmap_entries m) \<Longrightarrow> hash k ctx' = hash k ctx"
    and "\<And>k k'. k \<in> fst ` set (hashmap_entries m) \<Longrightarrow> k' \<in> fst ` set (hashmap_entries m) \<Longrightarrow>
           eq k k' ctx' = eq k k' ctx"
  shows "hashmap_wf hash eq ctx' m \<and> hashmap_unique ctx' m"
proof -
  have m: "hash_fn m = hash" "equal_fn m = eq" using assms(1) by (simp_all add: hashmap_wf_def)
  have inv: "hashmap_inv ctx m" using assms(1) by (simp add: hashmap_wf_def)
  have "\<forall>e \<in> set (hashmap_entries m). hash_fn m (fst e) ctx' = hash_fn m (fst e) ctx"
    unfolding m(1) using assms(3) by (metis image_eqI)
  with inv have "hashmap_inv ctx' m" by (rule hashmap_inv_ctx)
  moreover have "sorted_wrt (\<lambda>a b. \<not> eq (fst a) (fst b) ctx') (hashmap_entries m)"
    using assms(2) unfolding unique_entries [OF m(2)]
    by (rule sorted_wrt_mono_rel [rotated]) (simp add: assms(4))
  ultimately show ?thesis using m by (simp add: hashmap_wf_def unique_entries)
qed

end

section \<open>The string set: every offset of the table denotes a string of its own\<close>

abbreviation strset_offsets :: "strset \<Rightarrow> nat set" where
  "strset_offsets ss \<equiv> fst ` set (hashmap_entries (strs_hash ss))"

abbreviation strset_hash_ok :: "bytes \<Rightarrow> (bytes, nat, nat) hashmap \<Rightarrow> bool" where
  "strset_hash_ok data h \<equiv>
     hashmap_wf strset_hash_fn strset_equal_fn data h \<and> hashmap_unique data h"

definition strset_inv :: "strset \<Rightarrow> bool" where
  "strset_inv ss \<longleftrightarrow>
     length (strs_data ss) = strs_data_cap ss \<and> strs_data_len ss \<le> strs_data_cap ss \<and>
     strset_hash_ok (strs_data ss) (strs_hash ss) \<and>
     (\<forall>e \<in> set (hashmap_entries (strs_hash ss)).
        snd e = fst e \<and> cstr_in (strs_data ss) (strs_data_len ss) (fst e))"

text \<open>The table only looks at the strings below the length, so writing behind them is harmless.\<close>

lemma hash_ok_write_behind:
  assumes "strset_hash_ok data h" "take n data' = take n data"
    and "\<forall>e \<in> set (hashmap_entries h). cstr_in data n (fst e)"
  shows "strset_hash_ok data' h"
proof -
  have "cstr data' k = cstr data k" if "k \<in> fst ` set (hashmap_entries h)" for k
    using that assms(3) cstr_cong [OF _ assms(2)] by blast
  then show ?thesis
    using assms(1)
    by (intro strset_fns.change_ctx) (simp_all add: strset_hash_fn_def strset_equal_fn_def)
qed

lemma strset_room:
  assumes inv: "strset_inv ss" and s: "0 \<notin> set s"
    and room: "strset_add_str_mem ok ss (length s + 1) = Some (ss1, p)"
  shows "\<exists>data. mem_write (strs_data ss1) p (s @ [0]) = Inr data \<and>
     strset_inv (ss1\<lparr>strs_data := data\<rparr>) \<and>
     take (strs_data_len ss) data = take (strs_data_len ss) (strs_data ss) \<and>
     cstr data (strs_data_len ss) = s \<and>
     cstr_in data (strs_data_len ss + length s + 1) (strs_data_len ss) \<and>
     strs_data_len ss + length s + 1 \<le> strs_data_cap ss1 \<and>
     strs_data_len ss1 = strs_data_len ss \<and> strs_hash ss1 = strs_hash ss"
proof -
  let ?n = "strs_data_len ss"
  have i: "length (strs_data ss) = strs_data_cap ss * 1" "?n \<le> strs_data_cap ss"
    "strset_hash_ok (strs_data ss) (strs_hash ss)"
    "\<forall>e \<in> set (hashmap_entries (strs_hash ss)). snd e = fst e \<and> cstr_in (strs_data ss) ?n (fst e)"
    using inv by (simp_all add: strset_inv_def)
  obtain d c where m: "libbpf_add_mem ok (strs_data ss) (strs_data_cap ss) 1 ?n
      (strs_data_max_len ss) (length s + 1) = Some (d, c, p)"
    and ss1: "ss1 = ss\<lparr>strs_data := d, strs_data_cap := c\<rparr>"
    using room by (auto simp: strset_add_str_mem_def)
  note a = libbpf_add_mem_spec [OF i(1) m]
  obtain k where d: "d = strs_data ss @ replicate k 0" using a(5) by blast
  define data where "data = take ?n d @ (s @ [0]) @ drop (?n + length s + 1) d"
  have w: "mem_write d p (s @ [0]) = Inr data"
    using a(1,3,4) by (simp add: mem_write_def data_def)
  have n: "?n \<le> length d" using a(1,3) by simp
  have t: "take ?n data = take ?n (strs_data ss)"
    using n i(1,2) by (simp add: data_def d)
  have t2: "take (?n + length s + 1) data = take ?n d @ s @ [0]"
    using n by (simp add: data_def)
  have "strset_hash_ok data (strs_hash ss)"
    using hash_ok_write_behind [OF i(3) t] i(4) by blast
  then have "strset_inv (ss1\<lparr>strs_data := data\<rparr>)"
    using i(2,4) a(1,2) mem_write_length [OF w] cstr_in_cong [OF t] by (simp add: strset_inv_def ss1)
  then show ?thesis
    using w t cstr_at [OF t2 _ s] n a(3) by (simp add: ss1 min_absorb2)
qed

text \<open>Looking up an offset whose string lies behind the set's own strings.\<close>

lemma matches_string:
  assumes "strset_inv ss" "cstr (strs_data ss) off = s"
  shows "key_matches (strs_data ss) (strs_hash ss) off =
     filter (\<lambda>e. cstr (strs_data ss) (fst e) = s) (hashmap_entries (strs_hash ss))"
  using assms
  by (simp add: key_matches_def strset_inv_def hashmap_wf_def strset_equal_fn_def)

lemma matches_at_most_one:
  assumes "strset_inv ss"
  shows "key_matches (strs_data ss) (strs_hash ss) off = [] \<or>
    (\<exists>k \<in> strset_offsets ss. key_matches (strs_data ss) (strs_hash ss) off = [(k, k)] \<and>
       cstr (strs_data ss) k = cstr (strs_data ss) off)"
proof (cases "key_matches (strs_data ss) (strs_hash ss) off")
  case (Cons e es)
  have "es = []" using assms Cons unfolding strset_inv_def hashmap_unique_def
    by (metis at_most_one list.inject list.simps(3))
  moreover have "e \<in> set (key_matches (strs_data ss) (strs_hash ss) off)" using Cons by simp
  then have "e \<in> set (hashmap_entries (strs_hash ss))"
    "cstr (strs_data ss) (fst e) = cstr (strs_data ss) off"
    by (simp_all add: matches_string [OF assms refl])
  moreover from this(1) have "e = (fst e, fst e)" using assms
    by (auto simp: strset_inv_def prod_eq_iff)
  ultimately show ?thesis using Cons by (metis image_eqI)
qed simp

context hash_fns begin

lemma insert_new_unique:
  assumes m: "hashmap_wf hash eq ctx m" "hashmap_unique ctx m" "key_matches ctx m k = []"
    and ins: "insert_new ca ma ctx m k v = Inr (m', err, old)"
  shows "hashmap_unique ctx m'"
proof -
  have disj: "key_matches ctx m' k' = (if eq k k' ctx then [(k, v)] else []) @ key_matches ctx m k' \<or>
      key_matches ctx m' k' = key_matches ctx m k'" for k'
    using insert_new [OF m(1), of ca ma k v] ins unique_rev [OF m(2)] by (auto split: if_splits)
  have "key_matches ctx m k' = []" if "eq k k' ctx" for k'
    using m(1,3) eq_cong [OF that] by (simp add: key_matches_def hashmap_wf_def)
  then have "length (key_matches ctx m' k') \<le> 1" for k'
  proof (cases "eq k k' ctx")
    case True
    then have "key_matches ctx m k' = []" by fact
    then show ?thesis using disj [of k'] by auto
  next
    case False
    then have "key_matches ctx m' k' = key_matches ctx m k'" using disj [of k'] by auto
    then show ?thesis using m(2) unfolding hashmap_unique_def by metis
  qed
  then show ?thesis by (simp add: hashmap_unique_def)
qed

end

lemma strset_add_str_mem_room:
  assumes "strs_data_len ss + n \<le> strs_data_max_len ss" "strs_data_max_len ss < 2 ^ 64"
  shows "strset_add_str_mem True ss n \<noteq> None"
  using libbpf_add_mem_total [of "strs_data_len ss" n "strs_data_max_len ss" 1 "strs_data ss"
      "strs_data_cap ss"] assms
  by (auto simp: strset_add_str_mem_def)

lemma offset_known:
  assumes "strset_inv ss" "k \<in> strset_offsets ss" "cstr (strs_data ss) k = cstr (strs_data ss) off"
  shows "key_matches (strs_data ss) (strs_hash ss) off = [(k, k)]"
proof -
  have "(k, k) \<in> set (key_matches (strs_data ss) (strs_hash ss) off)"
    using assms by (auto simp: matches_string [OF assms(1) refl] strset_inv_def)
  then show ?thesis using matches_at_most_one [OF assms(1), of off] by auto
qed

lemma strset_find_result:
  assumes inv: "strset_inv ss" and s: "0 \<notin> set s"
  shows "\<exists>ss' r. strset__find_str ok ss s = Inr (ss', r) \<and> strset_inv ss' \<and>
     strs_hash ss' = strs_hash ss \<and> strs_data_len ss' = strs_data_len ss \<and>
     take (strs_data_len ss) (strs_data ss') = take (strs_data_len ss) (strs_data ss) \<and>
     (case r of
        Inr off \<Rightarrow> off \<in> strset_offsets ss \<and> cstr (strs_data ss) off = s
      | Inl e \<Rightarrow> e = ENOMEM \<and> strset_add_str_mem ok ss (length s + 1) = None \<or>
                 e = ENOENT \<and> (\<forall>k \<in> strset_offsets ss. cstr (strs_data ss) k \<noteq> s))"
proof (cases "strset_add_str_mem ok ss (length s + 1)")
  case None
  then show ?thesis using inv by (simp add: strset__find_str_def Let_def)
next
  case (Some r)
  obtain ss1 p where r: "strset_add_str_mem ok ss (length s + 1) = Some (ss1, p)"
    using Some by (cases r) simp
  obtain data where d: "mem_write (strs_data ss1) p (s @ [0]) = Inr data"
    "strset_inv (ss1\<lparr>strs_data := data\<rparr>)"
    "take (strs_data_len ss) data = take (strs_data_len ss) (strs_data ss)"
    "cstr data (strs_data_len ss) = s"
    "strs_data_len ss1 = strs_data_len ss" "strs_hash ss1 = strs_hash ss"
    using strset_room [OF inv s r] by blast
  let ?ss = "ss1\<lparr>strs_data := data\<rparr>"
  have same: "cstr data k = cstr (strs_data ss) k" if "k \<in> strset_offsets ss" for k
    using that inv cstr_cong [OF _ d(3)] by (auto simp: strset_inv_def)
  have "hashmap__find data (strs_hash ss) (strs_data_len ss) =
      Inr (hashmap_look data (strs_hash ss) (strs_data_len ss))"
    using d(2,6) by (intro strset_fns.find) (simp add: strset_inv_def)
  then have f: "strset__find_str ok ss s = Inr (?ss,
      case hashmap_look data (strs_hash ss) (strs_data_len ss) of
        Some off \<Rightarrow> Inr off | None \<Rightarrow> Inl ENOENT)"
    using r d(1,5,6) by (simp add: strset__find_str_def Let_def split: option.split)
  show ?thesis
  proof (cases "key_matches data (strs_hash ss) (strs_data_len ss)")
    case Nil
    have "cstr (strs_data ss) k \<noteq> s" if "k \<in> strset_offsets ss" for k
      using offset_known [OF d(2), of k "strs_data_len ss"] that same [OF that] d(4,6) Nil by auto
    then show ?thesis using f Nil d by (simp add: hashmap_look_def)
  next
    case (Cons e es)
    then obtain k where "k \<in> strset_offsets ss" "e = (k, k)" "cstr data k = s"
      using matches_at_most_one [OF d(2), of "strs_data_len ss"] d(4,6) by auto
    then show ?thesis using f Cons d same by (simp add: hashmap_look_def)
  qed
qed

lemma offset_insert:
  assumes h: "strset_hash_ok m h" and new: "key_matches m h off = []"
  shows "\<exists>h' err. hashmap__insert ca ma m h off off HASHMAP_ADD = Inr (h', err, None) \<and>
     strset_hash_ok m h' \<and>
     (err = None \<and> set (hashmap_entries h') = insert (off, off) (set (hashmap_entries h)) \<or>
      err = Some ENOMEM \<and> \<not> (ca \<and> ma) \<and> set (hashmap_entries h') = set (hashmap_entries h))"
proof -
  have wf: "hashmap_wf strset_hash_fn strset_equal_fn m h" and u: "hashmap_unique m h"
    using h by simp_all
  obtain h' err where r: "insert_new ca ma m h off off = Inr (h', err, None)"
    "hashmap_wf strset_hash_fn strset_equal_fn m h'"
    "err = None \<or> err = Some ENOMEM \<and> \<not> (ca \<and> ma)"
    "mset (hashmap_entries h') =
      (if err = None then add_mset (off, off) else (\<lambda>x. x)) (mset (hashmap_entries h))"
    using strset_fns.insert_new [OF wf, of ca ma off off] by (auto split: if_splits)
  have "hashmap__insert ca ma m h off off HASHMAP_ADD = Inr (h', err, None)"
    using strset_fns.insert_fresh_eq [OF wf, of HASHMAP_ADD off ca ma off] new r(1) by simp
  then show ?thesis
    using r(2,3) arg_cong [OF r(4), of set_mset] strset_fns.insert_new_unique [OF wf u new r(1)]
    by auto
qed

lemma strset_insert_new:
  fixes st :: strset
  defines "n \<equiv> strs_data_len st"
  assumes inv: "strset_inv st" and new: "key_matches (strs_data st) (strs_hash st) n = []"
    and n': "cstr_in (strs_data st) n' n" "n \<le> n'" "n' \<le> strs_data_cap st"
  shows "\<exists>h err. hashmap__insert ca ma (strs_data st) (strs_hash st) n n HASHMAP_ADD = Inr (h, err, None) \<and>
     (err = None \<and> strset_inv (st\<lparr>strs_hash := h, strs_data_len := n'\<rparr>) \<and>
        fst ` set (hashmap_entries h) = insert n (strset_offsets st) \<or>
      err = Some ENOMEM \<and> strset_inv (st\<lparr>strs_hash := h\<rparr>) \<and>
        fst ` set (hashmap_entries h) = strset_offsets st)"
proof -
  have i: "length (strs_data st) = strs_data_cap st" "n \<le> strs_data_cap st"
    "strset_hash_ok (strs_data st) (strs_hash st)"
    "\<forall>e \<in> set (hashmap_entries (strs_hash st)). snd e = fst e \<and> cstr_in (strs_data st) n (fst e)"
    using inv by (simp_all add: strset_inv_def n_def)
  have "cstr_in (strs_data st) n' (fst e)" if "e \<in> set (hashmap_entries (strs_hash st))" for e
    using that i(4) cstr_in_mono n'(2) by blast
  then show ?thesis
    using offset_insert [OF i(3) new, of ca ma] i n' by (auto simp: strset_inv_def simp flip: n_def)
qed

lemma strset_add_known:
  assumes inv: "strset_inv ss" and s: "0 \<notin> set s"
    and room: "strset_add_str_mem ok ss (length s + 1) \<noteq> None"
    and k: "k \<in> strset_offsets ss" "cstr (strs_data ss) k = s"
  shows "\<exists>ss'. strset__add_str ok ca ma ss s = Inr (ss', Inr k) \<and> strset_inv ss' \<and>
     take (strs_data_len ss) (strs_data ss') = take (strs_data_len ss) (strs_data ss) \<and>
     strs_hash ss' = strs_hash ss \<and> strs_data_len ss' = strs_data_len ss"
proof -
  obtain ss1 p where r: "strset_add_str_mem ok ss (length s + 1) = Some (ss1, p)"
    using room by (cases "strset_add_str_mem ok ss (length s + 1)") auto
  let ?n = "strs_data_len ss"
  obtain data where d: "mem_write (strs_data ss1) p (s @ [0]) = Inr data"
    "strset_inv (ss1\<lparr>strs_data := data\<rparr>)"
    "take ?n data = take ?n (strs_data ss)" "cstr data ?n = s"
    "strs_data_len ss1 = ?n" "strs_hash ss1 = strs_hash ss"
    using strset_room [OF inv s r] by blast
  have "cstr_in (strs_data ss) ?n k" using k(1) inv by (auto simp: strset_inv_def)
  then have "cstr data k = s" using cstr_cong [OF _ d(3)] k(2) by metis
  then have "key_matches data (strs_hash ss) ?n = [(k, k)]"
    using offset_known [OF d(2), of k ?n] k(1) d(4,6) by simp
  moreover have "hashmap_wf strset_hash_fn strset_equal_fn data (strs_hash ss)"
    using d(2,6) by (simp add: strset_inv_def)
  ultimately have "hashmap__insert ca ma data (strs_hash ss) ?n ?n HASHMAP_ADD =
      Inr (strs_hash ss, Some EEXIST, Some (k, k))"
    by (intro strset_fns.insert_add_hit)
  then have "strset__add_str ok ca ma ss s =
      Inr (ss1\<lparr>strs_data := data, strs_hash := strs_hash ss\<rparr>, Inr k)"
    using r d(1,5,6) by (simp add: strset__add_str_def Let_def)
  moreover have "ss1\<lparr>strs_data := data, strs_hash := strs_hash ss\<rparr> = ss1\<lparr>strs_data := data\<rparr>"
    using d(6) by simp
  ultimately show ?thesis using d by auto
qed

lemma strset_add_result:
  assumes inv: "strset_inv ss" and s: "0 \<notin> set s"
  shows "\<exists>ss' r. strset__add_str ok ca ma ss s = Inr (ss', r) \<and> strset_inv ss' \<and>
     take (strs_data_len ss) (strs_data ss') = take (strs_data_len ss) (strs_data ss) \<and>
     (case r of
        Inr off \<Rightarrow>
          cstr (strs_data ss') off = s \<and> strset_offsets ss' = insert off (strset_offsets ss) \<and>
          strs_data_len ss' =
            (if \<exists>k \<in> strset_offsets ss. cstr (strs_data ss) k = s then strs_data_len ss
             else strs_data_len ss + length s + 1) \<and>
          (off \<in> strset_offsets ss \<longleftrightarrow> (\<exists>k \<in> strset_offsets ss. cstr (strs_data ss) k = s))
      | Inl e \<Rightarrow> e = ENOMEM \<and> strset_offsets ss' = strset_offsets ss \<and>
          strs_data_len ss' = strs_data_len ss)"
proof (cases "strset_add_str_mem ok ss (length s + 1)")
  case None
  then show ?thesis using inv by (simp add: strset__add_str_def Let_def)
next
  case (Some r)
  obtain ss1 p where r: "strset_add_str_mem ok ss (length s + 1) = Some (ss1, p)"
    using Some by (cases r) simp
  let ?n = "strs_data_len ss"
  obtain data where d: "mem_write (strs_data ss1) p (s @ [0]) = Inr data"
    "strset_inv (ss1\<lparr>strs_data := data\<rparr>)"
    "take ?n data = take ?n (strs_data ss)" "cstr data ?n = s" "cstr_in data (?n + length s + 1) ?n"
    "?n + length s + 1 \<le> strs_data_cap ss1" "strs_data_len ss1 = ?n" "strs_hash ss1 = strs_hash ss"
    using strset_room [OF inv s r] by blast
  let ?ss = "ss1\<lparr>strs_data := data\<rparr>"
  have in_old: "cstr_in (strs_data ss) ?n k" if "k \<in> strset_offsets ss" for k
    using that inv by (auto simp: strset_inv_def)
  have same: "cstr data k = cstr (strs_data ss) k" if "k \<in> strset_offsets ss" for k
    using cstr_cong [OF in_old [OF that] d(3)] .
  show ?thesis
  proof (cases "key_matches data (strs_hash ss) ?n")
    case (Cons e es)
    then obtain k where k: "k \<in> strset_offsets ss" "cstr data k = s"
      using matches_at_most_one [OF d(2), of ?n] d(4,8) by auto
    then have ks: "cstr (strs_data ss) k = s" using same by simp
    moreover obtain ss' where "strset__add_str ok ca ma ss s = Inr (ss', Inr k)" "strset_inv ss'"
      "take ?n (strs_data ss') = take ?n (strs_data ss)" "strs_hash ss' = strs_hash ss"
      "strs_data_len ss' = ?n"
      using strset_add_known [OF inv s _ k(1) ks, of ok ca ma] r by auto
    moreover from this(3) have "cstr (strs_data ss') k = cstr (strs_data ss) k"
      by (rule cstr_cong [OF in_old [OF k(1)]])
    ultimately show ?thesis using k(1) by (auto simp: insert_absorb)
  next
    case Nil
    have new: "cstr (strs_data ss) k \<noteq> s" if "k \<in> strset_offsets ss" for k
      using offset_known [OF d(2), of k ?n] that same [OF that] d(4,8) Nil by auto
    have fresh: "?n \<notin> strset_offsets ss" using in_old cstr_in_less by blast
    have le: "?n \<le> ?n + length s + 1" by simp
    obtain h err where h: "hashmap__insert ca ma data (strs_hash ss) ?n ?n HASHMAP_ADD = Inr (h, err, None)"
      "err = None \<and> strset_inv (?ss\<lparr>strs_hash := h, strs_data_len := ?n + length s + 1\<rparr>) \<and>
         fst ` set (hashmap_entries h) = insert ?n (strset_offsets ss) \<or>
       err = Some ENOMEM \<and> strset_inv (?ss\<lparr>strs_hash := h\<rparr>) \<and>
         fst ` set (hashmap_entries h) = strset_offsets ss"
      using strset_insert_new [OF d(2), of "?n + length s + 1" ca ma] Nil d(5-8) le by auto
    show ?thesis
    proof (cases err)
      case None
      have "strset__add_str ok ca ma ss s =
          Inr (?ss\<lparr>strs_hash := h, strs_data_len := ?n + length s + 1\<rparr>, Inr ?n)"
        using r d(1,7,8) h(1) None by (simp add: strset__add_str_def Let_def)
      then show ?thesis using h(2) None d(3,4) fresh new by auto
    next
      case (Some e)
      then have "strset__add_str ok ca ma ss s = Inr (?ss\<lparr>strs_hash := h\<rparr>, Inl ENOMEM)"
        using r d(1,7,8) h by (auto simp: strset__add_str_def Let_def)
      then show ?thesis using h(2) Some d(3,7) by auto
    qed
  qed
qed

text \<open>
  C12. Adding a string without a zero byte to a string set returns the offset of a string in
  the region that equals it, the only one of the set; the strings already there keep their
  bytes and offsets, the region grows exactly when the string is new, and the only error is
  the lack of memory, which leaves the strings as they were.
\<close>

theorem strset_add_str_interns:
  assumes "strset_inv ss" "0 \<notin> set s"
  shows "\<exists>ss' r. strset__add_str ok ca ma ss s = Inr (ss', r) \<and> strset_inv ss' \<and>
     take (strs_data_len ss) (strs_data ss') = take (strs_data_len ss) (strs_data ss) \<and>
     (case r of
        Inr off \<Rightarrow>
          cstr (strs_data ss') off = s \<and> strset_offsets ss' = insert off (strset_offsets ss) \<and>
          strs_data_len ss' =
            (if \<exists>k \<in> strset_offsets ss. cstr (strs_data ss) k = s then strs_data_len ss
             else strs_data_len ss + length s + 1) \<and>
          (off \<in> strset_offsets ss \<longleftrightarrow> (\<exists>k \<in> strset_offsets ss. cstr (strs_data ss) k = s))
      | Inl e \<Rightarrow> e = ENOMEM \<and> strset_offsets ss' = strset_offsets ss \<and>
          strs_data_len ss' = strs_data_len ss)"
  using strset_add_result [OF assms] .

text \<open>
  What was added is found: after a successful addition, looking the string up and adding
  it again both return the same offset and leave the strings as they are, when there is room
  for one more copy of it.
\<close>

lemma offsets_inj:
  assumes "strset_inv ss" "j \<in> strset_offsets ss" "k \<in> strset_offsets ss"
    "cstr (strs_data ss) j = cstr (strs_data ss) k"
  shows "j = k"
  using offset_known [OF assms(1,2,4)] offset_known [OF assms(1,3) refl] by simp

lemma strset_add_then_find:
  assumes inv: "strset_inv ss" and s: "0 \<notin> set s"
    and add: "strset__add_str ok ca ma ss s = Inr (ss1, Inr off)"
    and room: "strs_data_len ss1 + length s + 1 \<le> strs_data_max_len ss1" "strs_data_max_len ss1 < 2 ^ 64"
  shows "(\<exists>ss2. strset__find_str True ss1 s = Inr (ss2, Inr off)) \<and>
    (\<exists>ss3. strset__add_str True ca' ma' ss1 s = Inr (ss3, Inr off) \<and>
       strs_data_len ss3 = strs_data_len ss1)"
proof
  have o: "strset_inv ss1" "off \<in> strset_offsets ss1" "cstr (strs_data ss1) off = s"
    using strset_add_result [OF inv s, of ok ca ma] add by auto
  have r: "strset_add_str_mem True ss1 (length s + 1) \<noteq> None"
    using room by (intro strset_add_str_mem_room) simp_all
  obtain ss2 res where f: "strset__find_str True ss1 s = Inr (ss2, res)"
    "case res of
        Inr off \<Rightarrow> off \<in> strset_offsets ss1 \<and> cstr (strs_data ss1) off = s
      | Inl e \<Rightarrow> e = ENOMEM \<and> strset_add_str_mem True ss1 (length s + 1) = None \<or>
                 e = ENOENT \<and> (\<forall>k \<in> strset_offsets ss1. cstr (strs_data ss1) k \<noteq> s)"
    using strset_find_result [OF o(1) s, of True] by blast
  then show "\<exists>ss2. strset__find_str True ss1 s = Inr (ss2, Inr off)"
  proof (cases res)
    case (Inl e)
    then show ?thesis using f(2) o(2,3) r by auto
  next
    case (Inr off')
    then have "off' = off" using f(2) o by (intro offsets_inj [OF o(1)]) simp_all
    then show ?thesis using f(1) Inr by simp
  qed
  show "\<exists>ss3. strset__add_str True ca' ma' ss1 s = Inr (ss3, Inr off) \<and>
       strs_data_len ss3 = strs_data_len ss1"
    using strset_add_known [OF o(1) s r o(2,3)] by blast
qed

section \<open>Indexing given strings\<close>

lemma cstr_step:
  assumes "off < length m" "last m = 0"
  shows "cstr_in m (length m) off" "off + length (cstr m off) + 1 \<le> length m"
proof -
  have "drop off m \<noteq> []" using assms(1) by simp
  then show z: "cstr_in m (length m) off"
    using assms by (metis cstr_in_def last_drop last_in_set take_all_iff order_refl)
  have "dropWhile (\<lambda>c. c \<noteq> 0) (drop off m) \<noteq> []"
    using z by (auto simp: cstr_in_def)
  moreover have "length (drop off m) =
      length (cstr m off) + length (dropWhile (\<lambda>c. c \<noteq> 0) (drop off m))"
    unfolding cstr_def by (metis length_append takeWhile_dropWhile_id)
  ultimately show "off + length (cstr m off) + 1 \<le> length m"
    using assms(1) by (cases "dropWhile (\<lambda>c. c \<noteq> 0) (drop off m)") auto
qed

text \<open>The offsets at which the strings of a region start.\<close>

definition string_start :: "bytes \<Rightarrow> nat \<Rightarrow> bool" where
  "string_start m j \<longleftrightarrow> j < length m \<and> (j = 0 \<or> m ! (j - 1) = 0)"

lemma string_start_next:
  assumes "string_start m j" "j \<le> off + length (cstr m off)" "off < j"
  shows False
proof -
  let ?i = "j - 1 - off"
  have "?i < length (cstr m off)" using assms(2,3) by simp
  then have "cstr m off ! ?i \<in> set (cstr m off)" "cstr m off ! ?i = drop off m ! ?i"
    by (rule nth_mem) (use \<open>?i < _\<close> in \<open>simp add: cstr_def takeWhile_nth\<close>)
  moreover have "drop off m ! ?i = 0"
    using assms by (simp add: string_start_def)
  ultimately show False using cstr_no_zero by metis
qed

definition indexed :: "bytes \<Rightarrow> (bytes, nat, nat) hashmap \<Rightarrow> nat \<Rightarrow> bool" where
  "indexed m h off \<longleftrightarrow>
     strset_inv \<lparr>strs_data = m, strs_data_len = length m, strs_data_cap = length m,
       strs_data_max_len = 0, strs_hash = h\<rparr> \<and>
     (\<forall>j. string_start m j \<longrightarrow> j < off \<longrightarrow>
        (\<exists>k \<in> fst ` set (hashmap_entries h). cstr m k = cstr m j))"

lemma index_step:
  assumes ix: "indexed m h off" and off: "off < length m" "last m = 0"
  shows "\<exists>h' err old. hashmap__add ca ma m h off off = Inr (h', err, old) \<and>
    (err = Some ENOMEM \<and> \<not> (ca \<and> ma) \<or>
     (err = None \<or> err = Some EEXIST) \<and> indexed m h' (off + length (cstr m off) + 1))"
proof -
  let ?ss = "\<lparr>strs_data = m, strs_data_len = length m, strs_data_cap = length m,
       strs_data_max_len = 0, strs_hash = h\<rparr>"
  have inv: "strset_inv ?ss" and seen: "\<And>j. string_start m j \<Longrightarrow> j < off \<Longrightarrow>
      \<exists>k \<in> fst ` set (hashmap_entries h). cstr m k = cstr m j"
    using ix by (auto simp: indexed_def)
  have ok: "strset_hash_ok m h" using inv by (simp add: strset_inv_def)
  have up_to: "j < off \<or> j = off" if "string_start m j" "j < off + length (cstr m off) + 1" for j
    using string_start_next [of m j off] that by (cases "off < j") auto
  show ?thesis
  proof (cases "key_matches m h off")
    case (Cons e es)
    then obtain k where k: "k \<in> fst ` set (hashmap_entries h)" "cstr m k = cstr m off"
      using matches_at_most_one [OF inv, of off] by auto
    have "hashmap__add ca ma m h off off = Inr (h, Some EEXIST, Some e)"
      using ok Cons unfolding hashmap__add_def by (intro strset_fns.insert_add_hit) simp_all
    moreover have "indexed m h (off + length (cstr m off) + 1)"
      using inv seen up_to k unfolding indexed_def by blast
    ultimately show ?thesis by blast
  next
    case Nil
    obtain h' err where r: "hashmap__add ca ma m h off off = Inr (h', err, None)" "strset_hash_ok m h'"
      "err = None \<and> set (hashmap_entries h') = insert (off, off) (set (hashmap_entries h)) \<or>
       err = Some ENOMEM \<and> \<not> (ca \<and> ma) \<and> set (hashmap_entries h') = set (hashmap_entries h)"
      using offset_insert [OF ok Nil, of ca ma] by (auto simp: hashmap__add_def)
    have "indexed m h' (off + length (cstr m off) + 1)"
      if s: "set (hashmap_entries h') = insert (off, off) (set (hashmap_entries h))"
    proof -
      have "fst ` set (hashmap_entries h') = insert off (fst ` set (hashmap_entries h))"
        using s by simp
      moreover have "strset_inv (?ss\<lparr>strs_hash := h'\<rparr>)"
        using inv r(2) cstr_step(1) [OF off] by (simp add: strset_inv_def s)
      ultimately show ?thesis using seen up_to unfolding indexed_def by auto
    qed
    then show ?thesis using r by blast
  qed
qed

lemma index_all:
  "indexed m h off \<Longrightarrow> (m = [] \<or> last m = 0) \<Longrightarrow>
   \<exists>h' err. strset_index al m (length m) off h = Inr (h', err) \<and>
     (err = None \<and> indexed m h' (length m) \<or>
      err = Some ENOMEM \<and> \<not> (\<forall>i. fst (al i) \<and> snd (al i)))"
proof (induction "length m - off" arbitrary: off h rule: less_induct)
  case less
  show ?case
  proof (cases "off < length m")
    case False
    then show ?thesis using less.prems(1) by (simp add: indexed_def strset_index.simps)
  next
    case True
    then have last: "last m = 0" using less.prems(2) by auto
    obtain h' err old where r: "hashmap__add (fst (al off)) (snd (al off)) m h off off = Inr (h', err, old)"
      "err = Some ENOMEM \<and> \<not> (fst (al off) \<and> snd (al off)) \<or>
       (err = None \<or> err = Some EEXIST) \<and> indexed m h' (off + length (cstr m off) + 1)"
      using index_step [OF less.prems(1) True last] by blast
    have "c_strlen m off = Inr (length (cstr m off))"
      using cstr_step(1) [OF True last] by (simp add: c_strlen_def cstr_in_def)
    moreover have "length m - (off + length (cstr m off) + 1) < length m - off" using True by simp
    ultimately show ?thesis
      using True r less.hyps [of "off + length (cstr m off) + 1" h'] less.prems(2)
      by (subst strset_index.simps) auto
  qed
qed

lemma new_hash_indexed:
  "m = [] \<or> last m = 0 \<Longrightarrow> indexed m (hashmap__init strset_hash_fn strset_equal_fn) 0"
  using init_wf [of strset_hash_fn strset_equal_fn m] init_unique [of m strset_hash_fn strset_equal_fn]
  by (simp add: indexed_def strset_inv_def) (simp add: hashmap__init_def hashmap_entries_def)

lemma strset_new_result:
  assumes "m = [] \<or> last m = 0"
  shows "case strset__new set_ok map_ok data_ok al mx (Some m) of
      Inr ss \<Rightarrow> strset_inv ss \<and> strset__data ss = m \<and> strset__data_size ss = length m \<and>
        (\<forall>j. string_start m j \<longrightarrow> (\<exists>!k. k \<in> strset_offsets ss \<and> cstr m k = cstr m j))
    | Inl e \<Rightarrow> e = Err ENOMEM \<and>
        \<not> (set_ok \<and> map_ok \<and> data_ok \<and> (\<forall>i. fst (al i) \<and> snd (al i)))"
proof -
  obtain h' err where r: "strset_index al m (length m) 0 (hashmap__init strset_hash_fn strset_equal_fn) =
      Inr (h', err)"
    "err = None \<and> indexed m h' (length m) \<or> err = Some ENOMEM \<and> \<not> (\<forall>i. fst (al i) \<and> snd (al i))"
    using index_all [OF new_hash_indexed [OF assms] assms] by blast
  let ?ss = "\<lparr>strs_data = m, strs_data_len = length m, strs_data_cap = length m,
       strs_data_max_len = mx, strs_hash = h'\<rparr>"
  have "strset_inv ?ss \<and>
      (\<forall>j. string_start m j \<longrightarrow> (\<exists>!k. k \<in> strset_offsets ?ss \<and> cstr m k = cstr m j))"
    if ix: "indexed m h' (length m)"
  proof -
    have inv: "strset_inv ?ss" using ix by (simp add: indexed_def strset_inv_def)
    have "\<exists>!k. k \<in> strset_offsets ?ss \<and> cstr m k = cstr m j" if j: "string_start m j" for j
    proof -
      have "j < length m" using j by (simp add: string_start_def)
      then obtain k where "k \<in> fst ` set (hashmap_entries h')" "cstr m k = cstr m j"
        using ix j unfolding indexed_def by blast
      then have "k \<in> strset_offsets ?ss" "cstr m k = cstr m j" by simp_all
      then show ?thesis using offsets_inj [OF inv] by (intro ex1I [of _ k]) auto
    qed
    with inv show ?thesis by blast
  qed
  then show ?thesis using r
    by (auto simp: strset__new_def hashmap__new_def strset__data_def strset__data_size_def)
qed

text \<open>
  Building a string set from a region that ends in a zero byte never reads outside it
  and fails only for want of memory; the set it builds is well-formed, keeps the region as it
  is, and holds exactly one offset for the contents of every string that starts in it.
\<close>

lemma strset_new_indexes:
  assumes "m = [] \<or> last m = 0"
  shows "case strset__new set_ok map_ok data_ok al mx (Some m) of
      Inr ss \<Rightarrow> strset_inv ss \<and> strset__data ss = m \<and> strset__data_size ss = length m \<and>
        (\<forall>j. string_start m j \<longrightarrow> (\<exists>!k. k \<in> strset_offsets ss \<and> cstr m k = cstr m j))
    | Inl e \<Rightarrow> e = Err ENOMEM \<and>
        \<not> (set_ok \<and> map_ok \<and> data_ok \<and> (\<forall>i. fst (al i) \<and> snd (al i)))"
  using strset_new_result [OF assms] .

lemma strset_new_indexes_witness:
  "case strset__new True True True (\<lambda>_. (True, True)) 0x7fffffff (Some [0, 97, 98, 0]) of
     Inr ss \<Rightarrow> (\<exists>!k. k \<in> strset_offsets ss \<and> cstr [0, 97, 98, 0] k = [97, 98]) | Inl e \<Rightarrow> False"
proof -
  let ?m = "[0, 97, 98, 0] :: bytes"
  have "string_start ?m 1" and c: "cstr ?m 1 = [97, 98]"
    by (simp_all add: string_start_def cstr_def)
  moreover have "?m = [] \<or> last ?m = 0" by simp
  note strset_new_indexes [OF this, where set_ok = True and map_ok = True
        and data_ok = True and al = "\<lambda>_. (True, True)" and mx = "0x7fffffff"]
  ultimately show ?thesis
    by (cases "strset__new True True True (\<lambda>_. (True, True)) 0x7fffffff (Some ?m)")
      (simp, simp only: sum.case, metis c)
qed

definition empty_strset :: strset where
  "empty_strset = \<lparr>strs_data = [], strs_data_len = 0, strs_data_cap = 0,
     strs_data_max_len = 100, strs_hash = hashmap__init strset_hash_fn strset_equal_fn\<rparr>"

lemma empty_strset_inv: "strset_inv empty_strset" "strset_offsets empty_strset = {}"
  using init_wf [of strset_hash_fn strset_equal_fn "[]"] init_unique [of "[]" strset_hash_fn strset_equal_fn]
  by (simp_all add: strset_inv_def empty_strset_def)
    (simp_all add: hashmap__init_def hashmap_entries_def)

theorem strset_add_str_interns_witness:
  "\<exists>ss' r. strset__add_str True True True empty_strset [97] = Inr (ss', r) \<and>
     (case r of Inr off \<Rightarrow> cstr (strs_data ss') off = [97] \<and> strs_data_len ss' = 2
      | Inl e \<Rightarrow> e = ENOMEM)"
proof -
  have s: "(0 :: u8) \<notin> set [97]" by simp
  obtain ss' r where r: "strset__add_str True True True empty_strset [97] = Inr (ss', r)"
    "case r of
        Inr off \<Rightarrow>
          cstr (strs_data ss') off = [97] \<and> strset_offsets ss' = insert off (strset_offsets empty_strset) \<and>
          strs_data_len ss' =
            (if \<exists>k \<in> strset_offsets empty_strset. cstr (strs_data empty_strset) k = [97]
             then strs_data_len empty_strset else strs_data_len empty_strset + length [97 :: u8] + 1) \<and>
          (off \<in> strset_offsets empty_strset \<longleftrightarrow>
             (\<exists>k \<in> strset_offsets empty_strset. cstr (strs_data empty_strset) k = [97]))
      | Inl e \<Rightarrow> e = ENOMEM \<and> strset_offsets ss' = strset_offsets empty_strset \<and>
          strs_data_len ss' = strs_data_len empty_strset"
    using strset_add_str_interns [OF empty_strset_inv(1) s, of True True True] by blast
  moreover have "strs_data_len empty_strset = 0" by (simp add: empty_strset_def)
  ultimately show ?thesis
    unfolding empty_strset_inv(2) by (intro exI [of _ ss'] exI [of _ r]) (auto split: sum.splits)
qed

lemma strset_add_then_find_witness:
  "\<exists>ss1 ss2. strset__add_str True True True empty_strset [97] = Inr (ss1, Inr 0) \<and>
     strset__find_str True ss1 [97] = Inr (ss2, Inr 0)"
proof -
  have s: "(0 :: u8) \<notin> set [97]" by simp
  define ss1 where "ss1 = empty_strset\<lparr>strs_data := [97, 0] @ replicate 14 0, strs_data_cap := 16,
    strs_hash := (strs_hash empty_strset)\<lparr>cap := 4, cap_bits := 2, sz := 1,
      buckets := Some ((replicate 4 [])[hash_bits (str_hash [97]) 2 := [(0, 0)]])\<rparr>,
    strs_data_len := 2\<rparr>"
  let ?d = "[97, 0] @ replicate 14 0 :: bytes"
  have m: "strset_add_str_mem True empty_strset (length [97 :: u8] + 1) =
      Some (empty_strset\<lparr>strs_data := replicate 16 0, strs_data_cap := 16\<rparr>, 0)"
    by (simp add: strset_add_str_mem_def libbpf_add_mem_def libbpf_reallocarray_def grow_cnt_def
        empty_strset_def)
  have w: "mem_write (replicate 16 0) 0 [97, 0] = Inr ?d"
    by (simp add: mem_write_def)
  have "hash_bits (str_hash [97]) 2 < 4" using hash_bits_less [of _ 2] by simp
  then have "hashmap__insert True True ?d (strs_hash empty_strset) 0 0 HASHMAP_ADD =
      Inr (strs_hash ss1, None, None)"
    by (simp add: ss1_def empty_strset_def hashmap__insert_def hashmap_find_entry_def
        hashmap__init_def insert_new_def hashmap_needs_to_grow_def hashmap_grow_def
        hashmap_entries_def hashmap_add_entry_def key_bucket_def strset_hash_fn_def cstr_def)
  then have r: "strset__add_str True True True empty_strset [97] = Inr (ss1, Inr 0)"
    "strs_data_len ss1 = 2" "strs_data_max_len ss1 = 100"
    using m w by (simp_all add: strset__add_str_def ss1_def Let_def) (simp_all add: empty_strset_def)
  then show ?thesis
    using strset_add_then_find [OF empty_strset_inv(1) s r(1)] by auto
qed

end
