(* ===== verification/Btf_Data.thy ===== *)
theory Btf_Data
  imports Strset
begin

text \<open>
  BTF, the type information of BPF programs: its layout (\<^verbatim>\<open>include/uapi/linux/btf.h\<close> and
  \<^verbatim>\<open>src/btf.h\<close> of \<^verbatim>\<open>src/bpftools/libbpf\<close>) and the parser of \<^verbatim>\<open>src/bpftools/libbpf/src/btf.c\<close>.

  A pointer into an allocation is the list of the bytes from it to the allocation's end, so a
  read that leaves the allocation is a fault. While the data is contiguous the code's header,
  types and strings are views of \<open>raw_data\<close>; the parser, the only one to write there, works on
  the one region, and the views are taken when it is done. Header and type records are read
  and written in the host's order, little-endian.

  A split BTF is a chain of instances, so a BTF is the list of its instance and its bases, and
  \<open>base_btf\<close> is null when the rest of the list is empty.
\<close>

section \<open>Kinds and information words\<close>

abbreviation "BTF_MAGIC \<equiv> (0xeB9F :: u16)"
abbreviation "BTF_VERSION \<equiv> (1 :: u8)"
abbreviation "BTF_MAX_NR_TYPES \<equiv> 0x7fffffff"
abbreviation "BTF_MAX_STR_OFFSET \<equiv> 0x7fffffff"

abbreviation "BTF_KIND_UNKN \<equiv> (0 :: u32)"
abbreviation "BTF_KIND_INT \<equiv> (1 :: u32)"
abbreviation "BTF_KIND_PTR \<equiv> (2 :: u32)"
abbreviation "BTF_KIND_ARRAY \<equiv> (3 :: u32)"
abbreviation "BTF_KIND_STRUCT \<equiv> (4 :: u32)"
abbreviation "BTF_KIND_UNION \<equiv> (5 :: u32)"
abbreviation "BTF_KIND_ENUM \<equiv> (6 :: u32)"
abbreviation "BTF_KIND_FWD \<equiv> (7 :: u32)"
abbreviation "BTF_KIND_TYPEDEF \<equiv> (8 :: u32)"
abbreviation "BTF_KIND_VOLATILE \<equiv> (9 :: u32)"
abbreviation "BTF_KIND_CONST \<equiv> (10 :: u32)"
abbreviation "BTF_KIND_RESTRICT \<equiv> (11 :: u32)"
abbreviation "BTF_KIND_FUNC \<equiv> (12 :: u32)"
abbreviation "BTF_KIND_FUNC_PROTO \<equiv> (13 :: u32)"
abbreviation "BTF_KIND_VAR \<equiv> (14 :: u32)"
abbreviation "BTF_KIND_DATASEC \<equiv> (15 :: u32)"
abbreviation "BTF_KIND_FLOAT \<equiv> (16 :: u32)"

text \<open>The first three words of every type; the third one is a union of a size and a type ID.\<close>

record btf_type =
  name_off :: u32
  info :: u32
  size_type :: u32

abbreviation "BTF_TYPE_SZ \<equiv> 12"

definition btf_kind :: "btf_type \<Rightarrow> u32" where
  "btf_kind t = drop_bit 24 (info t) AND 0x1f"

definition btf_vlen :: "btf_type \<Rightarrow> u32" where
  "btf_vlen t = info t AND 0xffff"

definition btf_kflag :: "btf_type \<Rightarrow> u32" where
  "btf_kflag t = drop_bit 31 (info t)"

definition btf_type_info :: "u32 \<Rightarrow> u32 \<Rightarrow> u32 \<Rightarrow> u32" where
  "btf_type_info kind vlen kflag = push_bit 31 kflag OR push_bit 24 kind OR vlen"

definition read_type :: "bytes \<Rightarrow> nat \<Rightarrow> btf_type cres" where
  "read_type m off =
     res_bind (mem_u32 m off) (\<lambda>n.
     res_bind (mem_u32 m (off + 4)) (\<lambda>i.
     res_bind (mem_u32 m (off + 8)) (\<lambda>s.
       Inr \<lparr>name_off = n, info = i, size_type = s\<rparr>)))"

definition write_type :: "bytes \<Rightarrow> nat \<Rightarrow> btf_type \<Rightarrow> bytes cres" where
  "write_type m off t =
     res_bind (mem_set_u32 m off (name_off t)) (\<lambda>m.
     res_bind (mem_set_u32 m (off + 4) (info t)) (\<lambda>m.
       mem_set_u32 m (off + 8) (size_type t)))"

definition btf_type_size :: "btf_type \<Rightarrow> nat cres" where
  "btf_type_size t =
     (let kind = btf_kind t; vlen = unat (btf_vlen t)
      in if kind \<in> {BTF_KIND_FWD, BTF_KIND_CONST, BTF_KIND_VOLATILE, BTF_KIND_RESTRICT,
                     BTF_KIND_PTR, BTF_KIND_TYPEDEF, BTF_KIND_FUNC, BTF_KIND_FLOAT}
         then Inr BTF_TYPE_SZ
         else if kind = BTF_KIND_INT then Inr (BTF_TYPE_SZ + 4)
         else if kind = BTF_KIND_ENUM then Inr (BTF_TYPE_SZ + vlen * 8)
         else if kind = BTF_KIND_ARRAY then Inr (BTF_TYPE_SZ + 12)
         else if kind \<in> {BTF_KIND_STRUCT, BTF_KIND_UNION} then Inr (BTF_TYPE_SZ + vlen * 12)
         else if kind = BTF_KIND_FUNC_PROTO then Inr (BTF_TYPE_SZ + vlen * 8)
         else if kind = BTF_KIND_VAR then Inr (BTF_TYPE_SZ + 4)
         else if kind = BTF_KIND_DATASEC then Inr (BTF_TYPE_SZ + vlen * 12)
         else Inl (Err EINVAL))"

section \<open>Byte order\<close>

definition bswap_16 :: "u16 \<Rightarrow> u16" where
  "bswap_16 v = word_of_nat (le_val (rev (le_bytes 2 (unat v))))"

definition bswap_32 :: "u32 \<Rightarrow> u32" where
  "bswap_32 v = word_of_nat (le_val (rev (le_bytes 4 (unat v))))"

text \<open>The records behind a type consist of 32-bit fields, each of which is swapped in place.\<close>

primrec bswap_words :: "bytes \<Rightarrow> nat \<Rightarrow> nat \<Rightarrow> bytes cres" where
  "bswap_words m off 0 = Inr m"
| "bswap_words m off (Suc n) =
     res_bind (mem_u32 m off) (\<lambda>v.
     res_bind (mem_set_u32 m off (bswap_32 v)) (\<lambda>m. bswap_words m (off + 4) n))"

definition btf_bswap_type_base :: "bytes \<Rightarrow> nat \<Rightarrow> bytes cres" where
  "btf_bswap_type_base m t = bswap_words m t 3"

definition btf_bswap_type_rest :: "bytes \<Rightarrow> nat \<Rightarrow> bytes cres" where
  "btf_bswap_type_rest m t =
     res_bind (read_type m t) (\<lambda>ty.
       let kind = btf_kind ty; vlen = unat (btf_vlen ty); rest = t + BTF_TYPE_SZ
       in if kind \<in> {BTF_KIND_FWD, BTF_KIND_CONST, BTF_KIND_VOLATILE, BTF_KIND_RESTRICT,
                      BTF_KIND_PTR, BTF_KIND_TYPEDEF, BTF_KIND_FUNC, BTF_KIND_FLOAT}
          then Inr m
          else if kind = BTF_KIND_INT then bswap_words m rest 1
          else if kind = BTF_KIND_ENUM then bswap_words m rest (vlen * 2)
          else if kind = BTF_KIND_ARRAY then bswap_words m rest 3
          else if kind \<in> {BTF_KIND_STRUCT, BTF_KIND_UNION} then bswap_words m rest (vlen * 3)
          else if kind = BTF_KIND_FUNC_PROTO then bswap_words m rest (vlen * 2)
          else if kind = BTF_KIND_VAR then bswap_words m rest 1
          else if kind = BTF_KIND_DATASEC then bswap_words m rest (vlen * 3)
          else Inl (Err EINVAL))"

section \<open>The header\<close>

text \<open>\<open>hdr_ext\<close> holds the bytes of a header of its own allocation behind the known fields.\<close>

record btf_header =
  magic :: u16
  version :: u8
  hflags :: u8
  hdr_len :: u32
  type_off :: u32
  type_len :: u32
  str_off :: u32
  str_len :: u32
  hdr_ext :: bytes

abbreviation "BTF_HDR_SZ \<equiv> 24"

definition read_hdr :: "bytes \<Rightarrow> btf_header cres" where
  "read_hdr m =
     res_bind (mem_u16 m 0) (\<lambda>mg.
     res_bind (arr_get m 2) (\<lambda>v.
     res_bind (arr_get m 3) (\<lambda>f.
     res_bind (mem_u32 m 4) (\<lambda>hl.
     res_bind (mem_u32 m 8) (\<lambda>t_off.
     res_bind (mem_u32 m 12) (\<lambda>t_len.
     res_bind (mem_u32 m 16) (\<lambda>s_off.
     res_bind (mem_u32 m 20) (\<lambda>s_len.
       Inr \<lparr>magic = mg, version = v, hflags = f, hdr_len = hl, type_off = t_off,
            type_len = t_len, str_off = s_off, str_len = s_len, hdr_ext = []\<rparr>))))))))"

definition hdr_bytes :: "btf_header \<Rightarrow> bytes" where
  "hdr_bytes h =
     le_bytes 2 (unat (magic h)) @ [version h, hflags h] @ le_bytes 4 (unat (hdr_len h)) @
     le_bytes 4 (unat (type_off h)) @ le_bytes 4 (unat (type_len h)) @
     le_bytes 4 (unat (str_off h)) @ le_bytes 4 (unat (str_len h))"

definition btf_bswap_hdr :: "btf_header \<Rightarrow> btf_header" where
  "btf_bswap_hdr h =
     h\<lparr>magic := bswap_16 (magic h), hdr_len := bswap_32 (hdr_len h),
       type_off := bswap_32 (type_off h), type_len := bswap_32 (type_len h),
       str_off := bswap_32 (str_off h), str_len := bswap_32 (str_len h)\<rparr>"

section \<open>The instance\<close>

text \<open>
  \<open>hdr_in_raw\<close> says whether \<open>hdr\<close> is \<open>raw_data\<close>, the test of \<open>btf_is_modifiable\<close>. The region
  \<open>type_offs\<close> holds 32-bit offsets. \<open>str_sec\<close> is the pointer \<open>strs_data\<close>.
\<close>

record btf_obj =
  raw_data :: "bytes option"
  raw_data_swapped :: "bytes option"
  raw_size :: u32
  swapped_endian :: bool
  hdr :: btf_header
  hdr_in_raw :: bool
  types_data :: bytes
  types_data_cap :: nat
  type_offs :: bytes
  type_offs_cap :: nat
  nr_types :: u32
  start_id :: u32
  start_str_off :: u32
  str_sec :: "bytes option"
  strs_set :: "strset option"
  strs_deduped :: bool
  fd :: int
  ptr_sz :: int

type_synonym btf = "btf_obj list"

definition btf__get_nr_types :: "btf_obj \<Rightarrow> u32" where
  "btf__get_nr_types b = start_id b + nr_types b - 1"

definition btf__base_btf :: "btf \<Rightarrow> btf" where
  "btf__base_btf b = tl b"

definition btf_is_modifiable :: "btf_obj \<Rightarrow> bool" where
  "btf_is_modifiable b \<longleftrightarrow> \<not> hdr_in_raw b"

section \<open>Parsing\<close>

text \<open>
  \<open>btf_add_type_idx_entry\<close> on the offset table, its capacity and the number of types.
\<close>

definition btf_add_type_idx_entry ::
  "bool \<Rightarrow> bytes \<Rightarrow> nat \<Rightarrow> u32 \<Rightarrow> u32 \<Rightarrow> (bytes \<times> nat) cres" where
  "btf_add_type_idx_entry realloc_ok offs offs_cap nr entry =
     (case libbpf_add_mem realloc_ok offs offs_cap 4 (unat nr) BTF_MAX_NR_TYPES 1 of
        None \<Rightarrow> Inl (Err ENOMEM)
      | Some (offs, offs_cap, p) \<Rightarrow>
          res_bind (mem_set_u32 offs p entry) (\<lambda>offs. Inr (offs, offs_cap)))"

text \<open>
  The header check returns the region, in which a header of the other byte order has been
  swapped, whether it has been, and the header. Its sums are sums of 32-bit values.
\<close>

definition btf_parse_hdr :: "bytes \<Rightarrow> u32 \<Rightarrow> (bytes \<times> bool \<times> btf_header) cres" where
  "btf_parse_hdr m data_sz =
     (if unat data_sz < BTF_HDR_SZ then Inl (Err EINVAL)
      else
        res_bind (read_hdr m) (\<lambda>h.
        res_bind
          (if magic h = bswap_16 BTF_MAGIC
           then
             if bswap_32 (hdr_len h) \<noteq> BTF_HDR_SZ then Inl (Err ENOTSUP)
             else
               let h = btf_bswap_hdr h
               in res_bind (mem_write m 0 (hdr_bytes h)) (\<lambda>m. Inr (m, True, h))
           else if magic h \<noteq> BTF_MAGIC then Inl (Err EINVAL)
           else Inr (m, False, h))
          (\<lambda>(m, swapped, h).
             let meta_left = data_sz - BTF_HDR_SZ
             in if meta_left < str_off h + str_len h then Inl (Err EINVAL)
                else if type_off h + type_len h > str_off h then Inl (Err EINVAL)
                else if type_off h mod 4 \<noteq> 0 then Inl (Err EINVAL)
                else Inr (m, swapped, h))))"

text \<open>\<open>start\<close> is the position of the string section in the region.\<close>

definition btf_parse_str_sec :: "bool \<Rightarrow> btf_header \<Rightarrow> bytes \<Rightarrow> nat \<Rightarrow> unit cres" where
  "btf_parse_str_sec has_base h m start =
     (if has_base \<and> str_len h = 0 then Inr ()
      else if str_len h = 0 \<or> str_len h - 1 > BTF_MAX_STR_OFFSET then Inl (Err EINVAL)
      else
        res_bind (arr_get m (start + unat (str_len h) - 1)) (\<lambda>final.
          if final \<noteq> 0 then Inl (Err EINVAL)
          else if has_base then Inr ()
          else res_bind (arr_get m start) (\<lambda>c. if c \<noteq> 0 then Inl (Err EINVAL) else Inr ())))"

lemma btf_type_size_ge: "btf_type_size t = Inr n \<Longrightarrow> 12 \<le> n"
  by (auto simp: btf_type_size_def Let_def split: if_splits)

text \<open>
  The loop of \<open>btf_parse_type_sec\<close>: \<open>base\<close> is the position of the types in the region, \<open>nxt\<close>
  and \<open>end_type\<close> are relative to it.
\<close>

function btf_parse_types ::
  "(u32 \<Rightarrow> bool) \<Rightarrow> bool \<Rightarrow> nat \<Rightarrow> nat \<Rightarrow> nat \<Rightarrow> bytes \<Rightarrow> bytes \<Rightarrow> nat \<Rightarrow> u32 \<Rightarrow>
   (bytes \<times> bytes \<times> nat \<times> u32) cres" where
  "btf_parse_types realloc_ok swapped base end_type nxt m offs offs_cap nr =
     (if nxt + BTF_TYPE_SZ \<le> end_type
      then
        res_bind (if swapped then btf_bswap_type_base m (base + nxt) else Inr m) (\<lambda>m.
        res_bind (read_type m (base + nxt)) (\<lambda>t.
        res_bind (btf_type_size t) (\<lambda>type_size.
          if nxt + type_size > end_type then Inl (Err EINVAL)
          else
            res_bind (if swapped then btf_bswap_type_rest m (base + nxt) else Inr m) (\<lambda>m.
            res_bind (btf_add_type_idx_entry (realloc_ok nr) offs offs_cap nr (of_nat nxt))
              (\<lambda>(offs, offs_cap).
                 btf_parse_types realloc_ok swapped base end_type (nxt + type_size) m
                   offs offs_cap (nr + 1))))))
      else if nxt \<noteq> end_type then Inl (Err EINVAL)
      else Inr (m, offs, offs_cap, nr))"
  by pat_completeness auto

termination
  by (relation "measure (\<lambda>(ok, sw, b, e, n, m, offs, c, nr). e - n)")
    (auto dest: btf_type_size_ge)

declare btf_parse_types.simps [simp del]

definition btf_parse_type_sec ::
  "(u32 \<Rightarrow> bool) \<Rightarrow> bool \<Rightarrow> btf_header \<Rightarrow> bytes \<Rightarrow> nat \<Rightarrow> (bytes \<times> bytes \<times> nat \<times> u32) cres" where
  "btf_parse_type_sec realloc_ok swapped h m types =
     btf_parse_types realloc_ok swapped types (unat (type_len h)) 0 m [] 0 0"

text \<open>
  Outcomes of the two allocations of \<open>btf_new\<close> and of growing the offset table, and the
  fields that \<open>calloc\<close> clears. The error path frees everything.
\<close>

definition btf_start :: "btf \<Rightarrow> u32 \<times> u32" where
  "btf_start base =
     (case base of
        [] \<Rightarrow> (1, 0)
      | bb # _ \<Rightarrow> (btf__get_nr_types bb + 1, str_len (hdr bb)))"

definition btf_new ::
  "bool \<Rightarrow> bool \<Rightarrow> (u32 \<Rightarrow> bool) \<Rightarrow> bytes \<Rightarrow> u32 \<Rightarrow> btf \<Rightarrow> btf cres" where
  "btf_new calloc_ok malloc_ok realloc_ok data data_sz base =
     (if \<not> calloc_ok then Inl (Err ENOMEM)
      else
        let (sid, soff) = btf_start base
        in if \<not> malloc_ok then Inl (Err ENOMEM)
           else
             res_bind (mem_read data 0 (unat data_sz)) (\<lambda>m.
             res_bind (btf_parse_hdr m data_sz) (\<lambda>(m, swapped, h).
               let strs = unat (hdr_len h) + unat (str_off h);
                   types = unat (hdr_len h) + unat (type_off h)
               in res_bind (btf_parse_str_sec (base \<noteq> []) h m strs) (\<lambda>_.
                  res_bind (btf_parse_type_sec realloc_ok swapped h m types)
                    (\<lambda>(m, offs, offs_cap, nr).
                       Inr (\<lparr>raw_data = Some m, raw_data_swapped = None, raw_size = data_sz,
                             swapped_endian = swapped, hdr = h, hdr_in_raw = True,
                             types_data = drop types m, types_data_cap = 0,
                             type_offs = offs, type_offs_cap = offs_cap, nr_types = nr,
                             start_id = sid, start_str_off = soff,
                             str_sec = Some (drop strs m), strs_set = None,
                             strs_deduped = False, fd = -1, ptr_sz = 0\<rparr> # base))))))"

definition btf_new_empty :: "bool \<Rightarrow> bool \<Rightarrow> btf \<Rightarrow> btf cres" where
  "btf_new_empty calloc_ok raw_ok base =
     (if \<not> calloc_ok then Inl (Err ENOMEM)
      else
        let (sid, soff) = btf_start base
        in if \<not> raw_ok then Inl (Err ENOMEM)
           else
             let h = \<lparr>magic = BTF_MAGIC, version = BTF_VERSION, hflags = 0, hdr_len = BTF_HDR_SZ,
                      type_off = 0, type_len = 0, str_off = 0,
                      str_len = (if base \<noteq> [] then 0 else 1), hdr_ext = []\<rparr>;
                 tail = (if base \<noteq> [] then [] else [0])
             in Inr (\<lparr>raw_data = Some (hdr_bytes h @ tail), raw_data_swapped = None,
                      raw_size = BTF_HDR_SZ + (if base \<noteq> [] then 0 else 1),
                      swapped_endian = False, hdr = h, hdr_in_raw = True,
                      types_data = tail, types_data_cap = 0,
                      type_offs = [], type_offs_cap = 0, nr_types = 0,
                      start_id = sid, start_str_off = soff,
                      str_sec = Some tail, strs_set = None,
                      strs_deduped = False, fd = -1, ptr_sz = 8\<rparr> # base))"

section \<open>Reading type records\<close>

lemma read_type_take: "off + 12 \<le> e \<Longrightarrow> e \<le> length m \<Longrightarrow> read_type (take e m) off = read_type m off"
  by (simp add: read_type_def mem_u32_take)

lemma read_type_agree:
  assumes "take e m' = take e m" "off + 12 \<le> e" "e \<le> length m" "e \<le> length m'"
  shows "read_type m' off = read_type m off"
  using read_type_take [OF assms(2,3)] read_type_take [OF assms(2,4)] assms(1) by simp

lemma read_type_drop: "base \<le> length m \<Longrightarrow> read_type (drop base m) off = read_type m (base + off)"
  by (simp add: read_type_def mem_u32_drop add.assoc)

lemma read_type_ok: "off + 12 \<le> length m \<Longrightarrow> \<exists>t. read_type m off = Inr t"
  using mem_u32_ok [of off m] mem_u32_ok [of "off + 4" m] mem_u32_ok [of "off + 8" m]
  by (auto simp: read_type_def)

lemma read_type_Inr: "read_type m off = Inr t \<Longrightarrow> off + 12 \<le> length m"
  by (auto simp: read_type_def res_bind_eq_Inr dest: mem_u32_Inr)

section \<open>The layout of a type section\<close>

text \<open>The offsets are those of consecutive types from one position to another.\<close>

fun layout :: "bytes \<Rightarrow> nat \<Rightarrow> nat list \<Rightarrow> nat \<Rightarrow> bool" where
  "layout m a [] e \<longleftrightarrow> a = e"
| "layout m a (x # xs) e \<longleftrightarrow> x = a \<and>
     (case res_bind (read_type m a) btf_type_size of
        Inl _ \<Rightarrow> False
      | Inr n \<Rightarrow> layout m (a + n) xs e)"

lemma layout_le: "layout m a xs e \<Longrightarrow> a \<le> e"
  by (induction xs arbitrary: a) (auto split: sum.splits dest: add_leD1)

lemma layout_ConsE:
  assumes "layout m a (x # xs) e"
  obtains t n where "x = a" "read_type m a = Inr t" "btf_type_size t = Inr n" "12 \<le> n" "a + n \<le> e"
    "layout m (a + n) xs e"
  using assms
  by (auto simp: res_bind_eq_Inr split: sum.splits intro: layout_le btf_type_size_ge)

lemma layout_agree:
  assumes "layout m a xs e" "take e m' = take e m" "e \<le> length m" "e \<le> length m'"
  shows "layout m' a xs e"
  using assms(1)
proof (induction xs arbitrary: a)
  case (Cons x xs)
  then obtain t n where l: "x = a" "read_type m a = Inr t" "btf_type_size t = Inr n" "12 \<le> n" "a + n \<le> e"
    "layout m (a + n) xs e"
    by (elim layout_ConsE)
  have "read_type m' a = Inr t"
    using read_type_agree [OF assms(2) _ assms(3,4), of a] l by simp
  then show ?case using l Cons.IH [OF l(6)] by simp
qed simp

lemma layout_snoc:
  assumes "layout m a xs x" "read_type m x = Inr t" "btf_type_size t = Inr n"
  shows "layout m a (xs @ [x]) (x + n)"
  using assms(1)
proof (induction xs arbitrary: a)
  case Nil
  then show ?case using assms(2,3) by simp
next
  case (Cons y ys)
  then show ?case by (elim layout_ConsE) simp
qed

lemma layout_nth:
  assumes "layout m a xs e" "i < length xs"
  shows "\<exists>t n. read_type m (xs ! i) = Inr t \<and> btf_type_size t = Inr n \<and> a \<le> xs ! i \<and>
    xs ! i + n \<le> e \<and> xs ! i + n = (if i + 1 < length xs then xs ! (i + 1) else e)"
  using assms
proof (induction xs arbitrary: a i)
  case (Cons x xs)
  from Cons.prems(1) obtain t n where l: "x = a" "read_type m a = Inr t" "btf_type_size t = Inr n" "12 \<le> n"
    "a + n \<le> e" "layout m (a + n) xs e"
    by (elim layout_ConsE)
  show ?case
  proof (cases i)
    case 0
    have "a + n = (if xs = [] then e else hd xs)" using l(6) by (cases xs) auto
    then show ?thesis using l 0 by (cases xs) auto
  next
    case (Suc j)
    then show ?thesis using Cons.IH [OF l(6), of j] Cons.prems(2) by fastforce
  qed
qed simp

section \<open>The offset table\<close>

definition off_at :: "bytes \<Rightarrow> nat \<Rightarrow> nat" where
  "off_at offs i = unat (word_of_nat (le_val (take 4 (drop (4 * i) offs))) :: u32)"

definition offs_list :: "bytes \<Rightarrow> nat \<Rightarrow> nat list" where
  "offs_list offs n = map (off_at offs) [0..<n]"

lemma length_offs_list [simp]: "length (offs_list offs n) = n"
  by (simp add: offs_list_def)

lemma offs_list_nth [simp]: "i < n \<Longrightarrow> offs_list offs n ! i = off_at offs i"
  by (simp add: offs_list_def)

lemma off_at_mem_u32: "4 * i + 4 \<le> length offs \<Longrightarrow> mem_u32 offs (4 * i) = Inr (word_of_nat (off_at offs i))"
  by (simp add: mem_u32_def mem_read_def off_at_def)

lemma off_at_read: "mem_u32 offs (4 * i) = Inr v \<Longrightarrow> off_at offs i = unat v"
  by (auto simp: mem_u32_def mem_read_def off_at_def split: if_splits)

definition offs_ok :: "bytes \<Rightarrow> nat \<Rightarrow> u32 \<Rightarrow> bool" where
  "offs_ok offs cnt n \<longleftrightarrow> length offs = 4 * cnt \<and> unat n \<le> cnt \<and> cnt \<le> BTF_MAX_NR_TYPES"

lemma offs_ok_empty: "offs_ok [] 0 0"
  by (simp add: offs_ok_def)

lemma add_type_idx_entry_result:
  assumes ok: "offs_ok offs c n"
  shows "case btf_add_type_idx_entry al offs c n v of
      Inl e \<Rightarrow> e = Err ENOMEM
    | Inr (offs', c') \<Rightarrow> offs_ok offs' c' (n + 1) \<and> unat (n + 1) = unat n + 1 \<and>
        offs_list offs' (unat n + 1) = offs_list offs (unat n) @ [unat v]"
proof (cases "libbpf_add_mem al offs c 4 (unat n) BTF_MAX_NR_TYPES 1")
  case None
  then show ?thesis by (simp add: btf_add_type_idx_entry_def)
next
  case (Some r)
  obtain offs1 c1 p where r: "r = (offs1, c1, p)" by (cases r)
  have l: "length offs = c * 4" and n: "unat n \<le> c" "c \<le> BTF_MAX_NR_TYPES"
    using ok by (simp_all add: offs_ok_def)
  note m = libbpf_add_mem_spec [OF l Some [unfolded r]]
  obtain k where k: "offs1 = offs @ replicate k 0" using m(5) by blast
  have c1: "c1 \<le> BTF_MAX_NR_TYPES" using m(6) n(2) by auto
  obtain offs2 where o2: "mem_set_u32 offs1 p v = Inr offs2"
    using mem_set_u32_ok [of p offs1 v] m(1,3,4) by auto
  note w = mem_set_u32_read [OF o2]
  have p: "p = 4 * unat n" using m(4) by simp
  have n1: "unat (n + 1) = unat n + 1"
    using m(3) c1 by (simp add: unat_word_ariths)
  have "off_at offs2 i = off_at offs i" if i: "i < unat n" for i
  proof -
    have b: "4 * i + 4 \<le> length offs" "4 * i + 4 \<le> 4 * unat n" using i n(1) l by auto
    have "mem_read offs2 (4 * i) 4 = mem_read offs1 (4 * i) 4"
      using b(2) p by (intro w(3)) simp
    also have "\<dots> = mem_read offs (4 * i) 4" using b(1) by (simp add: k mem_read_def)
    finally have "mem_u32 offs2 (4 * i) = mem_u32 offs (4 * i)" by (rule mem_u32_cong)
    then show ?thesis using off_at_mem_u32 [OF b(1)] off_at_read by metis
  qed
  moreover have "off_at offs2 (unat n) = unat v" using w(1) p off_at_read by simp
  ultimately have "offs_list offs2 (unat n + 1) = offs_list offs (unat n) @ [unat v]"
    by (simp add: offs_list_def)
  then show ?thesis
    using Some r o2 w(2) m(1,3) n1 c1 by (simp add: btf_add_type_idx_entry_def offs_ok_def)
qed

section \<open>Byte swapping\<close>

text \<open>The image of 32-bit words in the other byte order.\<close>

fun swap4 :: "bytes \<Rightarrow> bytes" where
  "swap4 (a # b # c # d # bs) = d # c # b # a # swap4 bs"
| "swap4 bs = bs"

lemma length_swap4 [simp]: "length (swap4 bs) = length bs"
  by (induction bs rule: swap4.induct) simp_all

lemma swap4_swap4 [simp]: "swap4 (swap4 bs) = bs"
  by (induction bs rule: swap4.induct) simp_all

lemma swap4_append: "4 dvd length xs \<Longrightarrow> swap4 (xs @ ys) = swap4 xs @ swap4 ys"
proof (induction xs rule: swap4.induct)
  case (1 a b c d bs)
  have "length (a # b # c # d # bs) = 4 + length bs" by simp
  then have "4 dvd length bs" using 1(2) by (metis dvd_add_triv_left_iff)
  then show ?case using 1(1) by simp
qed (auto dest: dvd_imp_le)

lemma swap4_word: "length w = 4 \<Longrightarrow> swap4 w = rev w"
  by (cases w rule: swap4.cases) auto

lemma le_bytes_word:
  "length w = n \<Longrightarrow> 256 ^ n = (2 :: nat) ^ LENGTH('a::len) \<Longrightarrow>
   le_bytes n (unat (word_of_nat (le_val w) :: 'a word)) = w"
  using le_val_bound [of w] by (auto simp: unat_of_nat take_bit_nat_eq_self)

lemma word_le_bytes [simp]:
  "word_of_nat (le_val (le_bytes 4 (unat v))) = (v :: u32)"
  "word_of_nat (le_val (le_bytes 2 (unat w))) = (w :: u16)"
proof -
  have "unat v < 256 ^ 4" using unsigned_less [of v] by simp
  moreover have "unat w < 256 ^ 2" using unsigned_less [of w] by simp
  ultimately show "word_of_nat (le_val (le_bytes 4 (unat v))) = v" "word_of_nat (le_val (le_bytes 2 (unat w))) = w"
    by (simp_all only: unat_le_bytes_word)
qed

lemma bswap_32_bytes: "length w = 4 \<Longrightarrow> le_bytes 4 (unat (bswap_32 (word_of_nat (le_val w)))) = rev w"
  by (simp add: bswap_32_def le_bytes_word)

lemma bswap_32_bswap_32 [simp]: "bswap_32 (bswap_32 v) = v"
  by (simp add: bswap_32_def le_bytes_word)

lemma bswap_16_bswap_16 [simp]: "bswap_16 (bswap_16 v) = v"
  by (simp add: bswap_16_def le_bytes_word)

lemma bswap_words_eq:
  "off + 4 * n \<le> length m \<Longrightarrow>
   bswap_words m off n = Inr (take off m @ swap4 (take (4 * n) (drop off m)) @ drop (off + 4 * n) m)"
proof (induction n arbitrary: m off)
  case 0
  then show ?case by simp
next
  case (Suc n)
  let ?w = "take 4 (drop off m)"
  let ?m = "take off m @ rev ?w @ drop (off + 4) m"
  have l: "length ?w = 4" "length ?m = length m" using Suc.prems by simp_all
  have "mem_u32 m off = Inr (word_of_nat (le_val ?w))"
    using Suc.prems by (simp add: mem_u32_def mem_read_def)
  moreover have "mem_set_u32 m off (bswap_32 (word_of_nat (le_val ?w))) = Inr ?m"
    using Suc.prems l by (simp add: mem_set_u32_def mem_write_def bswap_32_bytes)
  ultimately have "bswap_words m off (Suc n) = bswap_words ?m (off + 4) n" by simp
  also have "\<dots> = Inr (take (off + 4) ?m @ swap4 (take (4 * n) (drop (off + 4) ?m)) @ drop (off + 4 + 4 * n) ?m)"
    using Suc.prems l by (intro Suc.IH) simp
  also have "take (off + 4) ?m = take off m @ swap4 ?w"
    using Suc.prems l by (simp add: swap4_word)
  also have "drop (off + 4) ?m = drop (off + 4) m" using Suc.prems l by simp
  also have "drop (off + 4 + 4 * n) ?m = drop (off + 4 * Suc n) m"
    using Suc.prems l by (simp add: ac_simps)
  also have "(take off m @ swap4 ?w) @ swap4 (take (4 * n) (drop (off + 4) m)) @ drop (off + 4 * Suc n) m =
      take off m @ swap4 (?w @ take (4 * n) (drop (off + 4) m)) @ drop (off + 4 * Suc n) m"
    using l by (simp add: swap4_append)
  also have "?w @ take (4 * n) (drop (off + 4) m) = take (4 * Suc n) (drop off m)"
    by (simp add: take_add add.commute [of off])
  finally show ?case .
qed

lemma type_size_dvd: "btf_type_size t = Inr n \<Longrightarrow> 4 dvd n"
  by (auto simp: btf_type_size_def Let_def split: if_splits)

lemma bswap_rest_words:
  assumes "read_type m off = Inr t" "btf_type_size t = Inr n"
  shows "btf_bswap_type_rest m off = bswap_words m (off + 12) ((n - 12) div 4)"
  using assms(2) unfolding btf_bswap_type_rest_def assms(1) btf_type_size_def
  by (auto simp: Let_def mult.commute split: if_splits)

lemma bswap_rest_eq:
  assumes "read_type m off = Inr t" "btf_type_size t = Inr n" "off + n \<le> length m"
  shows "btf_bswap_type_rest m off =
    Inr (take (off + 12) m @ swap4 (take (n - 12) (drop (off + 12) m)) @ drop (off + n) m)"
proof -
  have n: "12 \<le> n" "4 dvd n - 12" using btf_type_size_ge [OF assms(2)] type_size_dvd [OF assms(2)] by auto
  then have "4 * ((n - 12) div 4) = n - 12" by simp
  then show ?thesis
    using bswap_words_eq [of "off + 12" "(n - 12) div 4" m] n(1) assms(3)
    by (simp add: bswap_rest_words [OF assms(1,2)])
qed

lemma bswap_base_eq:
  "off + 12 \<le> length m \<Longrightarrow>
   btf_bswap_type_base m off = Inr (take off m @ swap4 (take 12 (drop off m)) @ drop (off + 12) m)"
  using bswap_words_eq [of off 3 m] by (simp add: btf_bswap_type_base_def)

section \<open>The loop over the types\<close>

text \<open>What one iteration has done to the region when it accepts the type: \<open>m1\<close> and \<open>m2\<close> are
  the region after each of the two swaps.\<close>

lemma swap_base_result:
  assumes "off + 12 \<le> length m"
  shows "\<exists>m1 t. (if sw then btf_bswap_type_base m off else Inr m) = Inr m1 \<and> length m1 = length m \<and>
    take off m1 = take off m \<and> drop (off + 12) m1 = drop (off + 12) m \<and> read_type m1 off = Inr t \<and>
    (\<not> sw \<longrightarrow> m1 = m)"
  using assms read_type_ok [of off] by (cases sw) (auto simp: bswap_base_eq min_absorb1)

lemma swap_rest_result:
  assumes "read_type m1 off = Inr t" "btf_type_size t = Inr n" "off + n \<le> length m1"
  shows "\<exists>m2. (if sw then btf_bswap_type_rest m1 off else Inr m1) = Inr m2 \<and> length m2 = length m1 \<and>
    take off m2 = take off m1 \<and> drop (off + n) m2 = drop (off + n) m1 \<and> read_type m2 off = Inr t \<and>
    (\<not> sw \<longrightarrow> m2 = m1)"
proof (cases sw)
  case True
  let ?m = "take (off + 12) m1 @ swap4 (take (n - 12) (drop (off + 12) m1)) @ drop (off + n) m1"
  have n: "12 \<le> n" using btf_type_size_ge [OF assms(2)] .
  have l: "length ?m = length m1" using n assms(3) by simp
  have t: "take (off + 12) ?m = take (off + 12) m1" using n assms(3) by simp
  have "drop (off + n) ?m = drop (off + n) m1" using n assms(3) by simp
  moreover have "take off ?m = take off m1" using n assms(3) by (simp add: min_absorb1)
  moreover have "read_type ?m off = Inr t"
    using read_type_agree [OF t, of off] n l assms(1,3) by simp
  moreover have "btf_bswap_type_rest m1 off = Inr ?m" by (rule bswap_rest_eq [OF assms])
  ultimately show ?thesis using True l by (simp only: if_True) blast
qed (use assms in simp)

lemma layout_offs_snoc:
  assumes "layout (drop base m) 0 xs nxt" "take (base + nxt) m' = take (base + nxt) m"
    "length m' = length m" "base + nxt \<le> length m"
    "read_type m' (base + nxt) = Inr t" "btf_type_size t = Inr n"
  shows "layout (drop base m') 0 (xs @ [nxt]) (nxt + n)"
proof -
  have "take nxt (drop base m') = take nxt (drop base m)"
    using assms(2) by (simp add: take_drop add.commute)
  then have "layout (drop base m') 0 xs nxt"
    using assms(3,4) by (intro layout_agree [OF assms(1)]) simp_all
  moreover have "read_type (drop base m') nxt = Inr t"
    using assms(3-5) by (simp add: read_type_drop)
  ultimately show ?thesis using layout_snoc assms(6) by blast
qed

lemma btf_parse_types_result:
  assumes "base + end_type \<le> length m" "end_type < 2 ^ 32" "nxt \<le> end_type" "offs_ok offs c nr"
    "layout (drop base m) 0 (offs_list offs (unat nr)) nxt"
  shows "case btf_parse_types al sw base end_type nxt m offs c nr of
      Inl e \<Rightarrow> e = Err EINVAL \<or> e = Err ENOMEM
    | Inr (m', offs', c', nr') \<Rightarrow> length m' = length m \<and> take (base + nxt) m' = take (base + nxt) m \<and>
        drop (base + end_type) m' = drop (base + end_type) m \<and> offs_ok offs' c' nr' \<and>
        layout (drop base m') 0 (offs_list offs' (unat nr')) end_type \<and> (\<not> sw \<longrightarrow> m' = m)"
  using assms
proof (induction "end_type - nxt" arbitrary: nxt m offs c nr rule: less_induct)
  case less
  note unfold = btf_parse_types.simps [of al sw base end_type nxt m offs c nr]
  let ?goal = "\<lambda>m nxt r. case r of
      Inl e \<Rightarrow> e = Err EINVAL \<or> e = Err ENOMEM
    | Inr (m', offs', c', nr') \<Rightarrow> length m' = length m \<and> take (base + nxt) m' = take (base + nxt) m \<and>
        drop (base + end_type) m' = drop (base + end_type) m \<and> offs_ok offs' c' nr' \<and>
        layout (drop base m') 0 (offs_list offs' (unat nr')) end_type \<and> (\<not> sw \<longrightarrow> m' = m)"
  show ?case
  proof (cases "nxt + 12 \<le> end_type")
    case False
    then show ?thesis using less.prems by (auto simp: unfold)
  next
    case True
    obtain m1 t where m1: "(if sw then btf_bswap_type_base m (base + nxt) else Inr m) = Inr m1"
      "length m1 = length m" "take (base + nxt) m1 = take (base + nxt) m"
      "drop (base + nxt + 12) m1 = drop (base + nxt + 12) m" "read_type m1 (base + nxt) = Inr t"
      "\<not> sw \<longrightarrow> m1 = m"
      using swap_base_result [of "base + nxt" m sw] True less.prems(1) by auto
    show ?thesis
    proof (cases "btf_type_size t")
      case (Inl e)
      then have "e = Err EINVAL" by (auto simp: btf_type_size_def Let_def split: if_splits)
      then show ?thesis using True m1(1,5) Inl by (simp add: unfold)
    next
      case (Inr n)
      have n12: "12 \<le> n" using btf_type_size_ge [OF Inr] .
      show ?thesis
      proof (cases "nxt + n > end_type")
        case True
        then show ?thesis using \<open>nxt + 12 \<le> end_type\<close> m1(1,5) Inr by (simp add: unfold)
      next
        case False
        then have fits: "base + nxt + n \<le> length m1" using less.prems(1) m1(2) by simp
        obtain m2 where m2: "(if sw then btf_bswap_type_rest m1 (base + nxt) else Inr m1) = Inr m2"
          "length m2 = length m1" "take (base + nxt) m2 = take (base + nxt) m1"
          "drop (base + nxt + n) m2 = drop (base + nxt + n) m1" "read_type m2 (base + nxt) = Inr t"
          "\<not> sw \<longrightarrow> m2 = m1"
          using swap_rest_result [OF m1(5) Inr fits, of sw] by blast
        let ?entry = "btf_add_type_idx_entry (al nr) offs c nr (of_nat nxt)"
        have step: "btf_parse_types al sw base end_type nxt m offs c nr =
            res_bind ?entry (\<lambda>(offs', c'). btf_parse_types al sw base end_type (nxt + n) m2 offs' c' (nr + 1))"
          unfolding unfold m1(1) m2(1) using \<open>nxt + 12 \<le> end_type\<close> False Inr m1(5) m2(1) by simp
        show ?thesis
        proof (cases ?entry)
          case (Inl e)
          then show ?thesis
            using add_type_idx_entry_result [OF less.prems(4), where al = "al nr" and v = "of_nat nxt"] by (simp add: step)
        next
          case entry: (Inr r)
          obtain offs' c' where r: "r = (offs', c')" by (cases r)
          have "unat (of_nat nxt :: u32) = nxt" using less.prems(2,3) by (intro unat_of_nat_u32) simp
          then have idx: "offs_ok offs' c' (nr + 1)" "unat (nr + 1) = unat nr + 1"
            "offs_list offs' (unat nr + 1) = offs_list offs (unat nr) @ [nxt]"
            using add_type_idx_entry_result [OF less.prems(4), where al = "al nr" and v = "of_nat nxt"] entry r by simp_all
          have keep: "take (base + nxt) m2 = take (base + nxt) m" "length m2 = length m"
            using m1(2,3) m2(2,3) by simp_all
          have lay: "layout (drop base m2) 0 (offs_list offs' (unat (nr + 1))) (nxt + n)"
            unfolding idx(2,3)
            using less.prems(1,3) by (intro layout_offs_snoc [OF less.prems(5) keep _ m2(5) Inr]) simp
          have "?goal m2 (nxt + n) (btf_parse_types al sw base end_type (nxt + n) m2 offs' c' (nr + 1))"
            using True n12 less.prems(1,2) False keep(2) idx(1) lay by (intro less.hyps) simp_all
          moreover have "take (base + nxt) m' = take (base + nxt) m" if "take (base + (nxt + n)) m' = take (base + (nxt + n)) m2" for m'
          proof -
            have "take (base + nxt) (take (base + (nxt + n)) m') = take (base + nxt) (take (base + (nxt + n)) m2)"
              using that by simp
            then show ?thesis using keep(1) by (simp add: min_absorb1)
          qed
          moreover have "drop (base + end_type) m2 = drop (base + end_type) m"
          proof -
            have "drop (base + end_type) m2 = drop (end_type - nxt - n) (drop (base + nxt + n) m2)"
              using False by (simp add: add.commute)
            also have "\<dots> = drop (base + end_type) m1" using m2(4) False by (simp add: add.commute)
            also have "\<dots> = drop (end_type - nxt - 12) (drop (base + nxt + 12) m1)"
              using True by (simp add: add.commute)
            also have "\<dots> = drop (base + end_type) m" using m1(4) True by (simp add: add.commute)
            finally show ?thesis .
          qed
          ultimately show ?thesis
            using entry r keep(2) m1(6) m2(6) by (auto simp: step split: sum.splits)
        qed
      qed
    qed
  qed
qed

section \<open>Parsing data of the other byte order\<close>

text \<open>The region \<open>m\<close> with the words between two positions in the other byte order.\<close>

definition swap_range :: "bytes \<Rightarrow> nat \<Rightarrow> nat \<Rightarrow> bytes" where
  "swap_range m a e = take a m @ swap4 (take (e - a) (drop a m)) @ drop e m"

lemma swap_range_empty [simp]: "swap_range m a a = m"
  by (simp add: swap_range_def)

lemma length_swap_range [simp]: "a \<le> e \<Longrightarrow> e \<le> length m \<Longrightarrow> length (swap_range m a e) = length m"
  by (simp add: swap_range_def)

lemma swap_range_step:
  assumes "a + n \<le> e" "e \<le> length m" "4 dvd n"
  shows "take a (swap_range m a e) @ swap4 (take n (drop a (swap_range m a e))) @
      drop (a + n) (swap_range m a e) = swap_range m (a + n) e"
proof -
  let ?r = "swap_range m a e"
  have split: "take (e - a) (drop a m) = take n (drop a m) @ take (e - (a + n)) (drop (a + n) m)"
    using assms(1) take_add [of n "e - (a + n)" "drop a m"] by (simp add: add.commute)
  have d: "4 dvd length (take n (drop a m))" using assms by simp
  have r: "?r = take a m @ swap4 (take n (drop a m)) @
      swap4 (take (e - (a + n)) (drop (a + n) m)) @ drop e m"
    unfolding swap_range_def split by (simp add: swap4_append [OF d])
  have "take a ?r = take a m" "take n (drop a ?r) = swap4 (take n (drop a m))"
    "drop (a + n) ?r = swap4 (take (e - (a + n)) (drop (a + n) m)) @ drop e m"
    using assms by (simp_all add: r)
  then show ?thesis
    using assms by (simp add: swap_range_def take_add)
qed

lemma read_type_swap_range:
  assumes "off + 12 \<le> a" "a \<le> e" "e \<le> length m"
  shows "read_type (swap_range m a e) off = read_type m off"
proof (rule read_type_agree [of a])
  show "take a (swap_range m a e) = take a m" using assms by (simp add: swap_range_def)
qed (use assms in simp_all)

lemma bswap_type_swap_range:
  assumes "read_type m off = Inr t" "btf_type_size t = Inr n" "off + n \<le> e" "e \<le> length m"
  shows "btf_bswap_type_base (swap_range m off e) off = Inr (swap_range m (off + 12) e)"
    and "read_type (swap_range m (off + 12) e) off = Inr t"
    and "btf_bswap_type_rest (swap_range m (off + 12) e) off = Inr (swap_range m (off + n) e)"
proof -
  have n: "12 \<le> n" "4 dvd n - 12" using btf_type_size_ge [OF assms(2)] type_size_dvd [OF assms(2)] by auto
  show "btf_bswap_type_base (swap_range m off e) off = Inr (swap_range m (off + 12) e)"
    using swap_range_step [of off 12 e m] bswap_base_eq [of off "swap_range m off e"] n(1) assms(3,4) by simp
  show r: "read_type (swap_range m (off + 12) e) off = Inr t"
    using read_type_swap_range [of off "off + 12" e m] n(1) assms by simp
  have "off + 12 + (n - 12) = off + n" using n(1) by simp
  then show "btf_bswap_type_rest (swap_range m (off + 12) e) off = Inr (swap_range m (off + n) e)"
    using bswap_rest_eq [OF r assms(2)] swap_range_step [of "off + 12" "n - 12" e m] n assms(3,4) by simp
qed

lemma btf_parse_types_swapped:
  assumes "base + end_type \<le> length m" "nxt \<le> end_type"
    "btf_parse_types al False base end_type nxt m offs c nr = Inr r"
  shows "btf_parse_types al True base end_type nxt (swap_range m (base + nxt) (base + end_type)) offs c nr = Inr r"
  using assms
proof (induction "end_type - nxt" arbitrary: nxt offs c nr rule: less_induct)
  case less
  let ?m = "\<lambda>nxt. swap_range m (base + nxt) (base + end_type)"
  note unfold = btf_parse_types.simps [of al _ base end_type nxt _ offs c nr]
  show ?case
  proof (cases "nxt + 12 \<le> end_type")
    case False
    then show ?thesis using less.prems(3) by (simp add: unfold split: if_splits)
  next
    case True
    obtain t n offs' c' where ok: "read_type m (base + nxt) = Inr t" "btf_type_size t = Inr n"
      "nxt + n \<le> end_type" "btf_add_type_idx_entry (al nr) offs c nr (of_nat nxt) = Inr (offs', c')"
      and rec: "btf_parse_types al False base end_type (nxt + n) m offs' c' (nr + 1) = Inr r"
      using less.prems(3) True unfolding unfold [of False]
      by (auto simp: res_bind_eq_Inr not_less split: if_splits)
    have fits: "base + nxt + n \<le> base + end_type" using ok(3) by simp
    note sw = bswap_type_swap_range [OF ok(1,2) fits less.prems(1)]
    have "btf_parse_types al True base end_type nxt (?m nxt) offs c nr =
        btf_parse_types al True base end_type (nxt + n) (?m (nxt + n)) offs' c' (nr + 1)"
      using True ok(2-4) sw by (simp add: unfold add.assoc)
    moreover have "btf_parse_types al True base end_type (nxt + n) (?m (nxt + n)) offs' c' (nr + 1) = Inr r"
      using True btf_type_size_ge [OF ok(2)] less.prems(1) ok(3) rec by (intro less.hyps) simp_all
    ultimately show ?thesis by simp
  qed
qed

end
