(* ===== verification/Btf_Parse.thy ===== *)
theory Btf_Parse
  imports Btf_Data
begin

text \<open>
  What \<open>btf_new\<close> of \<^verbatim>\<open>src/bpftools/libbpf/src/btf.c\<close> guarantees: accesses stay inside the data
  it is given when the 32-bit sums of its header check do not wrap around and the header has
  the known length, the result is a well-formed instance, and data of the other byte order
  is parsed to the instance that the same data in the host's order gives.
\<close>

section \<open>The header\<close>

lemma length_hdr_bytes [simp]: "length (hdr_bytes h) = 24"
  by (simp add: hdr_bytes_def)

lemma mem_u32_le_bytes: "mem_read m off 4 = Inr (le_bytes 4 (unat (v :: u32))) \<Longrightarrow> mem_u32 m off = Inr v"
  by (simp add: mem_u32_def)

lemma read_hdr_bytes: "read_hdr (hdr_bytes h @ xs) = Inr (h\<lparr>hdr_ext := []\<rparr>)"
proof -
  let ?m = "hdr_bytes h @ xs"
  have "mem_u16 ?m 0 = Inr (magic h)" by (simp add: mem_u16_def mem_read_def hdr_bytes_def)
  moreover have "arr_get ?m 2 = Inr (version h)" "arr_get ?m 3 = Inr (hflags h)"
    by (simp_all add: arr_get_def hdr_bytes_def nth_append)
  moreover have "mem_u32 ?m 4 = Inr (hdr_len h)" "mem_u32 ?m 8 = Inr (type_off h)"
    "mem_u32 ?m 12 = Inr (type_len h)" "mem_u32 ?m 16 = Inr (str_off h)" "mem_u32 ?m 20 = Inr (str_len h)"
    by (rule mem_u32_le_bytes, simp add: mem_read_def hdr_bytes_def)+
  ultimately show ?thesis by (simp add: read_hdr_def)
qed

lemma mem_u16_ok_cong: "mem_u16 m off = Inr v \<Longrightarrow> take 2 (drop off m) = le_bytes 2 (unat v) \<and> off + 2 \<le> length m"
  by (auto simp: mem_u16_def mem_read_def le_bytes_word split: if_splits)

lemma mem_u32_bytes: "mem_u32 m off = Inr v \<Longrightarrow> take 4 (drop off m) = le_bytes 4 (unat v)"
  by (auto simp: mem_u32_def mem_read_def le_bytes_word split: if_splits)

lemma take_chunk: "take k (drop n m) = c \<Longrightarrow> take (n + k) m = take n m @ c"
  by (simp add: take_add)

lemma read_hdr_take:
  assumes "read_hdr m = Inr h"
  shows "take 24 m = hdr_bytes h" "24 \<le> length m" "hdr_ext h = []"
proof -
  obtain mg v f hl toff tl soff sl where
    f: "mem_u16 m 0 = Inr mg" "arr_get m 2 = Inr v" "arr_get m 3 = Inr f" "mem_u32 m 4 = Inr hl"
    "mem_u32 m 8 = Inr toff" "mem_u32 m 12 = Inr tl" "mem_u32 m 16 = Inr soff" "mem_u32 m 20 = Inr sl"
    and h: "h = \<lparr>magic = mg, version = v, hflags = f, hdr_len = hl, type_off = toff,
      type_len = tl, str_off = soff, str_len = sl, hdr_ext = []\<rparr>"
    using assms by (auto simp: read_hdr_def res_bind_eq_Inr)
  show l: "24 \<le> length m" using mem_u32_Inr [OF f(8)] by simp
  have "take 1 (drop 2 m) = [v]" "take 1 (drop 3 m) = [f]"
    using f(2,3) l by (auto simp: arr_get_def take_Suc_conv_app_nth Cons_nth_drop_Suc [symmetric] split: if_splits)
  note c = take_chunk [OF this(1)] take_chunk [OF this(2)]
  have "take 2 m = le_bytes 2 (unat mg)" using mem_u16_ok_cong [OF f(1)] by simp
  moreover note c take_chunk [OF mem_u32_bytes [OF f(4)]] take_chunk [OF mem_u32_bytes [OF f(5)]]
    take_chunk [OF mem_u32_bytes [OF f(6)]] take_chunk [OF mem_u32_bytes [OF f(7)]]
    take_chunk [OF mem_u32_bytes [OF f(8)]]
  ultimately show "take 24 m = hdr_bytes h" by (simp add: h hdr_bytes_def)
  show "hdr_ext h = []" by (simp add: h)
qed

lemma read_hdr_ok: "24 \<le> length m \<Longrightarrow> \<exists>h. read_hdr m = Inr h"
  using mem_u16_ok [of 0 m] mem_u32_ok [of 4 m] mem_u32_ok [of 8 m] mem_u32_ok [of 12 m] mem_u32_ok [of 16 m]
    mem_u32_ok [of 20 m]
  by (auto simp: read_hdr_def arr_get_def)

lemma btf_bswap_hdr_twice [simp]: "btf_bswap_hdr (btf_bswap_hdr h) = h"
  by (simp add: btf_bswap_hdr_def)

lemma le_bytes_two: "le_bytes 2 v = [word_of_nat (v mod 256), word_of_nat (v div 256 mod 256)]"
  by (simp add: numeral_2_eq_2)

lemma bswap_magic: "bswap_16 BTF_MAGIC = 0x9FeB" "bswap_16 BTF_MAGIC \<noteq> BTF_MAGIC"
  by (simp_all add: bswap_16_def le_bytes_two)

text \<open>
  The checks of the header, which bound the sections when the sums do not wrap around.
\<close>

definition hdr_accepted :: "btf_header \<Rightarrow> u32 \<Rightarrow> bool" where
  "hdr_accepted h data_sz \<longleftrightarrow>
     24 \<le> unat data_sz \<and> str_off h + str_len h \<le> data_sz - 24 \<and>
     type_off h + type_len h \<le> str_off h \<and> type_off h mod 4 = 0"

lemma btf_parse_hdr_result:
  assumes "length m = unat data_sz"
  shows "case btf_parse_hdr m data_sz of
      Inl e \<Rightarrow> e = Err EINVAL \<or> e = Err ENOTSUP
    | Inr (m', sw, h) \<Rightarrow> hdr_accepted h data_sz \<and> magic h = BTF_MAGIC \<and> hdr_ext h = [] \<and>
        m' = hdr_bytes h @ drop 24 m \<and> (if sw then hdr_len h = 24 else m' = m)"
proof (cases "unat data_sz < 24")
  case True
  then show ?thesis by (simp add: btf_parse_hdr_def)
next
  case False
  then obtain h where h: "read_hdr m = Inr h" using read_hdr_ok assms by fastforce
  note t = read_hdr_take [OF h]
  have m: "m = hdr_bytes h @ drop 24 m" using t(1) by (metis append_take_drop_id)
  have w: "mem_write m 0 (hdr_bytes (btf_bswap_hdr h)) = Inr (hdr_bytes (btf_bswap_hdr h) @ drop 24 m)"
    using t(2) by (simp add: mem_write_def)
  have mg: "magic h = bswap_16 BTF_MAGIC \<Longrightarrow> magic (btf_bswap_hdr h) = BTF_MAGIC"
    "hdr_len (btf_bswap_hdr h) = bswap_32 (hdr_len h)" "hdr_ext (btf_bswap_hdr h) = hdr_ext h"
    by (simp_all add: btf_bswap_hdr_def)
  show ?thesis
    using False h w mg t(3) m
    by (auto simp: btf_parse_hdr_def Let_def hdr_accepted_def not_less)
qed

section \<open>Well-formed instances\<close>

definition btf_strs_data :: "btf_obj \<Rightarrow> bytes cres" where
  "btf_strs_data b =
     (case str_sec b of
        Some s \<Rightarrow> Inr s
      | None \<Rightarrow> (case strs_set b of Some ss \<Rightarrow> Inr (strset__data ss) | None \<Rightarrow> Inl Fault))"

definition types_wf :: "btf_obj \<Rightarrow> bool" where
  "types_wf b \<longleftrightarrow>
     offs_ok (type_offs b) (type_offs_cap b) (nr_types b) \<and>
     unat (type_len (hdr b)) \<le> length (types_data b) \<and>
     layout (types_data b) 0 (offs_list (type_offs b) (unat (nr_types b))) (unat (type_len (hdr b)))"

definition strs_wf :: "btf_obj \<Rightarrow> bool" where
  "strs_wf b \<longleftrightarrow>
     (case btf_strs_data b of
        Inl _ \<Rightarrow> False
      | Inr s \<Rightarrow> unat (str_len (hdr b)) \<le> length s \<and>
          (str_len (hdr b) \<noteq> 0 \<longrightarrow> s ! (unat (str_len (hdr b)) - 1) = 0))"

text \<open>The header has the known size and the sums of its check do not wrap around.\<close>

definition hdr_fits :: "btf_header \<Rightarrow> bool" where
  "hdr_fits h \<longleftrightarrow> hdr_len h = 24 \<and> unat (str_off h) + unat (str_len h) < 2 ^ 32 \<and>
     unat (type_off h) + unat (type_len h) < 2 ^ 32"

lemma unat_add_small: "unat a + unat b < 2 ^ 32 \<Longrightarrow> unat (a + b :: u32) = unat a + unat b"
  by (simp add: unat_word_ariths)

lemma hdr_sections:
  assumes "hdr_accepted h n" "hdr_fits h"
  shows "24 + unat (str_off h) + unat (str_len h) \<le> unat n"
    "unat (type_off h) + unat (type_len h) \<le> unat (str_off h)"
    "24 + unat (type_off h) + unat (type_len h) \<le> unat n"
proof -
  have a: "unat (str_off h + str_len h) = unat (str_off h) + unat (str_len h)"
    "unat (type_off h + type_len h) = unat (type_off h) + unat (type_len h)"
    using assms(2) by (simp_all add: hdr_fits_def unat_add_small)
  have n: "unat (n - 24) = unat n - 24"
    using assms(1) by (simp add: hdr_accepted_def unat_sub word_le_nat_alt)
  show "24 + unat (str_off h) + unat (str_len h) \<le> unat n"
    "unat (type_off h) + unat (type_len h) \<le> unat (str_off h)"
    using assms(1) a n by (auto simp: hdr_accepted_def word_le_nat_alt)
  then show "24 + unat (type_off h) + unat (type_len h) \<le> unat n" by simp
qed

lemma parse_str_sec_result:
  assumes "start + unat (str_len h) \<le> length m"
  shows "case btf_parse_str_sec has_base h m start of
      Inl e \<Rightarrow> e = Err EINVAL
    | Inr _ \<Rightarrow> str_len h \<noteq> 0 \<longrightarrow> m ! (start + unat (str_len h) - 1) = 0"
proof (cases "str_len h = 0")
  case False
  then have "0 < unat (str_len h)" by (simp add: unat_gt_0)
  then have "start + unat (str_len h) - 1 < length m" "start < length m" using assms by simp_all
  then show ?thesis by (auto simp: btf_parse_str_sec_def arr_get_def)
qed (simp add: btf_parse_str_sec_def)

lemma btf_new_eq:
  assumes "unat n \<le> length data" "btf_parse_hdr (take (unat n) data) n = Inr (m, sw, h)"
    "unat (hdr_len h) = 24" "btf_start base = (sid, soff)"
  shows "btf_new True True al data n base =
    res_bind (btf_parse_str_sec (base \<noteq> []) h m (24 + unat (str_off h))) (\<lambda>_.
    res_bind (btf_parse_types al sw (24 + unat (type_off h)) (unat (type_len h)) 0 m [] 0 0)
      (\<lambda>(m', offs, offs_cap, nr).
         Inr (\<lparr>raw_data = Some m', raw_data_swapped = None, raw_size = n,
               swapped_endian = sw, hdr = h, hdr_in_raw = True,
               types_data = drop (24 + unat (type_off h)) m', types_data_cap = 0,
               type_offs = offs, type_offs_cap = offs_cap, nr_types = nr,
               start_id = sid, start_str_off = soff,
               str_sec = Some (drop (24 + unat (str_off h)) m'), strs_set = None,
               strs_deduped = False, fd = -1, ptr_sz = 0\<rparr> # base)))"
  using assms by (simp add: btf_new_def Let_def mem_read_def btf_parse_type_sec_def)

text \<open>The sections that the loop leaves behind make a well-formed instance.\<close>

lemma parsed_instance_wf:
  assumes acc: "hdr_accepted h n" "hdr_fits h" and len: "length m = unat n" "length m' = length m"
    and keep: "drop (24 + unat (type_off h) + unat (type_len h)) m' = drop (24 + unat (type_off h) + unat (type_len h)) m"
    and offs: "offs_ok offs c nr"
      "layout (drop (24 + unat (type_off h)) m') 0 (offs_list offs (unat nr)) (unat (type_len h))"
    and final: "str_len h \<noteq> 0 \<longrightarrow> m ! (24 + unat (str_off h) + unat (str_len h) - 1) = 0"
    and inst: "hdr b = h" "types_data b = drop (24 + unat (type_off h)) m'" "type_offs b = offs"
      "type_offs_cap b = c" "nr_types b = nr" "str_sec b = Some (drop (24 + unat (str_off h)) m')"
  shows "types_wf b \<and> strs_wf b"
proof -
  let ?strs = "24 + unat (str_off h)" and ?types = "24 + unat (type_off h)"
  note sec = hdr_sections [OF acc]
  have "drop ?strs m' = drop (unat (str_off h) - unat (type_off h) - unat (type_len h))
      (drop (?types + unat (type_len h)) m')" using sec(2) by (simp add: add.commute)
  also have "\<dots> = drop ?strs m" unfolding keep using sec(2) by (simp add: add.commute)
  finally have "drop ?strs m' = drop ?strs m" .
  moreover have "drop ?strs m ! (unat (str_len h) - 1) = 0" if "str_len h \<noteq> 0"
    using final that sec(1) len by (simp add: unat_gt_0 Suc_le_eq)
  moreover have "unat (type_len h) \<le> length (drop ?types m')" "unat (str_len h) \<le> length (drop ?strs m)"
    unfolding length_drop len using sec by linarith+
  ultimately show ?thesis
    using offs by (simp add: types_wf_def strs_wf_def btf_strs_data_def inst)
qed

text \<open>
  C24. Unless a header escapes its checks (as the two of \<open>btf_new_header_overread\<close> do),
  \<open>btf_new\<close> reads only the data it is given, fails only with \<open>EINVAL\<close>, \<open>ENOMEM\<close> or
  \<open>ENOTSUP\<close>, and returns a well-formed instance on top of its base: the offset table lists the
  starts of consecutive types that fill the type section.
\<close>

theorem btf_new_safe:
  assumes data: "unat n \<le> length data"
    and fits: "\<And>m sw h. btf_parse_hdr (take (unat n) data) n = Inr (m, sw, h) \<Longrightarrow> hdr_fits h"
  shows "case btf_new calloc_ok malloc_ok al data n base of
      Inl e \<Rightarrow> e = Err EINVAL \<or> e = Err ENOMEM \<or> e = Err ENOTSUP
    | Inr b \<Rightarrow> \<exists>inst. b = inst # base \<and> types_wf inst \<and> strs_wf inst \<and>
        (start_id inst, start_str_off inst) = btf_start base"
proof -
  let ?m = "take (unat n) data"
  have len: "length ?m = unat n" using data by simp
  have read: "mem_read data 0 (unat n) = Inr ?m" using data by (simp add: mem_read_def)
  note parse = btf_parse_hdr_result [OF len]
  obtain sid soff where start: "btf_start base = (sid, soff)" by (cases "btf_start base")
  consider "\<not> calloc_ok \<or> \<not> malloc_ok"
    | (bad) e where "calloc_ok" "malloc_ok" "btf_parse_hdr ?m n = Inl e"
    | (good) m sw h where "calloc_ok" "malloc_ok" "btf_parse_hdr ?m n = Inr (m, sw, h)"
    by (cases "btf_parse_hdr ?m n") auto
  then show ?thesis
  proof cases
    case 1
    then show ?thesis by (auto simp: btf_new_def start)
  next
    case bad
    then show ?thesis using parse by (auto simp: btf_new_def start read)
  next
    case good
    let ?strs = "24 + unat (str_off h)" and ?types = "24 + unat (type_off h)"
    have h: "hdr_accepted h n" "m = hdr_bytes h @ drop 24 ?m" using parse good by auto
    have hf: "hdr_fits h" using fits good by blast
    then have hl: "unat (hdr_len h) = 24" by (simp add: hdr_fits_def)
    note sec = hdr_sections [OF h(1) hf]
    have ml: "length m = unat n" using h(2) len sec(1) by simp
    let ?str = "btf_parse_str_sec (base \<noteq> []) h m ?strs"
    have str: "case ?str of Inl e \<Rightarrow> e = Err EINVAL
      | Inr _ \<Rightarrow> str_len h \<noteq> 0 \<longrightarrow> m ! (?strs + unat (str_len h) - 1) = 0"
      using sec(1) ml by (intro parse_str_sec_result) simp
    let ?par = "btf_parse_types al sw ?types (unat (type_len h)) 0 m [] 0 0"
    have "unat (type_len h) < 2 ^ 32" using unsigned_less [of "type_len h"] by simp
    then have par: "case ?par of
        Inl e \<Rightarrow> e = Err EINVAL \<or> e = Err ENOMEM
      | Inr (m', offs', c', nr') \<Rightarrow> length m' = length m \<and> take (?types + 0) m' = take (?types + 0) m \<and>
          drop (?types + unat (type_len h)) m' = drop (?types + unat (type_len h)) m \<and> offs_ok offs' c' nr' \<and>
          layout (drop ?types m') 0 (offs_list offs' (unat nr')) (unat (type_len h)) \<and> (\<not> sw \<longrightarrow> m' = m)"
      using sec(3) ml by (intro btf_parse_types_result offs_ok_empty) (simp_all add: offs_list_def)
    have ok: "calloc_ok = True" "malloc_ok = True" using good by simp_all
    note new = btf_new_eq [OF data good(3) hl start, where al = al]
    show ?thesis
    proof (cases ?str)
      case (Inl e)
      then show ?thesis using str by (simp add: new ok)
    next
      case s: (Inr u)
      show ?thesis
      proof (cases ?par)
        case (Inl e)
        then show ?thesis using par s by (auto simp: new ok)
      next
        case (Inr r)
        obtain m' offs c nr where r: "r = (m', offs, c, nr)" by (cases r)
        have p: "length m' = length m" "drop (?types + unat (type_len h)) m' = drop (?types + unat (type_len h)) m"
          "offs_ok offs c nr" "layout (drop ?types m') 0 (offs_list offs (unat nr)) (unat (type_len h))"
          using par Inr r by simp_all
        have final: "str_len h \<noteq> 0 \<longrightarrow> m ! (?strs + unat (str_len h) - 1) = 0" using str s by simp
        show ?thesis
          using s Inr r parsed_instance_wf [OF h(1) hf ml p final]
          by (simp add: new ok start)
      qed
    qed
  qed
qed

section \<open>Headers that escape the checks, and data of the other byte order\<close>

lemma btf_parse_hdr_native:
  assumes "hdr_accepted h n" "magic h = BTF_MAGIC" "hdr_ext h = []"
  shows "btf_parse_hdr (hdr_bytes h @ xs) n = Inr (hdr_bytes h @ xs, False, h)"
proof -
  have "h\<lparr>hdr_ext := []\<rparr> = h" using assms(3) by simp
  then show ?thesis
    using assms(1,2) bswap_magic(2)
    by (simp add: btf_parse_hdr_def read_hdr_bytes hdr_accepted_def Let_def not_less)
qed

lemma btf_parse_hdr_foreign:
  assumes "hdr_accepted h n" "magic h = BTF_MAGIC" "hdr_ext h = []" "hdr_len h = 24"
  shows "btf_parse_hdr (hdr_bytes (btf_bswap_hdr h) @ xs) n = Inr (hdr_bytes h @ xs, True, h)"
proof -
  let ?s = "btf_bswap_hdr h"
  have s: "magic ?s = bswap_16 BTF_MAGIC" "bswap_32 (hdr_len ?s) = 24" "?s\<lparr>hdr_ext := []\<rparr> = ?s"
    using assms(2-4) by (simp_all add: btf_bswap_hdr_def)
  have "mem_write (hdr_bytes ?s @ xs) 0 (hdr_bytes h) = Inr (hdr_bytes h @ xs)"
    by (simp add: mem_write_def)
  then show ?thesis
    using assms(1) s by (simp add: btf_parse_hdr_def read_hdr_bytes hdr_accepted_def Let_def not_less)
qed

text \<open>
  Two headers that pass every check and send \<open>btf_new\<close> outside its data: in the first
  the sum of the string section's offset and length wraps around to 1, in the second, in the
  host's byte order, the header's own length is not checked.
\<close>

definition wrapping_hdr :: btf_header where
  "wrapping_hdr = \<lparr>magic = BTF_MAGIC, version = 1, hflags = 0, hdr_len = 24, type_off = 0, type_len = 0,
     str_off = 0xFFFFFFF0, str_len = 0x11, hdr_ext = []\<rparr>"

definition long_hdr :: btf_header where
  "long_hdr = \<lparr>magic = BTF_MAGIC, version = 1, hflags = 0, hdr_len = 0x1000000, type_off = 0, type_len = 0,
     str_off = 0, str_len = 1, hdr_ext = []\<rparr>"

lemma btf_new_header_overread:
  "btf_new True True al (hdr_bytes wrapping_hdr @ [0]) 25 [] = Inl Fault \<and>
   btf_new True True al (hdr_bytes long_hdr @ [0]) 25 [] = Inl Fault"
proof -
  have "hdr_accepted wrapping_hdr 25" "hdr_accepted long_hdr 25"
    by code_simp+
  then have "btf_parse_hdr (hdr_bytes wrapping_hdr @ [0]) 25 = Inr (hdr_bytes wrapping_hdr @ [0], False, wrapping_hdr)"
    "btf_parse_hdr (hdr_bytes long_hdr @ [0]) 25 = Inr (hdr_bytes long_hdr @ [0], False, long_hdr)"
    by (simp_all add: btf_parse_hdr_native wrapping_hdr_def long_hdr_def)
  then show ?thesis
    by (simp add: btf_new_def btf_start_def mem_read_def btf_parse_str_sec_def arr_get_def
        wrapping_hdr_def long_hdr_def)
qed

text \<open>The same data written on a host of the other byte order.\<close>

definition foreign_image :: "btf_header \<Rightarrow> bytes \<Rightarrow> bytes" where
  "foreign_image h m =
     (let t = 24 + unat (type_off h)
      in hdr_bytes (btf_bswap_hdr h) @ drop 24 (swap_range m t (t + unat (type_len h))))"

lemma parse_str_sec_cong:
  assumes "drop e m' = drop e m" "length m' = length m" "e \<le> start"
  shows "btf_parse_str_sec has_base h m' start = btf_parse_str_sec has_base h m start"
proof -
  have "arr_get m' i = arr_get m i" if "e \<le> i" for i
  proof -
    have "drop e m' ! (i - e) = drop e m ! (i - e)" using assms(1) by simp
    then show ?thesis using that assms(2) by (cases "e \<le> length m") (simp_all add: arr_get_def)
  qed
  moreover have "e \<le> start + unat (str_len h) - 1" if "str_len h \<noteq> 0"
  proof -
    have "0 < unat (str_len h)" using that by (simp add: unat_gt_0)
    then show ?thesis using assms(3) by simp
  qed
  ultimately show ?thesis using assms(3) by (cases "str_len h = 0") (simp_all add: btf_parse_str_sec_def cong: if_cong)
qed

lemma btf_new_foreign_result:
  assumes hd: "read_hdr m = Inr h" "hdr_fits h" and len: "length m = unat n"
    and native: "btf_new True True al m n base = Inr (inst # base')" "\<not> swapped_endian inst"
  shows "btf_new True True al (foreign_image h m) n base = Inr (inst\<lparr>swapped_endian := True\<rparr> # base')"
proof -
  let ?t = "24 + unat (type_off h)" and ?s = "24 + unat (str_off h)" and ?l = "unat (type_len h)"
  let ?f = "foreign_image h m" and ?m = "swap_range m ?t (?t + ?l)"
  obtain sid soff where start: "btf_start base = (sid, soff)" by (cases "btf_start base")
  note take24 = read_hdr_take [OF hd(1)]
  have m: "m = hdr_bytes h @ drop 24 m" using take24(1) by (metis append_take_drop_id)
  have rd: "mem_read m 0 (unat n) = Inr m" using len by (simp add: mem_read_def)
  obtain m0 sw h0 where p0: "btf_parse_hdr m n = Inr (m0, sw, h0)"
    using native(1) rd by (auto simp: btf_new_def start res_bind_eq_Inr)
  have "\<not> sw" using native rd p0 by (auto simp: btf_new_def start res_bind_eq_Inr Let_def)
  then have acc: "hdr_accepted h0 n" "magic h0 = BTF_MAGIC" "m0 = m" "m0 = hdr_bytes h0 @ drop 24 m" "hdr_ext h0 = []"
    using btf_parse_hdr_result [OF len] p0 by auto
  then have "h0 = h" using hd(1) read_hdr_bytes [of h0 "drop 24 m"] by simp
  note acc = acc [unfolded this]
  have hl: "hdr_len h = 24" using hd(2) by (simp add: hdr_fits_def)
  note sec = hdr_sections [OF acc(1) hd(2)]
  have e: "?t + ?l \<le> length m" using sec(3) len by simp
  have tk: "take 24 ?m = hdr_bytes h" using take24(1) e by (simp add: swap_range_def)
  have mm: "?m = hdr_bytes h @ drop 24 ?m" using tk by (metis append_take_drop_id)
  have lf: "length ?f = unat n" "length ?m = length m"
    using e len take24(2) by (simp_all add: foreign_image_def Let_def)
  have pf: "btf_parse_hdr (take (unat n) ?f) n = Inr (?m, True, h)"
    using btf_parse_hdr_foreign [OF acc(1,2,5) hl, of "drop 24 ?m"] lf mm by (simp add: foreign_image_def Let_def)
  have pn: "btf_parse_hdr (take (unat n) m) n = Inr (m, False, h)"
    using btf_parse_hdr_native [OF acc(1,2,5), of "drop 24 m"] m len by simp
  have str: "btf_parse_str_sec (base \<noteq> []) h ?m ?s = btf_parse_str_sec (base \<noteq> []) h m ?s"
    using sec(2) e lf by (intro parse_str_sec_cong [of "?t + ?l"]) (simp_all add: swap_range_def)
  have h24: "unat (hdr_len h) = 24" using hl by simp
  have len': "unat n \<le> length m" "unat n \<le> length ?f" using len lf by simp_all
  obtain r where par: "btf_parse_types al False ?t ?l 0 m [] 0 0 = Inr r"
    and ok: "btf_parse_str_sec (base \<noteq> []) h m ?s = Inr ()"
    using native(1) by (auto simp: btf_new_eq [OF len'(1) pn h24 start] res_bind_eq_Inr)
  have "btf_parse_types al True ?t ?l 0 ?m [] 0 0 = Inr r"
    using btf_parse_types_swapped [OF e _ par] by simp
  then show ?thesis
    using native(1) par ok str
    by (auto simp: btf_new_eq [OF len'(1) pn h24 start] btf_new_eq [OF len'(2) pf h24 start] split: prod.splits)
qed

text \<open>
  C26. Byte order does not matter: when data in the host's order is parsed to an instance, the
  same data in the other order is parsed to the same instance, marked as swapped.
\<close>

theorem btf_new_foreign:
  assumes hd: "read_hdr m = Inr h" "hdr_fits h" and len: "length m = unat n"
    and native: "btf_new True True al m n base = Inr (inst # base')" "\<not> swapped_endian inst"
  shows "btf_new True True al (foreign_image h m) n base = Inr (inst\<lparr>swapped_endian := True\<rparr> # base')"
  using btf_new_foreign_result [OF assms] .

section \<open>Witnesses\<close>

text \<open>An \<open>int\<close> of four bytes, and the string section with its name.\<close>

definition int_hdr :: btf_header where
  "int_hdr = \<lparr>magic = BTF_MAGIC, version = 1, hflags = 0, hdr_len = 24, type_off = 0, type_len = 16,
     str_off = 16, str_len = 5, hdr_ext = []\<rparr>"

definition int_data :: bytes where
  "int_data = hdr_bytes int_hdr @ [1, 0, 0, 0, 0, 0, 0, 1, 4, 0, 0, 0, 32, 0, 0, 0] @ [0, 105, 110, 116, 0]"

lemma int_hdr_ok: "hdr_accepted int_hdr 45" "hdr_fits int_hdr" "hdr_ext int_hdr = []"
  "length int_data = 45" "read_hdr int_data = Inr int_hdr"
proof -
  show "hdr_accepted int_hdr 45" by code_simp
  show "hdr_fits int_hdr" by (simp add: hdr_fits_def int_hdr_def)
  show e: "hdr_ext int_hdr = []" by (simp add: int_hdr_def)
  show "length int_data = 45" by (simp add: int_data_def)
  show "read_hdr int_data = Inr int_hdr" using e by (simp add: int_data_def read_hdr_bytes)
qed

lemma int_data_parse:
  "btf_parse_hdr (take (unat (45 :: u32)) int_data) 45 = Inr (int_data, False, int_hdr)"
  using btf_parse_hdr_native [OF int_hdr_ok(1) _ int_hdr_ok(3)] int_hdr_ok(4)
  by (simp add: int_data_def int_hdr_def)

lemma int_data_loads: "\<exists>inst. btf_new True True (\<lambda>_. True) int_data 45 [] = Inr [inst] \<and> \<not> swapped_endian inst \<and> nr_types inst = 1"
proof -
  have d: "drop 24 int_data = [1, 0, 0, 0, 0, 0, 0, 1, 4, 0, 0, 0, 32, 0, 0, 0] @ [0, 105, 110, 116, 0]"
    by (simp add: int_data_def)
  have r: "read_type int_data 24 = Inr \<lparr>name_off = 1, info = 0x1000000, size_type = 4\<rparr>"
    using read_type_drop [of 24 int_data 0] int_hdr_ok(4) unfolding d
    by (simp add: read_type_def mem_u32_def mem_read_def)
  have n: "btf_type_size \<lparr>name_off = 1, info = 0x1000000, size_type = 4\<rparr> = Inr 16"
    by code_simp
  have e: "\<exists>offs c. btf_add_type_idx_entry True [] 0 0 0 = Inr (offs, c)"
    by (simp add: btf_add_type_idx_entry_def libbpf_add_mem_def grow_cnt_def libbpf_reallocarray_def
        mem_set_u32_def mem_write_def)
  have s: "btf_parse_str_sec False int_hdr int_data 40 = Inr ()"
    using int_hdr_ok(4) by (simp add: btf_parse_str_sec_def arr_get_def int_hdr_def int_data_def nth_append)
  show ?thesis
    using btf_new_eq [OF _ int_data_parse, where base = "[]" and al = "\<lambda>_. True" and sid = 1 and soff = 0] int_hdr_ok(4) e r n s
    by (auto simp: btf_start_def int_hdr_def btf_parse_types.simps)
qed

theorem btf_new_safe_witness:
  "\<exists>inst. btf_new True True (\<lambda>_. True) int_data 45 [] = Inr [inst] \<and> types_wf inst \<and> strs_wf inst"
proof -
  have "unat (45 :: u32) \<le> length int_data" using int_hdr_ok(4) by simp
  moreover have "hdr_fits h"
    if "btf_parse_hdr (take (unat (45 :: u32)) int_data) 45 = Inr (m, sw, h)" for m sw h
    using that int_data_parse int_hdr_ok(2) by simp
  ultimately show ?thesis
    using btf_new_safe [where n = 45 and data = int_data and al = "\<lambda>_. True" and base = "[]"
        and calloc_ok = True and malloc_ok = True] int_data_loads by fastforce
qed

theorem btf_new_foreign_witness:
  "\<exists>inst. btf_new True True (\<lambda>_. True) (foreign_image int_hdr int_data) 45 [] = Inr [inst] \<and>
     swapped_endian inst \<and> nr_types inst = 1"
proof -
  obtain inst where i: "btf_new True True (\<lambda>_. True) int_data 45 [] = Inr [inst]" "\<not> swapped_endian inst"
    "nr_types inst = 1"
    using int_data_loads by blast
  have "length int_data = unat (45 :: u32)" using int_hdr_ok(4) by simp
  then show ?thesis
    using btf_new_foreign [OF int_hdr_ok(5,2) _ i(1,2)] i(3) by simp
qed

end
