(* ===== verification/Btf_Access.thy ===== *)
theory Btf_Access
  imports Btf_Parse "HOL-Library.Code_Target_Numeral"
begin

text \<open>
  Reading BTF: types by ID, strings by offset, lookup by name, sizes, alignments and the
  pointer size, from \<^verbatim>\<open>src/bpftools/libbpf/src/btf.c\<close>.

  A type pointer is the bytes from the type to the end of its region; \<open>btf_void\<close>, which the
  code recognises by its address, is a constructor of its own. A null pointer is \<open>None\<close>, and
  reading through it is a fault. The pointer size is cached in the instance on its first use,
  so the operations that need it return the BTF.
\<close>

section \<open>Types by ID\<close>

datatype type_ref = Btf_void | Type_at bytes

abbreviation ref_bytes :: "type_ref \<Rightarrow> bytes" where
  "ref_bytes r \<equiv> (case r of Btf_void \<Rightarrow> replicate 12 0 | Type_at m \<Rightarrow> m)"

definition deref_type :: "type_ref option \<Rightarrow> btf_type cres" where
  "deref_type t = (case t of None \<Rightarrow> Inl Fault | Some r \<Rightarrow> read_type (ref_bytes r) 0)"

fun btf_type_by_id :: "btf \<Rightarrow> u32 \<Rightarrow> type_ref cres" where
  "btf_type_by_id [] type_id = (if type_id = 0 then Inr Btf_void else Inl Fault)"
| "btf_type_by_id (b # base) type_id =
     (if type_id = 0 then Inr Btf_void
      else if type_id < start_id b then btf_type_by_id base type_id
      else res_bind (mem_u32 (type_offs b) (4 * unat (type_id - start_id b))) (\<lambda>off.
             Inr (Type_at (drop (unat off) (types_data b)))))"

definition btf__type_by_id :: "btf \<Rightarrow> u32 \<Rightarrow> type_ref option cres" where
  "btf__type_by_id b type_id =
     (if type_id \<ge> start_id (hd b) + nr_types (hd b) then Inr None
      else res_bind (btf_type_by_id b type_id) (\<lambda>t. Inr (Some t)))"

definition btf_type_is_void :: "type_ref \<Rightarrow> bool cres" where
  "btf_type_is_void r =
     (case r of
        Btf_void \<Rightarrow> Inr True
      | Type_at m \<Rightarrow> res_bind (read_type m 0) (\<lambda>t. Inr (btf_kind t = BTF_KIND_FWD)))"

definition btf_type_is_void_or_null :: "type_ref option \<Rightarrow> bool cres" where
  "btf_type_is_void_or_null t = (case t of None \<Rightarrow> Inr True | Some r \<Rightarrow> btf_type_is_void r)"

section \<open>Strings by offset\<close>

text \<open>\<open>strcmp\<close> of the string at a pointer with a zero-terminated string.\<close>

fun c_streq :: "bytes \<Rightarrow> bytes \<Rightarrow> bool cres" where
  "c_streq [] s = Inl Fault"
| "c_streq (c # cs) [] = Inr (c = 0)"
| "c_streq (c # cs) (x # xs) = (if c = x then c_streq cs xs else Inr False)"

fun btf__str_by_offset :: "btf \<Rightarrow> u32 \<Rightarrow> bytes option cres" where
  "btf__str_by_offset [] offset = Inl Fault"
| "btf__str_by_offset (b # base) offset =
     (if offset < start_str_off b then btf__str_by_offset base offset
      else if offset - start_str_off b < str_len (hdr b)
      then res_bind (btf_strs_data b) (\<lambda>s. Inr (Some (drop (unat (offset - start_str_off b)) s)))
      else Inr None)"

definition btf__name_by_offset :: "btf \<Rightarrow> u32 \<Rightarrow> bytes option cres" where
  "btf__name_by_offset b offset = btf__str_by_offset b offset"

section \<open>Lookup by name\<close>

text \<open>Whether the name at an offset is \<open>type_name\<close>.\<close>

definition name_is :: "btf \<Rightarrow> u32 \<Rightarrow> bytes \<Rightarrow> bool cres" where
  "name_is b offset type_name =
     res_bind (btf__name_by_offset b offset) (\<lambda>name.
       case name of None \<Rightarrow> Inr False | Some p \<Rightarrow> c_streq p type_name)"

abbreviation btf_ids :: "btf \<Rightarrow> u32 list" where
  "btf_ids b \<equiv> map of_nat [1..<Suc (unat (btf__get_nr_types (hd b)))]"

abbreviation void_name :: bytes where
  "void_name \<equiv> [118, 111, 105, 100]"

fun find_name :: "btf \<Rightarrow> bytes \<Rightarrow> u32 list \<Rightarrow> u32 cres" where
  "find_name b type_name [] = Inl (Err ENOENT)"
| "find_name b type_name (i # is) =
     res_bind (btf__type_by_id b i) (\<lambda>r.
     res_bind (deref_type r) (\<lambda>t.
     res_bind (name_is b (name_off t) type_name) (\<lambda>eq.
       if eq then Inr i else find_name b type_name is)))"

definition btf__find_by_name :: "btf \<Rightarrow> bytes \<Rightarrow> u32 cres" where
  "btf__find_by_name b type_name =
     (if type_name = void_name then Inr 0 else find_name b type_name (btf_ids b))"

fun find_name_kind :: "btf \<Rightarrow> bytes \<Rightarrow> u32 \<Rightarrow> u32 list \<Rightarrow> u32 cres" where
  "find_name_kind b type_name kind [] = Inl (Err ENOENT)"
| "find_name_kind b type_name kind (i # is) =
     res_bind (btf__type_by_id b i) (\<lambda>r.
     res_bind (deref_type r) (\<lambda>t.
       if btf_kind t \<noteq> kind then find_name_kind b type_name kind is
       else
         res_bind (name_is b (name_off t) type_name) (\<lambda>eq.
           if eq then Inr i else find_name_kind b type_name kind is)))"

definition btf__find_by_name_kind :: "btf \<Rightarrow> bytes \<Rightarrow> u32 \<Rightarrow> u32 cres" where
  "btf__find_by_name_kind b type_name kind =
     (if kind = BTF_KIND_UNKN \<or> type_name = void_name then Inr 0
      else find_name_kind b type_name kind (btf_ids b))"

section \<open>Pointer size and byte order\<close>

abbreviation long_int_name :: bytes where
  "long_int_name \<equiv> [108, 111, 110, 103, 32, 105, 110, 116]"

abbreviation long_unsigned_int_name :: bytes where
  "long_unsigned_int_name \<equiv>
     [108, 111, 110, 103, 32, 117, 110, 115, 105, 103, 110, 101, 100, 32, 105, 110, 116]"

fun scan_ptr_size :: "btf \<Rightarrow> u32 list \<Rightarrow> int cres" where
  "scan_ptr_size b [] = Inr (-1)"
| "scan_ptr_size b (i # is) =
     res_bind (btf__type_by_id b i) (\<lambda>r.
     res_bind (deref_type r) (\<lambda>t.
       if btf_kind t \<noteq> BTF_KIND_INT then scan_ptr_size b is
       else
         res_bind (btf__name_by_offset b (name_off t)) (\<lambda>name.
           case name of
             None \<Rightarrow> scan_ptr_size b is
           | Some p \<Rightarrow>
               res_bind (c_streq p long_int_name) (\<lambda>eq1.
               res_bind (if eq1 then Inr True else c_streq p long_unsigned_int_name) (\<lambda>eq.
                 if eq
                 then
                   if size_type t \<noteq> 4 \<and> size_type t \<noteq> 8 then scan_ptr_size b is
                   else Inr (uint (size_type t))
                 else scan_ptr_size b is)))))"

text \<open>The loop's bound is an \<open>int\<close>.\<close>

definition determine_ptr_size :: "btf \<Rightarrow> int cres" where
  "determine_ptr_size b =
     (if tl b \<noteq> [] \<and> ptr_sz (hd (tl b)) > 0 then Inr (ptr_sz (hd (tl b)))
      else scan_ptr_size b (map of_nat [1..<Suc (nat (sint (btf__get_nr_types (hd b))))]))"

definition cache_ptr_sz :: "btf \<Rightarrow> btf cres" where
  "cache_ptr_sz b =
     (if ptr_sz (hd b) = 0
      then res_bind (determine_ptr_size b) (\<lambda>p. Inr ((hd b)\<lparr>ptr_sz := p\<rparr> # tl b))
      else Inr b)"

abbreviation "sizeof_ptr \<equiv> 8"

definition btf_ptr_sz :: "btf \<Rightarrow> (int \<times> btf) cres" where
  "btf_ptr_sz b =
     res_bind (cache_ptr_sz b) (\<lambda>b.
       Inr (if ptr_sz (hd b) < 0 then sizeof_ptr else ptr_sz (hd b), b))"

definition btf__pointer_size :: "btf \<Rightarrow> (int \<times> btf) cres" where
  "btf__pointer_size b =
     res_bind (cache_ptr_sz b) (\<lambda>b. Inr (if ptr_sz (hd b) < 0 then 0 else ptr_sz (hd b), b))"

definition btf__set_pointer_size :: "btf_obj \<Rightarrow> u64 \<Rightarrow> btf_obj cres" where
  "btf__set_pointer_size b n =
     (if n \<noteq> 4 \<and> n \<noteq> 8 then Inl (Err EINVAL) else Inr (b\<lparr>ptr_sz := uint n\<rparr>))"

datatype btf_endianness = BTF_LITTLE_ENDIAN | BTF_BIG_ENDIAN

definition is_host_big_endian :: bool where
  "is_host_big_endian = False"

definition btf__endianness :: "btf_obj \<Rightarrow> btf_endianness" where
  "btf__endianness b =
     (if is_host_big_endian
      then if swapped_endian b then BTF_LITTLE_ENDIAN else BTF_BIG_ENDIAN
      else if swapped_endian b then BTF_BIG_ENDIAN else BTF_LITTLE_ENDIAN)"

text \<open>The check that the argument is one of the two constants is the type's.\<close>

definition btf__set_endianness :: "btf_obj \<Rightarrow> btf_endianness \<Rightarrow> btf_obj" where
  "btf__set_endianness b endian =
     (let b = b\<lparr>swapped_endian := is_host_big_endian \<noteq> (endian = BTF_BIG_ENDIAN)\<rparr>
      in if \<not> swapped_endian b then b\<lparr>raw_data_swapped := None\<rparr> else b)"

section \<open>Sizes\<close>

text \<open>
  A pointer to data behind the three words of a type reads at an offset from the type. An
  error leaves the BTF with the pointer size that has been cached, so it is returned as well.
\<close>

abbreviation "UINT32_MAX \<equiv> 0xffffffff"
abbreviation "MAX_RESOLVE_DEPTH \<equiv> 32"

definition ref_u32 :: "type_ref option \<Rightarrow> nat \<Rightarrow> u32 cres" where
  "ref_u32 t off = (case t of None \<Rightarrow> Inl Fault | Some r \<Rightarrow> mem_u32 (ref_bytes r) off)"

definition resolved_size :: "int \<Rightarrow> u32 \<Rightarrow> int cres" where
  "resolved_size type_sz nelems =
     (if type_sz < 0 then Inl (Err EINVAL)
      else if nelems \<noteq> 0 \<and> type_sz > UINT32_MAX div uint nelems then Inl (Err E2BIG)
      else Inr (uint nelems * type_sz))"

fun resolve_size_loop :: "nat \<Rightarrow> btf \<Rightarrow> type_ref option \<Rightarrow> u32 \<Rightarrow> int cres \<times> btf" where
  "resolve_size_loop 0 b t nelems = (resolved_size (-1) nelems, b)"
| "resolve_size_loop (Suc n) b t nelems =
     (case btf_type_is_void_or_null t of
        Inl e \<Rightarrow> (Inl e, b)
      | Inr True \<Rightarrow> (resolved_size (-1) nelems, b)
      | Inr False \<Rightarrow>
          (case deref_type t of
             Inl e \<Rightarrow> (Inl e, b)
           | Inr ty \<Rightarrow>
               let kind = btf_kind ty;
                   follow = (\<lambda>type_id nelems.
                     case btf__type_by_id b type_id of
                       Inl e \<Rightarrow> (Inl e, b)
                     | Inr t \<Rightarrow> resolve_size_loop n b t nelems)
               in if kind \<in> {BTF_KIND_INT, BTF_KIND_STRUCT, BTF_KIND_UNION, BTF_KIND_ENUM,
                              BTF_KIND_DATASEC, BTF_KIND_FLOAT}
                  then (resolved_size (uint (size_type ty)) nelems, b)
                  else if kind = BTF_KIND_PTR
                  then
                    (case btf_ptr_sz b of
                       Inl e \<Rightarrow> (Inl e, b)
                     | Inr (p, b) \<Rightarrow> (resolved_size p nelems, b))
                  else if kind \<in> {BTF_KIND_TYPEDEF, BTF_KIND_VOLATILE, BTF_KIND_CONST,
                                   BTF_KIND_RESTRICT, BTF_KIND_VAR}
                  then follow (size_type ty) nelems
                  else if kind = BTF_KIND_ARRAY
                  then
                    (case res_bind (ref_u32 t 12) (\<lambda>elem. res_bind (ref_u32 t 20) (\<lambda>cnt. Inr (elem, cnt))) of
                       Inl e \<Rightarrow> (Inl e, b)
                     | Inr (elem, cnt) \<Rightarrow>
                         if nelems \<noteq> 0 \<and> cnt > UINT32_MAX div nelems then (Inl (Err E2BIG), b)
                         else follow elem (nelems * cnt))
                  else (Inl (Err EINVAL), b)))"

definition btf__resolve_size :: "btf \<Rightarrow> u32 \<Rightarrow> int cres \<times> btf" where
  "btf__resolve_size b type_id =
     (case btf__type_by_id b type_id of
        Inl e \<Rightarrow> (Inl e, b)
      | Inr t \<Rightarrow> resolve_size_loop MAX_RESOLVE_DEPTH b t 1)"

section \<open>Alignments\<close>

text \<open>
  The code recurses without a bound, so the depth of the stack is an argument, and \<open>None\<close> is
  a stack that was not deep enough. An error is the alignment 0. \<open>max_align_of\<close> is the loop
  over the members, which \<open>m\<close> points at; \<open>align_of\<close> is the recursive call.
\<close>

primrec max_align_of ::
  "(btf \<Rightarrow> u32 \<Rightarrow> (int \<times> btf) cres option) \<Rightarrow> btf \<Rightarrow> bytes \<Rightarrow> nat \<Rightarrow> nat \<Rightarrow> int \<Rightarrow>
   (int \<times> btf) cres option" where
  "max_align_of align_of b m off 0 max_align = Some (Inr (max_align, b))"
| "max_align_of align_of b m off (Suc n) max_align =
     (case mem_u32 m (off + 4) of
        Inl e \<Rightarrow> Some (Inl e)
      | Inr type_id \<Rightarrow>
          (case align_of b type_id of
             None \<Rightarrow> None
           | Some (Inl e) \<Rightarrow> Some (Inl e)
           | Some (Inr (align, b)) \<Rightarrow>
               if align \<le> 0 then Some (Inr (align, b))
               else max_align_of align_of b m (off + 12) n (max max_align align)))"

fun btf__align_of :: "nat \<Rightarrow> btf \<Rightarrow> u32 \<Rightarrow> (int \<times> btf) cres option" where
  "btf__align_of 0 b type_id = None"
| "btf__align_of (Suc depth) b type_id =
     (case res_bind (btf__type_by_id b type_id) (\<lambda>t. res_bind (deref_type t) (\<lambda>ty. Inr (t, ty))) of
        Inl e \<Rightarrow> Some (Inl e)
      | Inr (t, ty) \<Rightarrow>
          let kind = btf_kind ty
          in if kind \<in> {BTF_KIND_INT, BTF_KIND_ENUM, BTF_KIND_FLOAT}
             then Some (res_bind (btf_ptr_sz b) (\<lambda>(p, b). Inr (min p (uint (size_type ty)), b)))
             else if kind = BTF_KIND_PTR then Some (btf_ptr_sz b)
             else if kind \<in> {BTF_KIND_TYPEDEF, BTF_KIND_VOLATILE, BTF_KIND_CONST, BTF_KIND_RESTRICT}
             then btf__align_of depth b (size_type ty)
             else if kind = BTF_KIND_ARRAY
             then (case ref_u32 t 12 of Inl e \<Rightarrow> Some (Inl e) | Inr elem \<Rightarrow> btf__align_of depth b elem)
             else if kind \<in> {BTF_KIND_STRUCT, BTF_KIND_UNION}
             then max_align_of (btf__align_of depth) b (ref_bytes (the t)) 12 (unat (btf_vlen ty)) 1
             else Some (Inr (0, b)))"

section \<open>Skipping modifiers\<close>

definition btf_is_mod :: "btf_type \<Rightarrow> bool" where
  "btf_is_mod t \<longleftrightarrow> btf_kind t \<in> {BTF_KIND_VOLATILE, BTF_KIND_CONST, BTF_KIND_RESTRICT}"

definition btf_is_skipped :: "btf_type \<Rightarrow> bool" where
  "btf_is_skipped t \<longleftrightarrow> btf_is_mod t \<or> btf_kind t = BTF_KIND_TYPEDEF \<or> btf_kind t = BTF_KIND_VAR"

text \<open>\<open>n\<close> is the number of steps that are left of \<open>MAX_RESOLVE_DEPTH\<close>.\<close>

fun resolve_type_loop :: "nat \<Rightarrow> btf \<Rightarrow> u32 \<Rightarrow> type_ref option \<Rightarrow> u32 cres" where
  "resolve_type_loop 0 b type_id t = Inl (Err EINVAL)"
| "resolve_type_loop (Suc n) b type_id t =
     res_bind (btf_type_is_void_or_null t) (\<lambda>void.
       if void then Inl (Err EINVAL)
       else
         res_bind (deref_type t) (\<lambda>ty.
           if btf_is_skipped ty
           then res_bind (btf__type_by_id b (size_type ty)) (\<lambda>t. resolve_type_loop n b (size_type ty) t)
           else Inr type_id))"

definition btf__resolve_type :: "btf \<Rightarrow> u32 \<Rightarrow> u32 cres" where
  "btf__resolve_type b type_id =
     res_bind (btf__type_by_id b type_id) (\<lambda>t. resolve_type_loop MAX_RESOLVE_DEPTH b type_id t)"

section \<open>Key and value types of a map\<close>

abbreviation container_prefix :: bytes where
  "container_prefix \<equiv> [95, 95, 95, 95, 98, 116, 102, 95, 109, 97, 112, 95]"

text \<open>
  \<open>snprintf\<close> returns the length of the whole string and stores what fits with the terminator.
\<close>

definition snprintf_str :: "nat \<Rightarrow> bytes \<Rightarrow> bytes \<times> nat" where
  "snprintf_str max_name s = (take (max_name - 1) s, length s)"

definition btf__get_map_kv_tids ::
  "btf \<Rightarrow> bytes \<Rightarrow> u32 \<Rightarrow> u32 \<Rightarrow> (u32 \<times> u32) cres \<times> btf" where
  "btf__get_map_kv_tids b map_name expected_key_size expected_value_size =
     (let (container_name, n) = snprintf_str 256 (container_prefix @ map_name)
      in if n = 256 then (Inl (Err EINVAL), b)
         else
           case res_bind (btf__find_by_name b container_name) (\<lambda>container_id.
                res_bind (btf__type_by_id b container_id) (\<lambda>t.
                  case t of
                    None \<Rightarrow> Inl (Err EINVAL)
                  | Some _ \<Rightarrow>
                      res_bind (deref_type t) (\<lambda>ty.
                        if btf_kind ty \<noteq> BTF_KIND_STRUCT \<or> btf_vlen ty < 2 then Inl (Err EINVAL)
                        else
                          res_bind (ref_u32 t 16) (\<lambda>key.
                          res_bind (ref_u32 t 28) (\<lambda>value. Inr (key, value)))))) of
             Inl e \<Rightarrow> (Inl e, b)
           | Inr (key, value) \<Rightarrow>
               (case btf__resolve_size b key of
                  (Inl e, b) \<Rightarrow> (Inl e, b)
                | (Inr key_size, b) \<Rightarrow>
                    if uint expected_key_size \<noteq> key_size then (Inl (Err EINVAL), b)
                    else
                      (case btf__resolve_size b value of
                         (Inl e, b) \<Rightarrow> (Inl e, b)
                       | (Inr value_size, b) \<Rightarrow>
                           if uint expected_value_size \<noteq> value_size then (Inl (Err EINVAL), b)
                           else (Inr (key, value), b))))"

section \<open>Well-formed chains\<close>

fun btf_wf :: "btf \<Rightarrow> bool" where
  "btf_wf [] \<longleftrightarrow> False"
| "btf_wf (b # base) \<longleftrightarrow>
     types_wf b \<and> strs_wf b \<and> (start_id b, start_str_off b) = btf_start base \<and>
     unat (start_id b) + unat (nr_types b) < 2 ^ 32 \<and> (base \<noteq> [] \<longrightarrow> btf_wf base)"

text \<open>The bytes at the pointer hold a whole type.\<close>

definition whole_type :: "bytes \<Rightarrow> bool" where
  "whole_type m \<longleftrightarrow>
     (case res_bind (read_type m 0) btf_type_size of Inl _ \<Rightarrow> False | Inr n \<Rightarrow> n \<le> length m)"

lemma whole_typeE:
  assumes "whole_type m"
  obtains t n where "read_type m 0 = Inr t" "btf_type_size t = Inr n" "12 \<le> n" "n \<le> length m"
  using assms by (auto simp: whole_type_def res_bind_eq_Inr btf_type_size_ge split: sum.splits)

lemma types_wf_entry:
  assumes "types_wf b" "i < unat (nr_types b)"
  shows "\<exists>off. mem_u32 (type_offs b) (4 * i) = Inr off \<and> whole_type (drop (unat off) (types_data b))"
proof -
  let ?xs = "offs_list (type_offs b) (unat (nr_types b))"
  have lay: "layout (types_data b) 0 ?xs (unat (type_len (hdr b)))"
    and len: "unat (type_len (hdr b)) \<le> length (types_data b)"
    and ok: "offs_ok (type_offs b) (type_offs_cap b) (nr_types b)"
    using assms(1) by (simp_all add: types_wf_def)
  obtain t n where t: "read_type (types_data b) (?xs ! i) = Inr t" "btf_type_size t = Inr n"
    "?xs ! i + n \<le> unat (type_len (hdr b))"
    using layout_nth [OF lay, of i] assms(2) by auto
  have "4 * i + 4 \<le> length (type_offs b)" using ok assms(2) by (simp add: offs_ok_def)
  then have u: "mem_u32 (type_offs b) (4 * i) = Inr (word_of_nat (off_at (type_offs b) i))"
    by (rule off_at_mem_u32)
  have "unat (word_of_nat (off_at (type_offs b) i) :: u32) = ?xs ! i"
    using off_at_read [OF u] assms(2) by simp
  moreover have "whole_type (drop (?xs ! i) (types_data b))"
    using t len by (simp add: whole_type_def read_type_drop)
  ultimately show ?thesis using u by auto
qed

lemma btf_start_less:
  assumes "btf_wf (bb # base')" "btf_start (bb # base') = (sid, soff)"
  shows "unat sid = unat (start_id bb) + unat (nr_types bb)" "sid = start_id bb + nr_types bb"
    "unat (start_id bb + nr_types bb) = unat (start_id bb) + unat (nr_types bb)"
proof -
  have n: "unat (start_id bb) + unat (nr_types bb) < 2 ^ 32" using assms(1) by simp
  show s: "sid = start_id bb + nr_types bb" using assms(2) by (simp add: btf_start_def btf__get_nr_types_def)
  show "unat (start_id bb + nr_types bb) = unat (start_id bb) + unat (nr_types bb)"
    using n by (rule unat_add_small)
  then show "unat sid = unat (start_id bb) + unat (nr_types bb)" using s by simp
qed

lemma type_by_id_wf:
  assumes "btf_wf b" "unat type_id < unat (start_id (hd b)) + unat (nr_types (hd b))" "type_id \<noteq> 0"
  shows "\<exists>m. btf_type_by_id b type_id = Inr (Type_at m) \<and> whole_type m"
  using assms
proof (induction b)
  case (Cons b base)
  show ?case
  proof (cases "type_id < start_id b")
    case True
    moreover have "0 < unat type_id" using Cons.prems(3) by (simp add: unat_gt_0)
    ultimately have "base \<noteq> []" using Cons.prems by (auto simp: btf_start_def word_less_nat_alt)
    then obtain bb base' where base: "base = bb # base'" by (cases base) auto
    have "unat (start_id b) = unat (start_id bb) + unat (nr_types bb)"
      using btf_start_less(1) [of bb base' "start_id b" "start_str_off b"] Cons.prems(1) base by simp
    then show ?thesis
      using Cons.IH Cons.prems True base by (auto simp: word_less_nat_alt)
  next
    case False
    then have d: "unat (type_id - start_id b) = unat type_id - unat (start_id b)"
      by (simp add: unat_sub word_le_nat_alt not_less)
    have "types_wf b" using Cons.prems(1) by simp
    moreover have "unat (type_id - start_id b) < unat (nr_types b)"
      using Cons.prems(1,2) False d by (simp add: word_le_nat_alt not_less)
    ultimately show ?thesis
      using types_wf_entry [of b "unat (type_id - start_id b)"] False Cons.prems(3) by auto
  qed
qed simp

lemma btf__type_by_id_cases:
  assumes wf: "btf_wf b"
  obtains (none) "btf__type_by_id b type_id = Inr None" "start_id (hd b) + nr_types (hd b) \<le> type_id"
  | (void) "btf__type_by_id b type_id = Inr (Some Btf_void)" "type_id = 0" "type_id < start_id (hd b) + nr_types (hd b)"
  | (type) m t n where "btf__type_by_id b type_id = Inr (Some (Type_at m))" "read_type m 0 = Inr t"
      "btf_type_size t = Inr n" "12 \<le> n" "n \<le> length m" "type_id \<noteq> 0" "type_id < start_id (hd b) + nr_types (hd b)"
proof -
  obtain bb base where b: "b = bb # base" using wf by (cases b) auto
  have lim: "unat (start_id (hd b) + nr_types (hd b)) = unat (start_id (hd b)) + unat (nr_types (hd b))"
    using wf by (simp add: b unat_add_small)
  show thesis
  proof (cases "start_id (hd b) + nr_types (hd b) \<le> type_id")
    case True
    then show thesis by (intro none) (simp_all add: btf__type_by_id_def)
  next
    case False
    show thesis
    proof (cases "type_id = 0")
      case True
      then show thesis using False by (intro void) (simp_all add: btf__type_by_id_def b word_neq_0_conv)
    next
      case nz: False
      have "unat type_id < unat (start_id (hd b)) + unat (nr_types (hd b))"
        using False lim by (simp add: word_le_nat_alt not_le)
      then obtain m where "btf_type_by_id b type_id = Inr (Type_at m)" "whole_type m"
        using type_by_id_wf [OF wf _ nz] by blast
      moreover have "btf__type_by_id b type_id = Inr (Some (Type_at m))" if "btf_type_by_id b type_id = Inr (Type_at m)" for m
        using that False by (simp add: btf__type_by_id_def)
      ultimately show thesis using False nz by (auto elim!: whole_typeE intro: type)
    qed
  qed
qed

text \<open>
  C27. In a well-formed BTF every ID below the number of types, in the instance or its bases,
  leads to a whole type inside its region, 0 leads to \<open>void\<close>, and every other ID to null.
\<close>

theorem btf_type_by_id_total:
  assumes "btf_wf b"
  shows "if type_id \<ge> start_id (hd b) + nr_types (hd b) then btf__type_by_id b type_id = Inr None
    else if type_id = 0 then btf__type_by_id b type_id = Inr (Some Btf_void)
    else \<exists>m. btf__type_by_id b type_id = Inr (Some (Type_at m)) \<and> whole_type m"
  using assms
  by (cases rule: btf__type_by_id_cases [where type_id = type_id]) (auto simp: whole_type_def)

section \<open>Strings\<close>

lemma c_streq_eq:
  assumes "0 \<in> set p" "0 \<notin> set s"
  shows "c_streq p s = Inr (cstr p 0 = s)"
  using assms by (induction p s rule: c_streq.induct) (auto simp: cstr_def)

text \<open>The name at an offset of a chain, if there is one.\<close>

definition btf_name :: "btf \<Rightarrow> u32 \<Rightarrow> bytes option" where
  "btf_name b off = (case btf__str_by_offset b off of Inr (Some p) \<Rightarrow> Some (cstr p 0) | _ \<Rightarrow> None)"

lemma str_by_offset_wf:
  assumes "btf_wf b"
  shows "\<exists>r. btf__str_by_offset b off = Inr r \<and> (\<forall>p. r = Some p \<longrightarrow> 0 \<in> set p)"
  using assms
proof (induction b)
  case (Cons b base)
  show ?case
  proof (cases "off < start_str_off b")
    case True
    then have "base \<noteq> []" using Cons.prems by (auto simp: btf_start_def)
    then show ?thesis using Cons True by simp
  next
    case False
    obtain s where s: "btf_strs_data b = Inr s" "unat (str_len (hdr b)) \<le> length s"
      "str_len (hdr b) \<noteq> 0 \<longrightarrow> s ! (unat (str_len (hdr b)) - 1) = 0"
      using Cons.prems by (auto simp: strs_wf_def split: sum.splits)
    have "0 \<in> set (drop (unat (off - start_str_off b)) s)" if l: "off - start_str_off b < str_len (hdr b)"
    proof -
      let ?l = "unat (str_len (hdr b))" and ?o = "unat (off - start_str_off b)"
      have o: "?o < ?l" using l by (simp add: word_less_nat_alt)
      then have "drop ?o s ! (?l - 1 - ?o) = 0" "?l - 1 - ?o < length (drop ?o s)"
        using s(2,3) by (auto simp: unat_gt_0)
      then show ?thesis by (metis nth_mem)
    qed
    then show ?thesis using False s by simp
  qed
qed simp

lemma name_is_wf:
  assumes "btf_wf b" "0 \<notin> set s"
  shows "name_is b off s = Inr (btf_name b off = Some s)"
proof -
  obtain r where r: "btf__str_by_offset b off = Inr r" "\<forall>p. r = Some p \<longrightarrow> 0 \<in> set p"
    using str_by_offset_wf [OF assms(1)] by blast
  then show ?thesis
    using c_streq_eq [OF _ assms(2)]
    by (cases r) (auto simp: name_is_def btf__name_by_offset_def btf_name_def)
qed

section \<open>Lookup by name finds the first one\<close>

definition type_of :: "btf \<Rightarrow> u32 \<Rightarrow> btf_type option" where
  "type_of b i =
     (case res_bind (btf__type_by_id b i) deref_type of Inl _ \<Rightarrow> None | Inr t \<Rightarrow> Some t)"

definition type_named :: "btf \<Rightarrow> bytes \<Rightarrow> u32 \<Rightarrow> bool" where
  "type_named b s i \<longleftrightarrow> (case type_of b i of None \<Rightarrow> False | Some t \<Rightarrow> btf_name b (name_off t) = Some s)"

definition type_kind_is :: "btf \<Rightarrow> u32 \<Rightarrow> u32 \<Rightarrow> bool" where
  "type_kind_is b kind i \<longleftrightarrow> (case type_of b i of None \<Rightarrow> False | Some t \<Rightarrow> btf_kind t = kind)"

text \<open>The type at an ID below the number of types.\<close>

lemma type_below:
  assumes "btf_wf b" "i < start_id (hd b) + nr_types (hd b)"
  obtains r t where "btf__type_by_id b i = Inr (Some r)" "deref_type (Some r) = Inr t" "type_of b i = Some t"
proof (cases rule: btf__type_by_id_cases [OF assms(1), of i])
  case 1
  then show thesis using assms(2) by simp
next
  case 2
  then show thesis
    using read_type_ok [of 0 "replicate 12 (0 :: u8)"] by (auto simp: deref_type_def type_of_def intro: that)
next
  case (3 m t n)
  then show thesis by (intro that [of "Type_at m" t]) (simp_all add: deref_type_def type_of_def)
qed

lemma start_id_pos: "btf_wf b \<Longrightarrow> 0 < unat (start_id (hd b))"
proof (induction b)
  case (Cons b base)
  show ?case
  proof (cases base)
    case Nil
    then show ?thesis using Cons.prems by (simp add: btf_start_def)
  next
    case (Cons bb base')
    then show ?thesis
      using btf_start_less(1) [of bb base' "start_id b" "start_str_off b"] Cons.IH Cons.prems by simp
  qed
qed simp

lemma btf_ids_below:
  assumes "btf_wf b" "i \<in> set (btf_ids b)"
  shows "i < start_id (hd b) + nr_types (hd b)"
proof -
  let ?n = "start_id (hd b) + nr_types (hd b)"
  obtain k where k: "i = of_nat k" "1 \<le> k" "k < Suc (unat (btf__get_nr_types (hd b)))" using assms(2) by auto
  have "?n \<noteq> 0"
  proof
    assume "?n = 0"
    moreover have "unat ?n = unat (start_id (hd b)) + unat (nr_types (hd b))"
      using assms(1) by (cases b) (simp_all add: unat_add_small)
    moreover have "0 < unat (start_id (hd b))" by (rule start_id_pos [OF assms(1)])
    ultimately show False by simp
  qed
  then have "unat (?n - 1) = unat ?n - 1" "0 < unat ?n"
    by (simp_all add: unat_minus_one unat_gt_0)
  moreover from this have "k < unat ?n" using k(3) by (simp add: btf__get_nr_types_def)
  moreover have "unat ?n < 2 ^ 32" using unsigned_less [of ?n] by simp
  ultimately show ?thesis using k(1) by (simp add: word_less_nat_alt unat_of_nat_u32)
qed

lemma find_name_find:
  assumes wf: "btf_wf b" and s: "0 \<notin> set s" and ids: "\<forall>i \<in> set is. i < start_id (hd b) + nr_types (hd b)"
  shows "find_name b s is = (case find (type_named b s) is of None \<Rightarrow> Inl (Err ENOENT) | Some i \<Rightarrow> Inr i)"
  using ids
proof (induction "is")
  case (Cons i "is")
  have "i < start_id (hd b) + nr_types (hd b)" using Cons.prems by simp
  then obtain r t where "btf__type_by_id b i = Inr (Some r)" "deref_type (Some r) = Inr t" "type_of b i = Some t"
    by (rule type_below [OF wf])
  then show ?case using Cons name_is_wf [OF wf s] by (simp add: type_named_def)
qed simp

lemma find_name_kind_find:
  assumes wf: "btf_wf b" and s: "0 \<notin> set s" and ids: "\<forall>i \<in> set is. i < start_id (hd b) + nr_types (hd b)"
  shows "find_name_kind b s kind is =
    (case find (\<lambda>i. type_kind_is b kind i \<and> type_named b s i) is of None \<Rightarrow> Inl (Err ENOENT) | Some i \<Rightarrow> Inr i)"
  using ids
proof (induction "is")
  case (Cons i "is")
  have "i < start_id (hd b) + nr_types (hd b)" using Cons.prems by simp
  then obtain r t where "btf__type_by_id b i = Inr (Some r)" "deref_type (Some r) = Inr t" "type_of b i = Some t"
    by (rule type_below [OF wf])
  then show ?case using Cons name_is_wf [OF wf s] by (simp add: type_named_def type_kind_is_def)
qed simp

text \<open>
  In a well-formed BTF a lookup by name, or by name and kind, returns the first ID whose
  type has the name (and the kind), the bases' types coming first, and fails with \<open>ENOENT\<close>
  exactly when there is none; \<open>void\<close> is always found at 0.
\<close>

lemma btf_find_first:
  assumes "btf_wf b" "0 \<notin> set s"
  shows "btf__find_by_name b s =
      (if s = void_name then Inr 0
       else case find (type_named b s) (btf_ids b) of None \<Rightarrow> Inl (Err ENOENT) | Some i \<Rightarrow> Inr i) \<and>
    btf__find_by_name_kind b s kind =
      (if kind = 0 \<or> s = void_name then Inr 0
       else case find (\<lambda>i. type_kind_is b kind i \<and> type_named b s i) (btf_ids b) of
              None \<Rightarrow> Inl (Err ENOENT)
            | Some i \<Rightarrow> Inr i)"
proof -
  have ids: "\<forall>i \<in> set (btf_ids b). i < start_id (hd b) + nr_types (hd b)" using btf_ids_below [OF assms(1)] by blast
  show ?thesis
    unfolding btf__find_by_name_def btf__find_by_name_kind_def
      find_name_find [OF assms ids] find_name_kind_find [OF assms ids]
    by (intro conjI refl)
qed

section \<open>The pointer size\<close>

lemma scan_ptr_size_wf:
  assumes wf: "btf_wf b" and ids: "\<forall>i \<in> set is. i < start_id (hd b) + nr_types (hd b)"
  shows "\<exists>p. scan_ptr_size b is = Inr p \<and> (p = -1 \<or> p = 4 \<or> p = 8)"
  using ids
proof (induction "is")
  case (Cons i "is")
  have "i < start_id (hd b) + nr_types (hd b)" using Cons.prems by simp
  then obtain r t where t: "btf__type_by_id b i = Inr (Some r)" "deref_type (Some r) = Inr t"
    by (rule type_below [OF wf])
  obtain nm where nm: "btf__str_by_offset b (name_off t) = Inr nm" "\<forall>p. nm = Some p \<longrightarrow> 0 \<in> set p"
    using str_by_offset_wf [OF wf] by blast
  show ?case
  proof (cases nm)
    case None
    then show ?thesis using Cons t nm by (simp add: btf__name_by_offset_def)
  next
    case (Some p)
    then have "c_streq p long_int_name = Inr (cstr p 0 = long_int_name)"
      "c_streq p long_unsigned_int_name = Inr (cstr p 0 = long_unsigned_int_name)"
      using nm(2) by (intro c_streq_eq; simp)+
    moreover obtain p0 where "scan_ptr_size b is = Inr p0" "p0 = -1 \<or> p0 = 4 \<or> p0 = 8"
      using Cons by auto
    moreover have "uint (size_type t) = 4 \<or> uint (size_type t) = 8" if "size_type t = 4 \<or> size_type t = 8"
      using that by auto
    ultimately show ?thesis using Cons.prems t nm(1) Some by (auto simp: btf__name_by_offset_def)
  qed
qed simp

lemma signed_ids_below:
  assumes "btf_wf b" "i \<in> set (map of_nat [1..<Suc (nat (sint (btf__get_nr_types (hd b))))])"
  shows "i < start_id (hd b) + nr_types (hd b)"
proof -
  let ?w = "btf__get_nr_types (hd b)"
  have "nat (sint ?w) \<le> unat ?w"
  proof -
    have "- 2147483648 \<le> uint ?w" by (rule order.trans [of _ 0]) simp_all
    then have "sint ?w \<le> uint ?w" by (simp add: sint_uint signed_take_bit_int_less_eq_self_iff)
    from nat_mono [OF this] show ?thesis by simp
  qed
  then have "i \<in> set (btf_ids b)" using assms(2) by (auto simp del: upt_Suc)
  then show ?thesis by (rule btf_ids_below [OF assms(1)])
qed

text \<open>
  A pointer size that has been set is 4, 8 or, when it could not be determined, -1.
\<close>

definition ptr_sz_ok :: "btf \<Rightarrow> bool" where
  "ptr_sz_ok b \<longleftrightarrow> (\<forall>inst \<in> set b. ptr_sz inst \<in> {-1, 0, 4, 8})"

lemma cache_ptr_sz_wf:
  assumes wf: "btf_wf b" and ok: "ptr_sz_ok b"
  shows "\<exists>p. cache_ptr_sz b = Inr ((hd b)\<lparr>ptr_sz := p\<rparr> # tl b) \<and> p \<in> {-1, 4, 8}"
proof -
  obtain bb base where b: "b = bb # base" using wf by (cases b) auto
  obtain p where p: "scan_ptr_size b (map of_nat [1..<Suc (nat (sint (btf__get_nr_types (hd b))))]) = Inr p"
    "p = -1 \<or> p = 4 \<or> p = 8"
    using scan_ptr_size_wf [OF wf] signed_ids_below [OF wf] by blast
  have det: "\<exists>p. determine_ptr_size b = Inr p \<and> p \<in> {-1, 4, 8}"
    using p ok by (cases base) (auto simp: determine_ptr_size_def ptr_sz_ok_def b)
  show ?thesis
  proof (cases "ptr_sz bb = 0")
    case True
    then show ?thesis using det by (auto simp: cache_ptr_sz_def b)
  next
    case False
    then have "ptr_sz bb \<in> {-1, 4, 8}" using ok by (auto simp: ptr_sz_ok_def b)
    moreover have "cache_ptr_sz b = Inr (bb\<lparr>ptr_sz := ptr_sz bb\<rparr> # base)"
      using False by (simp add: cache_ptr_sz_def b)
    ultimately show ?thesis by (intro exI [of _ "ptr_sz bb"]) (simp add: b)
  qed
qed

lemma btf_ptr_sz_wf:
  assumes "btf_wf b" "ptr_sz_ok b"
  shows "\<exists>p q. btf_ptr_sz b = Inr (p, (hd b)\<lparr>ptr_sz := q\<rparr> # tl b) \<and> p \<in> {4, 8}"
  using cache_ptr_sz_wf [OF assms] by (auto simp: btf_ptr_sz_def)

section \<open>Sizes are sizes of the type\<close>

text \<open>What the size of a type is, without a bound on depth or size.\<close>

inductive sized :: "btf \<Rightarrow> u32 \<Rightarrow> int \<Rightarrow> bool" for b where
  own: "type_of b i = Some t \<Longrightarrow>
    btf_kind t \<in> {BTF_KIND_INT, BTF_KIND_STRUCT, BTF_KIND_UNION, BTF_KIND_ENUM, BTF_KIND_DATASEC, BTF_KIND_FLOAT} \<Longrightarrow>
    sized b i (uint (size_type t))"
| ptr: "type_of b i = Some t \<Longrightarrow> btf_kind t = BTF_KIND_PTR \<Longrightarrow> btf_ptr_sz b = Inr (p, b') \<Longrightarrow> sized b i p"
| via: "type_of b i = Some t \<Longrightarrow>
    btf_kind t \<in> {BTF_KIND_TYPEDEF, BTF_KIND_VOLATILE, BTF_KIND_CONST, BTF_KIND_RESTRICT, BTF_KIND_VAR} \<Longrightarrow>
    sized b (size_type t) s \<Longrightarrow> sized b i s"
| array: "type_of b i = Some t \<Longrightarrow> btf_kind t = BTF_KIND_ARRAY \<Longrightarrow> btf__type_by_id b i = Inr r \<Longrightarrow>
    ref_u32 r 12 = Inr elem \<Longrightarrow> ref_u32 r 20 = Inr cnt \<Longrightarrow> sized b elem s \<Longrightarrow> sized b i (uint cnt * s)"

inductive_cases sized_E: "sized b i s"

lemma resolved_size_Inr:
  assumes "resolved_size s n = Inr v"
  shows "v = uint n * s" "0 \<le> s" "v \<le> UINT32_MAX"
proof -
  show v: "v = uint n * s" "0 \<le> s" using assms by (auto simp: resolved_size_def split: if_splits)
  show "v \<le> UINT32_MAX"
  proof (cases "n = 0")
    case False
    then have pos: "0 < uint n" by (simp add: order_less_le uint_0_iff)
    moreover have "s \<le> UINT32_MAX div uint n"
      using assms False by (auto simp: resolved_size_def split: if_splits)
    ultimately have "uint n * s \<le> uint n * (UINT32_MAX div uint n)" by (intro mult_left_mono) auto
    also have "\<dots> \<le> UINT32_MAX" using pos by (simp add: minus_mod_eq_mult_div [symmetric])
    finally show ?thesis using v by simp
  qed (use v in simp)
qed

lemma word_mult_checked:
  assumes "nelems = 0 \<or> \<not> cnt > UINT32_MAX div nelems"
  shows "uint (nelems * cnt :: u32) = uint nelems * uint cnt"
proof (cases "nelems = 0")
  case False
  then have pos: "0 < uint nelems" by (simp add: order_less_le uint_0_iff)
  have "uint cnt \<le> uint (UINT32_MAX div nelems)" using assms False by (simp add: word_le_def not_less)
  then have "uint cnt \<le> UINT32_MAX div uint nelems" by (simp add: uint_div_distrib)
  then have "uint nelems * uint cnt \<le> uint nelems * (UINT32_MAX div uint nelems)"
    using pos by (intro mult_left_mono) auto
  also have "\<dots> \<le> UINT32_MAX" using pos by (simp add: minus_mod_eq_mult_div [symmetric])
  finally show ?thesis by (simp add: uint_mult_lem [THEN iffD1])
qed simp

definition ptr_cached :: "btf \<Rightarrow> btf \<Rightarrow> bool" where
  "ptr_cached b b' \<longleftrightarrow> b' = b \<or> (\<exists>q. b' = (hd b)\<lparr>ptr_sz := q\<rparr> # tl b)"

lemma type_at_kinds:
  assumes "btf__type_by_id b i = Inr (Some (Type_at m))" "read_type m 0 = Inr t"
  shows "type_of b i = Some t" "deref_type (Some (Type_at m)) = Inr t"
    "btf_type_is_void_or_null (Some (Type_at m)) = Inr (btf_kind t = BTF_KIND_FWD)"
  using assms
  by (simp_all add: type_of_def deref_type_def btf_type_is_void_or_null_def btf_type_is_void_def)

lemma array_fields:
  assumes "btf_type_size t = Inr n" "n \<le> length m" "btf_kind t = BTF_KIND_ARRAY"
  shows "\<exists>elem cnt. ref_u32 (Some (Type_at m)) 12 = Inr elem \<and> ref_u32 (Some (Type_at m)) 20 = Inr cnt"
proof -
  have "24 \<le> length m" using assms by (simp add: btf_type_size_def Let_def)
  then show ?thesis using mem_u32_ok [of 12 m] mem_u32_ok [of 20 m] by (simp add: ref_u32_def)
qed

lemma resolved_size_err: "resolved_size s n = Inl e \<Longrightarrow> e = Err EINVAL \<or> e = Err E2BIG"
  by (auto simp: resolved_size_def split: if_splits)

definition size_result :: "btf \<Rightarrow> u32 \<Rightarrow> u32 \<Rightarrow> int cres \<times> btf \<Rightarrow> bool" where
  "size_result b i nelems r \<longleftrightarrow> ptr_cached b (snd r) \<and>
     (case fst r of
        Inl e \<Rightarrow> e = Err EINVAL \<or> e = Err E2BIG
      | Inr v \<Rightarrow> v \<le> UINT32_MAX \<and> (\<exists>s. sized b i s \<and> 0 \<le> s \<and> v = uint nelems * s))"

lemma size_result_resolved:
  assumes "sized b i s" "ptr_cached b b'"
  shows "size_result b i nelems (resolved_size s nelems, b')"
  using assms resolved_size_Inr [of s nelems] resolved_size_err [of s nelems]
  by (cases "resolved_size s nelems") (auto simp: size_result_def)

lemma resolve_size_loop_sized:
  assumes wf: "btf_wf b" and ok: "ptr_sz_ok b" and t: "btf__type_by_id b i = Inr t"
  shows "size_result b i nelems (resolve_size_loop n b t nelems)"
  using t
proof (induction n arbitrary: i t nelems)
  case 0
  then show ?case by (simp add: size_result_def resolved_size_def ptr_cached_def)
next
  case (Suc n)
  note result = size_result_def resolved_size_def ptr_cached_def
  show ?case
  proof (cases rule: btf__type_by_id_cases [OF wf, of i])
    case 1
    then show ?thesis using Suc.prems by (simp add: btf_type_is_void_or_null_def result)
  next
    case 2
    then show ?thesis using Suc.prems by (auto simp: btf_type_is_void_or_null_def btf_type_is_void_def result)
  next
    case (3 m ty sz0)
    then have tt: "t = Some (Type_at m)" using Suc.prems by simp
    note k = type_at_kinds [OF 3(1,2)]
    have total: "\<exists>t'. btf__type_by_id b j = Inr t'" for j
      by (cases rule: btf__type_by_id_cases [OF wf, of j]) auto
    let ?own = "{BTF_KIND_INT, BTF_KIND_STRUCT, BTF_KIND_UNION, BTF_KIND_ENUM, BTF_KIND_DATASEC, BTF_KIND_FLOAT}"
    let ?via = "{BTF_KIND_TYPEDEF, BTF_KIND_VOLATILE, BTF_KIND_CONST, BTF_KIND_RESTRICT, BTF_KIND_VAR}"
    consider (own) "btf_kind ty \<in> ?own" | (ptr) "btf_kind ty = BTF_KIND_PTR" | (via) "btf_kind ty \<in> ?via"
      | (array) "btf_kind ty = BTF_KIND_ARRAY"
      | (other) "btf_kind ty \<notin> ?own \<union> ?via \<union> {BTF_KIND_PTR, BTF_KIND_ARRAY}"
      by blast
    then show ?thesis
    proof cases
      case own
      then have "resolve_size_loop (Suc n) b t nelems = (resolved_size (uint (size_type ty)) nelems, b)"
        using k tt by auto
      then show ?thesis
        using size_result_resolved [OF sized.own [OF k(1) own]] by (simp add: ptr_cached_def)
    next
      case ptr
      obtain p q where p: "btf_ptr_sz b = Inr (p, (hd b)\<lparr>ptr_sz := q\<rparr> # tl b)"
        using btf_ptr_sz_wf [OF wf ok] by blast
      then have "resolve_size_loop (Suc n) b t nelems = (resolved_size p nelems, (hd b)\<lparr>ptr_sz := q\<rparr> # tl b)"
        using k tt ptr by simp
      then show ?thesis
        using size_result_resolved [OF sized.ptr [OF k(1) ptr p]] by (auto simp: ptr_cached_def)
    next
      case via
      obtain t' where t': "btf__type_by_id b (size_type ty) = Inr t'" using total by blast
      then have "resolve_size_loop (Suc n) b t nelems = resolve_size_loop n b t' nelems"
        using k tt via by auto
      then show ?thesis
        using Suc.IH [OF t', of nelems] sized.via [OF k(1) via]
        by (auto simp: size_result_def split: sum.splits)
    next
      case array
      obtain elem cnt where f: "ref_u32 (Some (Type_at m)) 12 = Inr elem" "ref_u32 (Some (Type_at m)) 20 = Inr cnt"
        using array_fields [OF 3(3,5) array] by blast
      obtain t' where t': "btf__type_by_id b elem = Inr t'" using total by blast
      show ?thesis
      proof (cases "nelems \<noteq> 0 \<and> cnt > UINT32_MAX div nelems")
        case True
        then show ?thesis using k tt array f by (simp add: result)
      next
        case False
        then have "resolve_size_loop (Suc n) b t nelems = resolve_size_loop n b t' (nelems * cnt)"
          using k tt array f t' by auto
        moreover have "uint (nelems * cnt) = uint nelems * uint cnt"
          using False by (intro word_mult_checked) auto
        ultimately show ?thesis
          using Suc.IH [OF t', of "nelems * cnt"] sized.array [OF k(1) array 3(1) f]
          by (fastforce simp: size_result_def mult.assoc split: sum.splits)
      qed
    next
      case other
      then have "resolve_size_loop (Suc n) b t nelems = (Inl (Err EINVAL), b) \<or>
          resolve_size_loop (Suc n) b t nelems = (resolved_size (-1) nelems, b)"
        using k tt by (cases "btf_kind ty = BTF_KIND_FWD") simp_all
      then show ?thesis by (auto simp: result)
    qed
  qed
qed

text \<open>
  C29. In a well-formed BTF resolving a size reads no foreign memory and fails only with
  \<open>EINVAL\<close> or \<open>E2BIG\<close>. When it succeeds the result is the size of the type, the product of
  the array dimensions on the way and the size at its end, without having wrapped around,
  and it fits in 32 bits; the BTF has changed by the cached pointer size at most.
\<close>

theorem btf_resolve_size_sound:
  assumes "btf_wf b" "ptr_sz_ok b"
  shows "\<exists>res b'. btf__resolve_size b i = (res, b') \<and> ptr_cached b b' \<and>
    (case res of
       Inl e \<Rightarrow> e = Err EINVAL \<or> e = Err E2BIG
     | Inr v \<Rightarrow> sized b i v \<and> 0 \<le> v \<and> v \<le> UINT32_MAX)"
proof -
  obtain t where t: "btf__type_by_id b i = Inr t"
    by (cases rule: btf__type_by_id_cases [OF assms(1), of i]) auto
  then have "size_result b i 1 (btf__resolve_size b i)"
    using resolve_size_loop_sized [OF assms t, of 1 MAX_RESOLVE_DEPTH] by (simp add: btf__resolve_size_def)
  then show ?thesis
    by (cases "btf__resolve_size b i") (auto simp: size_result_def split: sum.splits)
qed

lemma sized_deterministic: "sized b i s \<Longrightarrow> sized b i s' \<Longrightarrow> s' = s"
proof (induction arbitrary: s' rule: sized.induct)
  case (own i t)
  then show ?case by (auto elim: sized_E)
next
  case (ptr i t p b')
  from ptr(4) show ?case by cases (use ptr(1-3) in auto)
next
  case (via i t s)
  from via(5) show ?case by cases (use via(1,2,4) in auto)
next
  case (array i t r elem cnt s)
  from array(8) show ?case by cases (use array(1-5,7) in auto)
qed

section \<open>Modifiers are skipped\<close>

definition skip_step :: "btf \<Rightarrow> u32 \<Rightarrow> u32 \<Rightarrow> bool" where
  "skip_step b i j \<longleftrightarrow> (\<exists>t. type_of b i = Some t \<and> btf_is_skipped t \<and> j = size_type t)"

definition resolved :: "btf \<Rightarrow> u32 \<Rightarrow> bool" where
  "resolved b j \<longleftrightarrow> j \<noteq> 0 \<and>
     (\<exists>t. type_of b j = Some t \<and> \<not> btf_is_skipped t \<and> btf_kind t \<noteq> BTF_KIND_FWD)"

lemma resolve_type_loop_iff:
  assumes wf: "btf_wf b" and t: "btf__type_by_id b i = Inr t"
  shows "(\<exists>j. resolve_type_loop n b i t = Inr j \<and> (\<exists>k<n. (skip_step b ^^ k) i j) \<and> resolved b j) \<or>
    resolve_type_loop n b i t = Inl (Err EINVAL) \<and> \<not> (\<exists>j k. k < n \<and> (skip_step b ^^ k) i j \<and> resolved b j)"
  using t
proof (induction n arbitrary: i t)
  case 0
  then show ?case by simp
next
  case (Suc n)
  show ?case
  proof (cases rule: btf__type_by_id_cases [OF wf, of i])
    case 1
    then have "type_of b i = None" by (simp add: type_of_def deref_type_def)
    then have "\<not> ((skip_step b ^^ k) i j \<and> resolved b j)" for k j
      by (cases k) (auto simp: resolved_def skip_step_def simp del: relpowp.simps(2) elim!: relpowp_Suc_E2)
    then show ?thesis using 1 Suc.prems by (auto simp: btf_type_is_void_or_null_def)
  next
    case 2
    have "type_of b i = Some \<lparr>name_off = 0, info = 0, size_type = 0\<rparr>"
      using 2 by (simp add: type_of_def deref_type_def read_type_def mem_u32_def mem_read_def eval_nat_numeral)
    then have "\<not> ((skip_step b ^^ k) i j \<and> resolved b j)" for k j
      using 2 by (cases k) (auto simp: resolved_def skip_step_def btf_is_skipped_def btf_is_mod_def btf_kind_def simp del: relpowp.simps(2) elim!: relpowp_Suc_E2)
    then show ?thesis using 2 Suc.prems by (auto simp: btf_type_is_void_or_null_def btf_type_is_void_def)
  next
    case (3 m ty sz0)
    then have tt: "t = Some (Type_at m)" using Suc.prems by simp
    note k = type_at_kinds [OF 3(1,2)]
    have step: "skip_step b i j \<longleftrightarrow> btf_is_skipped ty \<and> j = size_type ty" for j
      using k(1) by (simp add: skip_step_def)
    have res: "resolved b i \<longleftrightarrow> \<not> btf_is_skipped ty \<and> btf_kind ty \<noteq> BTF_KIND_FWD"
      using k(1) 3(6) by (simp add: resolved_def)
    show ?thesis
    proof (cases "btf_is_skipped ty")
      case True
      then have "btf_kind ty \<noteq> BTF_KIND_FWD" by (auto simp: btf_is_skipped_def btf_is_mod_def)
      moreover obtain t' where t': "btf__type_by_id b (size_type ty) = Inr t'"
        by (cases rule: btf__type_by_id_cases [OF wf, of "size_type ty"]) auto
      ultimately have eq: "resolve_type_loop (Suc n) b i t = resolve_type_loop n b (size_type ty) t'"
        using k tt True by simp
      have "(\<exists>k<Suc n. (skip_step b ^^ k) i j) \<and> resolved b j \<longleftrightarrow>
          (\<exists>k<n. (skip_step b ^^ k) (size_type ty) j) \<and> resolved b j" for j
      proof
        assume l: "(\<exists>k<Suc n. (skip_step b ^^ k) i j) \<and> resolved b j"
        then obtain k where "k < Suc n" "(skip_step b ^^ k) i j" by blast
        then show "(\<exists>k<n. (skip_step b ^^ k) (size_type ty) j) \<and> resolved b j"
          using l res True step by (cases k) (auto simp del: relpowp.simps(2) elim!: relpowp_Suc_E2)
      next
        assume r: "(\<exists>k<n. (skip_step b ^^ k) (size_type ty) j) \<and> resolved b j"
        then obtain k where "k < n" "(skip_step b ^^ k) (size_type ty) j" by blast
        then have "Suc k < Suc n \<and> (skip_step b ^^ Suc k) i j"
          using True step by (auto simp del: relpowp.simps(2) intro: relpowp_Suc_I2)
        then show "(\<exists>k<Suc n. (skip_step b ^^ k) i j) \<and> resolved b j" using r by blast
      qed
      then show ?thesis using Suc.IH [OF t'] unfolding eq by blast
    next
      case False
      then have "(skip_step b ^^ k) i j \<longleftrightarrow> k = 0 \<and> j = i" for k j
        using step by (cases k) (auto simp del: relpowp.simps(2) elim!: relpowp_Suc_E2)
      then show ?thesis using k tt False res by auto
    qed
  qed
qed

text \<open>
  C30. In a well-formed BTF resolving a type follows modifiers, typedefs and variables to the
  first type that is none of them, and returns it when that takes fewer than 32 steps and it
  is neither \<open>void\<close>, a forward declaration nor missing; it fails with \<open>EINVAL\<close> otherwise.
\<close>

theorem btf_resolve_type_correct:
  assumes wf: "btf_wf b"
  shows "(\<exists>j. btf__resolve_type b i = Inr j \<and> (\<exists>k<32. (skip_step b ^^ k) i j) \<and> resolved b j) \<or>
    btf__resolve_type b i = Inl (Err EINVAL) \<and> \<not> (\<exists>j k. k < 32 \<and> (skip_step b ^^ k) i j \<and> resolved b j)"
proof -
  obtain t where t: "btf__type_by_id b i = Inr t"
    by (cases rule: btf__type_by_id_cases [OF wf, of i]) auto
  then show ?thesis
    using resolve_type_loop_iff [OF wf t, of MAX_RESOLVE_DEPTH] by (simp only: btf__resolve_type_def res_bind_simps)
qed

section \<open>Alignments terminate on acyclic types\<close>

text \<open>The IDs that the alignment of a type is computed from.\<close>

definition aligns_by :: "btf \<Rightarrow> u32 \<Rightarrow> u32 \<Rightarrow> bool" where
  "aligns_by b i j \<longleftrightarrow>
     (\<exists>r t. btf__type_by_id b i = Inr (Some r) \<and> deref_type (Some r) = Inr t \<and>
        (btf_kind t \<in> {BTF_KIND_TYPEDEF, BTF_KIND_VOLATILE, BTF_KIND_CONST, BTF_KIND_RESTRICT} \<and> j = size_type t \<or>
         btf_kind t = BTF_KIND_ARRAY \<and> ref_u32 (Some r) 12 = Inr j \<or>
         btf_kind t \<in> {BTF_KIND_STRUCT, BTF_KIND_UNION} \<and>
           (\<exists>k < unat (btf_vlen t). mem_u32 (ref_bytes r) (12 + 12 * k + 4) = Inr j)))"

text \<open>Caching the pointer size changes nothing that these operations look at.\<close>

definition ptr_sz_val :: "int \<Rightarrow> bool" where
  "ptr_sz_val q \<longleftrightarrow> q \<in> {-1, 0, 4, 8}"

lemma ptr_sz_ok_iff: "ptr_sz_ok b \<longleftrightarrow> (\<forall>inst \<in> set b. ptr_sz_val (ptr_sz inst))"
  by (simp add: ptr_sz_ok_def ptr_sz_val_def)

definition same_btf :: "btf \<Rightarrow> btf \<Rightarrow> bool" where
  "same_btf b b' \<longleftrightarrow> b \<noteq> [] \<and> (\<exists>q. ptr_sz_val q \<and> b' = (hd b)\<lparr>ptr_sz := q\<rparr> # tl b)"

lemma same_btfE:
  assumes "same_btf b b'"
  obtains inst base q where "b = inst # base" "ptr_sz_val q" "b' = inst\<lparr>ptr_sz := q\<rparr> # base"
  using assms by (cases b) (simp add: same_btf_def, auto simp: same_btf_def)

lemma same_btf_refl:
  assumes "btf_wf b" "ptr_sz_ok b"
  shows "same_btf b b"
proof -
  obtain inst base where b: "b = inst # base" using assms(1) by (cases b) auto
  have "ptr_sz_val (ptr_sz inst)" using assms(2) by (simp add: ptr_sz_ok_iff b)
  moreover have "b = inst\<lparr>ptr_sz := ptr_sz inst\<rparr> # base" by (simp add: b)
  ultimately show ?thesis unfolding same_btf_def b by (intro conjI exI [of _ "ptr_sz inst"]) simp_all
qed

lemma same_btf_trans:
  assumes "same_btf b b'" "same_btf b' b''"
  shows "same_btf b b''"
proof -
  obtain inst base q where 1: "b = inst # base" "ptr_sz_val q" "b' = inst\<lparr>ptr_sz := q\<rparr> # base"
    using assms(1) by (rule same_btfE)
  obtain q' where "ptr_sz_val q'" "b'' = (hd b')\<lparr>ptr_sz := q'\<rparr> # tl b'"
    using assms(2) unfolding same_btf_def by blast
  then show ?thesis unfolding same_btf_def 1 by (intro conjI exI [of _ q']) simp_all
qed

lemma same_btf_types:
  assumes "same_btf b b'"
  shows "btf__type_by_id b' i = btf__type_by_id b i" "aligns_by b' = aligns_by b"
    "start_id (hd b') + nr_types (hd b') = start_id (hd b) + nr_types (hd b)"
proof -
  obtain inst base q where b: "b = inst # base" "b' = inst\<lparr>ptr_sz := q\<rparr> # base"
    using assms by (rule same_btfE)
  show t: "btf__type_by_id b' i = btf__type_by_id b i" for i
    by (simp add: b btf__type_by_id_def)
  show "aligns_by b' = aligns_by b" by (simp add: aligns_by_def fun_eq_iff t)
  show "start_id (hd b') + nr_types (hd b') = start_id (hd b) + nr_types (hd b)"
    by (simp add: b)
qed

lemma ptr_sz_irrelevant [simp]:
  "btf_strs_data (inst\<lparr>ptr_sz := q\<rparr>) = btf_strs_data inst"
  "types_wf (inst\<lparr>ptr_sz := q\<rparr>) = types_wf inst" "strs_wf (inst\<lparr>ptr_sz := q\<rparr>) = strs_wf inst"
proof -
  show s: "btf_strs_data (inst\<lparr>ptr_sz := q\<rparr>) = btf_strs_data inst"
    by (simp add: btf_strs_data_def cong: option.case_cong)
  show "types_wf (inst\<lparr>ptr_sz := q\<rparr>) = types_wf inst" by (simp add: types_wf_def)
  show "strs_wf (inst\<lparr>ptr_sz := q\<rparr>) = strs_wf inst"
    by (simp add: strs_wf_def s cong: sum.case_cong)
qed

lemma same_btf_wf:
  assumes "same_btf b b'" "btf_wf b" "ptr_sz_ok b"
  shows "btf_wf b'" "ptr_sz_ok b'"
proof -
  obtain inst base q where b: "b = inst # base" "ptr_sz_val q" "b' = inst\<lparr>ptr_sz := q\<rparr> # base"
    using assms(1) by (rule same_btfE)
  show "btf_wf b'" using assms(2) by (simp add: b)
  show "ptr_sz_ok b'" using assms(3) b(2) by (simp add: b(1,3) ptr_sz_ok_iff)
qed

lemma btf_ptr_sz_same:
  assumes "btf_wf b" "ptr_sz_ok b"
  shows "\<exists>p b'. btf_ptr_sz b = Inr (p, b') \<and> same_btf b b' \<and> p \<in> {4, 8}"
proof -
  obtain p where p: "cache_ptr_sz b = Inr ((hd b)\<lparr>ptr_sz := p\<rparr> # tl b)" "p \<in> {-1, 4, 8}"
    using cache_ptr_sz_wf [OF assms] by blast
  have "ptr_sz_val p" using p(2) by (auto simp: ptr_sz_val_def)
  moreover have "b \<noteq> []" using assms(1) by auto
  ultimately have "same_btf b ((hd b)\<lparr>ptr_sz := p\<rparr> # tl b)" unfolding same_btf_def by blast
  then show ?thesis using p by (auto simp: btf_ptr_sz_def)
qed

definition align_result :: "btf \<Rightarrow> (int \<times> btf) cres option \<Rightarrow> bool" where
  "align_result b r \<longleftrightarrow> (\<exists>a b'. r = Some (Inr (a, b')) \<and> 0 \<le> a \<and> same_btf b b')"

lemma max_align_of_result:
  assumes calls: "\<And>b' k j. same_btf b b' \<Longrightarrow> k < n \<Longrightarrow> mem_u32 m (off + 12 * k + 4) = Inr j \<Longrightarrow>
      align_result b' (al b' j)"
    and room: "off + 12 * n \<le> length m" and b: "same_btf b b0" and mx: "0 \<le> mx"
  shows "align_result b (max_align_of al b0 m off n mx)"
  using calls room b mx
proof (induction n arbitrary: off b0 mx)
  case 0
  then show ?case by (simp add: align_result_def)
next
  case (Suc n)
  obtain j where j: "mem_u32 m (off + 4) = Inr j" using mem_u32_ok [of "off + 4" m] Suc.prems(2) by auto
  obtain a b1 where a: "al b0 j = Some (Inr (a, b1))" "0 \<le> a" "same_btf b0 b1"
    using Suc.prems(1) [OF Suc.prems(3), of 0 j] j by (auto simp: align_result_def)
  have b1: "same_btf b b1" using same_btf_trans [OF Suc.prems(3) a(3)] .
  have next_call: "align_result b' (al b' j)"
    if "same_btf b b'" "k < n" "mem_u32 m (off + 12 + 12 * k + 4) = Inr j" for b' k j
  proof -
    have "off + 12 * Suc k + 4 = off + 12 + 12 * k + 4" by simp
    then show ?thesis using Suc.prems(1) [OF that(1), of "Suc k" j] that(2,3) by simp
  qed
  have "align_result b (max_align_of al b1 m (off + 12) n (max mx a))"
    using Suc.prems(2,4) by (intro Suc.IH [OF next_call _ b1]) auto
  then show ?case using j a b1 by (simp add: align_result_def)
qed

lemma btf_align_of_ranked:
  assumes ranked: "\<And>i j. aligns_by b0 i j \<Longrightarrow> rank j < rank i \<and> j < start_id (hd b0) + nr_types (hd b0)"
    and b: "same_btf b0 b" "btf_wf b0" "ptr_sz_ok b0"
    and i: "i < start_id (hd b0) + nr_types (hd b0)" and depth: "rank i < depth"
  shows "align_result b (btf__align_of depth b i)"
  using b(1) i depth
proof (induction depth arbitrary: b i)
  case 0
  then show ?case by simp
next
  case (Suc depth)
  note wf = same_btf_wf [OF Suc.prems(1) b(2,3)] and types = same_btf_types [OF Suc.prems(1)]
  note refl = same_btf_refl [OF wf]
  have down: "align_result b' (btf__align_of depth b' j)" if "aligns_by b i j" "same_btf b b'" for b' j
    using ranked [of i j] that types(2) Suc.prems(3) same_btf_trans [OF Suc.prems(1) that(2)]
    by (intro Suc.IH) auto
  have lim: "i < start_id (hd b) + nr_types (hd b)" using Suc.prems(2) types(3) by simp
  show ?case
  proof (cases rule: btf__type_by_id_cases [OF wf(1), of i])
    case 1
    then show ?thesis using lim by simp
  next
    case 2
    have "deref_type (Some Btf_void) = Inr \<lparr>name_off = 0, info = 0, size_type = 0\<rparr>"
      by (simp add: deref_type_def read_type_def mem_u32_def mem_read_def eval_nat_numeral)
    then show ?thesis using 2 refl by (simp add: btf_kind_def align_result_def)
  next
    case (3 m t n)
    have d: "deref_type (Some (Type_at m)) = Inr t" using 3(2) by (simp add: deref_type_def)
    have unfold: "btf__align_of (Suc depth) b i =
       (let kind = btf_kind t
          in if kind \<in> {BTF_KIND_INT, BTF_KIND_ENUM, BTF_KIND_FLOAT}
             then Some (res_bind (btf_ptr_sz b) (\<lambda>(p, b). Inr (min p (uint (size_type t)), b)))
             else if kind = BTF_KIND_PTR then Some (btf_ptr_sz b)
             else if kind \<in> {BTF_KIND_TYPEDEF, BTF_KIND_VOLATILE, BTF_KIND_CONST, BTF_KIND_RESTRICT}
             then btf__align_of depth b (size_type t)
             else if kind = BTF_KIND_ARRAY
             then (case ref_u32 (Some (Type_at m)) 12 of Inl e \<Rightarrow> Some (Inl e) | Inr elem \<Rightarrow> btf__align_of depth b elem)
             else if kind \<in> {BTF_KIND_STRUCT, BTF_KIND_UNION}
             then max_align_of (btf__align_of depth) b m 12 (unat (btf_vlen t)) 1
             else Some (Inr (0, b)))"
      using 3(1) d by (simp add: Let_def)
    let ?own = "{BTF_KIND_INT, BTF_KIND_ENUM, BTF_KIND_FLOAT}"
    let ?via = "{BTF_KIND_TYPEDEF, BTF_KIND_VOLATILE, BTF_KIND_CONST, BTF_KIND_RESTRICT}"
    let ?comp = "{BTF_KIND_STRUCT, BTF_KIND_UNION}"
    obtain p b' where p: "btf_ptr_sz b = Inr (p, b')" "same_btf b b'" "p \<in> {4, 8}"
      using btf_ptr_sz_same [OF wf] by blast
    consider (own) "btf_kind t \<in> ?own" | (ptr) "btf_kind t = BTF_KIND_PTR" | (via) "btf_kind t \<in> ?via"
      | (array) "btf_kind t = BTF_KIND_ARRAY" | (comp) "btf_kind t \<in> ?comp"
      | (other) "btf_kind t \<notin> ?own \<union> ?via \<union> ?comp \<union> {BTF_KIND_PTR, BTF_KIND_ARRAY}"
      by blast
    then show ?thesis
    proof cases
      case own
      then show ?thesis unfolding unfold using p by (auto simp: align_result_def)
    next
      case ptr
      then show ?thesis unfolding unfold using p by (auto simp: align_result_def)
    next
      case via
      then have "aligns_by b i (size_type t)" using 3(1) d by (auto simp: aligns_by_def)
      from down [OF this refl] show ?thesis unfolding unfold using via by auto
    next
      case array
      obtain elem where f: "ref_u32 (Some (Type_at m)) 12 = Inr elem"
        using array_fields [OF 3(3,5) array] by blast
      then have "aligns_by b i elem" using 3(1) d array by (auto simp: aligns_by_def)
      from down [OF this refl] show ?thesis unfolding unfold using array f by simp
    next
      case comp
      have "12 + 12 * unat (btf_vlen t) \<le> length m"
        using 3(3,5) comp by (auto simp: btf_type_size_def Let_def)
      moreover have "aligns_by b i j" if "k < unat (btf_vlen t)" "mem_u32 m (12 + 12 * k + 4) = Inr j" for k j
        using 3(1) d comp that by (auto simp: aligns_by_def)
      ultimately have "align_result b (max_align_of (btf__align_of depth) b m 12 (unat (btf_vlen t)) 1)"
        by (intro max_align_of_result [OF down _ refl]) auto
      then show ?thesis unfolding unfold using comp by auto
    next
      case other
      then show ?thesis unfolding unfold using refl by (simp add: align_result_def)
    qed
  qed
qed

text \<open>
  C31. When the references that alignments follow go down some rank and stay inside the BTF,
  a stack as deep as the rank suffices: \<open>btf__align_of\<close> returns a value that is not negative
  and has changed nothing but the cached pointer size.
\<close>

theorem btf_align_of_terminates:
  assumes "btf_wf b" "ptr_sz_ok b"
    and "\<And>i j. aligns_by b i j \<Longrightarrow> rank j < rank i \<and> j < start_id (hd b) + nr_types (hd b)"
    and "i < start_id (hd b) + nr_types (hd b)"
  shows "\<exists>a b'. btf__align_of (Suc (rank i)) b i = Some (Inr (a, b')) \<and> 0 \<le> a \<and> same_btf b b'"
  using btf_align_of_ranked [OF assms(3) same_btf_refl [OF assms(1,2)] assms(1,2,4), of "Suc (rank i)"]
  by (auto simp: align_result_def)

text \<open>
  A typedef of itself, which the parser accepts, makes \<open>btf__align_of\<close> recurse for ever,
  and an ID behind the last type makes it read through a null pointer.
\<close>

lemma btf_align_of_unguarded:
  assumes "btf__type_by_id b i = Inr (Some r)" "deref_type (Some r) = Inr t"
    "btf_kind t = BTF_KIND_TYPEDEF" "size_type t = i"
    and "start_id (hd b) + nr_types (hd b) \<le> j"
  shows "btf__align_of depth b i = None \<and> btf__align_of (Suc depth) b j = Some (Inl Fault)"
proof
  show "btf__align_of depth b i = None"
    using assms(1-4) by (induction depth) simp_all
  show "btf__align_of (Suc depth) b j = Some (Inl Fault)"
    using assms(5) by (simp add: btf__type_by_id_def deref_type_def)
qed

section \<open>Witnesses\<close>

text \<open>An \<open>int\<close>, a pointer to it, an array of three of these pointers and a typedef of the array.\<close>

definition sample_types :: bytes where
  "sample_types =
     [1, 0, 0, 0, 0, 0, 0, 1, 4, 0, 0, 0, 32, 0, 0, 0,
      0, 0, 0, 0, 0, 0, 0, 2, 1, 0, 0, 0,
      0, 0, 0, 0, 0, 0, 0, 3, 0, 0, 0, 0, 2, 0, 0, 0, 1, 0, 0, 0, 3, 0, 0, 0,
      1, 0, 0, 0, 0, 0, 0, 8, 3, 0, 0, 0]"

definition sample_inst :: "bytes \<Rightarrow> bytes \<Rightarrow> u32 \<Rightarrow> btf_obj" where
  "sample_inst types offs n =
     \<lparr>raw_data = None, raw_data_swapped = None, raw_size = 0, swapped_endian = False,
      hdr = \<lparr>magic = BTF_MAGIC, version = 1, hflags = 0, hdr_len = 24, type_off = 0,
             type_len = of_nat (length types), str_off = of_nat (length types), str_len = 5, hdr_ext = []\<rparr>,
      hdr_in_raw = True, types_data = types, types_data_cap = 0, type_offs = offs,
      type_offs_cap = unat n, nr_types = n, start_id = 1, start_str_off = 0,
      str_sec = Some [0, 105, 110, 116, 0], strs_set = None, strs_deduped = False, fd = -1, ptr_sz = 0\<rparr>"

definition sample_btf :: btf where
  "sample_btf = [sample_inst sample_types [0, 0, 0, 0, 16, 0, 0, 0, 28, 0, 0, 0, 52, 0, 0, 0] 4]"

lemma sample_inst_wf:
  assumes "layout types 0 (offs_list offs (unat n)) (unat (of_nat (length types) :: u32))"
    "length offs = 4 * unat n" "unat n < 100" "length types < 100"
  shows "btf_wf [sample_inst types offs n]" "ptr_sz_ok [sample_inst types offs n]"
proof -
  have "unat (of_nat (length types) :: u32) = length types" using assms(4) by (intro unat_of_nat_u32) simp
  then have "types_wf (sample_inst types offs n)"
    using assms by (simp add: types_wf_def sample_inst_def offs_ok_def)
  moreover have "strs_wf (sample_inst types offs n)"
    by (simp add: strs_wf_def btf_strs_data_def sample_inst_def)
  ultimately show "btf_wf [sample_inst types offs n]"
    using assms(3) by (simp add: btf_start_def sample_inst_def)
  show "ptr_sz_ok [sample_inst types offs n]" by (simp add: ptr_sz_ok_def sample_inst_def)
qed

lemma sample_btf_wf: "btf_wf sample_btf" "ptr_sz_ok sample_btf"
proof -
  have "layout sample_types 0
      (offs_list [0, 0, 0, 0, 16, 0, 0, 0, 28, 0, 0, 0, 52, 0, 0, 0] (unat (4 :: u32)))
      (unat (of_nat (length sample_types) :: u32))"
    by code_simp
  then show "btf_wf sample_btf" "ptr_sz_ok sample_btf"
    unfolding sample_btf_def by (intro sample_inst_wf; simp add: sample_types_def)+
qed

theorem btf_type_by_id_total_witness: "btf__type_by_id sample_btf 5 = Inr None"
proof -
  have "start_id (hd sample_btf) + nr_types (hd sample_btf) \<le> 5" by code_simp
  then show ?thesis using btf_type_by_id_total [OF sample_btf_wf(1), of 5] by simp
qed

lemma btf_find_first_witness: "btf__find_by_name sample_btf [105, 110, 116] = Inr 1"
proof -
  have "find (type_named sample_btf [105, 110, 116]) (btf_ids sample_btf) = Some 1" by code_simp
  then show ?thesis using btf_find_first [OF sample_btf_wf(1), of "[105, 110, 116]"] by simp
qed

theorem btf_resolve_size_sound_witness:
  "\<exists>b'. btf__resolve_size sample_btf 4 = (Inr 24, b') \<and> sized sample_btf 4 24"
proof -
  have "fst (btf__resolve_size sample_btf 4) = Inr 24" by code_simp
  then show ?thesis using btf_resolve_size_sound [OF sample_btf_wf, of 4] by auto
qed

theorem btf_resolve_type_correct_witness:
  "btf__resolve_type sample_btf 4 = Inr 3 \<and> (\<exists>k<32. (skip_step sample_btf ^^ k) 4 3)"
proof -
  have "btf__resolve_type sample_btf 4 = Inr 3" by code_simp
  then show ?thesis using btf_resolve_type_correct [OF sample_btf_wf(1), of 4] by auto
qed

lemma sample_aligns:
  assumes "aligns_by sample_btf i j"
  shows "unat j < unat i" "j < 5"
proof -
  obtain r t where r: "btf__type_by_id sample_btf i = Inr (Some r)" "deref_type (Some r) = Inr t"
    and k: "btf_kind t \<in> {BTF_KIND_TYPEDEF, BTF_KIND_VOLATILE, BTF_KIND_CONST, BTF_KIND_RESTRICT} \<and> j = size_type t \<or>
         btf_kind t = BTF_KIND_ARRAY \<and> ref_u32 (Some r) 12 = Inr j \<or>
         btf_kind t \<in> {BTF_KIND_STRUCT, BTF_KIND_UNION}"
    using assms unfolding aligns_by_def by blast
  have "\<not> 5 \<le> i" using r(1) by (auto simp: btf__type_by_id_def sample_btf_def sample_inst_def)
  then have "unat i < 5" by (simp add: word_less_nat_alt not_le)
  then have "unat i = 0 \<or> unat i = 1 \<or> unat i = 2 \<or> unat i = 3 \<or> unat i = 4" by linarith
  then have "i = 0 \<or> i = 1 \<or> i = 2 \<or> i = 3 \<or> i = 4" by (simp add: word_unat_eq_iff)
  moreover have "res_bind (btf__type_by_id sample_btf i) deref_type = Inr t" using r by simp
  moreover have "res_bind (btf__type_by_id sample_btf 0) deref_type = Inr \<lparr>name_off = 0, info = 0, size_type = 0\<rparr>"
    "res_bind (btf__type_by_id sample_btf 1) deref_type = Inr \<lparr>name_off = 1, info = 0x1000000, size_type = 4\<rparr>"
    "res_bind (btf__type_by_id sample_btf 2) deref_type = Inr \<lparr>name_off = 0, info = 0x2000000, size_type = 1\<rparr>"
    "res_bind (btf__type_by_id sample_btf 3) deref_type = Inr \<lparr>name_off = 0, info = 0x3000000, size_type = 0\<rparr>"
    "res_bind (btf__type_by_id sample_btf 4) deref_type = Inr \<lparr>name_off = 1, info = 0x8000000, size_type = 3\<rparr>"
    "btf_kind \<lparr>name_off = 0, info = 0, size_type = 0\<rparr> = 0"
    "btf_kind \<lparr>name_off = 1, info = 0x1000000, size_type = 4\<rparr> = 1"
    "btf_kind \<lparr>name_off = 0, info = 0x2000000, size_type = 1\<rparr> = 2"
    "btf_kind \<lparr>name_off = 0, info = 0x3000000, size_type = 0\<rparr> = 3"
    "btf_kind \<lparr>name_off = 1, info = 0x8000000, size_type = 3\<rparr> = 8"
    by code_simp+
  moreover have "res_bind (btf__type_by_id sample_btf 3) (\<lambda>r. ref_u32 r 12) = Inr 2" by code_simp
  ultimately have "i = 3 \<and> j = 2 \<or> i = 4 \<and> j = 3" using k r(1) by auto
  then show "unat j < unat i" "j < 5" by auto
qed

theorem btf_align_of_terminates_witness:
  "\<exists>a b'. btf__align_of 5 sample_btf 4 = Some (Inr (a, b')) \<and> 0 \<le> a"
proof -
  have "start_id (hd sample_btf) + nr_types (hd sample_btf) = 5" by code_simp
  then show ?thesis
    using btf_align_of_terminates [OF sample_btf_wf, of unat 4] sample_aligns by auto
qed

text \<open>A typedef of itself.\<close>

definition loop_btf :: btf where
  "loop_btf = [sample_inst [1, 0, 0, 0, 0, 0, 0, 8, 1, 0, 0, 0] [0, 0, 0, 0] 1]"

lemma btf_align_of_unguarded_witness:
  "btf_wf loop_btf \<and> btf__align_of 7 loop_btf 1 = None \<and> btf__align_of 7 loop_btf 2 = Some (Inl Fault)"
proof -
  have "layout [1, 0, 0, 0, 0, 0, 0, 8, 1, 0, 0, 0] 0 (offs_list [0, 0, 0, 0] (unat (1 :: u32)))
      (unat (of_nat (length [1, 0, 0, 0, 0, 0, 0, 8, 1, 0, 0, 0 :: u8]) :: u32))" by code_simp
  then have "btf_wf loop_btf" unfolding loop_btf_def by (intro sample_inst_wf) simp_all
  moreover have t: "btf__type_by_id loop_btf 1 = Inr (Some (Type_at [1, 0, 0, 0, 0, 0, 0, 8, 1, 0, 0, 0]))"
    "deref_type (Some (Type_at [1, 0, 0, 0, 0, 0, 0, 8, 1, 0, 0, 0])) =
       Inr \<lparr>name_off = 1, info = 0x8000000, size_type = 1\<rparr>"
    "btf_kind \<lparr>name_off = 1, info = 0x8000000, size_type = 1\<rparr> = BTF_KIND_TYPEDEF"
    "start_id (hd loop_btf) + nr_types (hd loop_btf) \<le> 2"
    by code_simp+
  ultimately show ?thesis
    using btf_align_of_unguarded [OF t(1-3) _ t(4), of 7] btf_align_of_unguarded [OF t(1-3) _ t(4), of 6]
    by (simp add: eval_nat_numeral)
qed

end
