(* ===== verification/Btf_Strings.thy ===== *)
theory Btf_Strings
  imports Strset
begin

text \<open>
  What the BTF writer relies on of its table of strings, as an interface: the table is a
  section of zero-terminated strings that only grows, and adding a string gives an offset at
  which the section holds it. The string set of \<^verbatim>\<open>src/bpftools/libbpf/src/strset.c\<close> provides it.
\<close>

section \<open>The interface\<close>

locale string_table =
  fixes inv :: "'s \<Rightarrow> bool"
    and sec :: "'s \<Rightarrow> bytes"
    and add :: "'a \<Rightarrow> 's \<Rightarrow> bytes \<Rightarrow> ('s \<times> (errno + nat)) cres"
  assumes terminated: "inv ss \<Longrightarrow> sec ss = [] \<or> last (sec ss) = 0"
    and add_total: "inv ss \<Longrightarrow> 0 \<notin> set s \<Longrightarrow> \<exists>ss' r. add al ss s = Inr (ss', r) \<and> inv ss'"
    and add_error: "inv ss \<Longrightarrow> 0 \<notin> set s \<Longrightarrow> add al ss s = Inr (ss', Inl e) \<Longrightarrow>
      e = ENOMEM \<and> sec ss' = sec ss"
    and add_grows: "inv ss \<Longrightarrow> 0 \<notin> set s \<Longrightarrow> add al ss s = Inr (ss', Inr off) \<Longrightarrow>
      sec ss' = sec ss \<or> sec ss' = sec ss @ s @ [0]"
    and add_found: "inv ss \<Longrightarrow> 0 \<notin> set s \<Longrightarrow> add al ss s = Inr (ss', Inr off) \<Longrightarrow>
      off < length (sec ss') \<and> cstr (sec ss') off = s"
begin

lemma add_prefix:
  assumes "inv ss" "0 \<notin> set s" "add al ss s = Inr (ss', r)"
  shows "\<exists>xs. sec ss' = sec ss @ xs"
proof (cases r)
  case (Inl e)
  then show ?thesis using add_error [OF assms(1,2)] assms(3) by auto
next
  case (Inr off)
  then show ?thesis using add_grows [OF assms(1,2)] assms(3) by fastforce
qed

lemma string_kept:
  assumes "inv ss" "off < length (sec ss)"
  shows "cstr (sec ss @ xs) off = cstr (sec ss) off"
proof -
  have "last (sec ss) = 0" using terminated [OF assms(1)] assms(2) by auto
  then have "0 \<in> set (drop off (sec ss))"
    using assms(2) by (metis last_drop last_in_set drop_eq_Nil not_le)
  then have "cstr_in (sec ss @ xs) (length (sec ss)) off" by (simp add: cstr_in_def)
  then show ?thesis using cstr_take by fastforce
qed

lemma add_keeps:
  assumes "inv ss" "0 \<notin> set s" "add al ss s = Inr (ss', r)" "off < length (sec ss)"
  shows "cstr (sec ss') off = cstr (sec ss) off"
  using add_prefix [OF assms(1-3)] string_kept [OF assms(1,4)] by auto

text \<open>Adding strings one after the other gives offsets that all stay valid.\<close>

fun add_all :: "'a \<Rightarrow> 's \<Rightarrow> bytes list \<Rightarrow> ('s \<times> (errno + nat list)) cres" where
  "add_all al ss [] = Inr (ss, Inr [])"
| "add_all al ss (s # xs) =
     res_bind (add al ss s) (\<lambda>(ss, r).
       case r of
         Inl e \<Rightarrow> Inr (ss, Inl e)
       | Inr off \<Rightarrow>
           res_bind (add_all al ss xs) (\<lambda>(ss, r). Inr (ss, map_sum id (\<lambda>offs. off # offs) r)))"

lemma add_all_denotes:
  assumes "inv ss" "\<forall>s \<in> set xs. 0 \<notin> set s"
  shows "\<exists>ss' r. add_all al ss xs = Inr (ss', r) \<and> inv ss' \<and> (\<exists>ys. sec ss' = sec ss @ ys) \<and>
    (\<forall>offs. r = Inr offs \<longrightarrow> map (cstr (sec ss')) offs = xs)"
  using assms
proof (induction xs arbitrary: ss)
  case (Cons s xs)
  have s: "0 \<notin> set s" using Cons.prems(2) by simp
  obtain ss1 r1 where a: "add al ss s = Inr (ss1, r1)" "inv ss1"
    using add_total [OF Cons.prems(1) s] by blast
  obtain ys where ys: "sec ss1 = sec ss @ ys" using add_prefix [OF Cons.prems(1) s a(1)] by blast
  show ?case
  proof (cases r1)
    case (Inl e)
    then show ?thesis using a ys by auto
  next
    case (Inr off)
    have off: "off < length (sec ss1)" "cstr (sec ss1) off = s"
      using add_found [OF Cons.prems(1) s] a(1) Inr by auto
    obtain ss2 r2 zs where b: "add_all al ss1 xs = Inr (ss2, r2)" "inv ss2" "sec ss2 = sec ss1 @ zs"
      "\<forall>offs. r2 = Inr offs \<longrightarrow> map (cstr (sec ss2)) offs = xs"
      using Cons.IH [OF a(2)] Cons.prems(2) by auto
    have "cstr (sec ss2) off = s" using string_kept [OF a(2) off(1)] b(3) off(2) by simp
    then show ?thesis using a b ys Inr by (cases r2) auto
  qed
qed simp

end

section \<open>The string set provides it\<close>

lemma strset_add_shape:
  assumes "length (strs_data ss) = strs_data_cap ss" "strs_data_len ss \<le> strs_data_cap ss"
    and "strset__add_str ok ca ma ss s = Inr (ss', r)"
  shows "strs_data_max_len ss' = strs_data_max_len ss"
    and "strs_data_cap ss' \<le> max (strs_data_cap ss) (strs_data_max_len ss)"
    and "strs_data_len ss' = strs_data_len ss \<or>
      strs_data_len ss' = strs_data_len ss + length s + 1 \<and>
      take (strs_data_len ss') (strs_data ss') = take (strs_data_len ss) (strs_data ss) @ s @ [0]"
proof -
  let ?n = "strs_data_len ss"
  have "strs_data_max_len ss' = strs_data_max_len ss \<and>
      strs_data_cap ss' \<le> max (strs_data_cap ss) (strs_data_max_len ss) \<and>
      (strs_data_len ss' = ?n \<or> strs_data_len ss' = ?n + length s + 1 \<and>
        take (strs_data_len ss') (strs_data ss') = take ?n (strs_data ss) @ s @ [0])"
  proof (cases "libbpf_add_mem ok (strs_data ss) (strs_data_cap ss) 1 ?n (strs_data_max_len ss) (length s + 1)")
    case None
    then show ?thesis using assms(3) by (auto simp: strset__add_str_def strset_add_str_mem_def Let_def)
  next
    case (Some q)
    obtain d c p where q: "q = (d, c, p)" by (cases q)
    have l1: "length (strs_data ss) = strs_data_cap ss * 1" using assms(1) by simp
    note a = libbpf_add_mem_spec [OF l1 Some [unfolded q]]
    obtain k where d: "d = strs_data ss @ replicate k 0" using a(5) by blast
    have w: "mem_write d p (s @ [0]) = Inr (take ?n d @ (s @ [0]) @ drop (?n + length s + 1) d)"
      using a(1,3,4) by (simp add: mem_write_def)
    have p: "take ?n d = take ?n (strs_data ss)" using assms(1,2) by (simp add: d)
    define D where "D = take ?n d @ (s @ [0]) @ drop (?n + length s + 1) d"
    have D: "take (?n + length s + 1) D = take ?n (strs_data ss) @ s @ [0]"
      using a(1,3) by (simp add: D_def p [symmetric])
    have m: "strset_add_str_mem ok ss (length s + 1) = Some (ss\<lparr>strs_data := d, strs_data_cap := c\<rparr>, p)"
      using Some q by (simp add: strset_add_str_mem_def)
    obtain h err old where h: "hashmap__insert ca ma D (strs_hash ss) ?n ?n HASHMAP_ADD = Inr (h, err, old)"
      using assms(3) m w by (cases "hashmap__insert ca ma D (strs_hash ss) ?n ?n HASHMAP_ADD")
        (auto simp: strset__add_str_def D_def)
    define ss1 where "ss1 = ss\<lparr>strs_data := D, strs_data_cap := c, strs_hash := h\<rparr>"
    have "ss' = ss1 \<or> ss' = ss1\<lparr>strs_data_len := ?n + length s + 1\<rparr>"
      using assms(3) m w h
      by (cases err; cases "the err") (auto simp: strset__add_str_def D_def ss1_def Let_def)
    then show ?thesis using a(6) D by (auto simp: ss1_def)
  qed
  then show "strs_data_max_len ss' = strs_data_max_len ss"
    "strs_data_cap ss' \<le> max (strs_data_cap ss) (strs_data_max_len ss)"
    "strs_data_len ss' = ?n \<or> strs_data_len ss' = ?n + length s + 1 \<and>
      take (strs_data_len ss') (strs_data ss') = take ?n (strs_data ss) @ s @ [0]"
    by blast+
qed

definition strset_section :: "strset \<Rightarrow> bytes" where
  "strset_section ss = take (strs_data_len ss) (strs_data ss)"

text \<open>The set as BTF uses it: limited to \<open>BTF_MAX_STR_OFFSET\<close>, its section terminated.\<close>

definition btf_strset_inv :: "strset \<Rightarrow> bool" where
  "btf_strset_inv ss \<longleftrightarrow> strset_inv ss \<and> strs_data_max_len ss = 0x7fffffff \<and>
     strs_data_cap ss < 2 ^ 32 \<and> (strset_section ss = [] \<or> last (strset_section ss) = 0)"

lemma length_strset_section: "strset_inv ss \<Longrightarrow> length (strset_section ss) = strs_data_len ss"
  by (simp add: strset_section_def strset_inv_def)

lemma btf_strset_add:
  assumes inv: "btf_strset_inv ss" and s: "0 \<notin> set s"
  shows "\<exists>ss' r. strset__add_str ok ca ma ss s = Inr (ss', r) \<and> btf_strset_inv ss' \<and>
    (case r of
       Inl e \<Rightarrow> e = ENOMEM \<and> strset_section ss' = strset_section ss
     | Inr off \<Rightarrow>
         (strset_section ss' = strset_section ss \<or> strset_section ss' = strset_section ss @ s @ [0]) \<and>
         off < length (strset_section ss') \<and> cstr (strset_section ss') off = s)"
proof -
  have i: "strset_inv ss" using inv by (simp add: btf_strset_inv_def)
  obtain ss' r where r: "strset__add_str ok ca ma ss s = Inr (ss', r)" "strset_inv ss'"
    "take (strs_data_len ss) (strs_data ss') = take (strs_data_len ss) (strs_data ss)"
    and res: "case r of
        Inr off \<Rightarrow> cstr (strs_data ss') off = s \<and> strset_offsets ss' = insert off (strset_offsets ss) \<and>
          strs_data_len ss' =
            (if \<exists>k \<in> strset_offsets ss. cstr (strs_data ss) k = s then strs_data_len ss
             else strs_data_len ss + length s + 1) \<and>
          (off \<in> strset_offsets ss \<longleftrightarrow> (\<exists>k \<in> strset_offsets ss. cstr (strs_data ss) k = s))
      | Inl e \<Rightarrow> e = ENOMEM \<and> strset_offsets ss' = strset_offsets ss \<and> strs_data_len ss' = strs_data_len ss"
    using strset_add_result [OF i s, of ok ca ma] by blast
  have l: "length (strs_data ss) = strs_data_cap ss" "strs_data_len ss \<le> strs_data_cap ss"
    using i by (simp_all add: strset_inv_def)
  note shape = strset_add_shape [OF l r(1)]
  have sec: "strset_section ss' = strset_section ss \<or> strset_section ss' = strset_section ss @ s @ [0]"
    using shape(3) r(3) by (auto simp: strset_section_def)
  have inv': "btf_strset_inv ss'"
    using inv r(2) shape(1,2) sec by (auto simp: btf_strset_inv_def)
  show ?thesis
  proof (cases r)
    case (Inl e)
    then have "strset_section ss' = strset_section ss" using res r(3) by (simp add: strset_section_def)
    then show ?thesis using r(1) inv' res Inl by auto
  next
    case (Inr off)
    have "off \<in> strset_offsets ss'" using res Inr by simp
    then have "cstr_in (strs_data ss') (strs_data_len ss') off" using r(2) by (auto simp: strset_inv_def)
    then have "off < strs_data_len ss'" "cstr (strset_section ss') off = s"
      using cstr_in_less cstr_take res Inr by (auto simp: strset_section_def)
    then show ?thesis using r(1) inv' sec Inr length_strset_section [OF r(2)] by auto
  qed
qed

interpretation btf_strings: string_table btf_strset_inv strset_section
  "\<lambda>(ok, ca, ma) ss s. strset__add_str ok ca ma ss s"
proof unfold_locales
  show "strset_section ss = [] \<or> last (strset_section ss) = 0" if "btf_strset_inv ss" for ss
    using that by (simp add: btf_strset_inv_def)
next
  fix al :: "bool \<times> bool \<times> bool" and ss ss' :: strset and s :: bytes and e :: errno and off :: nat
  assume a: "btf_strset_inv ss" "0 \<notin> set s"
  obtain ok ca ma where al: "al = (ok, ca, ma)" by (cases al)
  note r = btf_strset_add [OF a, of ok ca ma]
  show "\<exists>ss' r. (case al of (ok, ca, ma) \<Rightarrow> \<lambda>ss s. strset__add_str ok ca ma ss s) ss s = Inr (ss', r) \<and>
      btf_strset_inv ss'"
    using r by (auto simp: al)
  show "e = ENOMEM \<and> strset_section ss' = strset_section ss"
    if "(case al of (ok, ca, ma) \<Rightarrow> \<lambda>ss s. strset__add_str ok ca ma ss s) ss s = Inr (ss', Inl e)"
    using r that by (auto simp: al)
  show "strset_section ss' = strset_section ss \<or> strset_section ss' = strset_section ss @ s @ [0]"
    if "(case al of (ok, ca, ma) \<Rightarrow> \<lambda>ss s. strset__add_str ok ca ma ss s) ss s = Inr (ss', Inr off)"
    using r that by (auto simp: al)
  show "off < length (strset_section ss') \<and> cstr (strset_section ss') off = s"
    if "(case al of (ok, ca, ma) \<Rightarrow> \<lambda>ss s. strset__add_str ok ca ma ss s) ss s = Inr (ss', Inr off)"
    using r that by (auto simp: al)
qed

text \<open>Building the set from a terminated section.\<close>

lemma btf_strset_new:
  assumes "m = [] \<or> last m = 0" "length m < 2 ^ 32"
  shows "case strset__new set_ok map_ok data_ok al 0x7fffffff (Some m) of
      Inr ss \<Rightarrow> btf_strset_inv ss \<and> strset_section ss = m \<and> strs_data_len ss = length m
    | Inl e \<Rightarrow> e = Err ENOMEM"
proof (cases "strset__new set_ok map_ok data_ok al 0x7fffffff (Some m)")
  case (Inl e)
  then show ?thesis using strset_new_result [OF assms(1), of set_ok map_ok data_ok al "0x7fffffff"] by simp
next
  case (Inr ss)
  then have "strset_inv ss" "strs_data ss = m" "strs_data_len ss = length m"
    using strset_new_result [OF assms(1), of set_ok map_ok data_ok al "0x7fffffff"]
    by (simp_all add: strset__data_def strset__data_size_def)
  moreover have "strs_data_max_len ss = 0x7fffffff" "strs_data_cap ss = length m"
    using Inr by (auto simp: strset__new_def res_bind_eq_Inr split: if_splits option.splits)
  ultimately show ?thesis using assms Inr by (simp add: btf_strset_inv_def strset_section_def)
qed

end
