(* ===== verification/Btf_Build.thy ===== *)
theory Btf_Build
  imports Btf_Access Btf_Strings
begin

text \<open>
  Building and changing BTF, from \<^verbatim>\<open>src/bpftools/libbpf/src/btf.c\<close>: the split of the
  contiguous data into regions that can grow, the string section as a set of unique strings,
  and the functions that append types, members, values, parameters and variables.

  An operation maps a BTF to its result and the BTF it leaves, also when it fails, because the
  code may have split the data or added a string by then. The outcomes of the allocations of
  an operation are an argument, a record for the instance and one for each base.
\<close>

section \<open>Operations with a state and an error\<close>

type_synonym 'a op = "btf \<Rightarrow> 'a cres \<times> btf"

definition op_return :: "'a \<Rightarrow> 'a op" where
  "op_return x b = (Inr x, b)"

definition op_fail :: "errno \<Rightarrow> 'a op" where
  "op_fail e b = (Inl (Err e), b)"

definition op_bind :: "'a op \<Rightarrow> ('a \<Rightarrow> 'c op) \<Rightarrow> 'c op" where
  "op_bind m f b = (case m b of (Inl e, b') \<Rightarrow> (Inl e, b') | (Inr x, b') \<Rightarrow> f x b')"

definition op_guard :: "bool \<Rightarrow> errno \<Rightarrow> unit op" where
  "op_guard c e b = (if c then (Inr (), b) else (Inl (Err e), b))"

text \<open>A read of the BTF.\<close>

definition op_get :: "(btf \<Rightarrow> 'a cres) \<Rightarrow> 'a op" where
  "op_get f b = (f b, b)"

text \<open>A change of the instance.\<close>

definition op_update :: "(btf_obj \<Rightarrow> btf_obj cres) \<Rightarrow> unit op" where
  "op_update f b =
     (case b of
        [] \<Rightarrow> (Inl Fault, b)
      | inst # base \<Rightarrow> (case f inst of Inl e \<Rightarrow> (Inl e, b) | Inr inst' \<Rightarrow> (Inr (), inst' # base)))"

section \<open>Allocations\<close>

record btf_alloc =
  hdr_ok :: bool
  types_ok :: bool
  set_ok :: bool
  map_ok :: bool
  data_ok :: bool
  index_ok :: "nat \<Rightarrow> bool \<times> bool"
  str_realloc_ok :: bool
  str_calloc_ok :: bool
  str_malloc_ok :: bool
  type_mem_ok :: bool
  type_idx_ok :: bool

section \<open>Splitting the data into regions\<close>

definition btf_invalidate_raw_data :: "btf_obj \<Rightarrow> btf_obj" where
  "btf_invalidate_raw_data b = b\<lparr>raw_data := None, raw_data_swapped := None\<rparr>"

text \<open>
  The copy of a header that is shorter than the known fields is read behind its end.
\<close>

definition btf_ensure_modifiable :: "btf_alloc \<Rightarrow> bool \<Rightarrow> btf_obj \<Rightarrow> btf_obj cres" where
  "btf_ensure_modifiable al has_base b =
     (if btf_is_modifiable b then Inr (btf_invalidate_raw_data b)
      else if \<not> hdr_ok al \<or> \<not> types_ok al then Inl (Err ENOMEM)
      else
        case (raw_data b, str_sec b) of
          (Some raw, Some strs) \<Rightarrow>
            res_bind (mem_read raw 0 (unat (hdr_len (hdr b)))) (\<lambda>h.
            res_bind (mem_read (types_data b) 0 (unat (type_len (hdr b)))) (\<lambda>types.
            res_bind (mem_read strs 0 (unat (str_len (hdr b)))) (\<lambda>init.
            res_bind (strset__new (set_ok al) (map_ok al) (data_ok al) (index_ok al) BTF_MAX_STR_OFFSET
                        (Some init)) (\<lambda>ss.
              if length h < BTF_HDR_SZ then Inl Fault
              else
                Inr (btf_invalidate_raw_data
                  (b\<lparr>hdr := (hdr b)\<lparr>hdr_ext := drop BTF_HDR_SZ h\<rparr>, hdr_in_raw := False,
                     types_data := types, types_data_cap := length types,
                     str_sec := None, strs_set := Some ss,
                     strs_deduped :=
                       (if str_len (hdr b) = 0 then True
                        else if \<not> has_base \<and> str_len (hdr b) = 1 then True
                        else strs_deduped b)\<rparr>))))))
        | _ \<Rightarrow> Inl Fault)"

text \<open>The callers turn every error into \<open>ENOMEM\<close>.\<close>

definition ensure_modifiable :: "btf_alloc \<Rightarrow> unit op" where
  "ensure_modifiable al b =
     (case op_update (btf_ensure_modifiable al (tl b \<noteq> [])) b of
        (Inl (Err e), b) \<Rightarrow> (Inl (Err ENOMEM), b)
      | r \<Rightarrow> r)"

section \<open>Strings\<close>

text \<open>An operation on the string set of the instance.\<close>

definition op_strset :: "(strset \<Rightarrow> (strset \<times> (errno + nat)) cres) \<Rightarrow> nat op" where
  "op_strset f b =
     (case b of
        [] \<Rightarrow> (Inl Fault, b)
      | inst # base \<Rightarrow>
          (case strs_set inst of
             None \<Rightarrow> (Inl Fault, b)
           | Some ss \<Rightarrow>
               (case f ss of
                  Inl e \<Rightarrow> (Inl e, b)
                | Inr (ss, Inl e) \<Rightarrow> (Inl (Err e), inst\<lparr>strs_set := Some ss\<rparr> # base)
                | Inr (ss, Inr off) \<Rightarrow>
                    (Inr (unat (start_str_off inst) + off), inst\<lparr>strs_set := Some ss\<rparr> # base))))"

fun btf__find_str :: "(nat \<Rightarrow> btf_alloc) \<Rightarrow> bytes \<Rightarrow> nat op" where
  "btf__find_str al s [] = (Inl Fault, [])"
| "btf__find_str al s (inst # base) =
     (let (r, base) =
        (if base = [] then (Inl (Err ENOENT), []) else btf__find_str (\<lambda>d. al (Suc d)) s base)
      in if r \<noteq> Inl (Err ENOENT) then (r, inst # base)
         else
           op_bind (ensure_modifiable (al 0))
             (\<lambda>_. op_strset (\<lambda>ss. strset__find_str (str_realloc_ok (al 0)) ss s)) (inst # base))"

definition set_str_len :: "btf_obj \<Rightarrow> btf_obj cres" where
  "set_str_len b =
     (case strs_set b of
        None \<Rightarrow> Inl Fault
      | Some ss \<Rightarrow> Inr (b\<lparr>hdr := (hdr b)\<lparr>str_len := of_nat (strset__data_size ss)\<rparr>\<rparr>))"

fun btf__add_str :: "(nat \<Rightarrow> btf_alloc) \<Rightarrow> bytes \<Rightarrow> nat op" where
  "btf__add_str al s [] = (Inl Fault, [])"
| "btf__add_str al s (inst # base) =
     (let (r, base) =
        (if base = [] then (Inl (Err ENOENT), []) else btf__find_str (\<lambda>d. al (Suc d)) s base)
      in if r \<noteq> Inl (Err ENOENT) then (r, inst # base)
         else
           op_bind (ensure_modifiable (al 0)) (\<lambda>_.
           op_bind (op_strset (\<lambda>ss. strset__add_str (str_realloc_ok (al 0)) (str_calloc_ok (al 0))
                                       (str_malloc_ok (al 0)) ss s)) (\<lambda>off.
           op_bind (op_update set_str_len) (\<lambda>_. op_return off))) (inst # base))"

section \<open>Appending types\<close>

text \<open>The offset of \<open>add_sz\<close> free bytes behind the types.\<close>

definition btf_add_type_mem :: "btf_alloc \<Rightarrow> nat \<Rightarrow> nat op" where
  "btf_add_type_mem al add_sz b =
     (case b of
        [] \<Rightarrow> (Inl Fault, b)
      | inst # base \<Rightarrow>
          (case libbpf_add_mem (type_mem_ok al) (types_data inst) (types_data_cap inst) 1
                  (unat (type_len (hdr inst))) UINT32_MAX add_sz of
             None \<Rightarrow> (Inl (Err ENOMEM), b)
           | Some (types, n, p) \<Rightarrow>
               (Inr p, inst\<lparr>types_data := types, types_data_cap := n\<rparr> # base)))"

primrec mem_set_words :: "bytes \<Rightarrow> nat \<Rightarrow> u32 list \<Rightarrow> bytes cres" where
  "mem_set_words m off [] = Inr m"
| "mem_set_words m off (w # ws) = res_bind (mem_set_u32 m off w) (\<lambda>m. mem_set_words m (off + 4) ws)"

definition put_words :: "nat \<Rightarrow> u32 list \<Rightarrow> unit op" where
  "put_words off ws =
     op_update (\<lambda>b. res_bind (mem_set_words (types_data b) off ws) (\<lambda>m. Inr (b\<lparr>types_data := m\<rparr>)))"

definition grow_hdr :: "nat \<Rightarrow> btf_obj \<Rightarrow> btf_obj cres" where
  "grow_hdr n b =
     Inr (b\<lparr>hdr := (hdr b)\<lparr>type_len := type_len (hdr b) + of_nat n, str_off := str_off (hdr b) + of_nat n\<rparr>\<rparr>)"

definition btf_commit_type :: "btf_alloc \<Rightarrow> nat \<Rightarrow> u32 op" where
  "btf_commit_type al n =
     op_bind
       (op_update (\<lambda>b.
          res_bind (btf_add_type_idx_entry (type_idx_ok al) (type_offs b) (type_offs_cap b) (nr_types b)
                      (type_len (hdr b)))
            (\<lambda>(offs, offs_cap). Inr (b\<lparr>type_offs := offs, type_offs_cap := offs_cap\<rparr>)))) (\<lambda>_.
     op_bind (op_update (grow_hdr n)) (\<lambda>_.
     op_bind (op_update (\<lambda>b. Inr (b\<lparr>nr_types := nr_types b + 1\<rparr>))) (\<lambda>_.
       op_get (\<lambda>b. Inr (start_id (hd b) + nr_types (hd b) - 1)))))"

text \<open>Names are null pointers or strings; the empty string counts as no name.\<close>

definition no_name :: "bytes option \<Rightarrow> bool" where
  "no_name name \<longleftrightarrow> name = None \<or> name = Some []"

definition name_offset :: "(nat \<Rightarrow> btf_alloc) \<Rightarrow> bytes option \<Rightarrow> u32 op" where
  "name_offset al name =
     (if no_name name then op_return 0
      else op_bind (btf__add_str al (the name)) (\<lambda>off. op_return (of_nat off)))"

text \<open>
  What every function that appends a type does once its arguments are checked: \<open>word2\<close> is the
  type's second word and \<open>rest\<close> the words behind it.
\<close>

definition append_type :: "(nat \<Rightarrow> btf_alloc) \<Rightarrow> bytes option \<Rightarrow> u32 \<Rightarrow> u32 list \<Rightarrow> u32 op" where
  "append_type al name word2 rest =
     op_bind (ensure_modifiable (al 0)) (\<lambda>_.
     op_bind (btf_add_type_mem (al 0) (8 + 4 * length rest)) (\<lambda>t.
     op_bind (name_offset al name) (\<lambda>off.
     op_bind (put_words t (off # word2 # rest)) (\<lambda>_.
       btf_commit_type (al 0) (8 + 4 * length rest)))))"

definition btf__add_int :: "(nat \<Rightarrow> btf_alloc) \<Rightarrow> bytes option \<Rightarrow> u64 \<Rightarrow> u32 \<Rightarrow> u32 op" where
  "btf__add_int al name byte_sz encoding =
     op_bind (op_guard (\<not> no_name name) EINVAL) (\<lambda>_.
     op_bind (op_guard (byte_sz \<noteq> 0 \<and> byte_sz AND (byte_sz - 1) = 0 \<and> byte_sz \<le> 16) EINVAL) (\<lambda>_.
     op_bind (op_guard (encoding AND NOT 7 = 0) EINVAL) (\<lambda>_.
       append_type al name (btf_type_info BTF_KIND_INT 0 0)
         [ucast byte_sz, push_bit 24 encoding OR ucast (byte_sz * 8)])))"

definition btf__add_float :: "(nat \<Rightarrow> btf_alloc) \<Rightarrow> bytes option \<Rightarrow> u64 \<Rightarrow> u32 op" where
  "btf__add_float al name byte_sz =
     op_bind (op_guard (\<not> no_name name) EINVAL) (\<lambda>_.
     op_bind (op_guard (byte_sz \<in> {2, 4, 8, 12, 16}) EINVAL) (\<lambda>_.
       append_type al name (btf_type_info BTF_KIND_FLOAT 0 0) [ucast byte_sz]))"

text \<open>The parameter is an \<open>int\<close>, and it is compared with the limit as an unsigned value.\<close>

definition validate_type_id :: "u32 \<Rightarrow> bool" where
  "validate_type_id i \<longleftrightarrow> \<not> (sint i < 0 \<or> unat i > BTF_MAX_NR_TYPES)"

definition btf_add_ref_kind :: "(nat \<Rightarrow> btf_alloc) \<Rightarrow> u32 \<Rightarrow> bytes option \<Rightarrow> u32 \<Rightarrow> u32 op" where
  "btf_add_ref_kind al kind name ref_type_id =
     op_bind (op_guard (validate_type_id ref_type_id) EINVAL) (\<lambda>_.
       append_type al name (btf_type_info kind 0 0) [ref_type_id])"

definition btf__add_ptr :: "(nat \<Rightarrow> btf_alloc) \<Rightarrow> u32 \<Rightarrow> u32 op" where
  "btf__add_ptr al ref_type_id = btf_add_ref_kind al BTF_KIND_PTR None ref_type_id"

definition btf__add_array :: "(nat \<Rightarrow> btf_alloc) \<Rightarrow> u32 \<Rightarrow> u32 \<Rightarrow> u32 \<Rightarrow> u32 op" where
  "btf__add_array al index_type_id elem_type_id nr_elems =
     op_bind (op_guard (validate_type_id index_type_id \<and> validate_type_id elem_type_id) EINVAL) (\<lambda>_.
       append_type al None (btf_type_info BTF_KIND_ARRAY 0 0) [0, elem_type_id, index_type_id, nr_elems])"

definition btf_add_composite :: "(nat \<Rightarrow> btf_alloc) \<Rightarrow> u32 \<Rightarrow> bytes option \<Rightarrow> u32 \<Rightarrow> u32 op" where
  "btf_add_composite al kind name bytes_sz = append_type al name (btf_type_info kind 0 0) [bytes_sz]"

definition btf__add_struct :: "(nat \<Rightarrow> btf_alloc) \<Rightarrow> bytes option \<Rightarrow> u32 \<Rightarrow> u32 op" where
  "btf__add_struct al name byte_sz = btf_add_composite al BTF_KIND_STRUCT name byte_sz"

definition btf__add_union :: "(nat \<Rightarrow> btf_alloc) \<Rightarrow> bytes option \<Rightarrow> u32 \<Rightarrow> u32 op" where
  "btf__add_union al name byte_sz = btf_add_composite al BTF_KIND_UNION name byte_sz"

definition btf__add_enum :: "(nat \<Rightarrow> btf_alloc) \<Rightarrow> bytes option \<Rightarrow> u32 \<Rightarrow> u32 op" where
  "btf__add_enum al name byte_sz =
     op_bind (op_guard (byte_sz \<noteq> 0 \<and> byte_sz AND (byte_sz - 1) = 0 \<and> byte_sz \<le> 8) EINVAL) (\<lambda>_.
       append_type al name (btf_type_info BTF_KIND_ENUM 0 0) [byte_sz])"

text \<open>
  The second word of the type with an ID of the instance, as the functions that come back to
  a type after appending it overwrite it.
\<close>

definition own_type_off :: "u32 \<Rightarrow> btf_obj \<Rightarrow> nat cres" where
  "own_type_off i b = res_bind (mem_u32 (type_offs b) (4 * unat (i - start_id b))) (\<lambda>off. Inr (unat off))"

definition set_type_info :: "u32 \<Rightarrow> (btf_type \<Rightarrow> u32) \<Rightarrow> unit op" where
  "set_type_info i f =
     op_update (\<lambda>b.
       res_bind (own_type_off i b) (\<lambda>off.
       res_bind (read_type (types_data b) off) (\<lambda>t.
       res_bind (mem_set_u32 (types_data b) (off + 4) (f t)) (\<lambda>m. Inr (b\<lparr>types_data := m\<rparr>)))))"

abbreviation "BTF_FWD_STRUCT \<equiv> (0 :: u32)"
abbreviation "BTF_FWD_UNION \<equiv> (1 :: u32)"
abbreviation "BTF_FWD_ENUM \<equiv> (2 :: u32)"

definition btf__add_fwd :: "(nat \<Rightarrow> btf_alloc) \<Rightarrow> bytes option \<Rightarrow> u32 \<Rightarrow> u32 op" where
  "btf__add_fwd al name fwd_kind =
     op_bind (op_guard (\<not> no_name name) EINVAL) (\<lambda>_.
       if fwd_kind = BTF_FWD_STRUCT \<or> fwd_kind = BTF_FWD_UNION
       then
         op_bind (btf_add_ref_kind al BTF_KIND_FWD name 0) (\<lambda>i.
           if sint i \<le> 0 then op_return i
           else
             op_bind (set_type_info i (\<lambda>_. btf_type_info BTF_KIND_FWD 0
                        (if fwd_kind = BTF_FWD_UNION then 1 else 0))) (\<lambda>_. op_return i))
       else if fwd_kind = BTF_FWD_ENUM then btf__add_enum al name 4
       else op_fail EINVAL)"

definition btf__add_typedef :: "(nat \<Rightarrow> btf_alloc) \<Rightarrow> bytes option \<Rightarrow> u32 \<Rightarrow> u32 op" where
  "btf__add_typedef al name ref_type_id =
     op_bind (op_guard (\<not> no_name name) EINVAL) (\<lambda>_.
       btf_add_ref_kind al BTF_KIND_TYPEDEF name ref_type_id)"

definition btf__add_volatile :: "(nat \<Rightarrow> btf_alloc) \<Rightarrow> u32 \<Rightarrow> u32 op" where
  "btf__add_volatile al ref_type_id = btf_add_ref_kind al BTF_KIND_VOLATILE None ref_type_id"

definition btf__add_const :: "(nat \<Rightarrow> btf_alloc) \<Rightarrow> u32 \<Rightarrow> u32 op" where
  "btf__add_const al ref_type_id = btf_add_ref_kind al BTF_KIND_CONST None ref_type_id"

definition btf__add_restrict :: "(nat \<Rightarrow> btf_alloc) \<Rightarrow> u32 \<Rightarrow> u32 op" where
  "btf__add_restrict al ref_type_id = btf_add_ref_kind al BTF_KIND_RESTRICT None ref_type_id"

definition btf__add_func :: "(nat \<Rightarrow> btf_alloc) \<Rightarrow> bytes option \<Rightarrow> u32 \<Rightarrow> u32 \<Rightarrow> u32 op" where
  "btf__add_func al name linkage proto_type_id =
     op_bind (op_guard (\<not> no_name name) EINVAL) (\<lambda>_.
     op_bind (op_guard (linkage \<in> {0, 1, 2}) EINVAL) (\<lambda>_.
     op_bind (btf_add_ref_kind al BTF_KIND_FUNC name proto_type_id) (\<lambda>i.
       if sint i > 0
       then op_bind (set_type_info i (\<lambda>_. btf_type_info BTF_KIND_FUNC linkage 0)) (\<lambda>_. op_return i)
       else op_return i)))"

definition btf__add_func_proto :: "(nat \<Rightarrow> btf_alloc) \<Rightarrow> u32 \<Rightarrow> u32 op" where
  "btf__add_func_proto al ret_type_id =
     op_bind (op_guard (validate_type_id ret_type_id) EINVAL) (\<lambda>_.
       append_type al None (btf_type_info BTF_KIND_FUNC_PROTO 0 0) [ret_type_id])"

definition btf__add_var :: "(nat \<Rightarrow> btf_alloc) \<Rightarrow> bytes option \<Rightarrow> u32 \<Rightarrow> u32 \<Rightarrow> u32 op" where
  "btf__add_var al name linkage type_id =
     op_bind (op_guard (\<not> no_name name) EINVAL) (\<lambda>_.
     op_bind (op_guard (linkage \<in> {0, 1, 2}) EINVAL) (\<lambda>_.
     op_bind (op_guard (validate_type_id type_id) EINVAL) (\<lambda>_.
       append_type al name (btf_type_info BTF_KIND_VAR 0 0) [type_id, linkage])))"

definition btf__add_datasec :: "(nat \<Rightarrow> btf_alloc) \<Rightarrow> bytes option \<Rightarrow> u32 \<Rightarrow> u32 op" where
  "btf__add_datasec al name byte_sz =
     op_bind (op_guard (\<not> no_name name) EINVAL) (\<lambda>_.
       append_type al name (btf_type_info BTF_KIND_DATASEC 0 0) [byte_sz])"

section \<open>Growing the last type\<close>

text \<open>The last type belongs to the instance, which the callers check to have a type.\<close>

definition btf_last_type :: "btf_type op" where
  "btf_last_type =
     op_get (\<lambda>b. res_bind (own_type_off (btf__get_nr_types (hd b)) (hd b)) (\<lambda>off. read_type (types_data (hd b)) off))"

text \<open>
  The functions that append a record to the last type check its kind, and then do the same
  with the record's words, which may start with a name, and the type's new second word.
\<close>

definition last_type_is :: "u32 set \<Rightarrow> btf_type op" where
  "last_type_is kinds =
     op_bind (op_get (\<lambda>b. Inr (nr_types (hd b)))) (\<lambda>n.
     op_bind (op_guard (n \<noteq> 0) EINVAL) (\<lambda>_.
     op_bind btf_last_type (\<lambda>t.
     op_bind (op_guard (btf_kind t \<in> kinds) EINVAL) (\<lambda>_. op_return t))))"

definition btf_type_inc_vlen :: "btf_type \<Rightarrow> u32" where
  "btf_type_inc_vlen t = btf_type_info (btf_kind t) (btf_vlen t + 1) (btf_kflag t)"

definition append_record ::
  "(nat \<Rightarrow> btf_alloc) \<Rightarrow> nat \<Rightarrow> u32 op \<Rightarrow> (u32 \<Rightarrow> u32 list) \<Rightarrow> (btf_type \<Rightarrow> u32) \<Rightarrow> unit op" where
  "append_record al n name record new_info =
     op_bind (ensure_modifiable (al 0)) (\<lambda>_.
     op_bind (btf_add_type_mem (al 0) n) (\<lambda>m.
     op_bind name (\<lambda>off.
     op_bind (put_words m (record off)) (\<lambda>_.
     op_bind (op_get (\<lambda>b. Inr (btf__get_nr_types (hd b)))) (\<lambda>i.
     op_bind (set_type_info i new_info) (\<lambda>_.
       op_update (grow_hdr n)))))))"

definition btf__add_field ::
  "(nat \<Rightarrow> btf_alloc) \<Rightarrow> bytes option \<Rightarrow> u32 \<Rightarrow> u32 \<Rightarrow> u32 \<Rightarrow> unit op" where
  "btf__add_field al name type_id bit_offset bit_size =
     op_bind (last_type_is {BTF_KIND_STRUCT, BTF_KIND_UNION}) (\<lambda>t.
     op_bind (op_guard (validate_type_id type_id) EINVAL) (\<lambda>_.
       let is_bitfield = (bit_size \<noteq> 0 \<or> bit_offset mod 8 \<noteq> 0)
       in op_bind (op_guard (\<not> (is_bitfield \<and> (bit_size = 0 \<or> bit_size > 255 \<or> bit_offset > 0xffffff))) EINVAL) (\<lambda>_.
          op_bind (op_guard (\<not> (btf_kind t = BTF_KIND_UNION \<and> bit_offset \<noteq> 0)) EINVAL) (\<lambda>_.
            append_record al 12 (name_offset al name)
              (\<lambda>off. [off, type_id, bit_offset OR push_bit 24 bit_size])
              (\<lambda>t. btf_type_info (btf_kind t) (btf_vlen t + 1)
                     (if is_bitfield \<or> btf_kflag t \<noteq> 0 then 1 else 0))))))"

definition btf__add_enum_value :: "(nat \<Rightarrow> btf_alloc) \<Rightarrow> bytes option \<Rightarrow> int \<Rightarrow> unit op" where
  "btf__add_enum_value al name value =
     op_bind (last_type_is {BTF_KIND_ENUM}) (\<lambda>_.
     op_bind (op_guard (\<not> no_name name) EINVAL) (\<lambda>_.
     op_bind (op_guard (\<not> (value < - (2 ^ 31) \<or> value > UINT32_MAX)) E2BIG) (\<lambda>_.
       append_record al 8 (name_offset al name) (\<lambda>off. [off, word_of_int value]) btf_type_inc_vlen)))"

definition btf__add_func_param :: "(nat \<Rightarrow> btf_alloc) \<Rightarrow> bytes option \<Rightarrow> u32 \<Rightarrow> unit op" where
  "btf__add_func_param al name type_id =
     op_bind (op_guard (validate_type_id type_id) EINVAL) (\<lambda>_.
     op_bind (last_type_is {BTF_KIND_FUNC_PROTO}) (\<lambda>_.
       append_record al 8 (name_offset al name) (\<lambda>off. [off, type_id]) btf_type_inc_vlen))"

definition btf__add_datasec_var_info :: "(nat \<Rightarrow> btf_alloc) \<Rightarrow> u32 \<Rightarrow> u32 \<Rightarrow> u32 \<Rightarrow> unit op" where
  "btf__add_datasec_var_info al var_type_id offset byte_sz =
     op_bind (last_type_is {BTF_KIND_DATASEC}) (\<lambda>_.
     op_bind (op_guard (validate_type_id var_type_id) EINVAL) (\<lambda>_.
       append_record al 12 (op_return 0) (\<lambda>_. [var_type_id, offset, byte_sz]) btf_type_inc_vlen))"

section \<open>Copying a type of another BTF\<close>

text \<open>
  The visitor of a word of the types gets its position, which stands for its address, and its
  value, and returns the word's new value.
\<close>

definition visit_word :: "(nat \<Rightarrow> u32 \<Rightarrow> u32 op) \<Rightarrow> nat \<Rightarrow> unit op" where
  "visit_word visit p =
     op_bind (op_get (\<lambda>b. mem_u32 (types_data (hd b)) p)) (\<lambda>v.
     op_bind (visit p v) (\<lambda>v. put_words p [v]))"

primrec visit_records :: "(nat \<Rightarrow> u32 \<Rightarrow> u32 op) \<Rightarrow> nat \<Rightarrow> nat \<Rightarrow> nat \<Rightarrow> unit op" where
  "visit_records visit p rec_sz 0 = op_return ()"
| "visit_records visit p rec_sz (Suc n) =
     op_bind (visit_word visit p) (\<lambda>_. visit_records visit (p + rec_sz) rec_sz n)"

definition btf_type_visit_str_offs :: "nat \<Rightarrow> (nat \<Rightarrow> u32 \<Rightarrow> u32 op) \<Rightarrow> unit op" where
  "btf_type_visit_str_offs t visit =
     op_bind (visit_word visit t) (\<lambda>_.
     op_bind (op_get (\<lambda>b. read_type (types_data (hd b)) t)) (\<lambda>ty.
       let kind = btf_kind ty; n = unat (btf_vlen ty)
       in if kind \<in> {BTF_KIND_STRUCT, BTF_KIND_UNION} then visit_records visit (t + BTF_TYPE_SZ) 12 n
          else if kind = BTF_KIND_ENUM then visit_records visit (t + BTF_TYPE_SZ) 8 n
          else if kind = BTF_KIND_FUNC_PROTO then visit_records visit (t + BTF_TYPE_SZ) 8 n
          else op_return ()))"

text \<open>
  The string behind a null or an unterminated pointer is a fault. \<open>al\<close> gives the outcomes of
  the allocations for the word at a position.
\<close>

definition btf_rewrite_str :: "(nat \<Rightarrow> nat \<Rightarrow> btf_alloc) \<Rightarrow> btf \<Rightarrow> nat \<Rightarrow> u32 \<Rightarrow> u32 op" where
  "btf_rewrite_str al src p off =
     (if off = 0 then op_return 0
      else
        op_bind (op_get (\<lambda>_. btf__str_by_offset src off)) (\<lambda>r.
          case r of
            None \<Rightarrow> op_get (\<lambda>_. Inl Fault)
          | Some s \<Rightarrow>
              op_bind (op_get (\<lambda>_. c_strlen s 0)) (\<lambda>_.
              op_bind (btf__add_str (al p) (cstr s 0)) (\<lambda>new_off. op_return (of_nat new_off)))))"

text \<open>\<open>src_type\<close> is the bytes from the type to the end of its region.\<close>

definition btf__add_type ::
  "(nat \<Rightarrow> btf_alloc) \<Rightarrow> (nat \<Rightarrow> nat \<Rightarrow> btf_alloc) \<Rightarrow> btf \<Rightarrow> bytes \<Rightarrow> u32 op" where
  "btf__add_type al str_al src src_type =
     op_bind (op_get (\<lambda>_. res_bind (read_type src_type 0) btf_type_size)) (\<lambda>n.
     op_bind (ensure_modifiable (al 0)) (\<lambda>_.
     op_bind (btf_add_type_mem (al 0) n) (\<lambda>t.
     op_bind (op_update (\<lambda>b.
       res_bind (mem_read src_type 0 n) (\<lambda>ty.
       res_bind (mem_write (types_data b) t ty) (\<lambda>m. Inr (b\<lparr>types_data := m\<rparr>))))) (\<lambda>_.
     op_bind (btf_type_visit_str_offs t (btf_rewrite_str str_al src)) (\<lambda>_.
       btf_commit_type (al 0) n)))))"

end
