(* ===== verification/Btf_Writer.thy ===== *)
theory Btf_Writer
  imports Btf_Build
begin

text \<open>
  What the functions of \<^verbatim>\<open>src/bpftools/libbpf/src/btf.c\<close> that change a BTF guarantee, for an
  instance without a base: splitting the data changes nothing a reader can see, a type is
  appended whole or not at all, and types and strings that are there stay as they are.
\<close>

section \<open>What a reader can see\<close>

definition type_sec :: "btf_obj \<Rightarrow> bytes" where
  "type_sec b = take (unat (type_len (hdr b))) (types_data b)"

definition type_table :: "btf_obj \<Rightarrow> nat list" where
  "type_table b = offs_list (type_offs b) (unat (nr_types b))"

definition str_image :: "btf_obj \<Rightarrow> bytes" where
  "str_image b = (case btf_strs_data b of Inr s \<Rightarrow> take (unat (str_len (hdr b))) s | Inl _ \<Rightarrow> [])"

lemma str_image_simps:
  "str_sec b = Some s \<Longrightarrow> str_image b = take (unat (str_len (hdr b))) s"
  "str_sec b = None \<Longrightarrow> strs_set b = Some ss \<Longrightarrow> str_image b = take (unat (str_len (hdr b))) (strs_data ss)"
  by (simp_all add: str_image_def btf_strs_data_def strset__data_def)

definition same_image :: "btf_obj \<Rightarrow> btf_obj \<Rightarrow> bool" where
  "same_image b b' \<longleftrightarrow> hdr b' = hdr b \<and> nr_types b' = nr_types b \<and> type_sec b' = type_sec b \<and>
     type_table b' = type_table b \<and> str_image b' = str_image b"

lemma unat_u32_le: "unat (x :: u32) \<le> UINT32_MAX"
proof -
  have "unat x < 2 ^ 32" using unsigned_less [of x, where 'a = nat] by simp
  then show ?thesis by simp
qed

text \<open>
  An instance as \<open>btf_new\<close> and \<open>btf_new_empty\<close> make it, or as a change leaves it.
\<close>

definition raw_inv :: "btf_obj \<Rightarrow> bool" where
  "raw_inv b \<longleftrightarrow> (\<exists>raw s. raw_data b = Some raw \<and> 24 \<le> length raw \<and> str_sec b = Some s) \<and> strs_wf b"

definition split_inv :: "btf_obj \<Rightarrow> bool" where
  "split_inv b \<longleftrightarrow> str_sec b = None \<and> length (types_data b) = types_data_cap b \<and>
     types_data_cap b \<le> UINT32_MAX \<and>
     (\<exists>ss. strs_set b = Some ss \<and> btf_strset_inv ss \<and> strs_data_len ss = unat (str_len (hdr b)))"

definition instance_inv :: "btf_obj \<Rightarrow> bool" where
  "instance_inv b \<longleftrightarrow> types_wf b \<and> start_id b = 1 \<and> start_str_off b = 0 \<and> hdr_len (hdr b) = 24 \<and>
     hdr_ext (hdr b) = [] \<and> (if hdr_in_raw b then raw_inv b else split_inv b)"

lemma instance_types_wf: "instance_inv b \<Longrightarrow> types_wf b"
  by (simp add: instance_inv_def)

lemma split_strs:
  assumes "split_inv b"
  obtains ss where "strs_set b = Some ss" "btf_strset_inv ss" "strs_data_len ss = unat (str_len (hdr b))"
    "str_image b = strset_section ss" "btf_strs_data b = Inr (strs_data ss)"
  using assms by (auto simp: split_inv_def str_image_def btf_strs_data_def strset__data_def strset_section_def)

lemma split_strs_wf: "split_inv b \<Longrightarrow> strs_wf b"
proof (elim split_strs)
  fix ss assume s: "btf_strset_inv ss" "strs_data_len ss = unat (str_len (hdr b))" "btf_strs_data b = Inr (strs_data ss)"
  have l: "strs_data_len ss \<le> length (strs_data ss)" and
    z: "strset_section ss = [] \<or> last (strset_section ss) = 0"
    using s(1) by (simp_all add: btf_strset_inv_def strset_inv_def)
  have "strs_data ss ! (unat (str_len (hdr b)) - 1) = 0" if "str_len (hdr b) \<noteq> 0"
  proof -
    have p: "0 < strs_data_len ss" using that s(2) by (simp add: unat_gt_0)
    moreover have n: "length (strset_section ss) = strs_data_len ss" using l by (simp add: strset_section_def)
    ultimately have "strset_section ss \<noteq> []" by auto
    then have "strset_section ss ! (strs_data_len ss - 1) = 0"
      using z n last_conv_nth [of "strset_section ss"] by simp
    then show ?thesis using p s(2) by (simp add: strset_section_def)
  qed
  then show "strs_wf b" using s l by (simp add: strs_wf_def)
qed

lemma instance_btf_wf:
  assumes "instance_inv b"
  shows "btf_wf [b]"
proof -
  have "offs_ok (type_offs b) (type_offs_cap b) (nr_types b)"
    using assms by (simp add: instance_inv_def types_wf_def)
  then have "unat (nr_types b) \<le> BTF_MAX_NR_TYPES" by (simp add: offs_ok_def)
  then show ?thesis
    using assms split_strs_wf [of b] by (auto simp: instance_inv_def btf_start_def raw_inv_def split: if_splits)
qed

text \<open>The string section is empty or ends in a zero.\<close>

lemma str_image_terminated:
  assumes "instance_inv b"
  shows "length (str_image b) = unat (str_len (hdr b))" "str_image b = [] \<or> last (str_image b) = 0"
proof -
  have "strs_wf b" using instance_btf_wf [OF assms] by simp
  then obtain s where s: "btf_strs_data b = Inr s" "unat (str_len (hdr b)) \<le> length s"
    "str_len (hdr b) \<noteq> 0 \<longrightarrow> s ! (unat (str_len (hdr b)) - 1) = 0"
    by (auto simp: strs_wf_def split: sum.splits)
  then show l: "length (str_image b) = unat (str_len (hdr b))" by (simp add: str_image_def)
  show "str_image b = [] \<or> last (str_image b) = 0"
  proof (cases "str_len (hdr b) = 0")
    case False
    then have p: "0 < unat (str_len (hdr b))" by (simp add: unat_gt_0)
    then have "str_image b \<noteq> []" using l by auto
    moreover have "str_image b ! (unat (str_len (hdr b)) - 1) = 0"
      using s False p by (simp add: str_image_def)
    ultimately show ?thesis using l last_conv_nth [of "str_image b"] by simp
  qed (use l in simp)
qed

section \<open>Composing operations\<close>

lemma op_bind_Inr: "m b = (Inr x, b') \<Longrightarrow> op_bind m f b = f x b'"
  by (simp add: op_bind_def)

lemma op_bind_Inl: "m b = (Inl e, b') \<Longrightarrow> op_bind m f b = (Inl e, b')"
  by (simp add: op_bind_def)

lemma op_return [simp]: "op_bind (op_return x) f b = f x b" "op_return x b = (Inr x, b)"
  by (simp_all add: op_bind_def op_return_def)

lemma op_guard [simp]: "op_bind (op_guard c e) f b = (if c then f () b else (Inl (Err e), b))"
  by (simp add: op_bind_def op_guard_def)

lemma op_fail [simp]: "op_bind (op_fail e) f b = (Inl (Err e), b)" "op_fail e b = (Inl (Err e), b)"
  by (simp_all add: op_bind_def op_fail_def)

lemma op_get [simp]: "op_bind (op_get g) f b = (case g b of Inl e \<Rightarrow> (Inl e, b) | Inr x \<Rightarrow> f x b)"
  by (simp add: op_bind_def op_get_def split: sum.split)

lemma op_update_one: "f b = Inr b' \<Longrightarrow> op_update f [b] = (Inr (), [b'])"
  by (simp add: op_update_def)

lemma op_update_fails: "f b = Inl e \<Longrightarrow> op_update f [b] = (Inl e, [b])"
  by (simp add: op_update_def)

section \<open>Splitting the data\<close>

lemma invalidate_simps [simp]:
  "hdr (btf_invalidate_raw_data b) = hdr b" "hdr_in_raw (btf_invalidate_raw_data b) = hdr_in_raw b"
  "types_data (btf_invalidate_raw_data b) = types_data b" "types_data_cap (btf_invalidate_raw_data b) = types_data_cap b"
  "type_offs (btf_invalidate_raw_data b) = type_offs b" "type_offs_cap (btf_invalidate_raw_data b) = type_offs_cap b"
  "nr_types (btf_invalidate_raw_data b) = nr_types b" "start_id (btf_invalidate_raw_data b) = start_id b"
  "start_str_off (btf_invalidate_raw_data b) = start_str_off b" "str_sec (btf_invalidate_raw_data b) = str_sec b"
  "strs_set (btf_invalidate_raw_data b) = strs_set b" "raw_data (btf_invalidate_raw_data b) = None"
  "raw_data_swapped (btf_invalidate_raw_data b) = None"
  by (simp_all add: btf_invalidate_raw_data_def)

lemma invalidate_inv:
  assumes "instance_inv b" "\<not> hdr_in_raw b"
  shows "instance_inv (btf_invalidate_raw_data b)" "same_image b (btf_invalidate_raw_data b)"
proof -
  have "split_inv b" using assms by (simp add: instance_inv_def)
  then obtain ss where "str_sec b = None" "strs_set b = Some ss" by (auto simp: split_inv_def)
  then show "same_image b (btf_invalidate_raw_data b)"
    by (simp add: same_image_def type_sec_def type_table_def str_image_simps)
  show "instance_inv (btf_invalidate_raw_data b)"
    using assms by (simp add: instance_inv_def split_inv_def types_wf_def)
qed

lemma ensure_split:
  assumes inv: "instance_inv b" and raw: "hdr_in_raw b"
  shows "btf_ensure_modifiable al has_base b = Inl (Err ENOMEM) \<or>
    (\<exists>b'. btf_ensure_modifiable al has_base b = Inr b' \<and> instance_inv b' \<and> same_image b b' \<and>
       \<not> hdr_in_raw b' \<and> raw_data b' = None \<and> raw_data_swapped b' = None)"
proof (cases "hdr_ok al \<and> types_ok al")
  case False
  then show ?thesis using raw by (simp add: btf_ensure_modifiable_def btf_is_modifiable_def)
next
  case True
  let ?tl = "unat (type_len (hdr b))" and ?sl = "unat (str_len (hdr b))"
  obtain rw s where rw: "raw_data b = Some rw" "24 \<le> length rw" "str_sec b = Some s" and sw: "strs_wf b"
    using inv raw by (auto simp: instance_inv_def raw_inv_def)
  have tw: "types_wf b" using inv by (simp add: instance_inv_def)
  have tl: "?tl \<le> length (types_data b)" using tw by (simp add: types_wf_def)
  have sl: "?sl \<le> length s" using sw rw(3) by (simp add: strs_wf_def btf_strs_data_def)
  have img: "str_image b = take ?sl s" using rw(3) by (simp add: str_image_simps)
  have init: "take ?sl s = [] \<or> last (take ?sl s) = 0" using str_image_terminated(2) [OF inv] img by simp
  have "?sl < 2 ^ 32" using unsigned_less [of "str_len (hdr b)"] by simp
  then have ilen: "length (take ?sl s) < 2 ^ 32" by simp
  have h: "hdr_len (hdr b) = 24" "hdr_ext (hdr b) = []" using inv by (simp_all add: instance_inv_def)
  note new = btf_strset_new [OF init ilen, of "set_ok al" "map_ok al" "data_ok al" "index_ok al"]
  show ?thesis
  proof (cases "strset__new (set_ok al) (map_ok al) (data_ok al) (index_ok al) BTF_MAX_STR_OFFSET (Some (take ?sl s))")
    case (Inl e)
    then show ?thesis
      using new True raw rw tl sl h
      by (simp add: btf_ensure_modifiable_def btf_is_modifiable_def mem_read_def)
  next
    case (Inr ss)
    define b1 where "b1 = btf_invalidate_raw_data (b\<lparr>hdr := (hdr b)\<lparr>hdr_ext := []\<rparr>, hdr_in_raw := False,
      types_data := take ?tl (types_data b), types_data_cap := ?tl, str_sec := None, strs_set := Some ss,
      strs_deduped :=
        (if str_len (hdr b) = 0 then True else if \<not> has_base \<and> str_len (hdr b) = 1 then True
         else strs_deduped b)\<rparr>)"
    have r: "btf_ensure_modifiable al has_base b = Inr b1"
      using Inr True raw rw tl sl h
      by (simp add: btf_ensure_modifiable_def btf_is_modifiable_def mem_read_def b1_def)
    have ss: "btf_strset_inv ss" "strset_section ss = take ?sl s" "strs_data_len ss = ?sl"
      using new Inr sl by simp_all
    have "(hdr b)\<lparr>hdr_ext := []\<rparr> = hdr b" using h(2) by simp
    then have hd: "hdr b1 = hdr b" by (simp add: b1_def)
    have "layout (take ?tl (types_data b)) 0 (offs_list (type_offs b) (unat (nr_types b))) ?tl"
      by (rule layout_agree [of "types_data b"]) (use tw tl in \<open>simp_all add: types_wf_def\<close>)
    then have "types_wf b1"
      using tw tl hd by (simp add: types_wf_def b1_def)
    moreover have "split_inv b1"
      using ss tl hd unat_u32_le by (simp add: split_inv_def b1_def)
    ultimately have "instance_inv b1" "same_image b b1"
      using inv hd ss img
      by (simp_all add: instance_inv_def same_image_def type_sec_def type_table_def str_image_simps
          strset_section_def b1_def)
    then show ?thesis using r by (simp add: b1_def)
  qed
qed

lemma ensure_result:
  assumes "instance_inv b"
  obtains (fail) "ensure_modifiable al [b] = (Inl (Err ENOMEM), [b])" "hdr_in_raw b"
  | (ok) b' where "ensure_modifiable al [b] = (Inr (), [b'])" "instance_inv b'" "same_image b b'"
      "\<not> hdr_in_raw b'" "raw_data b' = None" "raw_data_swapped b' = None"
proof (cases "hdr_in_raw b")
  case True
  from ensure_split [OF assms True, of al False] show thesis
  proof
    assume "btf_ensure_modifiable al False b = Inl (Err ENOMEM)"
    then show thesis using True by (intro fail) (simp_all add: ensure_modifiable_def op_update_def)
  next
    assume "\<exists>b'. btf_ensure_modifiable al False b = Inr b' \<and> instance_inv b' \<and> same_image b b' \<and>
       \<not> hdr_in_raw b' \<and> raw_data b' = None \<and> raw_data_swapped b' = None"
    then show thesis by (auto intro!: ok simp: ensure_modifiable_def op_update_def)
  qed
next
  case False
  then have "ensure_modifiable al [b] = (Inr (), [btf_invalidate_raw_data b])"
    by (simp add: ensure_modifiable_def op_update_def btf_ensure_modifiable_def btf_is_modifiable_def)
  then show thesis
    using invalidate_inv [OF assms False] False ok [of "btf_invalidate_raw_data b"] by simp
qed

lemma ensure_again:
  "\<not> hdr_in_raw b \<Longrightarrow> ensure_modifiable al [b] = (Inr (), [btf_invalidate_raw_data b])"
  by (simp add: ensure_modifiable_def op_update_def btf_ensure_modifiable_def btf_is_modifiable_def)

section \<open>Strings\<close>

text \<open>The types are untouched, to the byte.\<close>

definition types_kept :: "btf_obj \<Rightarrow> btf_obj \<Rightarrow> bool" where
  "types_kept b b' \<longleftrightarrow> types_data b' = types_data b \<and> types_data_cap b' = types_data_cap b \<and>
     type_offs b' = type_offs b \<and> type_offs_cap b' = type_offs_cap b \<and> nr_types b' = nr_types b \<and>
     type_len (hdr b') = type_len (hdr b) \<and> start_id b' = start_id b \<and> start_str_off b' = start_str_off b"

lemma types_keptD:
  assumes "types_kept b b'"
  shows "type_sec b' = type_sec b" "type_table b' = type_table b" "types_wf b' = types_wf b"
  using assms by (simp_all add: types_kept_def type_sec_def type_table_def types_wf_def)

lemma set_strings_inv:
  assumes inv: "instance_inv b" "\<not> hdr_in_raw b" and ss: "btf_strset_inv ss" "strs_data_len ss = unat n"
    and b': "b' = b\<lparr>strs_set := Some ss, hdr := (hdr b)\<lparr>str_len := n\<rparr>\<rparr>"
  shows "instance_inv b'" "types_kept b b'" "str_image b' = strset_section ss"
proof -
  show k: "types_kept b b'" by (simp add: b' types_kept_def)
  show "instance_inv b'"
    using inv ss types_keptD(3) [OF k] by (simp add: instance_inv_def split_inv_def b')
  have "str_sec b = None" using inv by (simp add: instance_inv_def split_inv_def)
  then show "str_image b' = strset_section ss"
    using ss(2) by (simp add: b' str_image_simps strset_section_def)
qed

text \<open>Whether a string has been appended, and where it is.\<close>

definition string_added :: "btf_obj \<Rightarrow> btf_obj \<Rightarrow> bytes \<Rightarrow> nat \<Rightarrow> bool" where
  "string_added b b' s off \<longleftrightarrow>
     (str_image b' = str_image b \<or> str_image b' = str_image b @ s @ [0]) \<and>
     off < length (str_image b') \<and> cstr (str_image b') off = s"

abbreviation add_to_set :: "btf_alloc \<Rightarrow> bytes \<Rightarrow> nat op" where
  "add_to_set al s \<equiv>
     op_bind (op_strset (\<lambda>ss. strset__add_str (str_realloc_ok al) (str_calloc_ok al) (str_malloc_ok al) ss s))
       (\<lambda>off. op_bind (op_update set_str_len) (\<lambda>_. op_return off))"

lemma add_to_set_result:
  assumes inv: "instance_inv b" "\<not> hdr_in_raw b" and s: "0 \<notin> set s"
  obtains (fail) b' where "add_to_set al s [b] = (Inl (Err ENOMEM), [b'])" "instance_inv b'" "\<not> hdr_in_raw b'"
      "types_kept b b'" "str_image b' = str_image b"
  | (ok) b' off where "add_to_set al s [b] = (Inr off, [b'])" "instance_inv b'" "\<not> hdr_in_raw b'"
      "types_kept b b'" "string_added b b' s off"
proof -
  have sp: "split_inv b" "start_str_off b = 0" using inv by (simp_all add: instance_inv_def)
  from sp(1) obtain ss where ss: "strs_set b = Some ss" "btf_strset_inv ss" "strs_data_len ss = unat (str_len (hdr b))"
    "str_image b = strset_section ss"
    by (rule split_strs)
  obtain ss' r where r: "strset__add_str (str_realloc_ok al) (str_calloc_ok al) (str_malloc_ok al) ss s = Inr (ss', r)"
    "btf_strset_inv ss'"
    and res: "case r of
       Inl e \<Rightarrow> e = ENOMEM \<and> strset_section ss' = strset_section ss
     | Inr off \<Rightarrow>
         (strset_section ss' = strset_section ss \<or> strset_section ss' = strset_section ss @ s @ [0]) \<and>
         off < length (strset_section ss') \<and> cstr (strset_section ss') off = s"
    using btf_strset_add [OF ss(2) s] by blast
  let ?n = "of_nat (strs_data_len ss') :: u32"
  have "strs_data_len ss' < 2 ^ 32"
    using r(2) by (auto simp: btf_strset_inv_def strset_inv_def)
  then have n: "strs_data_len ss' = unat ?n" by (simp add: unat_of_nat_u32)
  define b' where b': "b' = b\<lparr>strs_set := Some ss', hdr := (hdr b)\<lparr>str_len := ?n\<rparr>\<rparr>"
  note b = set_strings_inv [OF inv r(2) n b']
  have h: "\<not> hdr_in_raw b'" using inv(2) by (simp add: b')
  show thesis
  proof (cases r)
    case (Inl e)
    have l: "strs_data_len ss' = strs_data_len ss"
      using res Inl length_strset_section [of ss] length_strset_section [of ss'] r(2) ss(2)
      by (simp add: btf_strset_inv_def)
    then have n': "?n = str_len (hdr b)" using ss(3) by simp
    have "b' = b\<lparr>strs_set := Some ss'\<rparr>" unfolding b' n' by simp
    then have "add_to_set al s [b] = (Inl (Err ENOMEM), [b'])"
      using ss(1) r(1) Inl res by (simp add: op_bind_def op_strset_def)
    then show thesis using b(1) h b(2) by (rule fail) (use b(3) res Inl ss(4) in simp)
  next
    case (Inr off)
    have "add_to_set al s [b] = (Inr off, [b'])"
      using ss(1) r(1) Inr sp(2)
      by (simp add: op_bind_def op_strset_def op_update_def set_str_len_def op_return_def strset__data_size_def b')
    then show thesis
      using b(1) h b(2) by (rule ok) (use res Inr in \<open>simp add: string_added_def b(3) ss(4)\<close>)
  qed
qed

lemma btf__add_str_one: "btf__add_str al s [b] = op_bind (ensure_modifiable (al 0)) (\<lambda>_. add_to_set (al 0) s) [b]"
  by simp

lemma add_str_split:
  assumes inv: "instance_inv b" "\<not> hdr_in_raw b" and s: "0 \<notin> set s"
  obtains (fail) b' where "btf__add_str al s [b] = (Inl (Err ENOMEM), [b'])" "instance_inv b'" "\<not> hdr_in_raw b'"
      "types_kept b b'" "str_image b' = str_image b"
  | (ok) b' off where "btf__add_str al s [b] = (Inr off, [b'])" "instance_inv b'" "\<not> hdr_in_raw b'"
      "types_kept b b'" "string_added b b' s off"
proof -
  let ?b = "btf_invalidate_raw_data b"
  have e: "btf__add_str al s [b] = add_to_set (al 0) s [?b]"
    unfolding btf__add_str_one by (rule op_bind_Inr [where m = "ensure_modifiable (al 0)", OF ensure_again [OF inv(2)]])
  have i: "instance_inv ?b" "str_image ?b = str_image b"
    using invalidate_inv [OF inv] by (simp_all add: same_image_def)
  have k: "types_kept ?b b' \<Longrightarrow> types_kept b b'" for b' by (simp add: types_kept_def)
  have sa: "string_added ?b b' s off = string_added b b' s off" for b' off by (simp add: string_added_def i)
  show thesis
    by (rule add_to_set_result [of ?b s "al 0"])
      (use i inv s e k sa in \<open>auto intro: fail ok\<close>)
qed

lemma add_str_result:
  assumes inv: "instance_inv b" and s: "0 \<notin> set s"
  shows "\<exists>r b'. btf__add_str al s [b] = (r, [b']) \<and> instance_inv b' \<and>
    type_sec b' = type_sec b \<and> type_table b' = type_table b \<and>
    (case r of
       Inl e \<Rightarrow> e = Err ENOMEM \<and> str_image b' = str_image b
     | Inr off \<Rightarrow> string_added b b' s off)"
proof (cases rule: ensure_result [OF inv, of "al 0"])
  case 1
  have "btf__add_str al s [b] = (Inl (Err ENOMEM), [b])"
    unfolding btf__add_str_one by (rule op_bind_Inl [where m = "ensure_modifiable (al 0)", OF 1(1)])
  then show ?thesis using inv by simp
next
  case (2 b1)
  have e: "btf__add_str al s [b] = add_to_set (al 0) s [b1]"
    unfolding btf__add_str_one by (rule op_bind_Inr [where m = "ensure_modifiable (al 0)", OF 2(1)])
  have i: "str_image b1 = str_image b" "type_sec b1 = type_sec b" "type_table b1 = type_table b"
    using 2(3) by (simp_all add: same_image_def)
  show ?thesis
    by (rule add_to_set_result [OF 2(2,4) s, of "al 0"])
      (use e i in \<open>simp_all add: types_keptD(1,2) string_added_def\<close>)
qed

section \<open>Words in memory\<close>

definition words_bytes :: "u32 list \<Rightarrow> bytes" where
  "words_bytes ws = concat (map (\<lambda>w. le_bytes 4 (unat w)) ws)"

lemma words_bytes_simps [simp]:
  "words_bytes [] = []" "words_bytes (w # ws) = le_bytes 4 (unat w) @ words_bytes ws"
  by (simp_all add: words_bytes_def)

lemma length_words_bytes [simp]: "length (words_bytes ws) = 4 * length ws"
  by (induction ws) simp_all

lemma mem_set_words_eq:
  "off + 4 * length ws \<le> length m \<Longrightarrow>
   mem_set_words m off ws = Inr (take off m @ words_bytes ws @ drop (off + 4 * length ws) m)"
proof (induction ws arbitrary: m off)
  case (Cons w ws)
  let ?m = "take off m @ le_bytes 4 (unat w) @ drop (off + 4) m"
  have "mem_set_u32 m off w = Inr ?m" using Cons.prems by (simp add: mem_set_u32_def mem_write_def)
  moreover have "mem_set_words ?m (off + 4) ws =
      Inr (take (off + 4) ?m @ words_bytes ws @ drop (off + 4 + 4 * length ws) ?m)"
    using Cons.prems by (intro Cons.IH) simp
  moreover have "take (off + 4) ?m = take off m @ le_bytes 4 (unat w)"
    "drop (off + 4 + 4 * length ws) ?m = drop (off + 4 * length (w # ws)) m"
    using Cons.prems by (simp_all add: ac_simps)
  ultimately show ?case by simp
qed simp

lemma words_bytes_snoc: "words_bytes (ws @ vs) = words_bytes ws @ words_bytes vs"
  by (simp add: words_bytes_def)

lemma mem_u32_words: "mem_u32 (xs @ le_bytes 4 (unat w) @ ys) (length xs) = Inr w"
  by (simp add: mem_u32_def mem_read_def)

lemma read_type_words:
  assumes "length xs = off"
  shows "read_type (xs @ words_bytes (a # b # c # ws) @ ys) off = Inr \<lparr>name_off = a, info = b, size_type = c\<rparr>"
proof -
  have "mem_u32 (xs @ words_bytes (a # b # c # ws) @ ys) off = Inr a"
    using mem_u32_words [of xs a] assms by simp
  moreover have "mem_u32 (xs @ words_bytes (a # b # c # ws) @ ys) (off + 4) = Inr b"
    using mem_u32_words [of "xs @ le_bytes 4 (unat a)" b] assms by simp
  moreover have "mem_u32 (xs @ words_bytes (a # b # c # ws) @ ys) (off + 8) = Inr c"
    using mem_u32_words [of "xs @ le_bytes 4 (unat a) @ le_bytes 4 (unat b)" c] assms by simp
  ultimately show ?thesis by (simp add: read_type_def)
qed

lemma type_size_info: "info t = info t' \<Longrightarrow> btf_type_size t = btf_type_size t'"
  by (simp add: btf_type_size_def btf_kind_def btf_vlen_def)

section \<open>Memory behind the types\<close>

text \<open>An instance whose region of types has another tail.\<close>

lemma new_tail_inv:
  assumes inv: "instance_inv b" "\<not> hdr_in_raw b"
    and m: "take (unat (type_len (hdr b))) m = type_sec b" "length m = c" "c \<le> UINT32_MAX"
    and b': "b' = b\<lparr>types_data := m, types_data_cap := c\<rparr>"
  shows "instance_inv b'" "type_sec b' = type_sec b" "type_table b' = type_table b" "str_image b' = str_image b"
proof -
  let ?tl = "unat (type_len (hdr b))"
  have tw: "types_wf b" "split_inv b" using inv by (simp_all add: instance_inv_def)
  then have l: "length (type_sec b) = ?tl" by (simp add: type_sec_def types_wf_def)
  then have tl: "?tl \<le> c" using m(1,2) by (metis length_take min.cobounded1)
  have "layout m 0 (offs_list (type_offs b) (unat (nr_types b))) ?tl"
    by (rule layout_agree [of "types_data b"])
      (use tw m tl in \<open>simp_all add: types_wf_def type_sec_def\<close>)
  then have "types_wf b'" using tw tl m by (simp add: types_wf_def b')
  then show "instance_inv b'" using inv m by (simp add: instance_inv_def split_inv_def b')
  show "type_sec b' = type_sec b" "type_table b' = type_table b" using m by (simp_all add: type_sec_def type_table_def b')
  show "str_image b' = str_image b"
    using tw(2) by (auto simp: split_inv_def str_image_simps b')
qed

lemma length_type_sec: "instance_inv b \<Longrightarrow> length (type_sec b) = unat (type_len (hdr b))"
  by (simp add: instance_inv_def types_wf_def type_sec_def)

lemma add_type_mem_result:
  assumes inv: "instance_inv b" "\<not> hdr_in_raw b"
  obtains (fail) "btf_add_type_mem al n [b] = (Inl (Err ENOMEM), [b])"
  | (ok) b' where "btf_add_type_mem al n [b] = (Inr (length (type_sec b)), [b'])" "instance_inv b'"
      "\<not> hdr_in_raw b'" "type_sec b' = type_sec b" "type_table b' = type_table b" "str_image b' = str_image b"
      "length (type_sec b) + n \<le> length (types_data b')" "nr_types b' = nr_types b"
proof (cases "libbpf_add_mem (type_mem_ok al) (types_data b) (types_data_cap b) 1
                  (unat (type_len (hdr b))) UINT32_MAX n")
  case None
  then show thesis by (intro fail) (simp add: btf_add_type_mem_def)
next
  case (Some r)
  obtain m c p where r: "r = (m, c, p)" by (cases r)
  have sp: "length (types_data b) = types_data_cap b" "types_data_cap b \<le> UINT32_MAX" "types_wf b"
    using inv by (simp_all add: instance_inv_def split_inv_def)
  then have "length (types_data b) = types_data_cap b * 1" by simp
  note a = libbpf_add_mem_spec [OF this Some [unfolded r]]
  obtain k where k: "m = types_data b @ replicate k 0" using a(5) by blast
  have m: "take (unat (type_len (hdr b))) m = type_sec b"
    using sp(3) by (simp add: k type_sec_def types_wf_def)
  have c: "length m = c" "c \<le> UINT32_MAX" using a(1,6) sp(2) by auto
  define b' where b': "b' = b\<lparr>types_data := m, types_data_cap := c\<rparr>"
  have l: "length (type_sec b) = unat (type_len (hdr b))" by (rule length_type_sec [OF inv(1)])
  have "btf_add_type_mem al n [b] = (Inr (length (type_sec b)), [b'])"
    using Some r a(4) l by (simp add: btf_add_type_mem_def b')
  then show thesis
    using new_tail_inv(1) [OF inv m c b'] _ new_tail_inv(2-4) [OF inv m c b']
    by (rule ok) (use inv a(3) c(1) l in \<open>simp_all add: b'\<close>)
qed

text \<open>Words written behind the types, where there is room.\<close>

lemma put_words_result:
  assumes inv: "instance_inv b" "\<not> hdr_in_raw b" and room: "length (type_sec b) + 4 * length ws \<le> length (types_data b)"
  obtains b' ys where "put_words (length (type_sec b)) ws [b] = (Inr (), [b'])" "instance_inv b'" "\<not> hdr_in_raw b'"
    "type_sec b' = type_sec b" "type_table b' = type_table b" "str_image b' = str_image b" "nr_types b' = nr_types b"
    "types_data b' = type_sec b @ words_bytes ws @ ys"
proof -
  let ?l = "length (type_sec b)"
  have sp: "length (types_data b) = types_data_cap b" "types_data_cap b \<le> UINT32_MAX"
    using inv by (simp_all add: instance_inv_def split_inv_def)
  have l: "?l = unat (type_len (hdr b))" by (rule length_type_sec [OF inv(1)])
  have t: "take ?l (types_data b) = type_sec b" unfolding l by (simp add: type_sec_def)
  let ?ys = "drop (?l + 4 * length ws) (types_data b)"
  let ?m = "type_sec b @ words_bytes ws @ ?ys"
  have w: "mem_set_words (types_data b) ?l ws = Inr ?m" using mem_set_words_eq [OF room] t by simp
  have m: "take (unat (type_len (hdr b))) ?m = type_sec b" "length ?m = types_data_cap b"
    using l room sp(1) by simp_all
  define b' where b': "b' = b\<lparr>types_data := ?m, types_data_cap := types_data_cap b\<rparr>"
  have "b' = b\<lparr>types_data := ?m\<rparr>" by (simp add: b')
  then have "put_words ?l ws [b] = (Inr (), [b'])" using w by (simp add: put_words_def op_update_def)
  moreover have "\<not> hdr_in_raw b'" "nr_types b' = nr_types b" "types_data b' = ?m" using inv by (simp_all add: b')
  ultimately show thesis using new_tail_inv [OF inv m sp(2) b'] that by blast
qed

section \<open>Names\<close>

definition name_ok :: "bytes option \<Rightarrow> bool" where
  "name_ok name \<longleftrightarrow> (case name of None \<Rightarrow> True | Some s \<Rightarrow> 0 \<notin> set s)"

definition name_added :: "btf_obj \<Rightarrow> btf_obj \<Rightarrow> bytes option \<Rightarrow> u32 \<Rightarrow> bool" where
  "name_added b b' name off \<longleftrightarrow>
     (if no_name name then off = 0 \<and> str_image b' = str_image b
      else string_added b b' (the name) (unat off))"

lemma name_added_cong:
  "str_image b1 = str_image b \<Longrightarrow> str_image b2 = str_image b' \<Longrightarrow>
   name_added b1 b2 name off = name_added b b' name off"
  by (simp add: name_added_def string_added_def)

lemma name_added_prefix: "name_added b b' name off \<Longrightarrow> \<exists>xs. str_image b' = str_image b @ xs"
  by (auto simp: name_added_def string_added_def split: if_splits)

lemma str_image_short:
  assumes "instance_inv b"
  shows "length (str_image b) < 2 ^ 32"
  using str_image_terminated(1) [OF assms] unat_u32_le [of "str_len (hdr b)"] by simp

lemma name_offset_result:
  assumes inv: "instance_inv b" "\<not> hdr_in_raw b" and n: "name_ok name"
  obtains (fail) b' where "name_offset al name [b] = (Inl (Err ENOMEM), [b'])" "instance_inv b'" "\<not> hdr_in_raw b'"
      "types_kept b b'" "str_image b' = str_image b"
  | (ok) b' off where "name_offset al name [b] = (Inr off, [b'])" "instance_inv b'" "\<not> hdr_in_raw b'"
      "types_kept b b'" "name_added b b' name off"
proof (cases "no_name name")
  case True
  then show thesis using inv by (intro ok [of 0 b]) (simp_all add: name_offset_def name_added_def types_kept_def)
next
  case False
  then obtain s where s: "name = Some s" "0 \<notin> set s" using n by (auto simp: no_name_def name_ok_def)
  show thesis
  proof (cases rule: add_str_split [OF inv s(2), of al])
    case (1 b')
    have "name_offset al name [b] = (Inl (Err ENOMEM), [b'])"
      using False s(1) op_bind_Inl [where m = "btf__add_str al s", OF 1(1)] by (simp add: name_offset_def del: btf__add_str.simps)
    then show thesis using 1(2-5) by (rule fail)
  next
    case (2 b' off)
    have "off < 2 ^ 32" using 2(5) str_image_short [OF 2(2)] by (simp add: string_added_def)
    then have "name_added b b' name (of_nat off)"
      using 2(5) False s(1) by (simp add: name_added_def unat_of_nat_u32)
    moreover have "name_offset al name [b] = (Inr (of_nat off), [b'])"
      using False s(1) op_bind_Inr [where m = "btf__add_str al s", OF 2(1), of "\<lambda>off. op_return (of_nat off)"]
      by (simp add: name_offset_def del: btf__add_str.simps)
    ultimately show thesis using 2(2-4) ok by blast
  qed
qed

section \<open>Committing a type\<close>

lemma commit_result:
  assumes inv: "instance_inv b" "\<not> hdr_in_raw b"
    and t: "take n (drop (length (type_sec b)) (types_data b)) = ty" "length (type_sec b) + n \<le> length (types_data b)"
    and r: "read_type (types_data b) (length (type_sec b)) = Inr t" "btf_type_size t = Inr n"
  obtains (fail) "btf_commit_type al n [b] = (Inl (Err ENOMEM), [b])"
  | (ok) b' i where "btf_commit_type al n [b] = (Inr i, [b'])" "instance_inv b'" "\<not> hdr_in_raw b'" "unat i = unat (nr_types b) + 1"
      "nr_types b' = nr_types b + 1" "type_sec b' = type_sec b @ ty"
      "type_table b' = type_table b @ [length (type_sec b)]" "str_image b' = str_image b"
proof -
  let ?tl = "type_len (hdr b)" and ?e = "btf_add_type_idx_entry (type_idx_ok al) (type_offs b) (type_offs_cap b) (nr_types b)
    (type_len (hdr b))"
  have tw: "types_wf b" "split_inv b" "start_id b = 1" using inv by (simp_all add: instance_inv_def)
  have oo: "offs_ok (type_offs b) (type_offs_cap b) (nr_types b)" using tw(1) by (simp add: types_wf_def)
  have l: "length (type_sec b) = unat ?tl" by (rule length_type_sec [OF inv(1)])
  note idx = add_type_idx_entry_result [OF oo, where al = "type_idx_ok al" and v = ?tl]
  show thesis
  proof (cases ?e)
    case (Inl e)
    then show thesis using idx by (intro fail) (simp add: btf_commit_type_def op_bind_def op_update_def)
  next
    case (Inr q)
    obtain offs c where q: "q = (offs, c)" by (cases q)
    have o: "offs_ok offs c (nr_types b + 1)" "unat (nr_types b + 1) = unat (nr_types b) + 1"
      "offs_list offs (unat (nr_types b) + 1) = type_table b @ [unat ?tl]"
      using idx Inr q by (simp_all add: type_table_def)
    define b' where b': "b' = b\<lparr>type_offs := offs, type_offs_cap := c,
      hdr := (hdr b)\<lparr>type_len := ?tl + of_nat n, str_off := str_off (hdr b) + of_nat n\<rparr>, nr_types := nr_types b + 1\<rparr>"
    have c: "btf_commit_type al n [b] = (Inr (nr_types b + 1), [b'])"
      using Inr q tw(3)
      by (simp add: btf_commit_type_def op_bind_def op_update_def grow_hdr_def op_get_def b')
    have "unat ?tl + n \<le> UINT32_MAX" using t(2) l tw(2) by (simp add: split_inv_def)
    then have tl: "unat (?tl + of_nat n) = unat ?tl + n"
      by (subst unat_add_small) (simp_all add: unat_of_nat_u32)
    have "layout (types_data b) 0 (type_table b @ [unat ?tl]) (unat ?tl + n)"
      using tw(1) r l by (intro layout_snoc) (simp_all add: types_wf_def type_table_def)
    then have "types_wf b'"
      using o t(2) l tl by (simp add: types_wf_def b')
    then have i: "instance_inv b'" using inv by (simp add: instance_inv_def split_inv_def b')
    have "type_sec b' = type_sec b @ ty"
      using tl l t(1) by (simp add: type_sec_def b' take_add)
    moreover have "type_table b' = type_table b @ [length (type_sec b)]"
      using o(2,3) l by (simp add: type_table_def b')
    moreover have "str_image b' = str_image b" "nr_types b' = nr_types b + 1"
      using tw(2) by (auto simp: split_inv_def str_image_simps b')
    moreover have "\<not> hdr_in_raw b'" using inv(2) by (simp add: b')
    ultimately show thesis using c i o(2) ok by blast
  qed
qed

section \<open>Appending a type\<close>

text \<open>What a reader sees once the words of a type with a name have been appended.\<close>

definition type_appended :: "btf_obj \<Rightarrow> btf_obj \<Rightarrow> bytes option \<Rightarrow> u32 list \<Rightarrow> u32 \<Rightarrow> bool" where
  "type_appended b b' name words i \<longleftrightarrow>
     unat i = unat (nr_types b) + 1 \<and> unat (nr_types b') = unat (nr_types b) + 1 \<and>
     type_table b' = type_table b @ [length (type_sec b)] \<and>
     (\<exists>off. type_sec b' = type_sec b @ words_bytes (off # words) \<and> name_added b b' name off)"

text \<open>What is left when the memory does not suffice: perhaps one string more.\<close>

definition not_appended :: "btf_obj \<Rightarrow> btf_obj \<Rightarrow> bool" where
  "not_appended b b' \<longleftrightarrow> nr_types b' = nr_types b \<and> type_sec b' = type_sec b \<and>
     type_table b' = type_table b \<and> (\<exists>xs. str_image b' = str_image b @ xs)"

definition appends :: "btf_obj \<Rightarrow> u32 cres \<times> btf \<Rightarrow> bytes option \<Rightarrow> u32 list \<Rightarrow> bool" where
  "appends b res name words \<longleftrightarrow>
     (\<exists>r b'. res = (r, [b']) \<and> instance_inv b' \<and> (\<forall>i. r = Inr i \<longrightarrow> \<not> hdr_in_raw b') \<and>
        (case r of Inl e \<Rightarrow> e = Err ENOMEM \<and> not_appended b b'
         | Inr i \<Rightarrow> type_appended b b' name words i))"

lemma append_type_result:
  assumes inv: "instance_inv b" and name: "name_ok name"
    and n: "btf_type_size \<lparr>name_off = 0, info = w, size_type = 0\<rparr> = Inr (12 + 4 * length ws)"
  shows "appends b (append_type al name w (v # ws) [b]) name (w # v # ws)"
proof (cases rule: ensure_result [OF inv, of "al 0"])
  case 1
  have "append_type al name w (v # ws) [b] = (Inl (Err ENOMEM), [b])"
    using 1(1) by (simp add: append_type_def op_bind_def)
  then show ?thesis using inv by (simp add: appends_def not_appended_def)
next
  case (2 b1)
  have s1: "nr_types b1 = nr_types b" "type_sec b1 = type_sec b" "type_table b1 = type_table b" "str_image b1 = str_image b"
    using 2(3) by (simp_all add: same_image_def)
  let ?n = "12 + 4 * length ws"
  show ?thesis
  proof (cases rule: add_type_mem_result [OF 2(2,4), of "al 0" ?n])
    case fail: 1
    have "append_type al name w (v # ws) [b] = (Inl (Err ENOMEM), [b1])"
      using 2(1) fail by (simp add: append_type_def op_bind_def)
    then show ?thesis using 2(2) s1 by (simp add: appends_def not_appended_def)
  next
    case mem: (2 b2)
    note s2 = mem(4-6,8) [unfolded s1]
    show ?thesis
    proof (cases rule: name_offset_result [OF mem(2,3) name, of al])
      case fail: (1 b3)
      have "append_type al name w (v # ws) [b] = (Inl (Err ENOMEM), [b3])"
        using 2(1) mem(1) fail(1) by (simp add: append_type_def op_bind_def)
      then show ?thesis
        using fail s2 types_keptD [OF fail(4)] by (simp add: appends_def not_appended_def types_kept_def)
    next
      case nm: (2 b3 off)
      have s3: "type_sec b3 = type_sec b" "type_table b3 = type_table b" "nr_types b3 = nr_types b"
        using types_keptD [OF nm(4)] s2 nm(4) by (simp_all add: types_kept_def)
      have added: "name_added b b3 name off"
        using nm(5) s2(3) name_added_cong by blast
      let ?ws = "off # w # v # ws"
      have room: "length (type_sec b3) + 4 * length ?ws \<le> length (types_data b3)"
        using mem(7) s1 s3(1) nm(4) by (simp add: types_kept_def)
      obtain b4 ys where p: "put_words (length (type_sec b3)) ?ws [b3] = (Inr (), [b4])" "instance_inv b4" "\<not> hdr_in_raw b4"
        "type_sec b4 = type_sec b3" "type_table b4 = type_table b3" "str_image b4 = str_image b3" "nr_types b4 = nr_types b3"
        "types_data b4 = type_sec b3 @ words_bytes ?ws @ ys"
        by (rule put_words_result [OF nm(2,3) room])
      have t: "take ?n (drop (length (type_sec b4)) (types_data b4)) = words_bytes ?ws"
        "length (type_sec b4) + ?n \<le> length (types_data b4)"
        unfolding p(4,8) by simp_all
      have r: "read_type (types_data b4) (length (type_sec b4)) = Inr \<lparr>name_off = off, info = w, size_type = v\<rparr>"
        unfolding p(4,8) by (rule read_type_words) simp
      have sz: "btf_type_size \<lparr>name_off = off, info = w, size_type = v\<rparr> = Inr ?n"
        using n type_size_info [of "\<lparr>name_off = off, info = w, size_type = v\<rparr>" "\<lparr>name_off = 0, info = w, size_type = 0\<rparr>"] by simp
      have e: "append_type al name w (v # ws) [b] = btf_commit_type (al 0) ?n [b4]"
        using 2(1) mem(1) nm(1) p(1) s1 s3 by (simp add: append_type_def op_bind_def)
      obtain xs where xs: "str_image b3 = str_image b @ xs" using name_added_prefix [OF added] by blast
      show ?thesis
      proof (cases rule: commit_result [OF p(2,3) t r sz, of "al 0"])
        case fail: 1
        then show ?thesis using e p s3 xs by (simp add: appends_def not_appended_def)
      next
        case com: (2 b5 i)
        have u: "unat (nr_types b5) = unat (nr_types b) + 1"
        proof -
          have "unat (nr_types b4) < UINT32_MAX"
            using p(2) by (simp add: instance_inv_def types_wf_def offs_ok_def)
          then show ?thesis using com(5) p(7) s3(3) by (simp add: unat_word_ariths)
        qed
        have "name_added b b5 name off" using added com(8) p(6) name_added_cong by metis
        then have "type_appended b b5 name (w # v # ws) i"
          using com p s3 u by (auto simp: type_appended_def)
        then show ?thesis using e com(1-3) by (simp add: appends_def)
      qed
    qed
  qed
qed

section \<open>Information words\<close>

lemma small_bits:
  assumes "unat (v :: u32) < 2 ^ n" "bit v i"
  shows "i < n"
proof (rule ccontr)
  assume "\<not> i < n"
  then have "(2 :: nat) ^ n \<le> 2 ^ i" by (simp add: power_increasing)
  then have "unat v div 2 ^ i = 0" using assms(1) less_le_trans by (intro div_less) blast
  moreover have "bit (unat v) i" using assms(2) by (simp add: bit_unsigned_iff)
  ultimately show False by (simp add: bit_iff_odd)
qed

lemma type_info_fields:
  assumes "info t = btf_type_info kind vlen kflag" "kind < 32" "vlen < 0x10000" "kflag < 2"
  shows "btf_kind t = kind" "btf_vlen t = vlen" "btf_kflag t = kflag"
proof -
  have b: "unat kind < 2 ^ 5" "unat vlen < 2 ^ 16" "unat kflag < 2 ^ 1"
    using assms(2-4) by (simp_all add: word_less_nat_alt)
  note k = small_bits [OF b(1)] and v = small_bits [OF b(2)] and f = small_bits [OF b(3)]
  have c: "(0x1f :: u32) = Bit_Operations.mask 5" "(0xffff :: u32) = Bit_Operations.mask 16" by (simp_all add: mask_eq_exp_minus_1)
  show "btf_kind t = kind"
    unfolding btf_kind_def assms(1) btf_type_info_def c
    by (rule bit_word_eqI) (auto simp: bit_simps dest: k v f)
  show "btf_vlen t = vlen"
    unfolding btf_vlen_def assms(1) btf_type_info_def c
    by (rule bit_word_eqI) (auto simp: bit_simps dest: k v f)
  show "btf_kflag t = kflag"
    unfolding btf_kflag_def assms(1) btf_type_info_def c
    by (rule bit_word_eqI) (auto simp: bit_simps dest: k v f)
qed

text \<open>
  C33. Splitting the data into regions fails only with \<open>ENOMEM\<close>; when it succeeds the header,
  the types, the offset table and the strings are what they were, the cached images are gone
  and the instance can be modified.
\<close>

theorem btf_ensure_modifiable_keeps:
  assumes "instance_inv b"
  shows "case btf_ensure_modifiable al False b of
      Inl e \<Rightarrow> e = Err ENOMEM \<and> \<not> btf_is_modifiable b
    | Inr b' \<Rightarrow> instance_inv b' \<and> same_image b b' \<and> btf_is_modifiable b' \<and>
        raw_data b' = None \<and> raw_data_swapped b' = None"
proof (cases "hdr_in_raw b")
  case True
  then show ?thesis using ensure_split [OF assms, of al False] by (auto simp: btf_is_modifiable_def)
next
  case False
  then show ?thesis
    using invalidate_inv [OF assms False] by (simp add: btf_ensure_modifiable_def btf_is_modifiable_def)
qed

lemma strings_kept:
  assumes "instance_inv b" "off < length (str_image b)"
  shows "cstr (str_image b @ xs) off = cstr (str_image b) off"
proof -
  have "last (str_image b) = 0" using str_image_terminated(2) [OF assms(1)] assms(2) by auto
  then have "cstr_in (str_image b @ xs) (length (str_image b)) off"
    using assms(2) by (simp add: cstr_in_def) (metis last_drop last_in_set drop_eq_Nil not_le)
  then show ?thesis using cstr_take by fastforce
qed

text \<open>
  C34. Adding a string to an instance fails only with \<open>ENOMEM\<close> and then keeps the string
  section; otherwise it returns an offset at which the section holds the string, after
  appending it at most once. The types, and the strings at all older offsets, stay.
\<close>

theorem btf_add_str_denotes:
  assumes "instance_inv b" "0 \<notin> set s"
  shows "\<exists>r b'. btf__add_str al s [b] = (r, [b']) \<and> instance_inv b' \<and>
    type_sec b' = type_sec b \<and> type_table b' = type_table b \<and>
    (\<forall>off < length (str_image b). cstr (str_image b') off = cstr (str_image b) off) \<and>
    (case r of
       Inl e \<Rightarrow> e = Err ENOMEM \<and> str_image b' = str_image b
     | Inr off \<Rightarrow>
         (str_image b' = str_image b \<or> str_image b' = str_image b @ s @ [0]) \<and>
         off < length (str_image b') \<and> cstr (str_image b') off = s)"
proof -
  obtain r b' where r: "btf__add_str al s [b] = (r, [b'])" "instance_inv b'"
    "type_sec b' = type_sec b" "type_table b' = type_table b"
    "case r of Inl e \<Rightarrow> e = Err ENOMEM \<and> str_image b' = str_image b | Inr off \<Rightarrow> string_added b b' s off"
    using add_str_result [OF assms, of al] by blast
  have "\<exists>xs. str_image b' = str_image b @ xs" using r(5) by (auto simp: string_added_def split: sum.splits)
  then have "\<forall>off < length (str_image b). cstr (str_image b') off = cstr (str_image b) off"
    using strings_kept [OF assms(1)] by auto
  then show ?thesis using r by (cases r) (auto simp: string_added_def simp del: btf__add_str.simps)
qed

end
