(* ===== verification/Btf_Records.thy ===== *)
theory Btf_Records
  imports Btf_Writer
begin

text \<open>
  The functions of \<^verbatim>\<open>src/bpftools/libbpf/src/btf.c\<close> that append types, and those that come back
  to the last type: each appends the words that BTF prescribes, rejects invalid arguments
  before it touches anything, and what it appends can be read back.
\<close>

section \<open>The last type\<close>

lemma layout_snocD:
  assumes "layout m a (xs @ [x]) e"
  shows "\<exists>t n. layout m a xs x \<and> read_type m x = Inr t \<and> btf_type_size t = Inr n \<and> x + n = e"
  using assms
proof (induction xs arbitrary: a)
  case Nil
  then show ?case by (auto split: sum.splits simp: res_bind_eq_Inr)
next
  case (Cons y ys)
  then show ?case by (auto split: sum.splits)
qed

definition last_off :: "btf_obj \<Rightarrow> nat" where
  "last_off b = last (type_table b)"

lemma last_type:
  assumes inv: "instance_inv b" and nz: "nr_types b \<noteq> 0"
  obtains ys t k where "type_table b = ys @ [last_off b]" "layout (types_data b) 0 ys (last_off b)"
    "read_type (types_data b) (last_off b) = Inr t" "btf_type_size t = Inr k"
    "last_off b + k = length (type_sec b)" "own_type_off (nr_types b) b = Inr (last_off b)"
proof -
  have tw: "types_wf b" "start_id b = 1" using inv by (simp_all add: instance_inv_def)
  have l: "length (type_sec b) = unat (type_len (hdr b))" by (rule length_type_sec [OF inv])
  have p: "0 < unat (nr_types b)" using nz by (simp add: unat_gt_0)
  then have "type_table b \<noteq> []" by (auto simp: type_table_def dest: arg_cong [of _ _ length])
  then have e: "type_table b = butlast (type_table b) @ [last_off b]" by (simp add: last_off_def)
  then obtain t k where t: "layout (types_data b) 0 (butlast (type_table b)) (last_off b)"
    "read_type (types_data b) (last_off b) = Inr t" "btf_type_size t = Inr k" "last_off b + k = length (type_sec b)"
    using layout_snocD [of "types_data b" 0 "butlast (type_table b)" "last_off b" "unat (type_len (hdr b))"] tw(1) l
    by (auto simp: types_wf_def type_table_def [symmetric])
  have o: "off_at (type_offs b) (unat (nr_types b) - 1) = last_off b"
    using p \<open>type_table b \<noteq> []\<close> by (simp add: last_off_def last_conv_nth type_table_def)
  have "unat (nr_types b - 1) = unat (nr_types b) - 1" using nz by (simp add: unat_minus_one)
  moreover have "unat (nr_types b) \<le> type_offs_cap b" "length (type_offs b) = 4 * type_offs_cap b"
    using tw(1) by (simp_all add: types_wf_def offs_ok_def)
  then have "4 * (unat (nr_types b) - 1) + 4 \<le> length (type_offs b)" using p by arith
  ultimately have "mem_u32 (type_offs b) (4 * unat (nr_types b - start_id b)) = Inr (word_of_nat (last_off b))"
    using off_at_mem_u32 [of "unat (nr_types b) - 1" "type_offs b"] tw(2) o by simp
  moreover have "unat (word_of_nat (last_off b) :: u32) = last_off b"
    unfolding o [symmetric] off_at_def by simp
  ultimately have "own_type_off (nr_types b) b = Inr (last_off b)" by (simp add: own_type_off_def)
  then show thesis using that e t by blast
qed

text \<open>A region with one word replaced.\<close>

definition set_word :: "bytes \<Rightarrow> nat \<Rightarrow> u32 \<Rightarrow> bytes" where
  "set_word m off w = take off m @ le_bytes 4 (unat w) @ drop (off + 4) m"

lemma mem_set_u32_set_word: "off + 4 \<le> length m \<Longrightarrow> mem_set_u32 m off w = Inr (set_word m off w)"
  by (simp add: mem_set_u32_def mem_write_def set_word_def)

lemma length_set_word [simp]: "off + 4 \<le> length m \<Longrightarrow> length (set_word m off w) = length m"
  by (simp add: set_word_def)

lemma take_set_word:
  "off + 4 \<le> n \<Longrightarrow> n \<le> length m \<Longrightarrow> take n (set_word m off w) = set_word (take n m) off w"
  by (simp add: set_word_def min_absorb1 drop_take)

lemma read_type_set_word:
  assumes "read_type m off = Inr t"
  shows "read_type (set_word m (off + 4) w) off = Inr (t\<lparr>info := w\<rparr>)"
proof -
  have l: "off + 12 \<le> length m" using read_type_Inr [OF assms] .
  then have m: "mem_set_u32 m (off + 4) w = Inr (set_word m (off + 4) w)" by (simp add: mem_set_u32_set_word)
  note r = mem_set_u32_read [OF m]
  have "mem_u32 (set_word m (off + 4) w) off = mem_u32 m off"
    "mem_u32 (set_word m (off + 4) w) (off + 8) = mem_u32 m (off + 8)"
    by (intro mem_u32_cong r(3); simp)+
  then show ?thesis using assms r(1) by (auto simp: read_type_def res_bind_eq_Inr)
qed

text \<open>
  The last type with another second word, which takes \<open>n\<close> more bytes that are there already.
\<close>

lemma retype_last_inv:
  assumes inv: "instance_inv b" "\<not> hdr_in_raw b" and nz: "nr_types b \<noteq> 0"
    and t: "read_type (types_data b) (last_off b) = Inr t" "btf_type_size t = Inr k" "btf_type_size (t\<lparr>info := w\<rparr>) = Inr (k + n)"
    and room: "length (type_sec b) + n \<le> length (types_data b)"
    and b': "b' = b\<lparr>types_data := set_word (types_data b) (last_off b + 4) w,
      hdr := (hdr b)\<lparr>type_len := type_len (hdr b) + of_nat n, str_off := str_off (hdr b) + of_nat n\<rparr>\<rparr>"
  shows "instance_inv b'"
    and "type_sec b' = set_word (type_sec b) (last_off b + 4) w @ take n (drop (length (type_sec b)) (types_data b))"
    and "type_table b' = type_table b" "str_image b' = str_image b"
proof -
  let ?tl = "type_len (hdr b)" and ?m = "types_data b" and ?o = "last_off b"
  obtain ys t' k' where lt: "type_table b = ys @ [?o]" "layout ?m 0 ys ?o" "read_type ?m ?o = Inr t'"
    "btf_type_size t' = Inr k'" "?o + k' = length (type_sec b)"
    using last_type [OF inv(1) nz] by metis
  have k: "t' = t" "k' = k" using lt(3,4) t(1,2) by simp_all
  have sp: "split_inv b" "types_wf b" using inv by (simp_all add: instance_inv_def)
  have l: "length (type_sec b) = unat ?tl" by (rule length_type_sec [OF inv(1)])
  have "unat ?tl + n \<le> UINT32_MAX" using room l sp(1) by (simp add: split_inv_def)
  then have tl: "unat (?tl + of_nat n) = unat ?tl + n"
    by (subst unat_add_small) (simp_all add: unat_of_nat_u32)
  have k12: "12 \<le> k" using btf_type_size_ge [OF t(2)] .
  have fits: "?o + 4 + 4 \<le> length (type_sec b)" "length (type_sec b) \<le> length ?m"
    using lt(5) k k12 room by simp_all
  let ?m' = "set_word ?m (?o + 4) w"
  have len: "length ?m' = length ?m" using fits by simp
  have "layout ?m' 0 ys ?o"
  proof (rule layout_agree [OF lt(2)])
    show "take ?o ?m' = take ?o ?m" using fits by (simp add: set_word_def)
  qed (use fits len in simp_all)
  moreover have "read_type ?m' ?o = Inr (t\<lparr>info := w\<rparr>)" by (rule read_type_set_word [OF t(1)])
  ultimately have "layout ?m' 0 (ys @ [?o]) (?o + (k + n))" using t(3) by (rule layout_snoc)
  moreover have "?o + (k + n) = unat ?tl + n" using lt(5) k l by simp
  ultimately have "types_wf b'"
    using sp(2) lt k tl l room len by (simp add: types_wf_def b' type_table_def)
  moreover have "split_inv b'" using sp(1) len by (auto simp: split_inv_def b')
  ultimately show "instance_inv b'" using inv by (simp add: instance_inv_def b')
  show "type_table b' = type_table b" by (simp add: type_table_def b')
  show "str_image b' = str_image b" using sp(1) by (auto simp: split_inv_def str_image_simps b')
  have "type_sec b' = take (unat ?tl + n) ?m'" by (simp add: type_sec_def b' tl)
  also have "\<dots> = take (unat ?tl) ?m' @ take n (drop (unat ?tl) ?m')" by (simp add: take_add)
  also have "take (unat ?tl) ?m' = set_word (type_sec b) (?o + 4) w"
    using fits l by (simp add: take_set_word type_sec_def)
  also have "drop (unat ?tl) ?m' = drop (unat ?tl) ?m"
    using fits l by (simp add: set_word_def)
  finally show "type_sec b' = set_word (type_sec b) (?o + 4) w @ take n (drop (length (type_sec b)) ?m)"
    using l by simp
qed

lemma set_type_info_last:
  assumes inv: "instance_inv b" and nz: "nr_types b \<noteq> 0" and t: "read_type (types_data b) (last_off b) = Inr t"
  shows "set_type_info (nr_types b) f [b] =
    (Inr (), [b\<lparr>types_data := set_word (types_data b) (last_off b + 4) (f t)\<rparr>])"
proof -
  have "own_type_off (nr_types b) b = Inr (last_off b)" using last_type [OF inv nz] by metis
  moreover have "last_off b + 4 + 4 \<le> length (types_data b)" using read_type_Inr [OF t] by simp
  ultimately show ?thesis
    using t by (simp add: set_type_info_def op_update_def mem_set_u32_set_word)
qed

section \<open>Appending a record to the last type\<close>

lemma read_last_sec:
  assumes "instance_inv b" "nr_types b \<noteq> 0"
  shows "read_type (types_data b) (last_off b) = read_type (type_sec b) (last_off b)"
proof -
  obtain t k where "btf_type_size t = Inr k" "last_off b + k = length (type_sec b)"
    using last_type [OF assms] by metis
  then have "last_off b + 12 \<le> length (type_sec b)" using btf_type_size_ge [of t k] by simp
  moreover have "unat (type_len (hdr b)) \<le> length (types_data b)"
    using assms(1) by (simp add: instance_inv_def types_wf_def)
  ultimately show ?thesis
    using read_type_take [of "last_off b" "unat (type_len (hdr b))" "types_data b"] length_type_sec [OF assms(1)]
    by (simp add: type_sec_def)
qed

definition record_appended :: "btf_obj \<Rightarrow> btf_obj \<Rightarrow> bytes option \<Rightarrow> (u32 \<Rightarrow> u32 list) \<Rightarrow> u32 \<Rightarrow> bool" where
  "record_appended b b' name record w \<longleftrightarrow>
     nr_types b' = nr_types b \<and> type_table b' = type_table b \<and>
     (\<exists>off. type_sec b' = set_word (type_sec b) (last_off b + 4) w @ words_bytes (record off) \<and>
        name_added b b' name off)"

definition appends_record ::
  "btf_obj \<Rightarrow> unit cres \<times> btf \<Rightarrow> bytes option \<Rightarrow> (u32 \<Rightarrow> u32 list) \<Rightarrow> u32 \<Rightarrow> bool" where
  "appends_record b res name record w \<longleftrightarrow>
     (\<exists>r b'. res = (r, [b']) \<and> instance_inv b' \<and>
        (case r of Inl e \<Rightarrow> e = Err ENOMEM \<and> not_appended b b'
         | Inr _ \<Rightarrow> record_appended b b' name record w))"

lemma append_record_result:
  assumes inv: "instance_inv b" and nz: "nr_types b \<noteq> 0" and name: "name_ok name"
    and t: "read_type (types_data b) (last_off b) = Inr t" "btf_type_size t = Inr k"
      "btf_type_size (t\<lparr>info := f t\<rparr>) = Inr (k + n)"
    and n: "\<And>off. n = 4 * length (record off)"
  shows "appends_record b (append_record al n (name_offset al name) record f [b]) name record (f t)"
proof -
  let ?app = "append_record al n (name_offset al name) record f"
  note def = append_record_def appends_record_def not_appended_def
  show ?thesis
  proof (cases rule: ensure_result [OF inv, of "al 0"])
    case 1
    then have "?app [b] = (Inl (Err ENOMEM), [b])" by (simp add: append_record_def op_bind_def)
    then show ?thesis using inv by (simp add: def)
  next
    case (2 b1)
    have s1: "nr_types b1 = nr_types b" "type_sec b1 = type_sec b" "type_table b1 = type_table b" "str_image b1 = str_image b"
      using 2(3) by (simp_all add: same_image_def)
    show ?thesis
    proof (cases rule: add_type_mem_result [OF 2(2,4), of "al 0" n])
      case fail: 1
      then have "?app [b] = (Inl (Err ENOMEM), [b1])" using 2(1) by (simp add: append_record_def op_bind_def)
      then show ?thesis using 2(2) s1 by (simp add: def)
    next
      case mem: (2 b2)
      note s2 = mem(4-6,8) [unfolded s1]
      show ?thesis
      proof (cases rule: name_offset_result [OF mem(2,3) name, of al])
        case fail: (1 b3)
        then have "?app [b] = (Inl (Err ENOMEM), [b3])"
          using 2(1) mem(1) by (simp add: append_record_def op_bind_def)
        then show ?thesis using fail s2 types_keptD [OF fail(4)] by (simp add: def types_kept_def)
      next
        case nm: (2 b3 off)
        have s3: "type_sec b3 = type_sec b" "type_table b3 = type_table b" "nr_types b3 = nr_types b"
          using types_keptD [OF nm(4)] s2 nm(4) by (simp_all add: types_kept_def)
        have room: "length (type_sec b3) + 4 * length (record off) \<le> length (types_data b3)"
          using mem(7) s1 s3(1) nm(4) n [of off] by (simp add: types_kept_def)
        obtain b4 ys where p: "put_words (length (type_sec b3)) (record off) [b3] = (Inr (), [b4])" "instance_inv b4" "\<not> hdr_in_raw b4"
          "type_sec b4 = type_sec b3" "type_table b4 = type_table b3" "str_image b4 = str_image b3" "nr_types b4 = nr_types b3"
          "types_data b4 = type_sec b3 @ words_bytes (record off) @ ys"
          by (rule put_words_result [OF nm(2,3) room])
        have nz4: "nr_types b4 \<noteq> 0" and o4: "last_off b4 = last_off b"
          using nz s3 p by (simp_all add: last_off_def)
        have t4: "read_type (types_data b4) (last_off b4) = Inr t"
          using t(1) read_last_sec [OF p(2) nz4] read_last_sec [OF inv nz] o4 p(4) s3(1) by simp
        let ?w = "f t"
        define b5 where "b5 = b4\<lparr>types_data := set_word (types_data b4) (last_off b4 + 4) ?w\<rparr>"
        define b6 where "b6 = b4\<lparr>types_data := set_word (types_data b4) (last_off b4 + 4) ?w,
          hdr := (hdr b4)\<lparr>type_len := type_len (hdr b4) + of_nat n, str_off := str_off (hdr b4) + of_nat n\<rparr>\<rparr>"
        have "length (type_sec b4) + n \<le> length (types_data b4)" unfolding p(4,8) using n [of off] by simp
        note r = retype_last_inv [OF p(2,3) nz4 t4 t(2,3) this b6_def]
        have si: "set_type_info (nr_types b4) f [b4] = (Inr (), [b5])"
          unfolding b5_def by (rule set_type_info_last [OF p(2) nz4 t4])
        have "start_id b4 = 1" using p(2) by (simp add: instance_inv_def)
        then have "?app [b] = op_update (grow_hdr n) [b5]"
          using 2(1) mem(1) nm(1) p(1) si s1 s3
          by (simp add: append_record_def op_bind_def op_get_def btf__get_nr_types_def)
        also have "\<dots> = (Inr (), [b6])" by (simp add: op_update_def grow_hdr_def b5_def b6_def)
        finally have e: "?app [b] = (Inr (), [b6])" .
        have "type_sec b6 = set_word (type_sec b) (last_off b + 4) ?w @ words_bytes (record off)"
          using r(2) n [of off] unfolding p(4,8) o4 s3(1) by simp
        moreover have "name_added b b6 name off" using nm(5) name_added_cong s2(3) p(6) r(4) by metis
        moreover have "nr_types b6 = nr_types b" using p(7) s3(3) by (simp add: b6_def)
        ultimately have "record_appended b b6 name record ?w"
          using r(3) p(5) s3(2) by (auto simp: record_appended_def)
        then show ?thesis using e r(1) by (simp add: appends_record_def)
      qed
    qed
  qed
qed

section \<open>Coming back to the type just appended\<close>

lemma sint_small: "unat (i :: u32) < 2 ^ 31 \<Longrightarrow> sint i = int (unat i)"
proof -
  assume i: "unat i < 2 ^ 31"
  have "signed_take_bit 31 (int n) = int n" if "n < 2 ^ 31" for n :: nat
    using that by (intro signed_take_bit_int_eq_self) simp_all
  from this [OF i] show ?thesis by (simp add: sint_uint)
qed

lemma set_word_words:
  "length xs = off \<Longrightarrow>
   set_word (xs @ words_bytes (a # w # ws)) (off + 4) w' = xs @ words_bytes (a # w' # ws)"
  by (simp add: set_word_def)

lemma retype_appended:
  assumes a: "appends b (m [b]) name (w # v # ws)"
    and sz: "btf_type_size \<lparr>name_off = 0, info = w', size_type = 0\<rparr> = btf_type_size \<lparr>name_off = 0, info = w, size_type = 0\<rparr>"
  shows "appends b
    (op_bind m (\<lambda>i. if sint i \<le> 0 then op_return i
       else op_bind (set_type_info i (\<lambda>_. w')) (\<lambda>_. op_return i)) [b]) name (w' # v # ws)"
proof -
  obtain r b1 where r: "m [b] = (r, [b1])" "instance_inv b1" "\<forall>i. r = Inr i \<longrightarrow> \<not> hdr_in_raw b1"
    "case r of Inl e \<Rightarrow> e = Err ENOMEM \<and> not_appended b b1 | Inr i \<Rightarrow> type_appended b b1 name (w # v # ws) i"
    using a by (auto simp: appends_def)
  show ?thesis
  proof (cases r)
    case (Inl e)
    then show ?thesis using r by (simp add: appends_def op_bind_def)
  next
    case (Inr i)
    then have ta: "type_appended b b1 name (w # v # ws) i" and raw: "\<not> hdr_in_raw b1" using r by simp_all
    obtain off where o: "unat i = unat (nr_types b) + 1" "unat (nr_types b1) = unat (nr_types b) + 1"
      "type_table b1 = type_table b @ [length (type_sec b)]"
      "type_sec b1 = type_sec b @ words_bytes (off # w # v # ws)" "name_added b b1 name off"
      using ta by (auto simp: type_appended_def)
    have i: "i = nr_types b1" using o(1,2) by (simp add: word_unat_eq_iff)
    have nz: "nr_types b1 \<noteq> 0" using o(2) by auto
    have lo: "last_off b1 = length (type_sec b)" using o(3) by (simp add: last_off_def)
    have "unat (nr_types b1) < 2 ^ 31" using r(2) by (simp add: instance_inv_def types_wf_def offs_ok_def)
    then have "sint i = int (unat i)" using i by (intro sint_small) simp
    then have s: "\<not> sint i \<le> 0" unfolding o(1) by linarith
    obtain t k where t: "read_type (types_data b1) (last_off b1) = Inr t" "btf_type_size t = Inr k"
      using last_type [OF r(2) nz] by metis
    have "read_type (type_sec b1) (last_off b1) = Inr \<lparr>name_off = off, info = w, size_type = v\<rparr>"
      using read_type_words [OF lo [symmetric], of off w v ws "[]"] o(4) by simp
    then have tw: "t = \<lparr>name_off = off, info = w, size_type = v\<rparr>" using t(1) read_last_sec [OF r(2) nz] by simp
    have k0: "btf_type_size (t\<lparr>info := w'\<rparr>) = Inr (k + 0)"
      using sz t(2) type_size_info [of "t\<lparr>info := w'\<rparr>" "\<lparr>name_off = 0, info = w', size_type = 0\<rparr>"]
        type_size_info [of t "\<lparr>name_off = 0, info = w, size_type = 0\<rparr>"] tw by simp
    have room: "length (type_sec b1) + 0 \<le> length (types_data b1)"
      using r(2) by (simp add: length_type_sec instance_inv_def types_wf_def type_sec_def)
    define b2 where "b2 = b1\<lparr>types_data := set_word (types_data b1) (last_off b1 + 4) w',
      hdr := (hdr b1)\<lparr>type_len := type_len (hdr b1) + of_nat 0, str_off := str_off (hdr b1) + of_nat 0\<rparr>\<rparr>"
    note n = retype_last_inv [OF r(2) raw nz t k0 room b2_def]
    have "b2 = b1\<lparr>types_data := set_word (types_data b1) (last_off b1 + 4) w'\<rparr>" by (simp add: b2_def)
    then have "set_type_info i (\<lambda>_. w') [b1] = (Inr (), [b2])"
      using set_type_info_last [OF r(2) nz t(1), of "\<lambda>_. w'"] i by simp
    then have e: "op_bind m (\<lambda>i. if sint i \<le> 0 then op_return i
       else op_bind (set_type_info i (\<lambda>_. w')) (\<lambda>_. op_return i)) [b] = (Inr i, [b2])"
      using r(1) Inr s by (simp add: op_bind_def)
    have "type_sec b2 = type_sec b @ words_bytes (off # w' # v # ws)"
      using n(2) unfolding o(4) lo set_word_words [OF refl] by simp
    moreover have "name_added b b2 name off" using o(5) n(4) name_added_cong by metis
    moreover have "nr_types b2 = nr_types b1" "\<not> hdr_in_raw b2" using raw by (simp_all add: b2_def)
    ultimately show ?thesis
      using e n(1,3) o(1-3) by (auto simp: appends_def type_appended_def)
  qed
qed

section \<open>What the functions that append a type do\<close>

text \<open>
  The requests that the functions serve, when they are valid, and the words of the type they
  ask for, behind the offset of its name.
\<close>

datatype decl =
    Decl_int "bytes option" u64 u32 | Decl_float "bytes option" u64 | Decl_ptr u32
  | Decl_array u32 u32 u32 | Decl_struct "bytes option" u32 | Decl_union "bytes option" u32
  | Decl_enum "bytes option" u32 | Decl_fwd "bytes option" u32 | Decl_typedef "bytes option" u32
  | Decl_volatile u32 | Decl_const u32 | Decl_restrict u32 | Decl_func "bytes option" u32 u32
  | Decl_func_proto u32 | Decl_var "bytes option" u32 u32 | Decl_datasec "bytes option" u32

fun add_decl :: "(nat \<Rightarrow> btf_alloc) \<Rightarrow> decl \<Rightarrow> u32 op" where
  "add_decl al (Decl_int name n enc) = btf__add_int al name n enc"
| "add_decl al (Decl_float name n) = btf__add_float al name n"
| "add_decl al (Decl_ptr i) = btf__add_ptr al i"
| "add_decl al (Decl_array i e n) = btf__add_array al i e n"
| "add_decl al (Decl_struct name n) = btf__add_struct al name n"
| "add_decl al (Decl_union name n) = btf__add_union al name n"
| "add_decl al (Decl_enum name n) = btf__add_enum al name n"
| "add_decl al (Decl_fwd name k) = btf__add_fwd al name k"
| "add_decl al (Decl_typedef name i) = btf__add_typedef al name i"
| "add_decl al (Decl_volatile i) = btf__add_volatile al i"
| "add_decl al (Decl_const i) = btf__add_const al i"
| "add_decl al (Decl_restrict i) = btf__add_restrict al i"
| "add_decl al (Decl_func name l i) = btf__add_func al name l i"
| "add_decl al (Decl_func_proto i) = btf__add_func_proto al i"
| "add_decl al (Decl_var name l i) = btf__add_var al name l i"
| "add_decl al (Decl_datasec name n) = btf__add_datasec al name n"

fun decl_name :: "decl \<Rightarrow> bytes option" where
  "decl_name (Decl_int name n enc) = name"
| "decl_name (Decl_float name n) = name"
| "decl_name (Decl_struct name n) = name"
| "decl_name (Decl_union name n) = name"
| "decl_name (Decl_enum name n) = name"
| "decl_name (Decl_fwd name k) = name"
| "decl_name (Decl_typedef name i) = name"
| "decl_name (Decl_func name l i) = name"
| "decl_name (Decl_var name l i) = name"
| "decl_name (Decl_datasec name n) = name"
| "decl_name d = None"

abbreviation pow2_upto :: "'a::len word \<Rightarrow> 'a word \<Rightarrow> bool" where
  "pow2_upto n m \<equiv> n \<noteq> 0 \<and> n AND (n - 1) = 0 \<and> n \<le> m"

abbreviation sane_id :: "u32 \<Rightarrow> bool" where
  "sane_id i \<equiv> unat i \<le> 0x7fffffff"

fun decl_valid :: "decl \<Rightarrow> bool" where
  "decl_valid (Decl_int name n enc) \<longleftrightarrow> \<not> no_name name \<and> pow2_upto n 16 \<and> enc AND NOT 7 = 0"
| "decl_valid (Decl_float name n) \<longleftrightarrow> \<not> no_name name \<and> n \<in> {2, 4, 8, 12, 16}"
| "decl_valid (Decl_ptr i) \<longleftrightarrow> sane_id i"
| "decl_valid (Decl_array i e n) \<longleftrightarrow> sane_id i \<and> sane_id e"
| "decl_valid (Decl_struct name n) \<longleftrightarrow> True"
| "decl_valid (Decl_union name n) \<longleftrightarrow> True"
| "decl_valid (Decl_enum name n) \<longleftrightarrow> pow2_upto n 8"
| "decl_valid (Decl_fwd name k) \<longleftrightarrow> \<not> no_name name \<and> k \<le> 2"
| "decl_valid (Decl_typedef name i) \<longleftrightarrow> \<not> no_name name \<and> sane_id i"
| "decl_valid (Decl_volatile i) \<longleftrightarrow> sane_id i"
| "decl_valid (Decl_const i) \<longleftrightarrow> sane_id i"
| "decl_valid (Decl_restrict i) \<longleftrightarrow> sane_id i"
| "decl_valid (Decl_func name l i) \<longleftrightarrow> \<not> no_name name \<and> l \<le> 2 \<and> sane_id i"
| "decl_valid (Decl_func_proto i) \<longleftrightarrow> sane_id i"
| "decl_valid (Decl_var name l i) \<longleftrightarrow> \<not> no_name name \<and> l \<le> 2 \<and> sane_id i"
| "decl_valid (Decl_datasec name n) \<longleftrightarrow> \<not> no_name name"

fun decl_words :: "decl \<Rightarrow> u32 list" where
  "decl_words (Decl_int name n enc) = [0x01000000, ucast n, push_bit 24 enc OR ucast (n * 8)]"
| "decl_words (Decl_float name n) = [0x10000000, ucast n]"
| "decl_words (Decl_ptr i) = [0x02000000, i]"
| "decl_words (Decl_array i e n) = [0x03000000, 0, e, i, n]"
| "decl_words (Decl_struct name n) = [0x04000000, n]"
| "decl_words (Decl_union name n) = [0x05000000, n]"
| "decl_words (Decl_enum name n) = [0x06000000, n]"
| "decl_words (Decl_fwd name k) =
     (if k = 0 then [0x07000000, 0] else if k = 1 then [0x87000000, 0] else [0x06000000, 4])"
| "decl_words (Decl_typedef name i) = [0x08000000, i]"
| "decl_words (Decl_volatile i) = [0x09000000, i]"
| "decl_words (Decl_const i) = [0x0a000000, i]"
| "decl_words (Decl_restrict i) = [0x0b000000, i]"
| "decl_words (Decl_func name l i) = [0x0c000000 + l, i]"
| "decl_words (Decl_func_proto i) = [0x0d000000, i]"
| "decl_words (Decl_var name l i) = [0x0e000000, i, l]"
| "decl_words (Decl_datasec name n) = [0x0f000000, n]"

lemma sane_id: "validate_type_id i = sane_id i"
proof (cases "unat i < 2 ^ 31")
  case True
  then show ?thesis by (simp add: validate_type_id_def sint_small)
qed (simp add: validate_type_id_def)

lemma type_infos:
  "btf_type_info 1 0 0 = 0x01000000" "btf_type_info 2 0 0 = 0x02000000" "btf_type_info 3 0 0 = 0x03000000"
  "btf_type_info 4 0 0 = 0x04000000" "btf_type_info 5 0 0 = 0x05000000" "btf_type_info 6 0 0 = 0x06000000"
  "btf_type_info 7 0 0 = 0x07000000" "btf_type_info 8 0 0 = 0x08000000" "btf_type_info 9 0 0 = 0x09000000"
  "btf_type_info 10 0 0 = 0x0a000000" "btf_type_info 11 0 0 = 0x0b000000" "btf_type_info 12 0 0 = 0x0c000000"
  "btf_type_info 13 0 0 = 0x0d000000" "btf_type_info 14 0 0 = 0x0e000000" "btf_type_info 15 0 0 = 0x0f000000"
  "btf_type_info 16 0 0 = 0x10000000" "btf_type_info 7 0 1 = 0x87000000"
  "btf_type_info 12 1 0 = 0x0c000001" "btf_type_info 12 2 0 = 0x0c000002"
  by (simp_all add: btf_type_info_def)

abbreviation info_size :: "u32 \<Rightarrow> nat cres" where
  "info_size w \<equiv> btf_type_size \<lparr>name_off = 0, info = w, size_type = 0\<rparr>"

lemma info_sizes:
  "info_size 0x01000000 = Inr 16" "info_size 0x02000000 = Inr 12" "info_size 0x03000000 = Inr 24"
  "info_size 0x04000000 = Inr 12" "info_size 0x05000000 = Inr 12" "info_size 0x06000000 = Inr 12"
  "info_size 0x07000000 = Inr 12" "info_size 0x08000000 = Inr 12" "info_size 0x09000000 = Inr 12"
  "info_size 0x0a000000 = Inr 12" "info_size 0x0b000000 = Inr 12" "info_size 0x0c000000 = Inr 12"
  "info_size 0x0d000000 = Inr 12" "info_size 0x0e000000 = Inr 16" "info_size 0x0f000000 = Inr 12"
  "info_size 0x10000000 = Inr 12" "info_size 0x87000000 = Inr 12" "info_size 0x0c000001 = Inr 12"
  "info_size 0x0c000002 = Inr 12"
  by (simp_all add: btf_type_size_def btf_kind_def btf_vlen_def Let_def)

lemma at_most_two: "(k :: u32) \<le> 2 \<longleftrightarrow> k = 0 \<or> k = 1 \<or> k = 2"
proof -
  have "k \<le> 2 \<longleftrightarrow> unat k \<le> 2" by (simp add: word_le_nat_alt)
  also have "\<dots> \<longleftrightarrow> unat k = unat (0 :: u32) \<or> unat k = unat (1 :: u32) \<or> unat k = unat (2 :: u32)" by auto
  finally show ?thesis by (simp only: word_unat_eq_iff)
qed

definition decl_served :: "btf_obj \<Rightarrow> decl \<Rightarrow> u32 cres \<times> btf \<Rightarrow> bool" where
  "decl_served b d res \<longleftrightarrow>
     (if decl_valid d then appends b res (decl_name d) (decl_words d) else res = (Inl (Err EINVAL), [b]))"

text \<open>Requests for a type that is appended in one go.\<close>

lemma append_type_served:
  assumes "instance_inv b" "name_ok (decl_name d)" "2 \<le> length (decl_words d)"
    and "info_size (hd (decl_words d)) = Inr (4 + 4 * length (decl_words d))"
    and "add_decl al d [b] =
      (if decl_valid d then append_type al (decl_name d) (hd (decl_words d)) (tl (decl_words d)) [b]
       else (Inl (Err EINVAL), [b]))"
  shows "decl_served b d (add_decl al d [b])"
proof -
  obtain w v ws where w: "decl_words d = w # v # ws"
    using assms(3) by (cases "decl_words d"; cases "tl (decl_words d)") auto
  then show ?thesis
    using append_type_result [OF assms(1,2), of w ws al v] assms(4,5) by (simp add: decl_served_def)
qed

lemmas adders = btf__add_int_def btf__add_float_def btf__add_ptr_def btf__add_array_def btf__add_struct_def
  btf__add_union_def btf__add_enum_def btf__add_typedef_def btf__add_volatile_def btf__add_const_def
  btf__add_restrict_def btf__add_func_proto_def btf__add_var_def btf__add_datasec_def
  btf_add_composite_def btf_add_ref_kind_def

lemma simple_decl_served:
  assumes "instance_inv b" "name_ok (decl_name d)" "\<forall>name k. d \<noteq> Decl_fwd name k" "\<forall>name l i. d \<noteq> Decl_func name l i"
  shows "decl_served b d (add_decl al d [b])"
  by (rule append_type_served [OF assms(1,2)]; cases d)
    (use assms(3,4) in \<open>auto simp: adders type_infos info_sizes sane_id at_most_two\<close>)

lemma ref_kind_appends:
  assumes "instance_inv b" "name_ok name" "sane_id i" "info_size (btf_type_info kind 0 0) = Inr 12"
  shows "appends b (btf_add_ref_kind al kind name i [b]) name [btf_type_info kind 0 0, i]"
  using append_type_result [OF assms(1,2), of "btf_type_info kind 0 0" "[]" al i] assms(3,4)
  by (simp add: btf_add_ref_kind_def sane_id)

lemma fwd_served:
  assumes inv: "instance_inv b" and name: "name_ok name"
  shows "decl_served b (Decl_fwd name k) (add_decl al (Decl_fwd name k) [b])"
proof (cases "\<not> no_name name \<and> (k = 0 \<or> k = 1)")
  case True
  let ?w = "btf_type_info BTF_KIND_FWD 0 (if k = BTF_FWD_UNION then 1 else 0)"
  have a: "appends b (btf_add_ref_kind al BTF_KIND_FWD name 0 [b]) name [btf_type_info BTF_KIND_FWD 0 0, 0]"
    by (rule ref_kind_appends [OF inv name]) (simp_all add: type_infos info_sizes)
  have "info_size ?w = info_size (btf_type_info BTF_KIND_FWD 0 0)" by (simp add: type_infos info_sizes)
  note r = retype_appended [where m = "btf_add_ref_kind al BTF_KIND_FWD name 0", OF a this]
  have "add_decl al (Decl_fwd name k) [b] = op_bind (btf_add_ref_kind al BTF_KIND_FWD name 0)
      (\<lambda>i. if sint i \<le> 0 then op_return i
        else op_bind (set_type_info i (\<lambda>_. ?w)) (\<lambda>_. op_return i)) [b]"
    using True by (simp add: btf__add_fwd_def)
  moreover have "decl_words (Decl_fwd name k) = [?w, 0]" "decl_valid (Decl_fwd name k)"
    using True by (auto simp: type_infos at_most_two)
  ultimately show ?thesis using r by (simp add: decl_served_def)
next
  case False
  then show ?thesis
    by (intro append_type_served [OF inv]; cases "k = 2")
      (use name in \<open>auto simp: btf__add_fwd_def btf__add_enum_def at_most_two type_infos info_sizes\<close>)
qed

lemma func_served:
  assumes inv: "instance_inv b" and name: "name_ok name"
  shows "decl_served b (Decl_func name l i) (add_decl al (Decl_func name l i) [b])"
proof (cases "\<not> no_name name \<and> l \<le> 2 \<and> sane_id i")
  case True
  let ?w = "btf_type_info BTF_KIND_FUNC l 0"
  have a: "appends b (btf_add_ref_kind al BTF_KIND_FUNC name i [b]) name [btf_type_info BTF_KIND_FUNC 0 0, i]"
    by (rule ref_kind_appends [OF inv name]) (use True in \<open>simp_all add: type_infos info_sizes\<close>)
  have w: "info_size ?w = info_size (btf_type_info BTF_KIND_FUNC 0 0)" "?w = 0x0c000000 + l"
    using True by (auto simp: type_infos info_sizes at_most_two)
  note r = retype_appended [where m = "btf_add_ref_kind al BTF_KIND_FUNC name i", OF a w(1)]
  have "add_decl al (Decl_func name l i) [b] = op_bind (btf_add_ref_kind al BTF_KIND_FUNC name i)
      (\<lambda>i. if sint i > 0 then op_bind (set_type_info i (\<lambda>_. ?w)) (\<lambda>_. op_return i) else op_return i) [b]"
    using True by (auto simp: btf__add_func_def at_most_two)
  also have "\<dots> = op_bind (btf_add_ref_kind al BTF_KIND_FUNC name i)
      (\<lambda>i. if sint i \<le> 0 then op_return i
        else op_bind (set_type_info i (\<lambda>_. ?w)) (\<lambda>_. op_return i)) [b]"
    by (rule arg_cong [where f = "\<lambda>f. op_bind (btf_add_ref_kind al BTF_KIND_FUNC name i) f [b]"]) auto
  finally show ?thesis using r w(2) True by (simp add: decl_served_def)
next
  case False
  have "add_decl al (Decl_func name l i) [b] = (Inl (Err EINVAL), [b])"
    using False by (auto simp: btf__add_func_def btf_add_ref_kind_def at_most_two sane_id op_bind_def op_guard_def)
  then show ?thesis using False by (auto simp: decl_served_def)
qed

lemma btf_add_served:
  assumes "instance_inv b" "name_ok (decl_name d)"
  shows "decl_served b d (add_decl al d [b])"
proof -
  consider name k where "d = Decl_fwd name k" | name l i where "d = Decl_func name l i"
    | "\<forall>name k. d \<noteq> Decl_fwd name k" "\<forall>name l i. d \<noteq> Decl_func name l i"
    by blast
  then show ?thesis by cases (use assms fwd_served func_served simple_decl_served in auto)
qed

text \<open>
  C35. Every function that appends a type does what its request asks for. A request that is not
  valid fails with \<open>EINVAL\<close> and leaves the BTF alone. A valid one fails only for want of
  memory, and then the types and the offset table are what they were; otherwise the words
  of the type follow the types there were, with the offset of its name in front, the table
  has one entry more, and the result is the new type's ID.
\<close>

theorem btf_add_refines:
  assumes "instance_inv b" "name_ok (decl_name d)"
  shows "if decl_valid d then appends b (add_decl al d [b]) (decl_name d) (decl_words d)
    else add_decl al d [b] = (Inl (Err EINVAL), [b])"
  using btf_add_served [OF assms, of al] by (simp only: decl_served_def)

section \<open>Reading back what was appended\<close>

lemma type_at_one:
  assumes inv: "instance_inv b" and j: "j \<noteq> 0" "unat j \<le> unat (nr_types b)"
  obtains t n where "read_type (type_sec b) (type_table b ! (unat j - 1)) = Inr t" "btf_type_size t = Inr n"
    "type_table b ! (unat j - 1) + n \<le> length (type_sec b)"
    "btf__type_by_id [b] j = Inr (Some (Type_at (drop (type_table b ! (unat j - 1)) (types_data b))))"
proof -
  let ?i = "unat j - 1"
  have tw: "types_wf b" "start_id b = 1" using inv by (simp_all add: instance_inv_def)
  have p: "0 < unat j" using j(1) by (simp add: unat_gt_0)
  then have i: "?i < unat (nr_types b)" using j(2) by simp
  have lay: "layout (types_data b) 0 (type_table b) (unat (type_len (hdr b)))"
    and len: "unat (type_len (hdr b)) \<le> length (types_data b)"
    using tw(1) by (simp_all add: types_wf_def type_table_def)
  obtain t n where t: "read_type (types_data b) (type_table b ! ?i) = Inr t" "btf_type_size t = Inr n"
    "type_table b ! ?i + n \<le> unat (type_len (hdr b))"
    using layout_nth [OF lay, of ?i] i by (auto simp: type_table_def)
  have l: "length (type_sec b) = unat (type_len (hdr b))" by (rule length_type_sec [OF inv])
  have fits: "type_table b ! ?i + 12 \<le> length (type_sec b)" using t(3) btf_type_size_ge [OF t(2)] l by simp
  then have r: "read_type (type_sec b) (type_table b ! ?i) = Inr t"
    using t(1) read_type_take [of _ "unat (type_len (hdr b))" "types_data b"] len l by (simp add: type_sec_def)
  have "4 * ?i + 4 \<le> length (type_offs b)" using tw(1) i by (simp add: types_wf_def offs_ok_def)
  then have u: "mem_u32 (type_offs b) (4 * ?i) = Inr (word_of_nat (off_at (type_offs b) ?i))"
    by (rule off_at_mem_u32)
  moreover have "unat (word_of_nat (off_at (type_offs b) ?i) :: u32) = type_table b ! ?i"
    using off_at_read [OF u] i by (simp add: type_table_def)
  moreover have "unat (j - start_id b) = ?i" using j(1) tw(2) by (simp add: unat_minus_one)
  moreover have "unat (1 + nr_types b) = 1 + unat (nr_types b)"
    using tw(1) by (simp add: types_wf_def offs_ok_def unat_add_small)
  then have "\<not> 1 + nr_types b \<le> j" using j(2) by (simp add: word_le_nat_alt)
  moreover have "\<not> j < 1" using j(1) by (simp add: word_less_nat_alt unat_gt_0)
  moreover have "type_table b ! ?i \<le> length (types_data b)" using fits l len by simp
  ultimately have "btf__type_by_id [b] j = Inr (Some (Type_at (drop (type_table b ! ?i) (types_data b))))"
    using j(1) tw(2) by (simp add: btf__type_by_id_def)
  then show thesis using that r t(2,3) l by simp
qed

lemma type_sec_mem:
  assumes "instance_inv b" "off + k + 4 \<le> length (type_sec b)"
  shows "mem_u32 (drop off (types_data b)) k = mem_u32 (type_sec b) (off + k)"
proof -
  have "length (type_sec b) = unat (type_len (hdr b))" "unat (type_len (hdr b)) \<le> length (types_data b)"
    using assms(1) by (simp_all add: length_type_sec) (simp add: instance_inv_def types_wf_def)
  then show ?thesis using assms(2) by (simp add: mem_u32_drop type_sec_def mem_u32_take)
qed

lemma read_type_sec:
  assumes "instance_inv b" "off + 12 \<le> length (type_sec b)"
  shows "read_type (drop off (types_data b)) 0 = read_type (type_sec b) off"
  using type_sec_mem [OF assms(1), of off] assms(2) by (simp add: read_type_def)

lemma type_of_one:
  assumes inv: "instance_inv b" and j: "j \<noteq> 0" "unat j \<le> unat (nr_types b)"
  shows "\<exists>t. read_type (type_sec b) (type_table b ! (unat j - 1)) = Inr t \<and> type_of [b] j = Some t \<and>
    type_table b ! (unat j - 1) + 12 \<le> length (type_sec b)"
proof -
  obtain t n where t: "read_type (type_sec b) (type_table b ! (unat j - 1)) = Inr t" "btf_type_size t = Inr n"
    "type_table b ! (unat j - 1) + n \<le> length (type_sec b)"
    "btf__type_by_id [b] j = Inr (Some (Type_at (drop (type_table b ! (unat j - 1)) (types_data b))))"
    using type_at_one [OF inv j] by blast
  moreover have "type_table b ! (unat j - 1) + 12 \<le> length (type_sec b)"
    using t(3) btf_type_size_ge [OF t(2)] by simp
  ultimately show ?thesis by (simp add: type_of_def deref_type_def read_type_sec [OF inv])
qed

text \<open>All the words of a type, as they are read through its ID.\<close>

definition type_words :: "btf \<Rightarrow> u32 \<Rightarrow> u32 cres list cres" where
  "type_words b i =
     res_bind (btf__type_by_id b i) (\<lambda>r.
     res_bind (deref_type r) (\<lambda>t.
     res_bind (btf_type_size t) (\<lambda>n.
       Inr (map (\<lambda>k. ref_u32 r (4 * k)) [0..<n div 4]))))"

lemma type_words_one:
  assumes inv: "instance_inv b" and j: "j \<noteq> 0" "unat j \<le> unat (nr_types b)"
  obtains t n where "read_type (type_sec b) (type_table b ! (unat j - 1)) = Inr t" "btf_type_size t = Inr n"
    "type_table b ! (unat j - 1) + n \<le> length (type_sec b)"
    "type_words [b] j =
       Inr (map (\<lambda>k. mem_u32 (type_sec b) (type_table b ! (unat j - 1) + 4 * k)) [0..<n div 4])"
proof -
  let ?o = "type_table b ! (unat j - 1)"
  obtain t n where t: "read_type (type_sec b) ?o = Inr t" "btf_type_size t = Inr n" "?o + n \<le> length (type_sec b)"
    "btf__type_by_id [b] j = Inr (Some (Type_at (drop ?o (types_data b))))"
    using type_at_one [OF inv j] by blast
  have "?o + 12 \<le> length (type_sec b)" using t(3) btf_type_size_ge [OF t(2)] by simp
  moreover have "mem_u32 (drop ?o (types_data b)) (4 * k) = mem_u32 (type_sec b) (?o + 4 * k)" if "k < n div 4" for k
    by (rule type_sec_mem [OF inv]) (use that t(3) in linarith)
  ultimately have "type_words [b] j = Inr (map (\<lambda>k. mem_u32 (type_sec b) (?o + 4 * k)) [0..<n div 4])"
    using t by (simp add: type_words_def deref_type_def ref_u32_def read_type_sec [OF inv])
  then show thesis using that t(1-3) by blast
qed

lemma btf_name_one:
  assumes inv: "instance_inv b"
  shows "btf_name [b] off =
    (if unat off < length (str_image b) then Some (cstr (str_image b) (unat off)) else None)"
proof -
  have "strs_wf b" "start_str_off b = 0" using instance_btf_wf [OF inv] inv by (simp_all add: instance_inv_def)
  then obtain s where s: "btf_strs_data b = Inr s" "unat (str_len (hdr b)) \<le> length s"
    by (auto simp: strs_wf_def split: sum.splits)
  have img: "str_image b = take (unat (str_len (hdr b))) s" using s(1) by (simp add: str_image_def)
  have l: "length (str_image b) = unat (str_len (hdr b))" by (rule str_image_terminated(1) [OF inv])
  have "cstr (drop (unat off) s) 0 = cstr (str_image b) (unat off)" if "unat off < length (str_image b)"
  proof -
    have "s = str_image b @ drop (unat (str_len (hdr b))) s" unfolding img by simp
    then have "cstr s (unat off) = cstr (str_image b) (unat off)" using strings_kept [OF inv that] by metis
    then show ?thesis by (simp add: cstr_def)
  qed
  then show ?thesis
    using s(1) l \<open>start_str_off b = 0\<close> by (simp add: btf_name_def word_less_nat_alt)
qed

lemma void_kept:
  assumes "instance_inv b" "instance_inv b'"
  shows "btf__type_by_id [b'] 0 = btf__type_by_id [b] 0"
proof -
  have "unat (1 + nr_types c) = 1 + unat (nr_types c)" if "instance_inv c" for c
    using that by (simp add: instance_inv_def types_wf_def offs_ok_def unat_add_small)
  then have "unat (1 + nr_types b) \<noteq> 0" "unat (1 + nr_types b') \<noteq> 0" using assms by simp_all
  then have "\<not> 1 + nr_types b = 0" "\<not> 1 + nr_types b' = 0" by (metis unat_0)+
  then show ?thesis using assms by (simp add: btf__type_by_id_def instance_inv_def)
qed

lemma mem_u32_append: "off + 4 \<le> length m \<Longrightarrow> mem_u32 (m @ xs) off = mem_u32 m off"
  by (simp add: mem_u32_def mem_read_def)

lemma type_words_kept:
  assumes inv: "instance_inv b" "instance_inv b'"
    and ext: "type_sec b' = type_sec b @ xs" "type_table b' = type_table b @ ys" "unat (nr_types b) \<le> unat (nr_types b')"
    and j: "unat j \<le> unat (nr_types b)"
  shows "type_words [b'] j = type_words [b] j"
proof (cases "j = 0")
  case True
  then show ?thesis by (simp add: type_words_def void_kept [OF inv])
next
  case False
  let ?o = "type_table b ! (unat j - 1)"
  have "0 < unat j" using False by (simp add: unat_gt_0)
  then have "unat j - 1 < length (type_table b)" using j by (simp add: type_table_def)
  then have o: "type_table b' ! (unat j - 1) = ?o" unfolding ext(2) by (simp add: nth_append)
  obtain t n where t: "read_type (type_sec b) ?o = Inr t" "btf_type_size t = Inr n" "?o + n \<le> length (type_sec b)"
    "type_words [b] j = Inr (map (\<lambda>k. mem_u32 (type_sec b) (?o + 4 * k)) [0..<n div 4])"
    by (rule type_words_one [OF inv(1) False j], rule that)
  have "unat j \<le> unat (nr_types b')" using j ext(3) by simp
  note w = type_words_one [OF inv(2) False this, unfolded o]
  obtain t' n' where t': "read_type (type_sec b') ?o = Inr t'" "btf_type_size t' = Inr n'"
    "type_words [b'] j = Inr (map (\<lambda>k. mem_u32 (type_sec b') (?o + 4 * k)) [0..<n' div 4])"
    by (rule w, rule that)
  have "?o + 12 \<le> length (type_sec b)" using t(3) btf_type_size_ge [OF t(2)] by simp
  then have "read_type (type_sec b') ?o = read_type (type_sec b) ?o"
    by (intro read_type_agree [where e = "length (type_sec b)"]) (simp_all add: ext(1))
  then have n: "n' = n" using t t' by simp
  have "mem_u32 (type_sec b') (?o + 4 * k) = mem_u32 (type_sec b) (?o + 4 * k)" if "k < n div 4" for k
    unfolding ext(1) by (rule mem_u32_append) (use that t(3) in linarith)
  then show ?thesis using t(4) t'(3) n by simp
qed

lemma read_words:
  "map (\<lambda>k. mem_u32 (xs @ words_bytes ws) (length xs + 4 * k)) [0..<length ws] = map Inr ws"
proof (intro nth_equalityI)
  fix k assume "k < length (map (\<lambda>k. mem_u32 (xs @ words_bytes ws) (length xs + 4 * k)) [0..<length ws])"
  then have k: "k < length ws" by simp
  then have w: "ws = take k ws @ [ws ! k] @ drop (Suc k) ws" by (simp add: id_take_nth_drop)
  have "words_bytes ws = words_bytes (take k ws) @ le_bytes 4 (unat (ws ! k)) @ words_bytes (drop (Suc k) ws)"
    by (subst w, simp only: words_bytes_snoc) simp
  then have "mem_u32 (xs @ words_bytes ws) (length xs + 4 * k) = Inr (ws ! k)"
    using mem_u32_words [of "xs @ words_bytes (take k ws)" "ws ! k" "words_bytes (drop (Suc k) ws)"] k
    by (simp add: min_def)
  then show "map (\<lambda>k. mem_u32 (xs @ words_bytes ws) (length xs + 4 * k)) [0..<length ws] ! k = map Inr ws ! k"
    using k by simp
qed simp

lemma type_words_appended:
  assumes inv: "instance_inv b'" and a: "type_sec b' = type_sec b @ words_bytes ws"
    "type_table b' = type_table b @ [length (type_sec b)]" "unat (nr_types b') = unat (nr_types b) + 1"
    "unat i = unat (nr_types b) + 1"
  shows "type_words [b'] i = Inr (map Inr ws)"
proof -
  have nz: "i \<noteq> 0" "nr_types b' \<noteq> 0" using a by auto
  have tab: "type_table b' ! (unat i - 1) = length (type_sec b)" "last_off b' = length (type_sec b)"
    using a by (simp_all add: nth_append type_table_def last_off_def)
  have "unat i \<le> unat (nr_types b')" using a(3,4) by simp
  note w = type_words_one [OF inv nz(1) this, unfolded tab(1)]
  obtain t n where t: "read_type (type_sec b') (length (type_sec b)) = Inr t" "btf_type_size t = Inr n"
    "type_words [b'] i = Inr (map (\<lambda>k. mem_u32 (type_sec b') (length (type_sec b) + 4 * k)) [0..<n div 4])"
    by (rule w, rule that)
  obtain t' n' where t': "read_type (types_data b') (length (type_sec b)) = Inr t'" "btf_type_size t' = Inr n'"
    "length (type_sec b) + n' = length (type_sec b')"
    using last_type [OF inv nz(2)] tab(2) by metis
  have "t' = t" using t t' read_last_sec [OF inv nz(2)] tab(2) by simp
  then have "n = 4 * length ws" using t(2) t'(2,3) a(1) by simp
  then show ?thesis using t(3) read_words [of "type_sec b" ws] a(1) by simp
qed

lemma btf_name_kept:
  assumes "instance_inv b" "instance_inv b'" "str_image b' = str_image b @ xs" "btf_name [b] off = Some s"
  shows "btf_name [b'] off = Some s"
  using assms strings_kept [OF assms(1), of "unat off" xs] by (auto simp: btf_name_one split: if_splits)

text \<open>
  C36. The new type can be read back by its ID: the words found there are the offset of its
  name and then exactly the words of the request, no more and no fewer, and the name at that
  offset is the requested one. All the IDs there were lead to the words they led to, and every
  offset that had a name still has it.
\<close>

theorem btf_added_type_read_back:
  assumes "instance_inv b" "name_ok (decl_name d)" "add_decl al d [b] = (Inr i, b1)"
  shows "\<exists>off. type_words b1 i = Inr (map Inr (off # decl_words d)) \<and>
    (\<not> no_name (decl_name d) \<longrightarrow> btf_name b1 off = decl_name d) \<and>
    (\<forall>j. unat j \<le> unat (nr_types b) \<longrightarrow> type_words b1 j = type_words [b] j) \<and>
    (\<forall>off s. btf_name [b] off = Some s \<longrightarrow> btf_name b1 off = Some s)"
proof -
  have a: "appends b (add_decl al d [b]) (decl_name d) (decl_words d)"
    using btf_add_served [OF assms(1,2), of al] assms(3) by (auto simp: decl_served_def split: if_splits)
  then obtain b' where b': "b1 = [b']" "instance_inv b'" "type_appended b b' (decl_name d) (decl_words d) i"
    using assms(3) by (auto simp: appends_def)
  obtain off where o: "unat i = unat (nr_types b) + 1" "unat (nr_types b') = unat (nr_types b) + 1"
    "type_table b' = type_table b @ [length (type_sec b)]" "type_sec b' = type_sec b @ words_bytes (off # decl_words d)"
    "name_added b b' (decl_name d) off"
    using b'(3) by (auto simp: type_appended_def)
  have w: "type_words [b'] i = Inr (map Inr (off # decl_words d))"
    by (rule type_words_appended [OF b'(2) o(4,3,2,1)])
  have nm: "btf_name [b'] off = decl_name d" if "\<not> no_name (decl_name d)"
    using o(5) that by (auto simp: btf_name_one [OF b'(2)] name_added_def string_added_def no_name_def)
  obtain xs where "str_image b' = str_image b @ xs" using name_added_prefix [OF o(5)] by blast
  then show ?thesis
    using w nm type_words_kept [OF assms(1) b'(2) o(4,3)] btf_name_kept [OF assms(1) b'(2)] o(2) b'(1)
    by (intro exI [of _ off]) simp
qed

section \<open>What the functions that extend the last type do\<close>

datatype part =
    Part_field "bytes option" u32 u32 u32 | Part_enum_value "bytes option" int
  | Part_param "bytes option" u32 | Part_var_info u32 u32 u32

fun add_part :: "(nat \<Rightarrow> btf_alloc) \<Rightarrow> part \<Rightarrow> unit op" where
  "add_part al (Part_field name i off n) = btf__add_field al name i off n"
| "add_part al (Part_enum_value name v) = btf__add_enum_value al name v"
| "add_part al (Part_param name i) = btf__add_func_param al name i"
| "add_part al (Part_var_info i off n) = btf__add_datasec_var_info al i off n"

fun part_name :: "part \<Rightarrow> bytes option" where
  "part_name (Part_field name i off n) = name"
| "part_name (Part_enum_value name v) = name"
| "part_name (Part_param name i) = name"
| "part_name (Part_var_info i off n) = None"

fun part_kinds :: "part \<Rightarrow> u32 set" where
  "part_kinds (Part_field name i off n) = {BTF_KIND_STRUCT, BTF_KIND_UNION}"
| "part_kinds (Part_enum_value name v) = {BTF_KIND_ENUM}"
| "part_kinds (Part_param name i) = {BTF_KIND_FUNC_PROTO}"
| "part_kinds (Part_var_info i off n) = {BTF_KIND_DATASEC}"

abbreviation bitfield :: "u32 \<Rightarrow> u32 \<Rightarrow> bool" where
  "bitfield off n \<equiv> n \<noteq> 0 \<or> off mod 8 \<noteq> 0"

text \<open>The error that rejects a part of the last type, if there is one.\<close>

fun part_error :: "part \<Rightarrow> btf_type option \<Rightarrow> errno option" where
  "part_error p None = Some EINVAL"
| "part_error p (Some t) =
     (if btf_kind t \<notin> part_kinds p then Some EINVAL
      else
        case p of
          Part_field name i off n \<Rightarrow>
            if \<not> sane_id i \<or> bitfield off n \<and> (n = 0 \<or> n > 255 \<or> off > 0xffffff) \<or>
               btf_kind t = BTF_KIND_UNION \<and> off \<noteq> 0
            then Some EINVAL else None
        | Part_enum_value name v \<Rightarrow>
            if no_name name then Some EINVAL
            else if v < - (2 ^ 31) \<or> v > 2 ^ 32 - 1 then Some E2BIG else None
        | Part_param name i \<Rightarrow> if sane_id i then None else Some EINVAL
        | Part_var_info i off n \<Rightarrow> if sane_id i then None else Some EINVAL)"

fun part_words :: "part \<Rightarrow> u32 \<Rightarrow> u32 list" where
  "part_words (Part_field name i off n) s = [s, i, off OR push_bit 24 n]"
| "part_words (Part_enum_value name v) s = [s, word_of_int v]"
| "part_words (Part_param name i) s = [s, i]"
| "part_words (Part_var_info i off n) s = [i, off, n]"

text \<open>The second word of the last type afterwards: one record more, and perhaps the flag.\<close>

fun part_info :: "part \<Rightarrow> btf_type \<Rightarrow> u32" where
  "part_info (Part_field name i off n) t =
     btf_type_info (btf_kind t) (btf_vlen t + 1) (if bitfield off n \<or> btf_kflag t \<noteq> 0 then 1 else 0)"
| "part_info p t = btf_type_info (btf_kind t) (btf_vlen t + 1) (btf_kflag t)"

definition last_type_of :: "btf_obj \<Rightarrow> btf_type option" where
  "last_type_of b = (if nr_types b = 0 then None else type_of [b] (nr_types b))"

lemma last_type_of_cases:
  assumes inv: "instance_inv b"
  obtains (none) "nr_types b = 0" "last_type_of b = None"
  | (type) t k where "nr_types b \<noteq> 0" "last_type_of b = Some t" "read_type (types_data b) (last_off b) = Inr t"
      "btf_type_size t = Inr k" "own_type_off (nr_types b) b = Inr (last_off b)"
proof (cases "nr_types b = 0")
  case True
  then show thesis by (intro none) (simp_all add: last_type_of_def)
next
  case False
  obtain t k where t: "read_type (types_data b) (last_off b) = Inr t" "btf_type_size t = Inr k"
    "own_type_off (nr_types b) b = Inr (last_off b)"
    using last_type [OF inv False] by metis
  have p: "0 < unat (nr_types b)" using False by (simp add: unat_gt_0)
  then have "type_table b \<noteq> []" by (auto simp: type_table_def dest: arg_cong [of _ _ length])
  then have "type_table b ! (unat (nr_types b) - 1) = last_off b"
    by (simp add: last_off_def last_conv_nth) (simp add: type_table_def)
  then have "type_of [b] (nr_types b) = Some t"
    using type_of_one [OF inv False order_refl] t(1) read_last_sec [OF inv False] by auto
  then show thesis using type False t by (simp add: last_type_of_def)
qed

lemma last_type_is_run:
  assumes inv: "instance_inv b"
  shows "op_bind (last_type_is kinds) f [b] =
    (case last_type_of b of
       None \<Rightarrow> (Inl (Err EINVAL), [b])
     | Some t \<Rightarrow> if btf_kind t \<in> kinds then f t [b] else (Inl (Err EINVAL), [b]))"
proof (cases rule: last_type_of_cases [OF inv])
  case 1
  then show ?thesis by (simp add: last_type_is_def op_bind_def op_get_def op_guard_def)
next
  case (2 t k)
  have "btf__get_nr_types b = nr_types b" using inv by (simp add: btf__get_nr_types_def instance_inv_def)
  then show ?thesis
    using 2 by (simp add: last_type_is_def btf_last_type_def op_bind_def op_get_def op_guard_def op_return_def)
qed

lemma kflag_small: "btf_kflag t < 2"
proof -
  have "unat (btf_kflag t) = unat (info t) div 2 ^ 31"
    unfolding btf_kflag_def unat_drop_bit_eq by (rule drop_bit_eq_div)
  then show ?thesis using unat_u32_le [of "info t"] by (simp add: word_less_nat_alt)
qed

lemma kind_small: "btf_kind t < 32"
proof -
  have "btf_kind t \<le> 0x1f" unfolding btf_kind_def by (rule word_and_le1)
  then show ?thesis by (simp add: word_le_nat_alt word_less_nat_alt)
qed

lemma inc_vlen_size:
  assumes t: "btf_type_size t = Inr k" "btf_kind t \<in> part_kinds p" and v: "btf_vlen t < 0xffff" and f: "kflag < 2"
  shows "btf_type_size (t\<lparr>info := btf_type_info (btf_kind t) (btf_vlen t + 1) kflag\<rparr>) =
    Inr (k + 4 * length (part_words p off))"
proof -
  let ?t = "t\<lparr>info := btf_type_info (btf_kind t) (btf_vlen t + 1) kflag\<rparr>"
  have u: "unat (btf_vlen t + 1) = unat (btf_vlen t) + 1"
    using unat_add_small [of "btf_vlen t" 1] v by (simp add: word_less_nat_alt)
  then have "btf_vlen t + 1 < 0x10000" using v by (simp add: word_less_nat_alt)
  then have "btf_kind ?t = btf_kind t" "btf_vlen ?t = btf_vlen t + 1"
    using type_info_fields [of ?t "btf_kind t" "btf_vlen t + 1" kflag] kind_small f by simp_all
  then show ?thesis
    using t u by (cases p) (auto simp: btf_type_size_def Let_def)
qed

lemma part_fns:
  "part_words (Part_field name i off n) = (\<lambda>s. [s, i, off OR push_bit 24 n])"
  "part_words (Part_enum_value name v) = (\<lambda>s. [s, word_of_int v])"
  "part_words (Part_param name i) = (\<lambda>s. [s, i])"
  "part_words (Part_var_info i off n) = (\<lambda>s. [i, off, n])"
  "part_info (Part_field name i off n) = (\<lambda>t. btf_type_info (btf_kind t) (btf_vlen t + 1)
     (if bitfield off n \<or> btf_kflag t \<noteq> 0 then 1 else 0))"
  "part_info (Part_enum_value name v) = btf_type_inc_vlen"
  "part_info (Part_param name i) = btf_type_inc_vlen"
  "part_info (Part_var_info i off n) = btf_type_inc_vlen"
  by (simp_all add: fun_eq_iff btf_type_inc_vlen_def)

lemma add_part_run:
  assumes inv: "instance_inv b" and t: "last_type_of b = Some t"
  shows "add_part al p [b] =
    (case part_error p (Some t) of
       Some e \<Rightarrow> (Inl (Err e), [b])
     | None \<Rightarrow> append_record al (4 * length (part_words p 0)) (name_offset al (part_name p)) (part_words p) (part_info p) [b])"
proof -
  note run = last_type_is_run [OF inv] t sane_id part_fns
  have n: "name_offset al None = op_return 0" by (simp add: name_offset_def no_name_def)
  show ?thesis
  proof (cases p)
    case (Part_field name i off n)
    then show ?thesis by (auto simp: btf__add_field_def run Let_def)
  next
    case (Part_enum_value name val)
    then show ?thesis by (auto simp: btf__add_enum_value_def run)
  next
    case (Part_param name i)
    then show ?thesis by (auto simp: btf__add_func_param_def run)
  next
    case (Part_var_info i off n)
    then show ?thesis using n by (auto simp: btf__add_datasec_var_info_def run)
  qed
qed

text \<open>
  C37. Every function that extends the last type rejects a request that does not fit it, with
  \<open>EINVAL\<close>, or \<open>E2BIG\<close> for a value that is neither an \<open>int\<close> nor an \<open>unsigned int\<close>, and leaves
  the BTF alone. Otherwise it fails only for want of memory, or appends the record's words and
  counts it in the type's second word; the other types and the offset table stay. The type has
  fewer than 65535 records, which the code does not check.
\<close>

theorem btf_add_part_refines:
  assumes inv: "instance_inv b" and name: "name_ok (part_name p)"
    and v: "\<And>t. last_type_of b = Some t \<Longrightarrow> btf_vlen t < 0xffff"
  shows "case part_error p (last_type_of b) of
      Some e \<Rightarrow> add_part al p [b] = (Inl (Err e), [b])
    | None \<Rightarrow> appends_record b (add_part al p [b]) (part_name p) (part_words p) (part_info p (the (last_type_of b)))"
proof (cases rule: last_type_of_cases [OF inv])
  case 1
  then show ?thesis
    by (cases p) (simp_all add: btf__add_field_def btf__add_enum_value_def btf__add_func_param_def
        btf__add_datasec_var_info_def last_type_is_run [OF inv])
next
  case (2 t k)
  have app: "appends_record b (append_record al (4 * length (part_words p 0)) (name_offset al (part_name p)) (part_words p)
      (part_info p) [b]) (part_name p) (part_words p) (part_info p t)"
    if "btf_kind t \<in> part_kinds p"
  proof (rule append_record_result [OF inv 2(1) name 2(3,4)])
    show "4 * length (part_words p 0) = 4 * length (part_words p off)" for off by (cases p) simp_all
    show "btf_type_size (t\<lparr>info := part_info p t\<rparr>) = Inr (k + 4 * length (part_words p 0))"
      using inc_vlen_size [OF 2(4) that v [OF 2(2)]] kflag_small [of t] by (cases p) simp_all
  qed
  show ?thesis
    using app add_part_run [OF inv 2(2), of al p] 2(2) by (cases "part_error p (Some t)") (auto split: if_splits)
qed

section \<open>The vlen field is not checked\<close>

text \<open>A type with 65535 records that gets one more has none, in the eyes of a reader.\<close>

lemma inc_vlen_wraps:
  assumes "btf_vlen t = 0xffff"
  shows "btf_vlen (t\<lparr>info := btf_type_inc_vlen t\<rparr>) = 0"
proof -
  have "unat (btf_kflag t) < 2 ^ 1" "unat (btf_kind t) < 2 ^ 5"
    using kflag_small [of t] kind_small [of t] by (simp_all add: word_less_nat_alt)
  note f = small_bits [OF this(1)] and k = small_bits [OF this(2)]
  obtain q :: u32 where q: "0x10000 = push_bit 16 q" using that [of 1] by simp
  have w: "btf_type_inc_vlen t = push_bit 31 (btf_kflag t) OR push_bit 24 (btf_kind t) OR push_bit 16 q"
    unfolding q [symmetric] by (simp add: btf_type_inc_vlen_def assms btf_type_info_def)
  have c: "(0xffff :: u32) = Bit_Operations.mask 16" by (simp add: mask_eq_exp_minus_1)
  have "btf_type_inc_vlen t AND 0xffff = 0"
    unfolding w c by (rule bit_word_eqI) (auto simp: bit_simps dest: f k)
  then show ?thesis by (simp add: btf_vlen_def)
qed

section \<open>Witnesses\<close>

definition ok_alloc :: btf_alloc where
  "ok_alloc = \<lparr>hdr_ok = True, types_ok = True, set_ok = True, map_ok = True, data_ok = True,
     index_ok = \<lambda>_. (True, True), str_realloc_ok = True, str_calloc_ok = True, str_malloc_ok = True,
     type_mem_ok = True, type_idx_ok = True\<rparr>"

text \<open>An empty instance, and one with an anonymous struct that has no member yet.\<close>

definition empty_inst :: btf_obj where
  "empty_inst = (case btf_new_empty True True [] of Inr b \<Rightarrow> hd b | Inl _ \<Rightarrow> undefined)"

definition struct_inst :: btf_obj where
  "struct_inst = hd (snd (add_decl (\<lambda>_. ok_alloc) (Decl_struct None 4) [empty_inst]))"

lemma empty_inst_inv: "instance_inv empty_inst" "nr_types empty_inst = 0" "type_sec empty_inst = []"
  "str_image empty_inst = [0]"
  by (simp_all add: empty_inst_def btf_new_empty_def btf_start_def instance_inv_def types_wf_def offs_ok_def
      offs_list_def raw_inv_def strs_wf_def btf_strs_data_def type_sec_def str_image_def Let_def)

lemma struct_added: "fst (add_decl (\<lambda>_. ok_alloc) (Decl_struct None 4) [empty_inst]) = Inr 1"
  by code_simp

lemma anon_ok: "name_ok None" "no_name None"
  by (simp_all add: name_ok_def no_name_def)

lemma struct_inst_inv: "instance_inv struct_inst"
  "type_appended empty_inst struct_inst None [0x04000000, 4] 1"
proof -
  have "decl_served empty_inst (Decl_struct None 4) (add_decl (\<lambda>_. ok_alloc) (Decl_struct None 4) [empty_inst])"
    using anon_ok by (intro btf_add_served empty_inst_inv) simp
  then show "instance_inv struct_inst" "type_appended empty_inst struct_inst None [0x04000000, 4] 1"
    using struct_added by (auto simp: decl_served_def appends_def struct_inst_def simp del: add_decl.simps)
qed

theorem btf_ensure_modifiable_keeps_witness:
  "\<exists>b'. btf_ensure_modifiable ok_alloc False empty_inst = Inr b' \<and> same_image empty_inst b' \<and> raw_data b' = None"
proof -
  have "\<not> isl (btf_ensure_modifiable ok_alloc False empty_inst)" by code_simp
  then show ?thesis
    using btf_ensure_modifiable_keeps [OF empty_inst_inv(1), of ok_alloc] by (auto split: sum.splits)
qed

theorem btf_add_str_denotes_witness:
  "\<exists>r b'. btf__add_str (\<lambda>_. ok_alloc) [105, 110, 116] [empty_inst] = (r, [b']) \<and>
     (case r of Inl e \<Rightarrow> e = Err ENOMEM | Inr off \<Rightarrow> cstr (str_image b') off = [105, 110, 116])"
proof -
  have "(0 :: u8) \<notin> set [105, 110, 116]" by simp
  then obtain r b' where "btf__add_str (\<lambda>_. ok_alloc) [105, 110, 116] [empty_inst] = (r, [b'])"
    "case r of Inl e \<Rightarrow> e = Err ENOMEM \<and> str_image b' = str_image empty_inst
     | Inr off \<Rightarrow>
         (str_image b' = str_image empty_inst \<or> str_image b' = str_image empty_inst @ [105, 110, 116] @ [0]) \<and>
         off < length (str_image b') \<and> cstr (str_image b') off = [105, 110, 116]"
    using btf_add_str_denotes [OF empty_inst_inv(1), of "[105, 110, 116]" "\<lambda>_. ok_alloc"] by blast
  moreover from this(2) have "case r of Inl e \<Rightarrow> e = Err ENOMEM | Inr off \<Rightarrow> cstr (str_image b') off = [105, 110, 116]"
    by (simp split: sum.splits)
  ultimately show ?thesis by blast
qed

theorem btf_add_refines_witness:
  "appends empty_inst (add_decl (\<lambda>_. ok_alloc) (Decl_struct None 4) [empty_inst]) None [0x04000000, 4] \<and>
   add_decl (\<lambda>_. ok_alloc) (Decl_ptr 0x80000000) [empty_inst] = (Inl (Err EINVAL), [empty_inst])"
proof -
  note r = btf_add_refines [OF empty_inst_inv(1), where al = "\<lambda>_. ok_alloc"]
  have "appends empty_inst (add_decl (\<lambda>_. ok_alloc) (Decl_struct None 4) [empty_inst]) None [0x04000000, 4]"
    using r [of "Decl_struct None 4"] anon_ok by (simp del: add_decl.simps)
  moreover have "add_decl (\<lambda>_. ok_alloc) (Decl_ptr 0x80000000) [empty_inst] = (Inl (Err EINVAL), [empty_inst])"
    using r [of "Decl_ptr 0x80000000"] anon_ok by (simp del: add_decl.simps)
  ultimately show ?thesis by blast
qed

theorem btf_added_type_read_back_witness:
  "\<exists>b1 off. add_decl (\<lambda>_. ok_alloc) (Decl_array 5 6 7) [empty_inst] = (Inr 1, b1) \<and>
     type_words b1 1 = Inr (map Inr [off, 0x03000000, 0, 6, 5, 7])"
proof -
  have "fst (add_decl (\<lambda>_. ok_alloc) (Decl_array 5 6 7) [empty_inst]) = Inr 1" by code_simp
  then obtain b1 where r: "add_decl (\<lambda>_. ok_alloc) (Decl_array 5 6 7) [empty_inst] = (Inr 1, b1)"
    by (metis prod.collapse)
  then show ?thesis
    using btf_added_type_read_back [OF empty_inst_inv(1) _ r] anon_ok by auto
qed

theorem btf_add_part_refines_witness:
  "\<exists>b. add_part (\<lambda>_. ok_alloc) (Part_field None 1 0 0) [struct_inst] = (Inr (), [b]) \<and>
     record_appended struct_inst b None (\<lambda>s. [s, 1, 0]) 0x04000001"
proof -
  have o: "nr_types struct_inst = 1" "type_table struct_inst = [0]" "type_sec struct_inst = words_bytes [0, 0x04000000, 4]"
    using struct_inst_inv(2) empty_inst_inv anon_ok
    by (auto simp: type_appended_def name_added_def word_unat_eq_iff type_table_def offs_list_def)
  have t: "last_type_of struct_inst = Some \<lparr>name_off = 0, info = 0x04000000, size_type = 4\<rparr>"
    using type_of_one [OF struct_inst_inv(1), of 1] o read_type_words [of "[]" 0 0 "0x04000000" 4 "[]" "[]"]
    by (auto simp: last_type_of_def)
  have e: "part_error (Part_field None 1 0 0) (last_type_of struct_inst) = None"
    by (simp add: t btf_kind_def)
  have i: "part_info (Part_field None 1 0 0) (the (last_type_of struct_inst)) = 0x04000001"
    by (simp add: t btf_kind_def btf_vlen_def btf_kflag_def btf_type_info_def)
  have "fst (add_part (\<lambda>_. ok_alloc) (Part_field None 1 0 0) [struct_inst]) = Inr ()" by code_simp
  then show ?thesis
    using btf_add_part_refines [OF struct_inst_inv(1), of "Part_field None 1 0 0" "\<lambda>_. ok_alloc"] e i anon_ok t
    by (auto simp: appends_record_def btf_vlen_def part_fns simp del: add_part.simps)
qed

end
