(* ===== verification/Btf_Image.thy ===== *)
theory Btf_Image
  imports Btf_Records
begin

text \<open>
  Writing a BTF out as contiguous data, from \<^verbatim>\<open>src/bpftools/libbpf/src/btf.c\<close>, in the host's byte
  order or the other one, and what parsing that data gives.
\<close>

section \<open>The image\<close>

text \<open>The memory \<open>hdr\<close> points to.\<close>

definition hdr_region :: "btf_obj \<Rightarrow> bytes cres" where
  "hdr_region b =
     (if hdr_in_raw b then (case raw_data b of None \<Rightarrow> Inl Fault | Some raw \<Rightarrow> Inr raw)
      else Inr (hdr_bytes (hdr b) @ hdr_ext (hdr b)))"

text \<open>The loop over the types, at \<open>p\<close> in the image; \<open>n\<close> is the number of types from the \<open>i\<close>-th on.\<close>

primrec swap_types :: "bytes \<Rightarrow> nat \<Rightarrow> bytes \<Rightarrow> nat \<Rightarrow> nat \<Rightarrow> bytes cres" where
  "swap_types m p offs i 0 = Inr m"
| "swap_types m p offs i (Suc n) =
     res_bind (mem_u32 offs (4 * i)) (\<lambda>off.
     res_bind (btf_bswap_type_rest m (p + unat off)) (\<lambda>m.
     res_bind (btf_bswap_type_base m (p + unat off)) (\<lambda>m.
       swap_types m p offs (Suc i) n)))"

text \<open>
  \<open>None\<close> is the null pointer, for want of memory or because a type has an unknown kind.
\<close>

definition btf_get_raw_data :: "bool \<Rightarrow> btf_obj \<Rightarrow> bool \<Rightarrow> (bytes \<times> u32) option cres" where
  "btf_get_raw_data calloc_ok b swap_endian =
     (case if swap_endian then raw_data_swapped b else raw_data b of
        Some data \<Rightarrow> Inr (Some (data, raw_size b))
      | None \<Rightarrow>
          let h = hdr b;
              data_sz = hdr_len h + type_len h + str_len h
          in if \<not> calloc_ok then Inr None
             else
               let data = replicate (unat data_sz) 0; p = 0
               in res_bind (hdr_region b) (\<lambda>hr.
                  res_bind (mem_read hr 0 (unat (hdr_len h))) (\<lambda>hb.
                  res_bind (mem_write data p hb) (\<lambda>data.
                  res_bind
                    (if swap_endian
                     then res_bind (read_hdr data) (\<lambda>rh. mem_write data p (hdr_bytes (btf_bswap_hdr rh)))
                     else Inr data) (\<lambda>data.
                  let p = p + unat (hdr_len h)
                  in res_bind (mem_read (types_data b) 0 (unat (type_len h))) (\<lambda>types.
                     res_bind (mem_write data p types) (\<lambda>data.
                     case if swap_endian then swap_types data p (type_offs b) 0 (unat (nr_types b)) else Inr data of
                       Inl Fault \<Rightarrow> Inl Fault
                     | Inl (Err e) \<Rightarrow> Inr None
                     | Inr data \<Rightarrow>
                         let p = p + unat (type_len h)
                         in res_bind (btf_strs_data b) (\<lambda>s.
                            res_bind (mem_read s 0 (unat (str_len h))) (\<lambda>strs.
                            res_bind (mem_write data p strs) (\<lambda>data.
                              Inr (Some (data, data_sz)))))))))))) "

definition btf__get_raw_data :: "bool \<Rightarrow> btf_obj \<Rightarrow> (bytes \<times> u32) cres \<times> btf_obj" where
  "btf__get_raw_data calloc_ok b =
     (case btf_get_raw_data calloc_ok b (swapped_endian b) of
        Inl e \<Rightarrow> (Inl e, b)
      | Inr None \<Rightarrow> (Inl (Err ENOMEM), b)
      | Inr (Some (data, data_sz)) \<Rightarrow>
          (let b = b\<lparr>raw_size := data_sz\<rparr>
           in (Inr (data, data_sz),
               if swapped_endian b then b\<lparr>raw_data_swapped := Some data\<rparr> else b\<lparr>raw_data := Some data\<rparr>)))"

section \<open>The parser accepts every well-formed type section\<close>

lemma add_type_idx_entry_ok:
  assumes ok: "offs_ok offs c n" and room: "unat n < BTF_MAX_NR_TYPES"
  obtains offs' c' where "btf_add_type_idx_entry True offs c n v = Inr (offs', c')" "offs_ok offs' c' (n + 1)"
    "unat (n + 1) = unat n + 1" "offs_list offs' (unat n + 1) = offs_list offs (unat n) @ [unat v]"
proof -
  have "unat n + 1 \<le> BTF_MAX_NR_TYPES" "(BTF_MAX_NR_TYPES :: nat) * 4 < 2 ^ 64" using room by simp_all
  then obtain r where r: "libbpf_add_mem True offs c 4 (unat n) BTF_MAX_NR_TYPES 1 = Some r"
    using libbpf_add_mem_total by blast
  obtain m c1 p where q: "r = (m, c1, p)" by (cases r)
  have l: "length offs = c * 4" using ok by (simp add: offs_ok_def)
  note a = libbpf_add_mem_spec [OF l r [unfolded q]]
  obtain m' where "mem_set_u32 m p v = Inr m'" using mem_set_u32_ok [of p m v] a(1,3,4) by auto
  then have "btf_add_type_idx_entry True offs c n v = Inr (m', c1)"
    using r q by (simp add: btf_add_type_idx_entry_def)
  then show thesis using add_type_idx_entry_result [OF ok, where al = True and v = v] that by simp
qed

lemma parse_types_complete:
  assumes "layout (drop base m) nxt xs end_type" "offs_ok offs c nr" "unat nr + length xs \<le> BTF_MAX_NR_TYPES"
    "base + end_type \<le> length m" "end_type < 2 ^ 32"
  shows "\<exists>offs' c' nr'. btf_parse_types (\<lambda>_. True) False base end_type nxt m offs c nr = Inr (m, offs', c', nr') \<and>
    offs_ok offs' c' nr' \<and> unat nr' = unat nr + length xs \<and> offs_list offs' (unat nr') = offs_list offs (unat nr) @ xs"
  using assms(1-3)
proof (induction xs arbitrary: nxt offs c nr)
  case Nil
  then show ?case by (simp add: btf_parse_types.simps)
next
  case (Cons x xs)
  from Cons.prems(1) obtain t n where l: "x = nxt" "read_type (drop base m) nxt = Inr t" "btf_type_size t = Inr n"
    "12 \<le> n" "nxt + n \<le> end_type" "layout (drop base m) (nxt + n) xs end_type"
    by (elim layout_ConsE)
  have r: "read_type m (base + nxt) = Inr t" using l(2) assms(4) by (simp add: read_type_drop)
  have room: "unat nr < BTF_MAX_NR_TYPES" using Cons.prems(3) by simp
  obtain offs1 c1 where e: "btf_add_type_idx_entry True offs c nr (of_nat nxt) = Inr (offs1, c1)" "offs_ok offs1 c1 (nr + 1)"
    "unat (nr + 1) = unat nr + 1" "offs_list offs1 (unat nr + 1) = offs_list offs (unat nr) @ [unat (of_nat nxt :: u32)]"
    using add_type_idx_entry_ok [OF Cons.prems(2) room, of "of_nat nxt"] by blast
  have nx: "unat (of_nat nxt :: u32) = nxt" using l(4,5) assms(5) by (intro unat_of_nat_u32) simp
  have "btf_parse_types (\<lambda>_. True) False base end_type nxt m offs c nr =
      btf_parse_types (\<lambda>_. True) False base end_type (nxt + n) m offs1 c1 (nr + 1)"
    using l(3-5) r e(1) by (subst btf_parse_types.simps) simp
  moreover have "unat (nr + 1) + length xs \<le> BTF_MAX_NR_TYPES" using Cons.prems(3) e(3) by simp
  ultimately show ?case using Cons.IH [OF l(6) e(2)] e(3,4) nx l(1) by auto
qed

section \<open>Out and in again\<close>

text \<open>
  A header whose sections lie one behind the other, as they do in the image, with strings that
  start with the empty one and less than 2 GiB in all.
\<close>

definition exportable :: "btf_obj \<Rightarrow> bool" where
  "exportable b \<longleftrightarrow> magic (hdr b) = BTF_MAGIC \<and> type_off (hdr b) = 0 \<and> str_off (hdr b) = type_len (hdr b) \<and>
     24 + length (type_sec b) + length (str_image b) < 2 ^ 31 \<and> str_image b \<noteq> [] \<and> hd (str_image b) = 0"

definition native_image :: "btf_obj \<Rightarrow> bytes" where
  "native_image b = hdr_bytes (hdr b) @ type_sec b @ str_image b"

lemma image_sizes:
  assumes inv: "instance_inv b" and small: "24 + length (type_sec b) + length (str_image b) < 2 ^ 31"
  shows "unat (24 + type_len (hdr b) + str_len (hdr b)) = length (native_image b)"
    "length (type_sec b) = unat (type_len (hdr b))" "length (str_image b) = unat (str_len (hdr b))"
proof -
  show l: "length (type_sec b) = unat (type_len (hdr b))" "length (str_image b) = unat (str_len (hdr b))"
    using length_type_sec [OF inv] str_image_terminated(1) [OF inv] by simp_all
  have "unat (24 + type_len (hdr b)) = 24 + unat (type_len (hdr b))"
    using small l by (subst unat_add_small) simp_all
  then show "unat (24 + type_len (hdr b) + str_len (hdr b)) = length (native_image b)"
    using small l by (subst unat_add_small) (simp_all add: native_image_def)
qed

lemma split_reads:
  assumes inv: "instance_inv b" and sp: "\<not> hdr_in_raw b"
  shows "hdr_region b = Inr (hdr_bytes (hdr b))" "mem_read (types_data b) 0 (unat (type_len (hdr b))) = Inr (type_sec b)"
    "\<exists>s. btf_strs_data b = Inr s \<and> mem_read s 0 (unat (str_len (hdr b))) = Inr (str_image b)"
proof -
  show "hdr_region b = Inr (hdr_bytes (hdr b))" using inv sp by (simp add: hdr_region_def instance_inv_def)
  show "mem_read (types_data b) 0 (unat (type_len (hdr b))) = Inr (type_sec b)"
    using inv by (simp add: instance_inv_def types_wf_def mem_read_def type_sec_def)
  have "strs_wf b" using instance_btf_wf [OF inv] by simp
  then show "\<exists>s. btf_strs_data b = Inr s \<and> mem_read s 0 (unat (str_len (hdr b))) = Inr (str_image b)"
    by (auto simp: strs_wf_def mem_read_def str_image_def split: sum.splits)
qed

text \<open>Filling a zeroed region from left to right.\<close>

lemma mem_write_next:
  "length xs = p \<Longrightarrow> length ys \<le> n \<Longrightarrow>
   mem_write (xs @ replicate n z) p ys = Inr (xs @ ys @ replicate (n - length ys) z)"
  by (simp add: mem_write_def)

lemma get_raw_data_native:
  assumes inv: "instance_inv b" and sp: "\<not> hdr_in_raw b" and none: "raw_data b = None"
    and small: "24 + length (type_sec b) + length (str_image b) < 2 ^ 31"
  shows "btf_get_raw_data True b False = Inr (Some (native_image b, 24 + type_len (hdr b) + str_len (hdr b)))"
proof -
  note sz = image_sizes [OF inv small] and rd = split_reads [OF inv sp]
  obtain s where s: "btf_strs_data b = Inr s" "mem_read s 0 (unat (str_len (hdr b))) = Inr (str_image b)"
    using rd(3) by blast
  have h: "hdr_len (hdr b) = 24" using inv by (simp add: instance_inv_def)
  let ?t = "length (type_sec b)" and ?s = "length (str_image b)"
  have "mem_read (hdr_bytes (hdr b)) 0 24 = Inr (hdr_bytes (hdr b))" by (simp add: mem_read_def)
  moreover have "mem_write (replicate (24 + ?t + ?s) 0) 0 (hdr_bytes (hdr b)) = Inr (hdr_bytes (hdr b) @ replicate (?t + ?s) 0)"
    using mem_write_next [of "[]" 0 "hdr_bytes (hdr b)" "24 + ?t + ?s" 0] by simp
  moreover have "mem_write (hdr_bytes (hdr b) @ replicate (?t + ?s) 0) 24 (type_sec b) =
      Inr (hdr_bytes (hdr b) @ type_sec b @ replicate ?s 0)"
    using mem_write_next [of "hdr_bytes (hdr b)" 24 "type_sec b" "?t + ?s" 0] by simp
  moreover have "mem_write (hdr_bytes (hdr b) @ type_sec b @ replicate ?s 0) (24 + ?t) (str_image b) = Inr (native_image b)"
    using mem_write_next [of "hdr_bytes (hdr b) @ type_sec b" "24 + ?t" "str_image b" ?s 0] by (simp add: native_image_def)
  moreover have "unat (24 + type_len (hdr b) + str_len (hdr b)) = 24 + ?t + ?s" using sz(1) by (simp add: native_image_def)
  ultimately show ?thesis
    using none rd(1,2) s sz(2) by (simp add: btf_get_raw_data_def h Let_def)
qed

lemma native_image_parts:
  assumes inv: "instance_inv b" and ex: "exportable b"
  defines "h \<equiv> hdr b" and "m \<equiv> native_image b" and "n \<equiv> 24 + type_len (hdr b) + str_len (hdr b)"
  shows "unat n = length m" "hdr_accepted h n" "hdr_fits h" "hdr_ext h = []" "read_hdr m = Inr h"
    "drop (24 + unat (type_off h)) m = type_sec b @ str_image b" "drop (24 + unat (str_off h)) m = str_image b"
    "btf_parse_str_sec False h m (24 + unat (str_off h)) = Inr ()"
proof -
  have ex': "magic h = BTF_MAGIC" "type_off h = 0" "str_off h = type_len h"
    "24 + length (type_sec b) + length (str_image b) < 2 ^ 31" "str_image b \<noteq> []" "hd (str_image b) = 0"
    using ex by (simp_all add: exportable_def h_def)
  note sz = image_sizes [OF inv ex'(4)]
  show n: "unat n = length m" using sz(1) by (simp add: n_def m_def)
  show e: "hdr_ext h = []" using inv by (simp add: instance_inv_def h_def)
  then have "h\<lparr>hdr_ext := []\<rparr> = h" by simp
  then show "read_hdr m = Inr h" using read_hdr_bytes [of h "type_sec b @ str_image b"] by (simp add: m_def native_image_def h_def)
  have lens: "unat (type_len h) = length (type_sec b)" "unat (str_len h) = length (str_image b)" using sz(2,3) by (simp_all add: h_def)
  have hl: "hdr_len h = 24" using inv by (simp add: instance_inv_def h_def)
  show "hdr_fits h" using ex' lens hl by (simp add: hdr_fits_def)
  have un: "unat n = 24 + length (type_sec b) + length (str_image b)" using n by (simp add: m_def native_image_def)
  have "unat (n - 24) = unat n - 24" using un by (simp add: unat_sub word_le_nat_alt)
  moreover have "unat (type_len h + str_len h) = length (type_sec b) + length (str_image b)"
    using ex'(4) lens by (subst unat_add_small) simp_all
  ultimately show "hdr_accepted h n"
    using ex' un by (simp add: hdr_accepted_def word_le_nat_alt)
  show "drop (24 + unat (type_off h)) m = type_sec b @ str_image b" using ex' by (simp add: m_def native_image_def)
  show d: "drop (24 + unat (str_off h)) m = str_image b" using ex' lens by (simp add: m_def native_image_def)
  have p: "0 < length (str_image b)" using ex'(5) by simp
  then have nz: "str_len h \<noteq> 0" using lens(2) by auto
  have small: "\<not> BTF_MAX_STR_OFFSET < str_len h - 1"
    using ex'(4) lens(2) nz by (simp add: word_less_nat_alt unat_minus_one)
  have at: "arr_get m (24 + unat (str_off h) + i) = Inr (str_image b ! i)" if "i < length (str_image b)" for i
    using that ex' lens by (simp add: arr_get_def m_def native_image_def nth_append)
  have "24 + unat (str_off h) + unat (str_len h) - 1 = 24 + unat (str_off h) + (length (str_image b) - 1)"
    using p lens(2) by simp
  then have "arr_get m (24 + unat (str_off h) + unat (str_len h) - 1) = Inr (last (str_image b))"
    using at [of "length (str_image b) - 1"] p by (simp add: last_conv_nth)
  moreover have "last (str_image b) = 0" using str_image_terminated(2) [OF inv] ex'(5) by simp
  moreover have "arr_get m (24 + unat (str_off h)) = Inr 0" using at [of 0] p ex'(6) by (simp add: hd_conv_nth)
  ultimately show "btf_parse_str_sec False h m (24 + unat (str_off h)) = Inr ()"
    using nz small by (simp add: btf_parse_str_sec_def)
qed

lemma image_parses:
  assumes inv: "instance_inv b" and ex: "exportable b"
  shows "\<exists>b2. btf_new True True (\<lambda>_. True) (native_image b) (24 + type_len (hdr b) + str_len (hdr b)) [] = Inr [b2] \<and>
    same_image b b2 \<and> instance_inv b2 \<and> \<not> swapped_endian b2"
proof -
  let ?h = "hdr b" and ?m = "native_image b" and ?n = "24 + type_len (hdr b) + str_len (hdr b)"
  note parts = native_image_parts [OF assms]
  let ?ty = "24 + unat (type_off ?h)" and ?st = "24 + unat (str_off ?h)"
  have mg: "magic ?h = BTF_MAGIC" "type_off ?h = 0" "str_off ?h = type_len ?h" using ex by (simp_all add: exportable_def)
  have tk: "take (unat ?n) ?m = ?m" using parts(1) by simp
  have hp: "btf_parse_hdr (take (unat ?n) ?m) ?n = Inr (?m, False, ?h)"
    unfolding tk using btf_parse_hdr_native [OF parts(2) mg(1) parts(4)] by (simp add: native_image_def)
  have tw: "types_wf b" using inv by (simp add: instance_inv_def)
  have l: "length (type_sec b) = unat (type_len ?h)" by (rule length_type_sec [OF inv])
  have lay: "layout (types_data b) 0 (type_table b) (unat (type_len ?h))" "unat (type_len ?h) \<le> length (types_data b)"
    using tw by (simp_all add: types_wf_def type_table_def)
  have lm: "layout (drop ?ty ?m) 0 (type_table b) (unat (type_len ?h))"
    unfolding parts(6) by (rule layout_agree [OF lay(1)]) (use lay(2) l in \<open>simp_all add: type_sec_def\<close>)
  have cnt: "unat (0 :: u32) + length (type_table b) \<le> BTF_MAX_NR_TYPES"
    using tw by (simp add: types_wf_def offs_ok_def type_table_def)
  have fit: "?ty + unat (type_len ?h) \<le> length ?m" "unat (type_len ?h) < 2 ^ 32"
    using l unat_u32_le [of "type_len ?h"] by (simp_all add: native_image_def mg)
  obtain offs c nr where p: "btf_parse_types (\<lambda>_. True) False ?ty (unat (type_len ?h)) 0 ?m [] 0 0 = Inr (?m, offs, c, nr)"
    "offs_ok offs c nr" "unat nr = length (type_table b)" "offs_list offs (unat nr) = type_table b"
    using parse_types_complete [OF lm offs_ok_empty cnt fit] by (auto simp: offs_list_def)
  have nr: "nr = nr_types b" using p(3) by (simp add: type_table_def word_unat_eq_iff)
  let ?b2 = "\<lparr>raw_data = Some ?m, raw_data_swapped = None, raw_size = ?n, swapped_endian = False, hdr = ?h,
    hdr_in_raw = True, types_data = drop ?ty ?m, types_data_cap = 0, type_offs = offs, type_offs_cap = c,
    nr_types = nr, start_id = 1, start_str_off = 0, str_sec = Some (drop ?st ?m), strs_set = None,
    strs_deduped = False, fd = -1, ptr_sz = 0\<rparr>"
  have "unat ?n \<le> length ?m" "unat (hdr_len ?h) = 24" "btf_start [] = (1, 0)"
    using parts(1) inv by (simp_all add: instance_inv_def btf_start_def)
  then have new: "btf_new True True (\<lambda>_. True) ?m ?n [] = Inr [?b2]"
    using btf_new_eq [OF _ hp, where base = "[]" and al = "\<lambda>_. True" and sid = 1 and soff = 0] parts(8) p(1) by simp
  have same: "same_image b ?b2"
    using p(4) nr parts(6,7) l str_image_terminated(1) [OF inv]
    by (simp add: same_image_def type_sec_def type_table_def str_image_simps)
  have "types_wf ?b2" using p(2-4) lm l nr by (simp add: types_wf_def parts(6))
  moreover have "strs_wf ?b2"
  proof -
    have "str_image b \<noteq> []" using ex by (simp add: exportable_def)
    then have "str_image b ! (length (str_image b) - 1) = 0"
      using str_image_terminated(2) [OF inv] by (simp add: last_conv_nth)
    then show ?thesis
      using str_image_terminated(1) [OF inv] by (simp add: strs_wf_def btf_strs_data_def parts(7))
  qed
  moreover have "24 \<le> length ?m" by (simp add: native_image_def)
  ultimately have "instance_inv ?b2" using inv by (simp add: instance_inv_def raw_inv_def)
  then show ?thesis using new same by auto
qed

text \<open>
  C38. Writing a BTF that has been changed and parsing what was written gives the same BTF:
  the header, the types, the offset table and the strings.
\<close>

theorem btf_raw_data_round_trip:
  assumes "instance_inv b" "exportable b" "btf_is_modifiable b" "raw_data b = None" "\<not> swapped_endian b"
  shows "\<exists>data n b2. btf__get_raw_data True b = (Inr (data, n), b\<lparr>raw_size := n, raw_data := Some data\<rparr>) \<and>
    btf_new True True (\<lambda>_. True) data n [] = Inr [b2] \<and> same_image b b2 \<and> instance_inv b2"
proof -
  have "\<not> hdr_in_raw b" "24 + length (type_sec b) + length (str_image b) < 2 ^ 31"
    using assms(2,3) by (simp_all add: btf_is_modifiable_def exportable_def)
  then have "btf_get_raw_data True b False = Inr (Some (native_image b, 24 + type_len (hdr b) + str_len (hdr b)))"
    using get_raw_data_native assms(1,4) by blast
  then show ?thesis
    using image_parses [OF assms(1,2)] assms(5) by (auto simp: btf__get_raw_data_def)
qed

section \<open>The other byte order\<close>

lemma swap_one_type:
  assumes r: "read_type m off = Inr t" "btf_type_size t = Inr n" "off + n \<le> length m"
  shows "\<exists>m1. btf_bswap_type_rest m off = Inr m1 \<and>
    btf_bswap_type_base m1 off = Inr (take off m @ swap4 (take n (drop off m)) @ drop (off + n) m)"
proof -
  have n: "12 \<le> n" using btf_type_size_ge [OF r(2)] .
  define X W V R where "X = take off m" and "W = take 12 (drop off m)" and "V = take (n - 12) (drop (off + 12) m)"
    and "R = drop (off + n) m"
  have l: "length X = off" "length W = 12" "length V = n - 12" using n r(3) by (simp_all add: X_def W_def V_def)
  have wv: "take n (drop off m) = W @ V"
    using n take_add [of 12 "n - 12" "drop off m"] by (simp add: W_def V_def add.commute)
  have m: "m = X @ (W @ V) @ R" unfolding wv [symmetric] X_def R_def by (metis append_take_drop_id drop_drop add.commute)
  let ?m1 = "X @ W @ swap4 V @ R"
  have "take (off + 12) m = X @ W" using l by (subst m) simp
  then have "btf_bswap_type_rest m off = Inr ?m1"
    using bswap_rest_eq [OF r] by (simp add: V_def R_def)
  moreover have "btf_bswap_type_base ?m1 off = Inr (X @ swap4 W @ swap4 V @ R)"
    using bswap_base_eq [of off ?m1] l by simp
  moreover have "swap4 W @ swap4 V = swap4 (W @ V)" using l by (simp add: swap4_append)
  ultimately show ?thesis unfolding wv X_def R_def by auto
qed

lemma swap_types_range:
  assumes "layout (drop p m) a xs e" "p + e \<le> length m" "4 dvd a"
    and "\<forall>k < length xs. mem_u32 offs (4 * (i + k)) = Inr (of_nat (xs ! k)) \<and> xs ! k < 2 ^ 32"
  shows "swap_types (swap_range m p (p + a)) p offs i (length xs) = Inr (swap_range m p (p + e))"
  using assms(1,3,4)
proof (induction xs arbitrary: a i)
  case (Cons x xs)
  from Cons.prems(1) obtain t n where l: "x = a" "read_type (drop p m) a = Inr t" "btf_type_size t = Inr n"
    "12 \<le> n" "a + n \<le> e" "layout (drop p m) (a + n) xs e"
    by (elim layout_ConsE)
  let ?c = "swap_range m p (p + a)"
  have pl: "p + a \<le> length m" "p + a + n \<le> length m" using assms(2) l(5) by simp_all
  have lc: "length ?c = length m" using pl by simp
  have dc: "drop (p + a) ?c = drop (p + a) m" "take (p + a) ?c = take p m @ swap4 (take a (drop p m))"
    using pl by (simp_all add: swap_range_def)
  have "read_type ?c (p + a) = read_type (drop (p + a) ?c) 0" using pl lc by (simp add: read_type_drop)
  also have "\<dots> = read_type (drop p m) a" unfolding dc(1) using pl by (simp add: read_type_drop add.commute)
  finally have r: "read_type ?c (p + a) = Inr t" using l(2) by simp
  obtain m1 where m1: "btf_bswap_type_rest ?c (p + a) = Inr m1"
    "btf_bswap_type_base m1 (p + a) = Inr (take (p + a) ?c @ swap4 (take n (drop (p + a) ?c)) @ drop (p + a + n) ?c)"
    using swap_one_type [OF r l(3)] pl lc by auto
  have "drop (p + a + n) ?c = drop n (drop (p + a) ?c)" by (simp add: add.commute)
  also have "\<dots> = drop (p + a + n) m" unfolding dc(1) by (simp add: add.commute)
  finally have d: "drop (p + a + n) ?c = drop (p + a + n) m" .
  have "take (a + n) (drop p m) = take a (drop p m) @ take n (drop (p + a) m)" by (simp add: take_add add.commute)
  moreover have "4 dvd length (take a (drop p m))" using Cons.prems(2) pl by simp
  ultimately have "swap4 (take (a + n) (drop p m)) = swap4 (take a (drop p m)) @ swap4 (take n (drop (p + a) m))"
    by (simp add: swap4_append)
  then have sr: "take (p + a) ?c @ swap4 (take n (drop (p + a) ?c)) @ drop (p + a + n) ?c = swap_range m p (p + (a + n))"
    unfolding dc d by (simp add: swap_range_def add.assoc)
  have o: "mem_u32 offs (4 * i) = Inr (of_nat a)" "unat (of_nat a :: u32) = a"
    using Cons.prems(3) [rule_format, of 0] l(1) by (simp_all add: unat_of_nat_u32)
  have "swap_types (swap_range m p (p + (a + n))) p offs (Suc i) (length xs) = Inr (swap_range m p (p + e))"
  proof (rule Cons.IH [OF l(6)])
    show "4 dvd a + n" using Cons.prems(2) type_size_dvd [OF l(3)] by simp
    show "\<forall>k < length xs. mem_u32 offs (4 * (Suc i + k)) = Inr (of_nat (xs ! k)) \<and> xs ! k < 2 ^ 32"
    proof (intro allI impI)
      fix k assume "k < length xs"
      then show "mem_u32 offs (4 * (Suc i + k)) = Inr (of_nat (xs ! k)) \<and> xs ! k < 2 ^ 32"
        using Cons.prems(3) [rule_format, of "Suc k"] by simp
    qed
  qed
  then show ?case using o m1 sr by simp
qed simp

lemma get_raw_data_foreign:
  assumes inv: "instance_inv b" and sp: "\<not> hdr_in_raw b" and none: "raw_data_swapped b = None" and ex: "exportable b"
  shows "btf_get_raw_data True b True =
    Inr (Some (foreign_image (hdr b) (native_image b), 24 + type_len (hdr b) + str_len (hdr b)))"
proof -
  have small: "24 + length (type_sec b) + length (str_image b) < 2 ^ 31" and t0: "type_off (hdr b) = 0"
    using ex by (simp_all add: exportable_def)
  note sz = image_sizes [OF inv small] and rd = split_reads [OF inv sp]
  obtain s where s: "btf_strs_data b = Inr s" "mem_read s 0 (unat (str_len (hdr b))) = Inr (str_image b)"
    using rd(3) by blast
  let ?h = "hdr b" and ?t = "length (type_sec b)" and ?s = "length (str_image b)"
  let ?fh = "hdr_bytes (btf_bswap_hdr ?h)"
  have h: "hdr_len ?h = 24" "hdr_ext ?h = []" using inv by (simp_all add: instance_inv_def)
  then have h': "?h\<lparr>hdr_ext := []\<rparr> = ?h" by simp
  have tw: "types_wf b" using inv by (simp add: instance_inv_def)
  let ?m = "?fh @ type_sec b @ replicate ?s 0"
  have lay: "layout (types_data b) 0 (type_table b) ?t" "?t \<le> length (types_data b)"
    using tw sz(2) by (simp_all add: types_wf_def type_table_def)
  have "layout (drop 24 ?m) 0 (type_table b) ?t"
    by (rule layout_agree [OF lay(1)]) (use lay(2) sz(2) in \<open>simp_all add: type_sec_def\<close>)
  moreover have "\<forall>k < length (type_table b). mem_u32 (type_offs b) (4 * (0 + k)) = Inr (of_nat (type_table b ! k)) \<and>
      type_table b ! k < 2 ^ 32"
  proof (intro allI impI)
    fix k assume k: "k < length (type_table b)"
    then have "4 * k + 4 \<le> length (type_offs b)" using tw by (simp add: types_wf_def offs_ok_def type_table_def)
    moreover have "off_at (type_offs b) k < 2 ^ 32"
      unfolding off_at_def by (rule le_less_trans [OF unat_u32_le]) simp
    ultimately show "mem_u32 (type_offs b) (4 * (0 + k)) = Inr (of_nat (type_table b ! k)) \<and> type_table b ! k < 2 ^ 32"
      using k off_at_mem_u32 by (simp add: type_table_def)
  qed
  ultimately have "swap_types (swap_range ?m 24 (24 + 0)) 24 (type_offs b) 0 (length (type_table b)) =
      Inr (swap_range ?m 24 (24 + ?t))"
    by (intro swap_types_range) simp_all
  moreover have "swap_range ?m 24 (24 + ?t) = ?fh @ swap4 (type_sec b) @ replicate ?s 0" by (simp add: swap_range_def)
  moreover have "length (type_table b) = unat (nr_types b)" by (simp add: type_table_def)
  ultimately have sw: "swap_types ?m 24 (type_offs b) 0 (unat (nr_types b)) = Inr (?fh @ swap4 (type_sec b) @ replicate ?s 0)"
    by simp
  have "mem_read (hdr_bytes ?h) 0 24 = Inr (hdr_bytes ?h)" by (simp add: mem_read_def)
  moreover have "mem_write (replicate (24 + ?t + ?s) 0) 0 (hdr_bytes ?h) = Inr (hdr_bytes ?h @ replicate (?t + ?s) 0)"
    using mem_write_next [of "[]" 0 "hdr_bytes ?h" "24 + ?t + ?s" 0] by simp
  moreover have "read_hdr (hdr_bytes ?h @ replicate (?t + ?s) 0) = Inr ?h" using h' by (simp add: read_hdr_bytes)
  moreover have "mem_write (hdr_bytes ?h @ replicate (?t + ?s) 0) 0 ?fh = Inr (?fh @ replicate (?t + ?s) 0)"
    by (simp add: mem_write_def)
  moreover have "mem_write (?fh @ replicate (?t + ?s) 0) 24 (type_sec b) = Inr ?m"
    using mem_write_next [of ?fh 24 "type_sec b" "?t + ?s" 0] by simp
  moreover have "mem_write (?fh @ swap4 (type_sec b) @ replicate ?s 0) (24 + ?t) (str_image b) =
      Inr (?fh @ swap4 (type_sec b) @ str_image b)"
    using mem_write_next [of "?fh @ swap4 (type_sec b)" "24 + ?t" "str_image b" ?s 0] by simp
  moreover have "unat (24 + type_len ?h + str_len ?h) = 24 + ?t + ?s" using sz(1) by (simp add: native_image_def)
  moreover have "foreign_image ?h (native_image b) = ?fh @ swap4 (type_sec b) @ str_image b"
    using t0 sz(2) by (simp add: foreign_image_def swap_range_def native_image_def)
  ultimately show ?thesis
    using none rd(1,2) s sz(2) sw by (simp add: btf_get_raw_data_def h(1) Let_def)
qed

lemma mark_swapped:
  "type_sec (b\<lparr>swapped_endian := s\<rparr>) = type_sec b" "type_table (b\<lparr>swapped_endian := s\<rparr>) = type_table b"
  "str_image (b\<lparr>swapped_endian := s\<rparr>) = str_image b"
proof -
  show "type_sec (b\<lparr>swapped_endian := s\<rparr>) = type_sec b" "type_table (b\<lparr>swapped_endian := s\<rparr>) = type_table b"
    by (simp_all add: type_sec_def type_table_def)
  have "btf_strs_data (b\<lparr>swapped_endian := s\<rparr>) = btf_strs_data b"
    by (simp add: btf_strs_data_def cong: option.case_cong)
  then show "str_image (b\<lparr>swapped_endian := s\<rparr>) = str_image b" by (simp add: str_image_def cong: sum.case_cong)
qed

text \<open>
  C39. An instance marked as swapped is written out in the other byte order, and parsing that
  data gives the same BTF again, marked as swapped.
\<close>

theorem btf_raw_data_foreign_round_trip:
  assumes "instance_inv b" "exportable b" "btf_is_modifiable b" "raw_data_swapped b = None" "swapped_endian b"
  shows "\<exists>data n b2. btf__get_raw_data True b = (Inr (data, n), b\<lparr>raw_size := n, raw_data_swapped := Some data\<rparr>) \<and>
    data = foreign_image (hdr b) (native_image b) \<and>
    btf_new True True (\<lambda>_. True) data n [] = Inr [b2] \<and> same_image b b2 \<and> swapped_endian b2"
proof -
  let ?n = "24 + type_len (hdr b) + str_len (hdr b)"
  have "btf_get_raw_data True b True = Inr (Some (foreign_image (hdr b) (native_image b), ?n))"
    using get_raw_data_foreign assms by (simp add: btf_is_modifiable_def)
  then have w: "btf__get_raw_data True b = (Inr (foreign_image (hdr b) (native_image b), ?n),
      b\<lparr>raw_size := ?n, raw_data_swapped := Some (foreign_image (hdr b) (native_image b))\<rparr>)"
    using assms(5) by (simp add: btf__get_raw_data_def)
  note parts = native_image_parts [OF assms(1,2)]
  obtain b2 where b2: "btf_new True True (\<lambda>_. True) (native_image b) ?n [] = Inr [b2]" "same_image b b2" "\<not> swapped_endian b2"
    using image_parses [OF assms(1,2)] by blast
  have "btf_new True True (\<lambda>_. True) (foreign_image (hdr b) (native_image b)) ?n [] = Inr [b2\<lparr>swapped_endian := True\<rparr>]"
    by (rule btf_new_foreign_result [OF parts(5,3) parts(1) [symmetric] b2(1,3)])
  moreover have "same_image b (b2\<lparr>swapped_endian := True\<rparr>)"
    using b2(2) by (simp add: same_image_def mark_swapped)
  ultimately show ?thesis using w by auto
qed

section \<open>Witnesses\<close>

lemma struct_inst_fields:
  "btf_is_modifiable struct_inst" "raw_data struct_inst = None" "raw_data_swapped struct_inst = None"
  "\<not> swapped_endian struct_inst" "magic (hdr struct_inst) = BTF_MAGIC" "type_off (hdr struct_inst) = 0"
  "str_off (hdr struct_inst) = type_len (hdr struct_inst)"
proof -
  let ?fields = "\<lambda>b. btf_is_modifiable b \<and> raw_data b = None \<and> raw_data_swapped b = None \<and>
   \<not> swapped_endian b \<and> magic (hdr b) = BTF_MAGIC \<and> type_off (hdr b) = 0 \<and> str_off (hdr b) = type_len (hdr b)"
  have "case add_decl (\<lambda>_. ok_alloc) (Decl_struct None 4) [empty_inst] of
      (r, b # bs) \<Rightarrow> ?fields b | (r, []) \<Rightarrow> False"
    by code_simp
  then have "?fields struct_inst"
    unfolding struct_inst_def by (auto split: prod.splits list.splits simp del: add_decl.simps)
  then show "btf_is_modifiable struct_inst" "raw_data struct_inst = None" "raw_data_swapped struct_inst = None"
    "\<not> swapped_endian struct_inst" "magic (hdr struct_inst) = BTF_MAGIC" "type_off (hdr struct_inst) = 0"
    "str_off (hdr struct_inst) = type_len (hdr struct_inst)"
    by blast+
qed

lemma struct_inst_exportable: "exportable struct_inst"
proof -
  have "str_image struct_inst = [0]" "length (type_sec struct_inst) = 12"
    using struct_inst_inv(2) empty_inst_inv anon_ok by (auto simp: type_appended_def name_added_def)
  then show ?thesis using struct_inst_fields by (simp add: exportable_def)
qed

theorem btf_raw_data_round_trip_witness:
  "\<exists>data n b b2. btf__get_raw_data True struct_inst = (Inr (data, n), b) \<and>
     btf_new True True (\<lambda>_. True) data n [] = Inr [b2] \<and> same_image struct_inst b2"
  using btf_raw_data_round_trip [OF struct_inst_inv(1) struct_inst_exportable] struct_inst_fields by blast

theorem btf_raw_data_foreign_round_trip_witness:
  "\<exists>data n b b2. btf__get_raw_data True (struct_inst\<lparr>swapped_endian := True\<rparr>) = (Inr (data, n), b) \<and>
     data \<noteq> native_image struct_inst \<and> btf_new True True (\<lambda>_. True) data n [] = Inr [b2] \<and> swapped_endian b2"
proof -
  let ?b = "struct_inst\<lparr>swapped_endian := True\<rparr>"
  have inv: "instance_inv ?b"
    using struct_inst_inv(1)
    by (simp add: instance_inv_def types_wf_def raw_inv_def split_inv_def strs_wf_def btf_strs_data_def
        cong: if_cong option.case_cong sum.case_cong)
  have ex: "exportable ?b" using struct_inst_exportable by (simp add: exportable_def mark_swapped)
  have "foreign_image (hdr ?b) (native_image ?b) \<noteq> native_image struct_inst"
  proof
    assume "foreign_image (hdr ?b) (native_image ?b) = native_image struct_inst"
    then have "take 24 (foreign_image (hdr ?b) (native_image ?b)) = take 24 (native_image struct_inst)" by (rule arg_cong)
    then have "hdr_bytes (btf_bswap_hdr (hdr struct_inst)) = hdr_bytes (hdr struct_inst)"
      by (simp add: foreign_image_def native_image_def Let_def)
    then have "take 2 (hdr_bytes (btf_bswap_hdr (hdr struct_inst))) = take 2 (hdr_bytes (hdr struct_inst))" by (rule arg_cong)
    then have "bswap_16 (magic (hdr struct_inst)) = magic (hdr struct_inst)"
      by (simp add: hdr_bytes_def btf_bswap_hdr_def) (metis word_le_bytes(2))
    then show False using struct_inst_fields bswap_magic(2) by simp
  qed
  moreover have "btf_is_modifiable ?b" "raw_data_swapped ?b = None" "swapped_endian ?b"
    using struct_inst_fields by (simp_all add: btf_is_modifiable_def)
  ultimately show ?thesis
    using btf_raw_data_foreign_round_trip [OF inv ex] by metis
qed

end
