(* ===== verification/Btf_Ext.thy ===== *)
theory Btf_Ext
  imports Btf_Access
begin

text \<open>
  The \<^verbatim>\<open>.BTF.ext\<close> section of an object file, from \<^verbatim>\<open>src/bpftools/libbpf/src/btf.c\<close> and
  \<^verbatim>\<open>libbpf_internal.h\<close> beside it: its header, the check of its three segments (function infos,
  line infos and relocations, each of them records by section of the program), the loop that
  collects the records of one section, and the visitors.

  A pointer into the data is its position; the null pointer of a segment that is not there is
  a segment of length 0.
\<close>

section \<open>The segments\<close>

record btf_ext_info =
  seg_pos :: nat
  rec_size :: u32
  seg_len :: u32

record btf_ext =
  ext_data :: bytes
  func_info :: btf_ext_info
  line_info :: btf_ext_info
  core_relo_info :: btf_ext_info
  ext_data_size :: u32

abbreviation "SEC_HDR_SZ \<equiv> 8"
abbreviation "BPF_FUNC_INFO_MIN_SZ \<equiv> (8 :: u32)"
abbreviation "BPF_LINE_INFO_MIN_SZ \<equiv> (16 :: u32)"
abbreviation "BPF_CORE_RELO_SZ \<equiv> (16 :: u32)"

section \<open>Parsing\<close>

text \<open>
  The loop over the sections of a segment. The size of a section is a 64-bit sum and cannot
  wrap around.
\<close>

function check_sections :: "bytes \<Rightarrow> u32 \<Rightarrow> nat \<Rightarrow> nat \<Rightarrow> unit cres" where
  "check_sections m record_size sinfo info_left =
     (if info_left = 0 then Inr ()
      else if info_left < SEC_HDR_SZ then Inl (Err EINVAL)
      else
        res_bind (mem_u32 m (sinfo + 4)) (\<lambda>num_records.
          if num_records = 0 then Inl (Err EINVAL)
          else
            let total_record_size = SEC_HDR_SZ + unat num_records * unat record_size
            in if info_left < total_record_size then Inl (Err EINVAL)
               else check_sections m record_size (sinfo + total_record_size) (info_left - total_record_size)))"
  by pat_completeness auto

termination
  by (relation "measure (\<lambda>(m, r, s, n). n)") auto

declare check_sections.simps [simp del]

definition btf_ext_setup_info :: "btf_ext \<Rightarrow> u32 \<Rightarrow> u32 \<Rightarrow> u32 \<Rightarrow> btf_ext_info \<Rightarrow> btf_ext_info cres" where
  "btf_ext_setup_info ext off len min_rec_size ext_info =
     (if len = 0 then Inr ext_info
      else if off AND 3 \<noteq> 0 then Inl (Err EINVAL)
      else
        res_bind (mem_u32 (ext_data ext) 4) (\<lambda>hdr_len.
          let info = unat hdr_len + unat off
          in if unat (ext_data_size ext) < info + unat len then Inl (Err EINVAL)
             else if len < 4 then Inl (Err EINVAL)
             else
               res_bind (mem_u32 (ext_data ext) info) (\<lambda>record_size.
                 if record_size < min_rec_size \<or> record_size AND 3 \<noteq> 0 then Inl (Err EINVAL)
                 else if len - 4 = 0 then Inl (Err EINVAL)
                 else
                   res_bind (check_sections (ext_data ext) record_size (info + 4) (unat (len - 4))) (\<lambda>_.
                     Inr \<lparr>seg_pos = info + 4, rec_size = record_size, seg_len = len - 4\<rparr>))))"

definition btf_ext_setup_func_info :: "btf_ext \<Rightarrow> btf_ext cres" where
  "btf_ext_setup_func_info ext =
     res_bind (mem_u32 (ext_data ext) 8) (\<lambda>off.
     res_bind (mem_u32 (ext_data ext) 12) (\<lambda>len.
     res_bind (btf_ext_setup_info ext off len BPF_FUNC_INFO_MIN_SZ (func_info ext)) (\<lambda>i.
       Inr (ext\<lparr>func_info := i\<rparr>))))"

definition btf_ext_setup_line_info :: "btf_ext \<Rightarrow> btf_ext cres" where
  "btf_ext_setup_line_info ext =
     res_bind (mem_u32 (ext_data ext) 16) (\<lambda>off.
     res_bind (mem_u32 (ext_data ext) 20) (\<lambda>len.
     res_bind (btf_ext_setup_info ext off len BPF_LINE_INFO_MIN_SZ (line_info ext)) (\<lambda>i.
       Inr (ext\<lparr>line_info := i\<rparr>))))"

definition btf_ext_setup_core_relos :: "btf_ext \<Rightarrow> btf_ext cres" where
  "btf_ext_setup_core_relos ext =
     res_bind (mem_u32 (ext_data ext) 24) (\<lambda>off.
     res_bind (mem_u32 (ext_data ext) 28) (\<lambda>len.
     res_bind (btf_ext_setup_info ext off len BPF_CORE_RELO_SZ (core_relo_info ext)) (\<lambda>i.
       Inr (ext\<lparr>core_relo_info := i\<rparr>))))"

definition btf_ext_parse_hdr :: "bytes \<Rightarrow> u32 \<Rightarrow> unit cres" where
  "btf_ext_parse_hdr data data_size =
     (if data_size < 8 then Inl (Err EINVAL)
      else
        res_bind (mem_u32 data 4) (\<lambda>hdr_len.
          if data_size < hdr_len then Inl (Err EINVAL)
          else
            res_bind (mem_u16 data 0) (\<lambda>magic.
              if magic = bswap_16 BTF_MAGIC then Inl (Err ENOTSUP)
              else if magic \<noteq> BTF_MAGIC then Inl (Err EINVAL)
              else
                res_bind (arr_get data 2) (\<lambda>version.
                  if version \<noteq> BTF_VERSION then Inl (Err ENOTSUP)
                  else
                    res_bind (arr_get data 3) (\<lambda>flags.
                      if flags \<noteq> 0 then Inl (Err ENOTSUP)
                      else if data_size = hdr_len then Inl (Err EINVAL)
                      else Inr ())))))"

definition no_segment :: btf_ext_info where
  "no_segment = \<lparr>seg_pos = 0, rec_size = 0, seg_len = 0\<rparr>"

definition btf_ext__new :: "bool \<Rightarrow> bool \<Rightarrow> bytes \<Rightarrow> u32 \<Rightarrow> btf_ext cres" where
  "btf_ext__new calloc_ok malloc_ok data data_size =
     res_bind (btf_ext_parse_hdr data data_size) (\<lambda>_.
       if \<not> calloc_ok \<or> \<not> malloc_ok then Inl (Err ENOMEM)
       else
         res_bind (mem_read data 0 (unat data_size)) (\<lambda>m.
           let ext = \<lparr>ext_data = m, func_info = no_segment, line_info = no_segment,
                      core_relo_info = no_segment, ext_data_size = data_size\<rparr>
           in res_bind (mem_u32 m 4) (\<lambda>hdr_len.
                if hdr_len < 24 then Inl (Err EINVAL)
                else
                  res_bind (btf_ext_setup_func_info ext) (\<lambda>ext.
                  res_bind (btf_ext_setup_line_info ext) (\<lambda>ext.
                    if hdr_len < 32 then Inl (Err EINVAL)
                    else btf_ext_setup_core_relos ext)))))"

definition btf_ext__get_raw_data :: "btf_ext \<Rightarrow> bytes \<times> u32" where
  "btf_ext__get_raw_data ext = (ext_data ext, ext_data_size ext)"

section \<open>Collecting the records of a section\<close>

text \<open>The loop that adjusts the instruction offset of the \<open>i\<close>-th record and those behind it.\<close>

primrec adjust_records :: "bytes \<Rightarrow> u32 \<Rightarrow> u32 \<Rightarrow> u32 \<Rightarrow> nat \<Rightarrow> nat \<Rightarrow> bytes cres" where
  "adjust_records data existing_len record_size insns_cnt i 0 = Inr data"
| "adjust_records data existing_len record_size insns_cnt i (Suc n) =
     (let p = unat existing_len + unat (of_nat i * record_size :: u32)
      in res_bind (mem_u32 data p) (\<lambda>insn_off.
         res_bind (mem_set_u32 data p (insn_off div 8 + insns_cnt)) (\<lambda>data.
           adjust_records data existing_len record_size insns_cnt (Suc i) n)))"

text \<open>
  The loop over the sections. \<open>remain_len\<close> is a 64-bit value and the sizes are 32-bit ones, so
  on a segment that \<open>btf_ext_setup_info\<close> has not checked it may run for ever, and \<open>None\<close> is a
  run that does. A null name is a fault, as \<open>strcmp\<close> reads it. \<open>buf\<close> and \<open>cnt\<close> are the
  caller's buffer and the number of records in it; bytes that \<open>realloc\<close> leaves open are zero.
\<close>

partial_function (option) reloc_loop ::
  "bool \<Rightarrow> btf \<Rightarrow> bytes \<Rightarrow> u32 \<Rightarrow> bytes \<Rightarrow> u32 \<Rightarrow> bytes \<Rightarrow> u32 \<Rightarrow> nat \<Rightarrow> u64 \<Rightarrow> (bytes \<times> u32) cres option" where
  "reloc_loop realloc_ok btf m record_size sec_name insns_cnt buf cnt sinfo remain_len =
     (if remain_len = 0 then Some (Inl (Err ENOENT))
      else
        case res_bind (mem_u32 m (sinfo + 4)) (\<lambda>num_info.
             res_bind (mem_u32 m sinfo) (\<lambda>sec_name_off.
             res_bind (btf__name_by_offset btf sec_name_off) (\<lambda>info_sec_name.
             case info_sec_name of
               None \<Rightarrow> Inl Fault
             | Some p \<Rightarrow> res_bind (c_streq p sec_name) (\<lambda>eq. Inr (num_info, eq))))) of
          Inl e \<Rightarrow> Some (Inl e)
        | Inr (num_info, eq) \<Rightarrow>
            let records_len = num_info * record_size
            in if \<not> eq
               then
                 reloc_loop realloc_ok btf m record_size sec_name insns_cnt buf cnt
                   (sinfo + (8 + unat records_len)) (remain_len - ucast (8 + records_len))
               else if \<not> realloc_ok then Some (Inl (Err ENOMEM))
               else
                 let existing_len = cnt * record_size;
                     n = unat (existing_len + records_len);
                     data = take n buf @ replicate (n - length buf) 0
                 in Some (res_bind (mem_read m (sinfo + 8) (unat records_len)) (\<lambda>recs.
                          res_bind (mem_write data (unat existing_len) recs) (\<lambda>data.
                          res_bind (adjust_records data existing_len record_size insns_cnt 0 (unat num_info)) (\<lambda>data.
                            Inr (data, cnt + num_info))))))"

definition btf_ext_reloc_info ::
  "bool \<Rightarrow> btf \<Rightarrow> bytes \<Rightarrow> btf_ext_info \<Rightarrow> bytes \<Rightarrow> u32 \<Rightarrow> bytes \<Rightarrow> u32 \<Rightarrow> (bytes \<times> u32) cres option" where
  "btf_ext_reloc_info realloc_ok btf m ext_info sec_name insns_cnt buf cnt =
     reloc_loop realloc_ok btf m (rec_size ext_info) sec_name insns_cnt buf cnt
       (seg_pos ext_info) (ucast (seg_len ext_info))"

definition btf_ext__reloc_func_info ::
  "bool \<Rightarrow> btf \<Rightarrow> btf_ext \<Rightarrow> bytes \<Rightarrow> u32 \<Rightarrow> bytes \<Rightarrow> u32 \<Rightarrow> (bytes \<times> u32) cres option" where
  "btf_ext__reloc_func_info realloc_ok btf ext sec_name insns_cnt buf cnt =
     btf_ext_reloc_info realloc_ok btf (ext_data ext) (func_info ext) sec_name insns_cnt buf cnt"

definition btf_ext__reloc_line_info ::
  "bool \<Rightarrow> btf \<Rightarrow> btf_ext \<Rightarrow> bytes \<Rightarrow> u32 \<Rightarrow> bytes \<Rightarrow> u32 \<Rightarrow> (bytes \<times> u32) cres option" where
  "btf_ext__reloc_line_info realloc_ok btf ext sec_name insns_cnt buf cnt =
     btf_ext_reloc_info realloc_ok btf (ext_data ext) (line_info ext) sec_name insns_cnt buf cnt"

definition btf_ext__func_info_rec_size :: "btf_ext \<Rightarrow> u32" where
  "btf_ext__func_info_rec_size ext = rec_size (func_info ext)"

definition btf_ext__line_info_rec_size :: "btf_ext \<Rightarrow> u32" where
  "btf_ext__line_info_rec_size ext = rec_size (line_info ext)"

section \<open>Visitors\<close>

text \<open>
  A visitor gets a word of the data and its context, and returns its result, the word it
  leaves and its context. \<open>stop\<close> says which results end the visit, and \<open>None\<close> is a visit that
  has not been ended. The words of a record are visited at their offsets.
\<close>

type_synonym 's visitor = "u32 \<Rightarrow> 's \<Rightarrow> int \<times> u32 \<times> 's"

primrec visit_fields ::
  "'s visitor \<Rightarrow> (int \<Rightarrow> bool) \<Rightarrow> nat \<Rightarrow> nat list \<Rightarrow> bytes \<Rightarrow> 's \<Rightarrow> (int option \<times> bytes \<times> 's) cres" where
  "visit_fields visit stop p [] m ctx = Inr (None, m, ctx)"
| "visit_fields visit stop p (f # fs) m ctx =
     res_bind (mem_u32 m (p + f)) (\<lambda>w.
       let (err, w', ctx) = visit w ctx
       in res_bind (mem_set_u32 m (p + f) w') (\<lambda>m.
            if stop err then Inr (Some err, m, ctx) else visit_fields visit stop p fs m ctx))"

primrec visit_recs ::
  "'s visitor \<Rightarrow> (int \<Rightarrow> bool) \<Rightarrow> nat list \<Rightarrow> u32 \<Rightarrow> nat \<Rightarrow> nat \<Rightarrow> bytes \<Rightarrow> 's \<Rightarrow>
   (int option \<times> bytes \<times> 's) cres" where
  "visit_recs visit stop fs r p 0 m ctx = Inr (None, m, ctx)"
| "visit_recs visit stop fs r p (Suc n) m ctx =
     res_bind (visit_fields visit stop p fs m ctx) (\<lambda>(err, m, ctx).
       if err \<noteq> None then Inr (err, m, ctx) else visit_recs visit stop fs r (p + unat r) n m ctx)"

text \<open>
  The sections of a segment, with the fields of their headers and of their records. The step
  is a 32-bit sum, so the loop may run for ever on a segment that has not been checked.
\<close>

partial_function (option) visit_secs ::
  "'s visitor \<Rightarrow> (int \<Rightarrow> bool) \<Rightarrow> nat list \<Rightarrow> nat list \<Rightarrow> u32 \<Rightarrow> nat \<Rightarrow> nat \<Rightarrow> bytes \<Rightarrow> 's \<Rightarrow>
   (int option \<times> bytes \<times> 's) cres option" where
  "visit_secs visit stop hs fs r sec seg_end m ctx =
     (if sec < seg_end
      then
        case res_bind (visit_fields visit stop sec hs m ctx) (\<lambda>(err, m, ctx).
               if err \<noteq> None then Inr (err, m, ctx)
               else res_bind (mem_u32 m (sec + 4)) (\<lambda>n. visit_recs visit stop fs r (sec + 8) (unat n) m ctx)) of
          Inl e \<Rightarrow> Some (Inl e)
        | Inr (Some err, m, ctx) \<Rightarrow> Some (Inr (Some err, m, ctx))
        | Inr (None, m, ctx) \<Rightarrow>
            (case mem_u32 m (sec + 4) of
               Inl e \<Rightarrow> Some (Inl e)
             | Inr n \<Rightarrow> visit_secs visit stop hs fs r (sec + (8 + unat (r * n))) seg_end m ctx)
      else Some (Inr (None, m, ctx)))"

definition visit_segment ::
  "'s visitor \<Rightarrow> (int \<Rightarrow> bool) \<Rightarrow> nat list \<Rightarrow> nat list \<Rightarrow> btf_ext_info \<Rightarrow> bytes \<Rightarrow> 's \<Rightarrow>
   (int option \<times> bytes \<times> 's) cres option" where
  "visit_segment visit stop hs fs seg m ctx =
     visit_secs visit stop hs fs (rec_size seg) (seg_pos seg) (seg_pos seg + unat (seg_len seg)) m ctx"

text \<open>One segment after the other, until a result ends the visit.\<close>

primrec visit_segments ::
  "'s visitor \<Rightarrow> (int \<Rightarrow> bool) \<Rightarrow> (nat list \<times> nat list \<times> btf_ext_info) list \<Rightarrow> bytes \<Rightarrow> 's \<Rightarrow>
   (int \<times> bytes \<times> 's) cres option" where
  "visit_segments visit stop [] m ctx = Some (Inr (0, m, ctx))"
| "visit_segments visit stop (s # ss) m ctx =
     (case s of (hs, fs, seg) \<Rightarrow>
        case visit_segment visit stop hs fs seg m ctx of
          None \<Rightarrow> None
        | Some (Inl e) \<Rightarrow> Some (Inl e)
        | Some (Inr (Some err, m, ctx)) \<Rightarrow> Some (Inr (err, m, ctx))
        | Some (Inr (None, m, ctx)) \<Rightarrow> visit_segments visit stop ss m ctx)"

definition btf_ext_visit_type_ids :: "'s visitor \<Rightarrow> btf_ext \<Rightarrow> 's \<Rightarrow> (int \<times> bytes \<times> 's) cres option" where
  "btf_ext_visit_type_ids visit ext ctx =
     visit_segments visit (\<lambda>err. err < 0) [([], [4], func_info ext), ([], [4], core_relo_info ext)]
       (ext_data ext) ctx"

definition btf_ext_visit_str_offs :: "'s visitor \<Rightarrow> btf_ext \<Rightarrow> 's \<Rightarrow> (int \<times> bytes \<times> 's) cres option" where
  "btf_ext_visit_str_offs visit ext ctx =
     visit_segments visit (\<lambda>err. err \<noteq> 0)
       [([0], [], func_info ext), ([0], [4, 8], line_info ext), ([0], [8], core_relo_info ext)]
       (ext_data ext) ctx"

section \<open>Well-formed segments\<close>

text \<open>The sections of a segment from one position to another: name and number of records.\<close>

fun sections :: "bytes \<Rightarrow> u32 \<Rightarrow> nat \<Rightarrow> (u32 \<times> u32) list \<Rightarrow> nat \<Rightarrow> bool" where
  "sections m r a [] e \<longleftrightarrow> a = e"
| "sections m r a ((name, num) # secs) e \<longleftrightarrow>
     mem_u32 m a = Inr name \<and> mem_u32 m (a + 4) = Inr num \<and> num \<noteq> 0 \<and>
     sections m r (a + (8 + unat num * unat r)) secs e"

lemma sections_le: "sections m r a secs e \<Longrightarrow> a \<le> e"
  by (induction secs arbitrary: a) fastforce+

definition seg_wf :: "bytes \<Rightarrow> u32 \<Rightarrow> btf_ext_info \<Rightarrow> bool" where
  "seg_wf m min_rec_size seg \<longleftrightarrow> seg_len seg = 0 \<or>
     (min_rec_size \<le> rec_size seg \<and> rec_size seg AND 3 = 0 \<and>
      seg_pos seg + unat (seg_len seg) \<le> length m \<and>
      (\<exists>secs. secs \<noteq> [] \<and>
         sections m (rec_size seg) (seg_pos seg) secs (seg_pos seg + unat (seg_len seg))))"

definition ext_wf :: "btf_ext \<Rightarrow> bool" where
  "ext_wf ext \<longleftrightarrow> length (ext_data ext) = unat (ext_data_size ext) \<and>
     seg_wf (ext_data ext) BPF_FUNC_INFO_MIN_SZ (func_info ext) \<and> seg_wf (ext_data ext) BPF_LINE_INFO_MIN_SZ (line_info ext) \<and>
     seg_wf (ext_data ext) BPF_CORE_RELO_SZ (core_relo_info ext)"

lemma check_sections_result:
  assumes "sinfo + info_left \<le> length m"
  shows "case check_sections m r sinfo info_left of
      Inl e \<Rightarrow> e = Err EINVAL
    | Inr _ \<Rightarrow> \<exists>secs. sections m r sinfo secs (sinfo + info_left)"
  using assms
proof (induction info_left arbitrary: sinfo rule: less_induct)
  case (less info_left)
  note unfold = check_sections.simps [of m r sinfo info_left]
  show ?case
  proof (cases "info_left < 8")
    case True
    then show ?thesis by (auto simp: unfold intro: exI [of _ "[]"])
  next
    case False
    obtain name num where n: "mem_u32 m sinfo = Inr name" "mem_u32 m (sinfo + 4) = Inr num"
      using mem_u32_ok [of sinfo m] mem_u32_ok [of "sinfo + 4" m] False less.prems by auto
    let ?t = "8 + unat num * unat r"
    show ?thesis
    proof (cases "num = 0 \<or> info_left < ?t")
      case True
      then show ?thesis using False n by (auto simp: unfold)
    next
      case ok: False
      have e: "check_sections m r sinfo info_left = check_sections m r (sinfo + ?t) (info_left - ?t)"
        using False n ok by (simp add: unfold Let_def)
      have s: "sinfo + ?t + (info_left - ?t) = sinfo + info_left" using ok by simp
      have IH: "case check_sections m r (sinfo + ?t) (info_left - ?t) of
          Inl e \<Rightarrow> e = Err EINVAL
        | Inr _ \<Rightarrow> \<exists>secs. sections m r (sinfo + ?t) secs (sinfo + info_left)"
        using less.IH [of "info_left - ?t" "sinfo + ?t"] ok False less.prems unfolding s by simp
      have "\<exists>secs. sections m r sinfo secs (sinfo + info_left)"
        if "sections m r (sinfo + ?t) secs (sinfo + info_left)" for secs
        using that n ok by (intro exI [of _ "(name, num) # secs"]) simp
      then show ?thesis using IH unfolding e by (auto split: sum.splits)
    qed
  qed
qed

lemma setup_info_result:
  assumes len: "length (ext_data ext) = unat (ext_data_size ext)" "8 \<le> length (ext_data ext)"
    and seg: "seg_len seg = 0"
  shows "case btf_ext_setup_info ext off len mn seg of
      Inl e \<Rightarrow> e = Err EINVAL
    | Inr seg' \<Rightarrow> seg_wf (ext_data ext) mn seg'"
proof (cases "len = 0 \<or> off AND 3 \<noteq> 0")
  case True
  then show ?thesis using seg by (auto simp: btf_ext_setup_info_def seg_wf_def)
next
  case False
  let ?m = "ext_data ext"
  obtain hl where hl: "mem_u32 ?m 4 = Inr hl" using mem_u32_ok [of 4 ?m] len(2) by auto
  let ?i = "unat hl + unat off"
  show ?thesis
  proof (cases "unat (ext_data_size ext) < ?i + unat len \<or> len < 4")
    case True
    then show ?thesis using False hl by (auto simp: btf_ext_setup_info_def Let_def)
  next
    case ok: False
    then have l4: "4 \<le> unat len" by (simp add: word_less_nat_alt)
    then obtain r where r: "mem_u32 ?m ?i = Inr r" using mem_u32_ok [of ?i ?m] ok len(1) by auto
    have ul: "unat (len - 4) = unat len - 4" using l4 by (simp add: unat_sub word_le_nat_alt)
    show ?thesis
    proof (cases "r < mn \<or> r AND 3 \<noteq> 0 \<or> len - 4 = 0")
      case True
      then show ?thesis using False hl ok r by (auto simp: btf_ext_setup_info_def Let_def)
    next
      case good: False
      let ?c = "check_sections ?m r (?i + 4) (unat (len - 4))"
      have fits: "?i + 4 + unat (len - 4) \<le> length ?m" using ul l4 ok len(1) by simp
      have e: "btf_ext_setup_info ext off len mn seg =
          res_bind ?c (\<lambda>_. Inr \<lparr>seg_pos = ?i + 4, rec_size = r, seg_len = len - 4\<rparr>)"
        using False hl ok r good by (simp add: btf_ext_setup_info_def Let_def)
      show ?thesis
      proof (cases ?c)
        case (Inl x)
        then show ?thesis using check_sections_result [OF fits, of r] e by simp
      next
        case (Inr u)
        then obtain secs where s: "sections ?m r (?i + 4) secs (?i + 4 + unat (len - 4))"
          using check_sections_result [OF fits, of r] by auto
        have "0 < unat (len - 4)" using good by (simp add: unat_gt_0)
        then have "secs \<noteq> []" using s by auto
        then show ?thesis using Inr e s fits good by (auto simp: seg_wf_def not_less)
      qed
    qed
  qed
qed

lemma parse_ext_hdr_result:
  assumes "unat n \<le> length data"
  shows "case btf_ext_parse_hdr data n of
      Inl e \<Rightarrow> e = Err EINVAL \<or> e = Err ENOTSUP
    | Inr _ \<Rightarrow> 8 \<le> unat n \<and> (\<exists>hl. mem_u32 data 4 = Inr hl \<and> hl < n)"
proof (cases "n < 8")
  case True
  then show ?thesis by (simp add: btf_ext_parse_hdr_def)
next
  case False
  then have n: "8 \<le> unat n" by (simp add: word_less_nat_alt)
  then obtain hl mg where r: "mem_u32 data 4 = Inr hl" "mem_u16 data 0 = Inr mg"
    "arr_get data 2 = Inr (data ! 2)" "arr_get data 3 = Inr (data ! 3)"
    using assms mem_u32_ok [of 4 data] mem_u16_ok [of 0 data] by (auto simp: arr_get_def)
  then show ?thesis using False n by (auto simp: btf_ext_parse_hdr_def not_less le_less)
qed

text \<open>
  C40. Parsing a \<^verbatim>\<open>.BTF.ext\<close> section reads only the data it is given, fails only with \<open>EINVAL\<close>,
  \<open>ENOTSUP\<close> or \<open>ENOMEM\<close>, and otherwise keeps the data as it is and finds three segments, each of
  them empty or, with records of an admissible size, exactly filled by its sections.
\<close>

theorem btf_ext_new_safe:
  assumes "unat n \<le> length data"
  shows "case btf_ext__new calloc_ok malloc_ok data n of
      Inl e \<Rightarrow> e = Err EINVAL \<or> e = Err ENOTSUP \<or> e = Err ENOMEM
    | Inr ext \<Rightarrow> ext_data ext = take (unat n) data \<and> ext_wf ext"
proof (cases "btf_ext_parse_hdr data n")
  case (Inl e)
  then show ?thesis using parse_ext_hdr_result [OF assms] by (auto simp: btf_ext__new_def)
next
  case (Inr u)
  then obtain hl where hl: "8 \<le> unat n" "mem_u32 data 4 = Inr hl" "hl < n"
    using parse_ext_hdr_result [OF assms] by auto
  let ?m = "take (unat n) data"
  have lm: "length ?m = unat n" using assms by simp
  have rd: "mem_read data 0 (unat n) = Inr ?m" using assms by (simp add: mem_read_def)
  have hm: "mem_u32 ?m 4 = Inr hl" using hl assms mem_u32_take [of 4 "unat n" data] by simp
  let ?e0 = "\<lparr>ext_data = ?m, func_info = no_segment, line_info = no_segment,
    core_relo_info = no_segment, ext_data_size = n\<rparr>"
  have empty: "seg_len no_segment = 0" by (simp add: no_segment_def)
  consider "\<not> calloc_ok \<or> \<not> malloc_ok" | "calloc_ok" "malloc_ok" "hl < 24" | "calloc_ok" "malloc_ok" "\<not> hl < 24"
    by blast
  then show ?thesis
  proof cases
    case 1
    then show ?thesis using Inr by (auto simp: btf_ext__new_def)
  next
    case 2
    then show ?thesis using Inr rd hm by (simp add: btf_ext__new_def)
  next
    case 3
    have big: "24 \<le> unat hl" "unat hl < unat n" using 3(3) hl(3) by (simp_all add: word_less_nat_alt)
    have rd32: "\<exists>v. mem_u32 ?m k = Inr v" if "k + 4 \<le> unat n" for k
      using that lm by (intro mem_u32_ok) simp
    obtain o1 l1 o2 l2 where w: "mem_u32 ?m 8 = Inr o1" "mem_u32 ?m 12 = Inr l1" "mem_u32 ?m 16 = Inr o2" "mem_u32 ?m 20 = Inr l2"
      using rd32 [of 8] rd32 [of 12] rd32 [of 16] rd32 [of 20] big by auto
    have len: "length (ext_data e) = unat (ext_data_size e)" "8 \<le> length (ext_data e)"
      if "ext_data e = ?m" "ext_data_size e = n" for e :: btf_ext
      using that lm hl(1) by simp_all
    note s1 = setup_info_result [where ext = ?e0 and seg = no_segment and off = o1 and len = l1 and mn = BPF_FUNC_INFO_MIN_SZ]
    show ?thesis
    proof (cases "btf_ext_setup_info ?e0 o1 l1 BPF_FUNC_INFO_MIN_SZ no_segment")
      case (Inl e)
      then show ?thesis using 3 Inr rd hm w s1 lm hl(1) empty by (simp add: btf_ext__new_def btf_ext_setup_func_info_def)
    next
      case f: (Inr fi)
      let ?e1 = "?e0\<lparr>func_info := fi\<rparr>"
      have e1: "btf_ext_setup_func_info ?e0 = Inr ?e1" using w f by (simp add: btf_ext_setup_func_info_def)
      note s2 = setup_info_result [where ext = ?e1 and seg = no_segment and off = o2 and len = l2 and mn = BPF_LINE_INFO_MIN_SZ]
      show ?thesis
      proof (cases "btf_ext_setup_info ?e1 o2 l2 BPF_LINE_INFO_MIN_SZ no_segment")
        case (Inl e)
        then show ?thesis using 3 Inr rd hm w s2 lm hl(1) empty e1 by (simp add: btf_ext__new_def btf_ext_setup_line_info_def)
      next
        case l: (Inr li)
        let ?e2 = "?e1\<lparr>line_info := li\<rparr>"
        have e2: "btf_ext_setup_line_info ?e1 = Inr ?e2" using w l by (simp add: btf_ext_setup_line_info_def)
        have new: "btf_ext__new calloc_ok malloc_ok data n =
            (if hl < 32 then Inl (Err EINVAL) else btf_ext_setup_core_relos ?e2)"
          using 3 Inr rd hm e1 e2 by (simp add: btf_ext__new_def)
        show ?thesis
        proof (cases "hl < 32")
          case True
          then show ?thesis by (simp add: new)
        next
          case False
          then have "32 \<le> unat hl" by (simp add: word_less_nat_alt)
          then obtain o3 l3 where w3: "mem_u32 ?m 24 = Inr o3" "mem_u32 ?m 28 = Inr l3"
            using rd32 [of 24] rd32 [of 28] big by auto
          note s3 = setup_info_result [where ext = ?e2 and seg = no_segment and off = o3 and len = l3 and mn = BPF_CORE_RELO_SZ]
          show ?thesis
          proof (cases "btf_ext_setup_info ?e2 o3 l3 BPF_CORE_RELO_SZ no_segment")
            case (Inl e)
            then show ?thesis using s3 lm hl(1) empty False w3 by (simp add: new btf_ext_setup_core_relos_def)
          next
            case c: (Inr ci)
            have "seg_wf ?m BPF_FUNC_INFO_MIN_SZ fi" "seg_wf ?m BPF_LINE_INFO_MIN_SZ li" "seg_wf ?m BPF_CORE_RELO_SZ ci"
              using s1 s2 s3 f l c lm hl(1) empty by simp_all
            then show ?thesis
              using c False w3 lm by (simp add: new btf_ext_setup_core_relos_def ext_wf_def)
          qed
        qed
      qed
    qed
  qed
qed

section \<open>The records of a section\<close>

text \<open>The first section with a name: where its records are and how many.\<close>

fun section_named :: "btf \<Rightarrow> bytes \<Rightarrow> u32 \<Rightarrow> nat \<Rightarrow> (u32 \<times> u32) list \<Rightarrow> (nat \<times> u32) option" where
  "section_named btf s r a [] = None"
| "section_named btf s r a ((name, num) # secs) =
     (if btf_name btf name = Some s then Some (a + 8, num)
      else section_named btf s r (a + (8 + unat num * unat r)) secs)"

text \<open>Records whose first word, a byte offset, has become the index of an instruction.\<close>

primrec adjusted :: "nat \<Rightarrow> u32 \<Rightarrow> nat \<Rightarrow> bytes \<Rightarrow> bytes" where
  "adjusted r insns_cnt 0 bs = bs"
| "adjusted r insns_cnt (Suc n) bs =
     le_bytes 4 (unat (word_of_nat (le_val (take 4 bs)) div 8 + insns_cnt :: u32)) @ take (r - 4) (drop 4 bs) @
     adjusted r insns_cnt n (drop r bs)"

lemma adjust_records_eq:
  assumes "length xs = unat ex + i * unat r" "n * unat r \<le> length bs" "4 \<le> unat r" "(i + n) * unat r < 2 ^ 32"
  shows "adjust_records (xs @ bs) ex r insns_cnt i n = Inr (xs @ adjusted (unat r) insns_cnt n bs)"
  using assms(1,2,4)
proof (induction n arbitrary: i xs bs)
  case (Suc n)
  let ?v = "word_of_nat (le_val (take 4 bs)) :: u32"
  let ?b = "le_bytes 4 (unat (?v div 8 + insns_cnt))"
  have lr: "unat r \<le> length bs" using Suc.prems(2) by simp
  have "i * unat r < 2 ^ 32" using Suc.prems(3) by (simp add: add_mult_distrib)
  then have "unat (of_nat (i * unat r) :: u32) = i * unat r" by (rule unat_of_nat_u32)
  then have p: "unat ex + unat (of_nat i * r) = length xs" using Suc.prems(1) by simp
  have rd: "mem_u32 (xs @ bs) (length xs) = Inr ?v"
    using lr assms(3) by (simp add: mem_u32_def mem_read_def)
  have wr: "mem_set_u32 (xs @ bs) (length xs) (?v div 8 + insns_cnt) = Inr (xs @ ?b @ drop 4 bs)"
    using lr assms(3) by (simp add: mem_set_u32_def mem_write_def)
  have "drop 4 bs = take (unat r - 4) (drop 4 bs) @ drop (unat r) bs"
    using assms(3) by (metis append_take_drop_id drop_drop le_add_diff_inverse2)
  then have e: "xs @ ?b @ drop 4 bs = (xs @ ?b @ take (unat r - 4) (drop 4 bs)) @ drop (unat r) bs" by simp
  have "adjust_records ((xs @ ?b @ take (unat r - 4) (drop 4 bs)) @ drop (unat r) bs) ex r insns_cnt (Suc i) n =
      Inr ((xs @ ?b @ take (unat r - 4) (drop 4 bs)) @ adjusted (unat r) insns_cnt n (drop (unat r) bs))"
    using Suc.prems lr assms(3) by (intro Suc.IH) (simp_all add: add_mult_distrib)
  then show ?case using p rd wr e by (simp add: Let_def)
qed simp

lemma reloc_name:
  assumes "btf_wf btf" "0 \<notin> set s" "btf_name btf off \<noteq> None"
  shows "\<exists>p. btf__name_by_offset btf off = Inr (Some p) \<and> c_streq p s = Inr (btf_name btf off = Some s)"
proof -
  obtain q where q: "btf__str_by_offset btf off = Inr q" "\<forall>p. q = Some p \<longrightarrow> 0 \<in> set p"
    using str_by_offset_wf [OF assms(1)] by blast
  then obtain p where "q = Some p" using assms(3) by (cases q) (auto simp: btf_name_def)
  then show ?thesis
    using q c_streq_eq [OF _ assms(2), of p] by (simp add: btf__name_by_offset_def btf_name_def)
qed

lemma reloc_loop_result:
  assumes wf: "btf_wf btf" "0 \<notin> set s" and r: "4 \<le> unat r"
    and secs: "sections m r a secs e" "e \<le> length m" "e - a < 2 ^ 32"
    and names: "\<forall>(name, num) \<in> set secs. btf_name btf name \<noteq> None"
    and buf: "length buf = unat cnt * unat r"
    and small: "\<And>p num. section_named btf s r a secs = Some (p, num) \<Longrightarrow> (unat cnt + unat num) * unat r < 2 ^ 32"
  shows "reloc_loop True btf m r s insns_cnt buf cnt a (of_nat (e - a)) =
    Some (case section_named btf s r a secs of
        None \<Rightarrow> Inl (Err ENOENT)
      | Some (p, num) \<Rightarrow>
          Inr (buf @ adjusted (unat r) insns_cnt (unat num) (take (unat num * unat r) (drop p m)), cnt + num))"
  using secs names small
proof (induction secs arbitrary: a)
  case Nil
  then show ?case by (simp add: reloc_loop.simps)
next
  case (Cons sec secs)
  obtain name num where sec: "sec = (name, num)" by (cases sec)
  let ?t = "8 + unat num * unat r"
  have s: "mem_u32 m a = Inr name" "mem_u32 m (a + 4) = Inr num" "sections m r (a + ?t) secs e"
    using Cons.prems(1) by (simp_all add: sec)
  have le: "a + ?t \<le> e" using sections_le [OF s(3)] .
  have "unat num * unat r < 2 ^ 32" using le Cons.prems(3) by simp
  then have rl: "unat (num * r) = unat num * unat r" by (simp add: unat_word_ariths)
  have t: "unat (8 + num * r) = ?t"
    using le Cons.prems(3) rl by (subst unat_add_small) simp_all
  have "btf_name btf name \<noteq> None" using Cons.prems(4) by (simp add: sec)
  then obtain p where p: "btf__name_by_offset btf name = Inr (Some p)" "c_streq p s = Inr (btf_name btf name = Some s)"
    using reloc_name [OF wf] by blast
  have nz: "(of_nat (e - a) :: u64) \<noteq> 0"
  proof -
    have "unat (of_nat (e - a) :: u64) = e - a" using Cons.prems(3) by (simp add: unat_of_nat take_bit_nat_eq_self)
    moreover have "0 < e - a" using le by simp
    ultimately show ?thesis by (metis unat_0 less_irrefl)
  qed
  note unfold = reloc_loop.simps [of True btf m r s insns_cnt buf cnt a "of_nat (e - a)"]
  show ?case
  proof (cases "btf_name btf name = Some s")
    case False
    have "(ucast (8 + num * r) :: u64) = of_nat ?t" using t by (metis of_nat_unat)
    then have rm: "(of_nat (e - a) :: u64) - ucast (8 + num * r) = of_nat (e - (a + ?t))"
      using le by (simp add: of_nat_diff)
    have "reloc_loop True btf m r s insns_cnt buf cnt a (of_nat (e - a)) =
        reloc_loop True btf m r s insns_cnt buf cnt (a + ?t) (of_nat (e - (a + ?t)))"
      unfolding unfold using nz s p False rl rm by (simp add: Let_def)
    moreover have "section_named btf s r a (sec # secs) = section_named btf s r (a + ?t) secs"
      using False by (simp add: sec)
    ultimately show ?thesis
      using Cons.IH [OF s(3)] Cons.prems(2-5) by (simp add: sec)
  next
    case True
    then have nm: "section_named btf s r a (sec # secs) = Some (a + 8, num)" by (simp add: sec)
    have sm: "(unat cnt + unat num) * unat r < 2 ^ 32" by (rule Cons.prems(5) [OF nm])
    then have ex: "unat (cnt * r) = unat cnt * unat r" by (simp add: unat_word_ariths add_mult_distrib)
    have tot: "unat (cnt * r + num * r) = unat cnt * unat r + unat num * unat r"
      using sm ex rl by (subst unat_add_small) (simp_all add: add_mult_distrib)
    let ?recs = "take (unat num * unat r) (drop (a + 8) m)"
    have lr: "length ?recs = unat num * unat r" using le Cons.prems(2) by simp
    have rd: "mem_read m (a + 8) (unat (num * r)) = Inr ?recs"
      using le Cons.prems(2) rl by (simp add: mem_read_def)
    have wr: "mem_write (buf @ replicate (unat num * unat r) 0) (unat cnt * unat r) ?recs = Inr (buf @ ?recs)"
      using lr buf by (simp add: mem_write_def)
    have "adjust_records (buf @ ?recs) (cnt * r) r insns_cnt 0 (unat num) =
        Inr (buf @ adjusted (unat r) insns_cnt (unat num) ?recs)"
      using buf ex lr r le Cons.prems(3) by (intro adjust_records_eq) simp_all
    then have "reloc_loop True btf m r s insns_cnt buf cnt a (of_nat (e - a)) =
        Some (Inr (buf @ adjusted (unat r) insns_cnt (unat num) ?recs, cnt + num))"
      unfolding unfold using nz s(1,2) p True rd wr ex tot buf by (simp add: Let_def)
    then show ?thesis unfolding nm by simp
  qed
qed

text \<open>
  C11. From a well-formed segment the records of the first section with the given name are
  appended to the caller's buffer, their offsets turned into instruction indices behind the
  instructions there are already; when there is no such section the result is \<open>ENOENT\<close>. The
  sections' names are in the BTF, which the code does not check, and the buffer stays below
  4 GiB.
\<close>

theorem btf_ext_reloc_info_collects:
  assumes "btf_wf btf" "0 \<notin> set sec_name" "4 \<le> unat (rec_size seg)"
    and "sections m (rec_size seg) (seg_pos seg) secs (seg_pos seg + unat (seg_len seg))"
      "seg_pos seg + unat (seg_len seg) \<le> length m"
    and "\<forall>(name, num) \<in> set secs. btf_name btf name \<noteq> None"
    and "length buf = unat cnt * unat (rec_size seg)"
    and "\<And>p num. section_named btf sec_name (rec_size seg) (seg_pos seg) secs = Some (p, num) \<Longrightarrow>
      (unat cnt + unat num) * unat (rec_size seg) < 2 ^ 32"
  shows "btf_ext_reloc_info True btf m seg sec_name insns_cnt buf cnt =
    Some (case section_named btf sec_name (rec_size seg) (seg_pos seg) secs of
        None \<Rightarrow> Inl (Err ENOENT)
      | Some (p, num) \<Rightarrow>
          Inr (buf @ adjusted (unat (rec_size seg)) insns_cnt (unat num)
                 (take (unat num * unat (rec_size seg)) (drop p m)), cnt + num))"
proof -
  have "seg_pos seg + unat (seg_len seg) - seg_pos seg = unat (seg_len seg)" by simp
  moreover have "unat (seg_len seg) < 2 ^ 32" using unsigned_less [of "seg_len seg", where 'a = nat] by simp
  moreover have "(ucast (seg_len seg) :: u64) = of_nat (unat (seg_len seg))" by (metis of_nat_unat)
  ultimately show ?thesis
    using reloc_loop_result [where insns_cnt = insns_cnt, OF assms(1-5) _ assms(6-8)]
    by (simp add: btf_ext_reloc_info_def)
qed

section \<open>Witnesses\<close>

text \<open>One section, called \<open>int\<close>, with one function info for the instruction at byte 16.\<close>

definition ext_bytes :: bytes where
  "ext_bytes =
     [0x9F, 0xeB, 1, 0, 32, 0, 0, 0, 0, 0, 0, 0, 20, 0, 0, 0] @ replicate 16 0 @
     [8, 0, 0, 0, 1, 0, 0, 0, 1, 0, 0, 0, 16, 0, 0, 0, 1, 0, 0, 0]"

definition ext_seg :: btf_ext_info where
  "ext_seg = \<lparr>seg_pos = 36, rec_size = 8, seg_len = 16\<rparr>"

theorem btf_ext_new_safe_witness:
  "\<exists>ext. btf_ext__new True True ext_bytes 52 = Inr ext \<and> func_info ext = ext_seg \<and> ext_wf ext"
proof -
  have l: "unat (52 :: u32) \<le> length ext_bytes" by (simp add: ext_bytes_def)
  have "case btf_ext__new True True ext_bytes 52 of Inr ext \<Rightarrow> func_info ext = ext_seg | Inl _ \<Rightarrow> False"
    by code_simp
  then show ?thesis
    using btf_ext_new_safe [OF l, of True True] by (auto split: sum.splits)
qed

theorem btf_ext_reloc_info_collects_witness:
  "btf_ext_reloc_info True sample_btf ext_bytes ext_seg [105, 110, 116] 5 [] 0 =
     Some (Inr ([7, 0, 0, 0, 1, 0, 0, 0], 1))"
proof -
  let ?secs = "[(1, 1)] :: (u32 \<times> u32) list" and ?s = "[105, 110, 116] :: bytes"
  have nm: "btf_name sample_btf 1 = Some ?s" by code_simp
  have sec: "sections ext_bytes (rec_size ext_seg) (seg_pos ext_seg) ?secs (seg_pos ext_seg + unat (seg_len ext_seg))"
    by code_simp
  have found: "section_named sample_btf ?s (rec_size ext_seg) (seg_pos ext_seg) ?secs = Some (44, 1)"
    using nm by (simp add: ext_seg_def)
  have adj: "adjusted (unat (rec_size ext_seg)) 5 (unat (1 :: u32))
      (take (unat (1 :: u32) * unat (rec_size ext_seg)) (drop 44 ext_bytes)) = [7, 0, 0, 0, 1, 0, 0, 0]"
    by code_simp
  have "btf_ext_reloc_info True sample_btf ext_bytes ext_seg ?s 5 [] 0 =
    Some (case section_named sample_btf ?s (rec_size ext_seg) (seg_pos ext_seg) ?secs of
        None \<Rightarrow> Inl (Err ENOENT)
      | Some (p, num) \<Rightarrow>
          Inr ([] @ adjusted (unat (rec_size ext_seg)) 5 (unat num)
                 (take (unat num * unat (rec_size ext_seg)) (drop p ext_bytes)), 0 + num))"
    by (rule btf_ext_reloc_info_collects [OF sample_btf_wf(1) _ _ sec])
      (use nm found in \<open>auto simp: ext_bytes_def ext_seg_def\<close>)
  then show ?thesis using found adj by simp
qed

end
