(* ===== verification/Spec2Isabelle.thy ===== *)
theory Spec2Isabelle
  imports
    Prelude
    Packer Staging_Buffer Log_Format Log_Entry Log_Decode Log_Encoder Log_Decoder Log_File
    Bpf_Programs Monitor_Config Catalog Server
    Ringbuf Nlattr Prog_Linfo Hashmap Strset
    Btf_Data Btf_Parse Btf_Access Btf_Strings Btf_Build Btf_Writer Btf_Records Btf_Image Btf_Ext
begin

text \<open>
  TinyBpfLog watches a Linux system with BPF programs and logs what they report. This library
  models it and proves it correct, part by part.

  \<^bold>\<open>The program and its parts.\<close> A daemon (\<^verbatim>\<open>src/main.cpp\<close>, \<^verbatim>\<open>src/backend\<close>) keeps a catalog of monitors.
  A client (\<^verbatim>\<open>src/frontend\<close>) sends it requests over a socket: the state of a monitor, or a command to
  create, start or stop one. A started monitor runs in a thread of its own: it loads a BPF program
  (\<^verbatim>\<open>src/bpftools/*.bpf.c\<close>) into the kernel, polls a ring or perf buffer for the events that the program
  submits, filters them by the white lists of its configuration (\<^verbatim>\<open>src/bpftools/monitors.h\<close>) and logs
  them with the NanoLog runtime (\<^verbatim>\<open>src/runtime\<close>), which packs the arguments of a log call into few
  bytes. Loading, polling and the type information of the programs are the business of libbpf, of
  which the repository holds and builds a copy (\<^verbatim>\<open>src/bpftools/libbpf/src\<close>).

  \<^bold>\<open>Theories.\<close> Each theory names the files and functions it models and keeps their names.
  \<^item> \<open>Prelude\<close>: machine integers, error values, byte memory with checked accesses.
  \<^item> \<open>Bpf_Programs\<close>: the process, mount, TCP state and IPC programs as functions of what the kernel
    gives them; runs of tracepoint hits. Lifetimes and system calls are paired right (C3, C5, C6),
    and the minimum duration is kept (C4).
  \<^item> \<open>Monitor_Config\<close>: the configurations and the event handlers, with what they log. The chain from
    the program in the kernel to the log line (C16), the text of mount flags (C18).
  \<^item> \<open>Catalog\<close>: monitors, the catalog and the threads of the monitors as interleaved steps. An
    invariant of every reachable state and the two ways in which a step ends the daemon (C25); a stop ends the threads (C32).
  \<^item> \<open>Server\<close>: messages, requests and replies of both ends. The round trip of a request (C22); what
    any message does to the catalog and which messages end the server (C10).
  \<^item> \<open>Packer\<close>: the packing of log arguments and the reader. Round trip (C1), minimal size (C2).
  \<^item> \<open>Staging_Buffer\<close>: the circular queue between a logging thread and the thread that compresses,
    under every interleaving of their accesses. It is a queue (C13), and a producer that waits gets
    its space (C21).
  \<^item> \<open>Log_Format\<close>: the analysis of a format string at compile time and the one of the decoder, which
    agree on every well-formed format (C9).
  \<^item> \<open>Log_Entry\<close>, \<open>Log_Decode\<close>: a message from the call to its entry in the staging buffer, its compressed
    form and the calls of \<open>fprintf\<close> that the decoder makes of it, which are those of the caller (C14).
  \<^item> \<open>Log_Encoder\<close>, \<open>Log_Decoder\<close>, \<open>Log_File\<close>: checkpoints, dictionaries and extents of messages, as the
    encoder writes them and the decoder reads them. The encoder takes what fits and reports exactly
    that (C28); the decoder prints from a log file exactly what the encoder took (C15).
  \<^item> \<open>Ringbuf\<close>: the consumer of the BPF ring buffer against a kernel that commits records
    meanwhile. It returns, records are delivered in order and once (C19), and all of them (C20).
  \<^item> \<open>Nlattr\<close>: netlink attributes, with the safety of the parser and the round trip with the
    writer (C17). \<open>Prog_Linfo\<close>: line information, look-ups and the split by function (C23).
  \<^item> \<open>Hashmap\<close>, \<open>Strset\<close>: the hash table as a finite map (C7, C8), and the set of strings
    in one growing region on top of it (C12).
  \<^item> \<open>Btf_Data\<close>, \<open>Btf_Parse\<close>, \<open>Btf_Access\<close>: the BTF type format, its parser (C24, C26) and the queries
    (C27, C29 to C31). \<open>Btf_Strings\<close>, \<open>Btf_Build\<close>, \<open>Btf_Writer\<close>, \<open>Btf_Records\<close>: the functions that change
    a BTF, against a prescription of the words each of them appends (C33 to C37). \<open>Btf_Image\<close>:
    writing a BTF out in both byte orders, and parsing it again (C38, C39). \<open>Btf_Ext\<close>: the section
    with line and function information (C40, C11).

  \<^bold>\<open>Interfaces.\<close> Where a part relies on another, what it relies on is a locale, interpreted on the model
  of the part that provides it: \<open>keyed_sessions\<close> (runs that leave an entry of a kernel map alone,
  for the three programs that pair events), \<open>white_list\<close> (all ten filters of the configurations),
  \<open>hash_fns\<close> (the hash and equality functions of the hash table, for its clients in libbpf) and
  \<open>string_table\<close> (what the BTF writer asks of its strings, given by the string set).

  \<^bold>\<open>How the code is modelled.\<close> Structures are records, pointers into a region are positions in a list of
  bytes, and an access outside the region is the value \<open>Fault\<close>, so memory safety is a statement
  about values. Error numbers are values of a sum type, and every early return is a branch. Machine
  integers keep their width. What memory allocation, the kernel, the clock, the random generator and
  \<^verbatim>\<open>boost::split\<close> do is an argument, and where a property needs more than that it may be anything,
  it says what in a named hypothesis (such as \<open>map_ops_ok\<close> and \<open>splits_fields\<close>), with an instance.

  \<^bold>\<open>Termination.\<close> Loops whose argument shrinks are functions with a measure. Loops that may run for ever
  on data that has not been checked (the alignment of a type, the loops over BTF.ext sections) are
  partial functions whose value \<open>None\<close> is a run without end; C31 and C11 show when they end. The ring
  buffer's consumer takes fuel; C19 shows for every kernel that the number of records in its log and two
  more are enough, and C20 that a kernel that has committed everything is served completely.
  The depth of 32 steps in resolving types is the code's own.

  \<^bold>\<open>Limits.\<close> The properties of the BTF writer are about instances without a base, as \<^verbatim>\<open>btf__new_empty\<close> makes
  them and the parser returns them, and offsets of strings below 2 to the 31. \<^verbatim>\<open>btf__add_type\<close> reads
  from a BTF other than the one it adds to. The threads of the monitors interleave at the granularity
  of one round of their loops; the handlers run within such a round. The threads around a staging buffer
  interleave at every access to a field that the other one writes.

  \<^bold>\<open>Not modelled.\<close> The object loader, the linker and everything else in libbpf that rests on libelf
  or only wraps a system call (\<^verbatim>\<open>libbpf.c\<close>, \<^verbatim>\<open>bpf.c\<close>, \<^verbatim>\<open>linker.c\<close>, \<^verbatim>\<open>netlink.c\<close>, \<^verbatim>\<open>xsk.c\<close>,
  \<^verbatim>\<open>libbpf_probes.c\<close>); the generator for light skeletons, which the program does not use; printing BTF as C
  and removing duplicates from BTF; decompression of a log in the order of time and its iterator, and
  the loop of the thread that compresses, of which the steps on the encoder and the file are in the
  model (\<^verbatim>\<open>Log.cc\<close>, \<^verbatim>\<open>RuntimeLogger.cc\<close>); measuring code; command lines, tests, kernel headers and other generated files.
\<close>

end
